(* ===== verification/Prelude.thy ===== *)
theory Prelude
  imports Main "HOL-Library.Word"
begin

text \<open>
  Shared vocabulary of the development: the machine integers of the kernel
  (\<open>uint64_t\<close> as \<open>64 word\<close> where bits matter, as \<open>nat\<close> with the wrap-around
  written out where only arithmetic matters), the compiler built-ins the sources
  call (\<open>__builtin_ctzll\<close>, \<open>__builtin_popcountll\<close>), loop combinators and the
  theorem collections used by the component theories.
\<close>

unbundle bit_operations_syntax

named_theorems u64_simps \<open>wrap-around arithmetic that stays in range\<close>
named_theorems bitmap_simps \<open>bit-level meaning of the bitmap primitives\<close>

type_synonym u64 = "64 word"

section \<open>Unsigned 64-bit arithmetic on naturals\<close>

text \<open>
  C's \<open>uint64_t\<close> addition and subtraction on operands below \<open>2 ^ 64\<close>.
\<close>

definition U64 :: nat where
  "U64 = 18446744073709551616"

definition add64 :: "nat \<Rightarrow> nat \<Rightarrow> nat" where
  "add64 a b = (a + b) mod U64"

definition sub64 :: "nat \<Rightarrow> nat \<Rightarrow> nat" where
  "sub64 a b = (if b \<le> a then a - b else a + U64 - b)"

lemma add64_id [u64_simps]: "a + b < U64 \<Longrightarrow> add64 a b = a + b"
  by (simp add: add64_def)

lemma sub64_id [u64_simps]: "b \<le> a \<Longrightarrow> sub64 a b = a - b"
  by (simp add: sub64_def)

lemma add64_less: "add64 a b < U64"
  by (simp add: add64_def U64_def)

lemma sub64_less: "a < U64 \<Longrightarrow> b < U64 \<Longrightarrow> sub64 a b < U64"
  by (auto simp: sub64_def)

lemma sub64_add64_cancel: "a < U64 \<Longrightarrow> b < U64 \<Longrightarrow> add64 (sub64 a b) b = a"
  by (auto simp: sub64_def add64_def)

lemma add64_sub64_cancel: "a < U64 \<Longrightarrow> b < U64 \<Longrightarrow> sub64 (add64 a b) b = a"
proof (cases "a + b < U64")
  case True
  then show ?thesis by (simp add: add64_def sub64_def)
next
  case False
  moreover assume ab: "a < U64" "b < U64"
  ultimately have "(a + b) mod U64 = a + b - U64"
    by (simp add: mod_if)
  with False ab show ?thesis by (simp add: add64_def sub64_def)
qed

text \<open>
  The other widths and operations: \<open>uint64_t\<close> products and left shifts, \<open>uint32_t\<close>
  sums, and the conversion of a value to \<open>int32_t\<close> and \<open>int64_t\<close>.
\<close>

definition mul64 :: "nat \<Rightarrow> nat \<Rightarrow> nat" where
  "mul64 a b = (a * b) mod U64"

definition shl64 :: "nat \<Rightarrow> nat \<Rightarrow> nat" where
  "shl64 a k = (a * 2 ^ k) mod U64"

definition U32 :: nat where
  "U32 = 4294967296"

definition add32 :: "nat \<Rightarrow> nat \<Rightarrow> nat" where
  "add32 a b = (a + b) mod U32"

definition s32 :: "int \<Rightarrow> int" where
  "s32 x = (x + 2147483648) mod 4294967296 - 2147483648"

definition s64 :: "int \<Rightarrow> int" where
  "s64 x = (x + 9223372036854775808) mod 18446744073709551616 - 9223372036854775808"

lemma mul64_id [u64_simps]: "a * b < U64 \<Longrightarrow> mul64 a b = a * b"
  by (simp add: mul64_def)

lemma shl64_id [u64_simps]: "a * 2 ^ k < U64 \<Longrightarrow> shl64 a k = a * 2 ^ k"
  by (simp add: shl64_def)

lemma add32_id [u64_simps]: "a + b < U32 \<Longrightarrow> add32 a b = a + b"
  by (simp add: add32_def)

lemma add32_less: "add32 a b < U32"
  by (simp add: add32_def U32_def)

lemma mul64_less: "mul64 a b < U64"
  by (simp add: mul64_def U64_def)

lemma s32_id [u64_simps]: "-2147483648 \<le> x \<Longrightarrow> x < 2147483648 \<Longrightarrow> s32 x = x"
  by (simp add: s32_def)

lemma s64_id [u64_simps]: "-9223372036854775808 \<le> x \<Longrightarrow> x < 9223372036854775808 \<Longrightarrow> s64 x = x"
  by (simp add: s64_def)

section \<open>Compiler built-ins\<close>

text \<open>
  \<open>__builtin_ctzll (x)\<close>: the number of trailing zero bits (undefined in C for 0,
  where every caller in the sources has excluded it; 64 here).
  \<open>__builtin_popcountll (x)\<close>: the number of set bits.
\<close>

definition ctz64 :: "u64 \<Rightarrow> nat" where
  "ctz64 w = length (takeWhile (\<lambda>i. \<not> bit w i) [0..<64])"

definition popcount64 :: "u64 \<Rightarrow> nat" where
  "popcount64 w = length (filter (bit w) [0..<64])"

lemma bit_u64_bound: "bit (w :: u64) i \<Longrightarrow> i < 64"
  using bit_imp_le_length [of w i] by simp

lemma u64_eqI: "(\<And>i. i < 64 \<Longrightarrow> bit (a :: u64) i = bit b i) \<Longrightarrow> a = b"
  by (rule bit_word_eqI) simp

lemma u64_all_ones_iff: "(w :: u64) = -1 \<longleftrightarrow> (\<forall>i<64. bit w i)"
  by (auto intro: u64_eqI)

lemma u64_zero_iff: "(w :: u64) = 0 \<longleftrightarrow> (\<forall>i<64. \<not> bit w i)"
  by (auto intro: u64_eqI)

lemma ctz64_le: "ctz64 w \<le> 64"
  unfolding ctz64_def using length_takeWhile_le [of _ "[0..<64]"] by fastforce

lemma ctz64_0: "ctz64 0 = 64"
  by (simp add: ctz64_def takeWhile_eq_all_conv [THEN iffD2])

lemma ctz64_below: "i < ctz64 w \<Longrightarrow> \<not> bit w i"
proof -
  assume i: "i < ctz64 w"
  let ?t = "takeWhile (\<lambda>i. \<not> bit w i) [0..<64]"
  have "?t ! i \<in> set ?t" using i by (simp add: ctz64_def)
  then have "\<not> bit w (?t ! i)" by (auto dest: set_takeWhileD)
  moreover have "?t ! i = [0..<64] ! i" using i by (simp add: ctz64_def takeWhile_nth)
  moreover have "i < 64" using i ctz64_le [of w] by linarith
  ultimately show ?thesis by simp
qed

lemma ctz64_bit: "w \<noteq> 0 \<Longrightarrow> ctz64 w < 64 \<and> bit w (ctz64 w)"
proof -
  assume "w \<noteq> 0"
  then obtain j where j: "j < 64" "bit w j" by (auto simp: u64_zero_iff)
  let ?t = "takeWhile (\<lambda>i. \<not> bit w i) [0..<64]"
  have "?t \<noteq> [0..<64]"
  proof
    assume "?t = [0..<64]"
    then have "j \<in> set ?t" using j by simp
    then show False using j by (auto dest: set_takeWhileD)
  qed
  then have lt: "ctz64 w < length [0::nat..<64]"
    unfolding ctz64_def using length_takeWhile_le [of "\<lambda>i. \<not> bit w i" "[0..<64]"]
    by (metis le_neq_implies_less takeWhile_eq_take take_all order_refl)
  then have "\<not> \<not> bit w ([0..<64] ! ctz64 w)"
    unfolding ctz64_def by (rule nth_length_takeWhile)
  then show ?thesis using lt by simp
qed

lemma ctz64_zero_iff: "w \<noteq> 0 \<Longrightarrow> ctz64 w = 0 \<longleftrightarrow> bit w 0"
  using ctz64_bit [of w] ctz64_below [of 0 w] by (cases "ctz64 w") auto

lemma clear_lowest_bit:
  fixes p :: u64
  assumes "p \<noteq> 0"
  shows "bit (p AND (p - 1)) i \<longleftrightarrow> bit p i \<and> i \<noteq> ctz64 p"
proof -
  let ?k = "ctz64 p"
  have k: "?k < 64" "bit p ?k" and below: "\<And>j. j < ?k \<Longrightarrow> \<not> bit p j"
    using ctz64_bit [OF assms] ctz64_below by auto
  let ?x = "p AND NOT (mask (Suc ?k))"
  have disj1: "?x AND 2 ^ ?k = 0" and disj2: "?x AND mask ?k = 0"
    by (auto intro!: u64_eqI simp: bit_simps)
  have "p = ?x OR 2 ^ ?k"
  proof (rule u64_eqI)
    fix j :: nat assume j: "j < 64"
    consider "j < ?k" | "j = ?k" | "?k < j" by linarith
    then show "bit p j = bit (?x OR 2 ^ ?k) j"
      by cases (use j k below in \<open>auto simp: bit_simps\<close>)
  qed
  then have "p = ?x + 2 ^ ?k" using disjunctive_add_eq_or [OF disj1] by simp
  then have "p - 1 = ?x + mask ?k" unfolding mask_eq_exp_minus_1 by (metis add_diff_eq)
  then have pm: "p - 1 = ?x OR mask ?k" using disjunctive_add_eq_or [OF disj2] by simp
  show ?thesis
    unfolding pm using k below by (cases i "?k" rule: linorder_cases) (auto simp: bit_simps dest: bit_u64_bound)
qed

lemma popcount64_card: "popcount64 w = card {i. i < 64 \<and> bit w i}"
  unfolding popcount64_def by (subst length_filter_conv_card) (auto intro: arg_cong [where f = card])

section \<open>Loops as folds over index ranges\<close>

lemma fold_upt_invariant:
  assumes "P s" and "\<And>i s. a \<le> i \<Longrightarrow> i < b \<Longrightarrow> P s \<Longrightarrow> P (f i s)"
  shows "P (fold f [a..<b] s)"
proof -
  have "set xs \<subseteq> {a..<b} \<Longrightarrow> P s \<Longrightarrow> P (fold f xs s)" for xs s
    by (induction xs arbitrary: s) (auto intro: assms(2))
  then show ?thesis using assms(1) by simp
qed

lemma fold_upt_index:
  assumes "P a s" and "\<And>k t. a \<le> k \<Longrightarrow> k < b \<Longrightarrow> P k t \<Longrightarrow> P (Suc k) (f k t)" and "a \<le> b"
  shows "P b (fold f [a..<b] s)"
  using assms(3,1,2) by (induction b rule: dec_induct) auto

lemma fold_upt_snoc: "a \<le> b \<Longrightarrow> fold f [a..<Suc b] s = f b (fold f [a..<b] s)"
  by simp

section \<open>Bit fields of naturals\<close>

text \<open>Rounding to a multiple, the arithmetic behind \<open>ALIGN_UP\<close>, \<open>ALIGN_DOWN\<close> and page masks.\<close>

definition align_down :: "nat \<Rightarrow> nat \<Rightarrow> nat" where
  "align_down x y = x div y * y"

definition align_up :: "nat \<Rightarrow> nat \<Rightarrow> nat" where
  "align_up x y = (x + y - 1) div y * y"

lemma align_down_le: "align_down x y \<le> x"
  by (simp add: align_down_def)

lemma align_up_ge: "0 < y \<Longrightarrow> x \<le> align_up x y"
proof -
  assume y: "0 < y"
  have "x + y - 1 = (x + y - 1) div y * y + (x + y - 1) mod y" by simp
  moreover have "(x + y - 1) mod y < y" using y by simp
  ultimately show ?thesis using y unfolding align_up_def by linarith
qed

lemma dvd_align_down [simp]: "y dvd align_down x y"
  by (simp add: align_down_def)

lemma dvd_align_up [simp]: "y dvd align_up x y"
  by (simp add: align_up_def)

section \<open>Runs of a step relation\<close>

text \<open>What every step keeps holds in every state a run reaches.\<close>

locale step_invariant =
  fixes step :: "'s \<Rightarrow> 's \<Rightarrow> bool" and inv :: "'s \<Rightarrow> bool"
  assumes inv_step: "step s s' \<Longrightarrow> inv s \<Longrightarrow> inv s'"
begin

lemma inv_run: "step\<^sup>*\<^sup>* s s' \<Longrightarrow> inv s \<Longrightarrow> inv s'"
  by (induction rule: rtranclp_induct) (auto intro: inv_step)

lemma inv_reachable: "inv s \<Longrightarrow> {s'. step\<^sup>*\<^sup>* s s'} \<subseteq> {s'. inv s'}"
  using inv_run by blast

end

end
