(* ===== verification/Bitmap.thy ===== *)
theory Bitmap
  imports Prelude
begin

text \<open>
  The word-level bitmap primitives of the physical memory manager
  (\<open>kernel/src/mem/pmm.cpp\<close>): a bitmap is an array of \<open>uint64_t\<close> words, modelled as
  a function from word index to word. Each primitive is the source's mask
  arithmetic; the lemmas give its meaning bit by bit.
\<close>

type_synonym bitmap = "nat \<Rightarrow> u64"

section \<open>Primitives\<close>

definition bit_test :: "bitmap \<Rightarrow> nat \<Rightarrow> bool" where
  "bit_test m i = ((drop_bit (i mod 64) (m (i div 64))) AND 1 \<noteq> 0)"

definition bit_set :: "bitmap \<Rightarrow> nat \<Rightarrow> bitmap" where
  "bit_set m i = m(i div 64 := m (i div 64) OR push_bit (i mod 64) 1)"

definition bit_clear :: "bitmap \<Rightarrow> nat \<Rightarrow> bitmap" where
  "bit_clear m i = m(i div 64 := m (i div 64) AND NOT (push_bit (i mod 64) 1))"

text \<open>
  The loop \<open>for (w = wf + 1; w < wl; w++) map[w] = v\<close> of the range operations.
\<close>

definition words_fill :: "bitmap \<Rightarrow> nat \<Rightarrow> nat \<Rightarrow> u64 \<Rightarrow> bitmap" where
  "words_fill m a b v = fold (\<lambda>w m. m(w := v)) [a..<b] m"

text \<open>
  \<open>range_mask first last\<close> is \<open>(~0ULL << (first & 63)) & (~0ULL >> (63 - ((last - 1) & 63)))\<close>;
  \<open>head_mask\<close> and \<open>tail_mask\<close> are its two factors.
\<close>

definition head_mask :: "nat \<Rightarrow> u64" where
  "head_mask first = push_bit (first mod 64) (-1)"

definition tail_mask :: "nat \<Rightarrow> u64" where
  "tail_mask lst = drop_bit (63 - (lst - 1) mod 64) (-1)"

definition bits_clear :: "bitmap \<Rightarrow> nat \<Rightarrow> nat \<Rightarrow> bitmap" where
  "bits_clear m first lst =
     (if first \<ge> lst then m
      else
        let wf = first div 64; wl = (lst - 1) div 64 in
        if wf = wl then m(wf := m wf AND NOT (head_mask first AND tail_mask lst))
        else
          let m1 = m(wf := m wf AND NOT (head_mask first));
              m2 = words_fill m1 (Suc wf) wl 0
          in m2(wl := m2 wl AND NOT (tail_mask lst)))"

definition bits_set :: "bitmap \<Rightarrow> nat \<Rightarrow> nat \<Rightarrow> bitmap" where
  "bits_set m first lst =
     (if first \<ge> lst then m
      else
        let wf = first div 64; wl = (lst - 1) div 64 in
        if wf = wl then m(wf := m wf OR (head_mask first AND tail_mask lst))
        else
          let m1 = m(wf := m wf OR head_mask first);
              m2 = words_fill m1 (Suc wf) wl (-1)
          in m2(wl := m2 wl OR tail_mask lst))"

section \<open>Bit-level meaning\<close>

lemma bit_test_iff: "bit_test m i \<longleftrightarrow> bit (m (i div 64)) (i mod 64)"
  by (simp add: bit_test_def bit_iff_odd_drop_bit and_one_eq odd_iff_mod_2_eq_one)

lemma bit_push_one: "bit (push_bit k (1 :: u64)) j \<longleftrightarrow> j = k \<and> k < 64"
  by (auto simp: bit_exp_iff)

lemma div_mod_64_eq: "i div 64 = j div 64 \<Longrightarrow> i mod 64 = j mod 64 \<Longrightarrow> i = (j :: nat)"
  by (metis div_mod_decomp)

lemma bit_test_bit_set [bitmap_simps]: "bit_test (bit_set m i) j \<longleftrightarrow> j = i \<or> bit_test m j"
  by (auto simp: bit_test_iff bit_set_def bit_or_iff bit_exp_iff dest: div_mod_64_eq)

lemma bit_test_bit_clear [bitmap_simps]: "bit_test (bit_clear m i) j \<longleftrightarrow> j \<noteq> i \<and> bit_test m j"
  by (auto simp: bit_test_iff bit_clear_def bit_and_iff bit_not_iff bit_exp_iff
      dest: div_mod_64_eq bit_u64_bound)

lemma bit_head_mask: "bit (head_mask a) j \<longleftrightarrow> a mod 64 \<le> j \<and> j < 64"
  by (auto simp: head_mask_def bit_not_iff bit_mask_iff dest: bit_u64_bound)

lemma bit_tail_mask: "bit (tail_mask b) j \<longleftrightarrow> j \<le> (b - 1) mod 64"
proof -
  have "(b - 1) mod 64 < 64" by simp
  then show ?thesis by (auto simp: tail_mask_def bit_mask_iff)
qed

lemma words_fill_apply: "words_fill m a b v w = (if a \<le> w \<and> w < b then v else m w)"
proof (induction b)
  case 0
  then show ?case by (simp add: words_fill_def)
next
  case (Suc b)
  then show ?case
    by (cases "a \<le> b") (auto simp: words_fill_def)
qed

lemma le_by_words: "x \<le> y \<longleftrightarrow> x div 64 < y div 64 \<or> x div 64 = y div 64 \<and> x mod 64 \<le> y mod (64 :: nat)"
proof -
  have "x = 64 * (x div 64) + x mod 64" "y = 64 * (y div 64) + y mod 64"
    and "x mod 64 < 64" "y mod 64 < 64" by simp_all
  then show ?thesis by linarith
qed

lemma between_words:
  fixes i a b :: nat
  assumes "a < b"
  shows "a \<le> i \<and> i < b \<longleftrightarrow>
    (let w = i div 64; j = i mod 64; wf = a div 64; wl = (b - 1) div 64 in
     (wf < w \<or> wf = w \<and> a mod 64 \<le> j) \<and> (w < wl \<or> w = wl \<and> j \<le> (b - 1) mod 64))"
proof -
  have "i < b \<longleftrightarrow> i \<le> b - 1" using assms by linarith
  then show ?thesis
    using le_by_words [of a i] le_by_words [of i "b - 1"] by (auto simp: Let_def)
qed

lemma bit_test_bits_clear [bitmap_simps]:
  "bit_test (bits_clear m a b) i \<longleftrightarrow> bit_test m i \<and> \<not> (a \<le> i \<and> i < b)"
proof (cases "a < b")
  case True
  have "i mod 64 < 64" by simp
  moreover have "a div 64 \<le> (b - 1) div 64" using True by (simp add: div_le_mono)
  ultimately show ?thesis
    unfolding between_words [OF True] using True
    by (auto simp: bits_clear_def Let_def bit_test_iff words_fill_apply
        bit_and_iff bit_or_iff bit_not_iff bit_head_mask bit_tail_mask)
qed (auto simp: bits_clear_def)

lemma bit_test_bits_set [bitmap_simps]:
  "bit_test (bits_set m a b) i \<longleftrightarrow> bit_test m i \<or> (a \<le> i \<and> i < b)"
proof (cases "a < b")
  case True
  have "i mod 64 < 64" by simp
  moreover have "a div 64 \<le> (b - 1) div 64" using True by (simp add: div_le_mono)
  ultimately show ?thesis
    unfolding between_words [OF True] using True
    by (auto simp: bits_set_def Let_def bit_test_iff words_fill_apply
        bit_or_iff bit_and_iff bit_head_mask bit_tail_mask)
qed (auto simp: bits_set_def)

section \<open>Words as groups of bits\<close>

lemma bit_word_test: "j < 64 \<Longrightarrow> bit (m w) j = bit_test m (w * 64 + j)"
  by (simp add: bit_test_iff)

lemma all_offset: "(\<forall>j<n. P (a + j)) \<longleftrightarrow> (\<forall>i. a \<le> i \<and> i < a + n \<longrightarrow> P (i :: nat))"
  (is "?L \<longleftrightarrow> ?R")
proof
  assume L: ?L
  show ?R
  proof (intro allI impI)
    fix i assume i: "a \<le> i \<and> i < a + n"
    then have "i - a < n" by linarith
    with L have "P (a + (i - a))" by blast
    with i show "P i" by simp
  qed
qed auto

lemma word_all_ones: "m w = -1 \<longleftrightarrow> (\<forall>i. w * 64 \<le> i \<and> i < w * 64 + 64 \<longrightarrow> bit_test m i)"
  unfolding u64_all_ones_iff using all_offset [of 64 "bit_test m" "w * 64"]
  by (simp add: bit_word_test)

lemma word_all_zero: "m w = 0 \<longleftrightarrow> (\<forall>i. w * 64 \<le> i \<and> i < w * 64 + 64 \<longrightarrow> \<not> bit_test m i)"
  unfolding u64_zero_iff using all_offset [of 64 "\<lambda>i. \<not> bit_test m i" "w * 64"]
  by (simp add: bit_word_test)

text \<open>Two bitmaps with the same bits are the same array.\<close>

lemma bitmap_eqI: "(\<And>i. bit_test m i = bit_test m' i) \<Longrightarrow> m = m'"
proof (rule ext, rule u64_eqI)
  fix w j
  assume "\<And>i. bit_test m i = bit_test m' i" and "j < (64 :: nat)"
  then show "bit (m w) j = bit (m' w) j" by (simp add: bit_word_test)
qed

lemma words_all_ones:
  "(\<forall>k<n. m (w + k) = -1) \<longleftrightarrow> (\<forall>i. w * 64 \<le> i \<and> i < (w + n) * 64 \<longrightarrow> bit_test m i)"
  (is "?L \<longleftrightarrow> ?R")
proof
  assume L: ?L
  show ?R
  proof (intro allI impI)
    fix i assume i: "w * 64 \<le> i \<and> i < (w + n) * 64"
    then have "w \<le> i div 64" and "i div 64 < w + n"
      by (auto simp: less_eq_div_iff_mult_less_eq less_mult_imp_div_less)
    then have "i div 64 - w < n" by linarith
    with L have "m (w + (i div 64 - w)) = -1" by blast
    with \<open>w \<le> i div 64\<close> have "m (i div 64) = -1" by simp
    then show "bit_test m i" by (simp add: bit_test_iff)
  qed
next
  assume R: ?R
  show ?L by (auto simp: word_all_ones R)
qed

lemma words_all_zero:
  "(\<forall>k<n. m (w + k) = 0) \<longleftrightarrow> (\<forall>i. w * 64 \<le> i \<and> i < (w + n) * 64 \<longrightarrow> \<not> bit_test m i)"
  (is "?L \<longleftrightarrow> ?R")
proof
  assume L: ?L
  show ?R
  proof (intro allI impI)
    fix i assume i: "w * 64 \<le> i \<and> i < (w + n) * 64"
    then have "w \<le> i div 64" and "i div 64 < w + n"
      by (auto simp: less_eq_div_iff_mult_less_eq less_mult_imp_div_less)
    then have "i div 64 - w < n" by linarith
    with L have "m (w + (i div 64 - w)) = 0" by blast
    with \<open>w \<le> i div 64\<close> have "m (i div 64) = 0" by simp
    then show "\<not> bit_test m i" by (simp add: bit_test_iff)
  qed
next
  assume R: ?R
  show ?L by (auto simp: word_all_zero R)
qed

section \<open>Counting clear bits\<close>

definition clear_bits :: "bitmap \<Rightarrow> nat \<Rightarrow> nat \<Rightarrow> nat set" where
  "clear_bits m a b = {i. a \<le> i \<and> i < b \<and> \<not> bit_test m i}"

lemma finite_clear_bits [simp]: "finite (clear_bits m a b)"
  by (simp add: clear_bits_def)

lemma card_clear_bits_le: "card (clear_bits m a b) \<le> b - a"
proof -
  have "clear_bits m a b \<subseteq> {a..<b}" by (auto simp: clear_bits_def)
  then show ?thesis using card_mono [of "{a..<b}"] by fastforce
qed

lemma clear_bits_split:
  "a \<le> b \<Longrightarrow> b \<le> c \<Longrightarrow>
   card (clear_bits m a c) = card (clear_bits m a b) + card (clear_bits m b c)"
  by (subst card_Un_disjoint [symmetric])
     (auto simp: clear_bits_def intro: arg_cong [where f = card])

lemma popcount_word: "popcount64 (NOT (m w)) = card (clear_bits m (w * 64) (w * 64 + 64))"
proof -
  have "clear_bits m (w * 64) (w * 64 + 64) = (\<lambda>j. w * 64 + j) ` {j. j < 64 \<and> bit (NOT (m w)) j}"
    (is "?A = ?f ` ?B")
  proof
    show "?A \<subseteq> ?f ` ?B"
    proof
      fix i assume "i \<in> ?A"
      then have "i = ?f (i - w * 64)" and "i - w * 64 \<in> ?B"
        by (auto simp: clear_bits_def bit_not_iff bit_word_test)
      then show "i \<in> ?f ` ?B" by blast
    qed
  qed (auto simp: clear_bits_def bit_not_iff bit_word_test)
  then have "card (clear_bits m (w * 64) (w * 64 + 64)) = card ?B"
    by (simp add: card_image)
  then show ?thesis by (simp add: popcount64_card)
qed

lemma clear_bits_set_range:
  assumes "a \<le> x" "x \<le> y" "y \<le> b" and "\<forall>i. x \<le> i \<and> i < y \<longrightarrow> \<not> bit_test m i"
    and "\<And>i. bit_test m' i \<longleftrightarrow> bit_test m i \<or> x \<le> i \<and> i < y"
  shows "card (clear_bits m' a b) + (y - x) = card (clear_bits m a b)"
proof -
  have "clear_bits m a b = clear_bits m' a b \<union> {x..<y}" and "clear_bits m' a b \<inter> {x..<y} = {}"
    using assms by (auto simp: clear_bits_def)
  then show ?thesis by (simp add: card_Un_disjoint)
qed

lemma clear_bits_cong:
  assumes "\<And>i. a \<le> i \<Longrightarrow> i < b \<Longrightarrow> bit_test m' i = bit_test m i"
  shows "clear_bits m' a b = clear_bits m a b"
  using assms by (auto simp: clear_bits_def)

end
