(* ===== verification/PMM_Model.thy ===== *)
theory PMM_Model
  imports Bitmap
begin

text \<open>
  The physical memory manager of \<open>kernel/src/mem/pmm.cpp\<close>: a three-level bitmap
  (one bit per 4 KiB page, per 2 MiB block, per 2 GiB shard), lazily populated from
  the Limine memory map, with one descriptor and one lock per shard and a per-CPU
  cache of single pages. Physical addresses and page numbers are naturals (a null
  pointer is address 0); page numbers stay far below \<open>2 ^ 52\<close>, so only arithmetic
  on the memory map's own numbers and on the free counters is written with its
  wrap-around. Every function is the body of one critical section or one exported
  call, state in and state out.
\<close>

section \<open>Geometry\<close>

abbreviation (input) PAGE_SIZE :: nat where "PAGE_SIZE \<equiv> 4096"
abbreviation (input) L2_PAGES :: nat where "L2_PAGES \<equiv> 512"
abbreviation (input) L2_PER_L3 :: nat where "L2_PER_L3 \<equiv> 1024"
abbreviation (input) L3_PAGES :: nat where "L3_PAGES \<equiv> 524288"
abbreviation (input) L2_L1_WORDS :: nat where "L2_L1_WORDS \<equiv> 8"
abbreviation (input) L3_L2_WORDS :: nat where "L3_L2_WORDS \<equiv> 16"
abbreviation (input) L2_SIZE :: nat where "L2_SIZE \<equiv> 2097152"
abbreviation (input) SHARD_PAGES :: nat where "SHARD_PAGES \<equiv> L3_PAGES"
abbreviation (input) PMM_PCP_MAX :: nat where "PMM_PCP_MAX \<equiv> 256"
abbreviation (input) PMM_PCP_BATCH :: nat where "PMM_PCP_BATCH \<equiv> 64"

section \<open>State\<close>

text \<open>
  The entry types of the boot loader's memory map that the code distinguishes.
\<close>

datatype memmap_type = Usable | Bootloader_Reclaimable | Other_Type

record memmap_entry =
  me_base :: nat
  me_length :: nat
  me_type :: memmap_type

record pmm_shard =
  first_page :: nat
  npages :: nat
  hint :: nat
  sh_free_pages :: nat

record pmm =
  pmm_memmap :: "memmap_entry list"
  l1_map :: bitmap
  l2_map :: bitmap
  l3_map :: bitmap
  init_map :: bitmap
  total_l2_bits :: nat
  total_l3_bits :: nat
  pmm_bitmap_pages :: nat
  shards :: "nat \<Rightarrow> pmm_shard"
  shard_count :: nat
  rr_seq :: nat
  free_pages :: nat
  slow_hint :: nat
  stat_req2m_ok :: nat
  stat_req2m_fail :: nat
  stat_req2gb_ok :: nat
  stat_req2gb_fail :: nat
  pmm_cache :: "nat \<Rightarrow> nat list"

section \<open>Counters\<close>

text \<open>
  Atomic counters wrap at \<open>2 ^ 64\<close>, as \<open>__atomic_fetch_add\<close> and
  \<open>__atomic_fetch_sub\<close> do.
\<close>

definition shard_free_add :: "nat \<Rightarrow> nat \<Rightarrow> pmm \<Rightarrow> pmm" where
  "shard_free_add si n s =
     s\<lparr>shards := (shards s)(si := (shards s si)
          \<lparr>sh_free_pages := add64 (sh_free_pages (shards s si)) n\<rparr>),
       free_pages := add64 (free_pages s) n\<rparr>"

definition shard_free_sub :: "nat \<Rightarrow> nat \<Rightarrow> pmm \<Rightarrow> pmm" where
  "shard_free_sub si n s =
     s\<lparr>shards := (shards s)(si := (shards s si)
          \<lparr>sh_free_pages := sub64 (sh_free_pages (shards s si)) n\<rparr>),
       free_pages := sub64 (free_pages s) n\<rparr>"

definition shard_rr_first :: "pmm \<Rightarrow> nat \<times> pmm" where
  "shard_rr_first s = (rr_seq s mod shard_count s, s\<lparr>rr_seq := add64 (rr_seq s) 1\<rparr>)"

definition set_hint :: "nat \<Rightarrow> nat \<Rightarrow> pmm \<Rightarrow> pmm" where
  "set_hint si h s = s\<lparr>shards := (shards s)(si := (shards s si)\<lparr>hint := h\<rparr>)\<rparr>"

section \<open>Lazy population of the page bitmap\<close>

definition mark_usable_entry :: "nat \<Rightarrow> nat \<Rightarrow> memmap_entry \<Rightarrow> bitmap \<Rightarrow> bitmap" where
  "mark_usable_entry region_start region_end e m =
     (if me_type e \<noteq> Usable then m
      else
        let e_start = me_base e; e_end = add64 (me_base e) (me_length e) in
        if e_end \<le> region_start \<or> e_start \<ge> region_end then m
        else
          let s = (if e_start > region_start then e_start else region_start);
              t = (if e_end < region_end then e_end else region_end);
              s' = align_up s PAGE_SIZE;
              t' = align_down t PAGE_SIZE
          in if s' < t' then bits_clear m (s' div PAGE_SIZE) (t' div PAGE_SIZE) else m)"

definition ensure_l2_init :: "nat \<Rightarrow> pmm \<Rightarrow> pmm" where
  "ensure_l2_init l2 s =
     (if bit_test (init_map s) l2 then s
      else
        let m0 = words_fill (l1_map s) (l2 * L2_L1_WORDS) (l2 * L2_L1_WORDS + L2_L1_WORDS) (-1);
            region_start = l2 * L2_SIZE;
            region_end = region_start + L2_SIZE;
            m1 = fold (mark_usable_entry region_start region_end) (pmm_memmap s) m0
        in s\<lparr>l1_map := m1, init_map := bit_set (init_map s) l2\<rparr>)"

definition l2_block_full :: "pmm \<Rightarrow> nat \<Rightarrow> bool" where
  "l2_block_full s l2 = list_all (\<lambda>i. l1_map s (l2 * L2_L1_WORDS + i) = -1) [0..<L2_L1_WORDS]"

definition l2_full_propagate :: "nat \<Rightarrow> pmm \<Rightarrow> pmm" where
  "l2_full_propagate l2 s =
     (let l3 = l2 div L2_PER_L3; wb = l3 * L3_L2_WORDS in
      if list_all (\<lambda>i. l2_map s (wb + i) = -1) [0..<L3_L2_WORDS]
      then s\<lparr>l3_map := bit_set (l3_map s) l3\<rparr> else s)"

section \<open>Bulk transitions\<close>

definition block_lo :: "nat \<Rightarrow> nat \<Rightarrow> nat \<Rightarrow> nat" where
  "block_lo start first_l2 l2 = (if l2 = first_l2 then start else l2 * L2_PAGES)"

definition block_hi :: "nat \<Rightarrow> nat \<Rightarrow> nat \<Rightarrow> nat" where
  "block_hi stop last_l2 l2 = (if l2 = last_l2 then stop else (l2 + 1) * L2_PAGES)"

definition mark_allocated :: "nat \<Rightarrow> nat \<Rightarrow> pmm \<Rightarrow> pmm" where
  "mark_allocated start n s =
     (let stop = start + n;
          first_l2 = start div L2_PAGES;
          last_l2 = (stop - 1) div L2_PAGES
      in fold (\<lambda>l2 s.
           let s1 = ensure_l2_init l2 s;
               s2 = s1\<lparr>l1_map := bits_set (l1_map s1)
                         (block_lo start first_l2 l2) (block_hi stop last_l2 l2)\<rparr>
           in if l2_block_full s2 l2
              then l2_full_propagate l2 (s2\<lparr>l2_map := bit_set (l2_map s2) l2\<rparr>)
              else s2)
         [first_l2..<Suc last_l2] s)"

definition mark_free :: "nat \<Rightarrow> nat \<Rightarrow> pmm \<Rightarrow> pmm" where
  "mark_free start n s =
     (let stop = start + n;
          first_l2 = start div L2_PAGES;
          last_l2 = (stop - 1) div L2_PAGES
      in fold (\<lambda>l2 s.
           let s1 = ensure_l2_init l2 s
           in s1\<lparr>l1_map := bits_clear (l1_map s1)
                   (block_lo start first_l2 l2) (block_hi stop last_l2 l2),
                 l2_map := bit_clear (l2_map s1) l2,
                 l3_map := bit_clear (l3_map s1) (l2 div L2_PER_L3)\<rparr>)
         [first_l2..<Suc last_l2] s)"

section \<open>The scanner\<close>

definition clip_take :: "nat \<Rightarrow> nat \<Rightarrow> nat \<Rightarrow> nat \<Rightarrow> nat \<Rightarrow> nat" where
  "clip_take n to bt run tk =
     (let t1 = (if run + tk > n then n - run else tk)
      in if bt + t1 > to then to - bt else t1)"

lemma clip_take_pos: "bt < to \<Longrightarrow> run < n \<Longrightarrow> 0 < tk \<Longrightarrow> 0 < clip_take n to bt run tk"
  by (simp add: clip_take_def Let_def)

text \<open>
  The loop of \<open>scan_for_run\<close>. The code returns as soon as \<open>run\<close> reaches \<open>n\<close>, so
  \<open>run < n\<close> holds whenever the loop condition is tested; stating it there makes the
  recursion well-founded on every argument. \<open>inited\<close> is the variable
  \<open>inited_l2\<close>, with \<open>NO_BIT\<close> as \<open>None\<close>.
\<close>

function scan_loop ::
  "nat \<Rightarrow> nat \<Rightarrow> pmm \<Rightarrow> nat \<Rightarrow> nat \<Rightarrow> nat \<Rightarrow> nat option \<Rightarrow> nat option \<times> pmm" where
  "scan_loop to n s bt run run_start inited =
     (if \<not> (bt < to \<and> run < n) then (None, s)
      else if run = 0 \<and> bt mod L3_PAGES = 0 \<and> bt div L3_PAGES < total_l3_bits s
              \<and> bit_test (l3_map s) (bt div L3_PAGES)
      then scan_loop to n s (bt + L3_PAGES) run run_start inited
      else if run = 0 \<and> bt mod L2_PAGES = 0 \<and> bt div L2_PAGES < total_l2_bits s
              \<and> bit_test (l2_map s) (bt div L2_PAGES)
      then scan_loop to n s (bt + L2_PAGES) run run_start inited
      else
        let cur_l2 = bt div L2_PAGES;
            s1 = (if inited \<noteq> Some cur_l2 then ensure_l2_init cur_l2 s else s);
            w = l1_map s1 (bt div 64)
        in
        if bt mod 64 = 0 \<and> run = 0 \<and> w = -1
        then scan_loop to n s1 (bt + 64) run run_start (Some cur_l2)
        else if bt mod 64 = 0 \<and> run = 0 \<and> ctz64 (NOT w) \<noteq> 0
        then scan_loop to n s1 (bt + ctz64 (NOT w)) run run_start (Some cur_l2)
        else if bt mod 64 = 0 \<and> run \<noteq> 0 \<and> w = 0
        then (let tk = clip_take n to bt run 64 in
              if run + tk = n then (Some run_start, s1)
              else scan_loop to n s1 (bt + tk) (run + tk) run_start (Some cur_l2))
        else if bt mod 64 = 0 \<and> run \<noteq> 0 \<and> clip_take n to bt run (ctz64 w) \<noteq> 0
        then (let tk = clip_take n to bt run (ctz64 w) in
              if run + tk = n then (Some run_start, s1)
              else scan_loop to n s1 (bt + tk) (run + tk) run_start (Some cur_l2))
        else if \<not> bit_test (l1_map s1) bt
        then (let rs = (if run = 0 then bt else run_start) in
              if Suc run = n then (Some rs, s1)
              else scan_loop to n s1 (Suc bt) (Suc run) rs (Some cur_l2))
        else scan_loop to n s1 (Suc bt) 0 run_start (Some cur_l2))"
  by pat_completeness auto
termination
proof (relation "measure (\<lambda>(to, n, s, bt, run, run_start, inited). to - bt)", rule wf_measure)
qed (simp_all only: in_measure prod.case not_not add_gr_0 less_add_same_cancel1 lessI diff_less_mono2
      clip_take_pos zero_less_numeral neq0_conv if_False simp_thms)

declare scan_loop.simps [simp del]

definition scan_for_run :: "nat \<Rightarrow> nat \<Rightarrow> nat \<Rightarrow> pmm \<Rightarrow> nat option \<times> pmm" where
  "scan_for_run from to n s =
     (if n = 0 \<or> from \<ge> to then (None, s) else scan_loop to n s from 0 0 None)"

section \<open>Critical sections on one shard\<close>

text \<open>
  \<open>alloc_in_shard_locked\<close> returns the physical address of the run, 0 for a null
  pointer. The caller accounts for the pages inside the same critical section.
\<close>

definition alloc_in_shard_locked :: "nat \<Rightarrow> nat \<Rightarrow> pmm \<Rightarrow> nat \<times> pmm" where
  "alloc_in_shard_locked si n s =
     (let sh = shards s si in
      if sh_free_pages sh < n then (0, s)
      else
        let base = first_page sh;
            stop = base + npages sh;
            h = (if hint sh < base \<or> hint sh > stop then base else hint sh);
            (r1, s1) = scan_for_run h stop n s;
            (r2, s2) = (if r1 = None \<and> h > base then scan_for_run base h n s1 else (r1, s1))
        in case r2 of
             None \<Rightarrow> (0, s2)
           | Some b \<Rightarrow>
               (b * PAGE_SIZE,
                set_hint si (if b + n \<ge> stop then base else b + n) (mark_allocated b n s2)))"

definition free_in_shard_locked :: "nat \<Rightarrow> nat \<Rightarrow> nat \<Rightarrow> pmm \<Rightarrow> pmm" where
  "free_in_shard_locked si start n s =
     (let s1 = mark_free start n s;
          s2 = (if start < hint (shards s1 si) then set_hint si start s1 else s1)
      in shard_free_add si n s2)"

section \<open>The slow path over all shards\<close>

definition shard_lo :: "nat \<Rightarrow> nat \<Rightarrow> nat" where
  "shard_lo b si = (if b > si * SHARD_PAGES then b else si * SHARD_PAGES)"

definition shard_hi :: "nat \<Rightarrow> nat \<Rightarrow> nat" where
  "shard_hi e si = (if e < (si + 1) * SHARD_PAGES then e else (si + 1) * SHARD_PAGES)"

definition alloc_global_slowpath :: "nat \<Rightarrow> pmm \<Rightarrow> nat \<times> pmm" where
  "alloc_global_slowpath n s =
     (let h = (if slow_hint s > pmm_bitmap_pages s then pmm_bitmap_pages s else slow_hint s);
          (r1, s1) = (if h < pmm_bitmap_pages s
                      then scan_for_run h (pmm_bitmap_pages s) n s else (None, s));
          (r2, s2) = (if r1 = None \<and> h > 0 then scan_for_run 0 h n s1 else (r1, s1))
      in case r2 of
           None \<Rightarrow> (0, s2)
         | Some b \<Rightarrow>
             let s3 = (mark_allocated b n s2)\<lparr>slow_hint := b + n\<rparr>;
                 e = b + n
             in (b * PAGE_SIZE,
                 fold (\<lambda>si. shard_free_sub si (shard_hi e si - shard_lo b si))
                   [b div SHARD_PAGES..<Suc ((e - 1) div SHARD_PAGES)] s3))"

section \<open>The per-CPU cache\<close>

text \<open>The array prefix \<open>pmm_cache[0 .. pmm_cache_count - 1]\<close> is a list, its top the last element.\<close>

fun pcp_fill :: "nat \<Rightarrow> nat \<Rightarrow> nat \<Rightarrow> pmm \<Rightarrow> pmm" where
  "pcp_fill cpu si 0 s = s"
| "pcp_fill cpu si (Suc k) s =
     (if length (pmm_cache s cpu) \<ge> PMM_PCP_MAX then s
      else
        let (extra, s1) = alloc_in_shard_locked si 1 s in
        if extra = 0 then s1
        else pcp_fill cpu si k
               (s1\<lparr>pmm_cache := (pmm_cache s1)(cpu := pmm_cache s1 cpu @ [extra])\<rparr>))"

text \<open>The rotation of the shard loops: \<open>si = first + t; if (si >= shard_count) si -= shard_count\<close>.\<close>

definition rr_index :: "nat \<Rightarrow> nat \<Rightarrow> nat \<Rightarrow> nat" where
  "rr_index count first t = (if first + t \<ge> count then first + t - count else first + t)"

fun pcp_refill_loop :: "nat \<Rightarrow> nat list \<Rightarrow> pmm \<Rightarrow> nat \<times> pmm" where
  "pcp_refill_loop cpu [] s = (0, s)"
| "pcp_refill_loop cpu (si # sis) s =
     (if sh_free_pages (shards s si) = 0 then pcp_refill_loop cpu sis s
      else
        let (page, s1) = alloc_in_shard_locked si 1 s in
        if page = 0 then pcp_refill_loop cpu sis s1
        else
          let before = length (pmm_cache s1 cpu);
              s2 = pcp_fill cpu si PMM_PCP_BATCH s1
          in (page, shard_free_sub si (1 + (length (pmm_cache s2 cpu) - before)) s2))"

definition pcp_refill :: "nat \<Rightarrow> pmm \<Rightarrow> nat \<times> pmm" where
  "pcp_refill cpu s =
     (let (first, s1) = shard_rr_first s in
      pcp_refill_loop cpu (map (rr_index (shard_count s) first) [0..<shard_count s]) s1)"

section \<open>Exported calls\<close>

fun request_loop :: "nat \<Rightarrow> nat list \<Rightarrow> pmm \<Rightarrow> nat \<times> pmm" where
  "request_loop n [] s = (0, s)"
| "request_loop n (si # sis) s =
     (if sh_free_pages (shards s si) < n then request_loop n sis s
      else
        let (page, s1) = alloc_in_shard_locked si n s in
        if page \<noteq> 0 then (page, shard_free_sub si n s1) else request_loop n sis s1)"

definition request_general :: "nat \<Rightarrow> pmm \<Rightarrow> nat \<times> pmm" where
  "request_general n s =
     (if n \<le> SHARD_PAGES
      then
        let (first, s1) = shard_rr_first s;
            (page, s2) = request_loop n (map (rr_index (shard_count s) first) [0..<shard_count s]) s1
        in if page \<noteq> 0 then (page, s2) else alloc_global_slowpath n s2
      else alloc_global_slowpath n s)"

text \<open>
  \<open>this_cpu ()\<close> is a parameter: \<open>None\<close> before the per-CPU data exists.
\<close>

definition Request :: "nat option \<Rightarrow> nat \<Rightarrow> pmm \<Rightarrow> nat \<times> pmm" where
  "Request this_cpu n s =
     (if n = 0 \<or> n > pmm_bitmap_pages s then (0, s)
      else
        case (n = 1, this_cpu) of
          (True, Some cpu) \<Rightarrow>
            if pmm_cache s cpu \<noteq> []
            then (last (pmm_cache s cpu),
                  s\<lparr>pmm_cache := (pmm_cache s)(cpu := butlast (pmm_cache s cpu))\<rparr>)
            else
              let (page, s1) = pcp_refill cpu s in
              if page \<noteq> 0 then (page, s1) else request_general n s1
        | _ \<Rightarrow> request_general n s)"

fun pcp_drain :: "nat \<Rightarrow> nat \<Rightarrow> pmm \<Rightarrow> pmm" where
  "pcp_drain cpu 0 s = s"
| "pcp_drain cpu (Suc k) s =
     (if pmm_cache s cpu = [] then s
      else
        let b = last (pmm_cache s cpu) div PAGE_SIZE;
            s1 = s\<lparr>pmm_cache := (pmm_cache s)(cpu := butlast (pmm_cache s cpu))\<rparr>
        in pcp_drain cpu k
             (if b \<ge> pmm_bitmap_pages s1 then s1
              else free_in_shard_locked (b div SHARD_PAGES) b 1 s1))"

text \<open>The loop of \<open>Free\<close> over the shards that \<open>[start, stop)\<close> touches.\<close>

function free_segments :: "nat \<Rightarrow> nat \<Rightarrow> nat \<Rightarrow> pmm \<Rightarrow> pmm" where
  "free_segments start stop si s =
     (let lo = shard_lo start si;
          hi = shard_hi stop si;
          s1 = free_in_shard_locked si lo (hi - lo) s
      in if hi \<ge> stop then s1 else free_segments start stop (si + 1) s1)"
  by pat_completeness auto
termination
  by (relation "measure (\<lambda>(start, stop, si, s). stop - si * SHARD_PAGES)")
     (auto simp: shard_hi_def split: if_splits)

declare free_segments.simps [simp del]

definition free_general :: "nat \<Rightarrow> nat \<Rightarrow> pmm \<Rightarrow> pmm" where
  "free_general ptr n s =
     (let start = ptr div PAGE_SIZE in
      if start \<ge> pmm_bitmap_pages s then s
      else
        let n' = (if n > pmm_bitmap_pages s - start then pmm_bitmap_pages s - start else n)
        in free_segments start (start + n') (start div SHARD_PAGES) s)"

definition Free :: "nat option \<Rightarrow> nat \<Rightarrow> nat \<Rightarrow> pmm \<Rightarrow> pmm" where
  "Free this_cpu ptr n s =
     (if ptr = 0 \<or> n = 0 then s
      else
        case (n = 1, this_cpu) of
          (True, Some cpu) \<Rightarrow>
            let s1 = (if length (pmm_cache s cpu) < PMM_PCP_MAX then s
                      else pcp_drain cpu PMM_PCP_BATCH s)
            in s1\<lparr>pmm_cache := (pmm_cache s1)(cpu := pmm_cache s1 cpu @ [ptr])\<rparr>
        | _ \<Rightarrow> free_general ptr n s)"

section \<open>Large pages\<close>

definition block_all_free :: "pmm \<Rightarrow> nat \<Rightarrow> bool" where
  "block_all_free s l2 = list_all (\<lambda>i. l1_map s (l2 * L2_L1_WORDS + i) = 0) [0..<L2_L1_WORDS]"

definition take_block :: "nat \<Rightarrow> nat \<Rightarrow> pmm \<Rightarrow> pmm" where
  "take_block si l2 s =
     (let start = l2 * L2_PAGES;
          s1 = s\<lparr>l1_map := bits_set (l1_map s) start (start + L2_PAGES)\<rparr>;
          s2 = l2_full_propagate l2 (s1\<lparr>l2_map := bit_set (l2_map s1) l2\<rparr>);
          s3 = (if start < hint (shards s2 si) then set_hint si start s2 else s2)
      in (shard_free_sub si L2_PAGES s3)\<lparr>stat_req2m_ok := add64 (stat_req2m_ok s3) 1\<rparr>)"

text \<open>
  The loop \<open>while (pending)\<close> over the clear bits of one \<open>l2_map\<close> word. \<open>None\<close>
  means that the loop ends without returning.
\<close>

function req2m_word :: "nat \<Rightarrow> nat \<Rightarrow> u64 \<Rightarrow> pmm \<Rightarrow> nat option \<times> pmm" where
  "req2m_word si w pending s =
     (if pending = 0 then (None, s)
      else
        let l2_bit = w * 64 + ctz64 pending;
            pending' = pending AND (pending - 1);
            start = l2_bit * L2_PAGES
        in
        if start + L2_PAGES > pmm_bitmap_pages s then req2m_word si w pending' s
        else
          let s1 = ensure_l2_init l2_bit s in
          if \<not> block_all_free s1 l2_bit then req2m_word si w pending' s1
          else (Some (start * PAGE_SIZE), take_block si l2_bit s1))"
  by pat_completeness auto
termination
proof (relation "measure (\<lambda>(si, w, pending, s). unat pending)", rule wf_measure)
  have *: "unat (p AND (p - 1)) < unat p" if "p \<noteq> 0" for p :: u64
  proof -
    have "p AND (p - 1) \<le> p - 1" by (rule word_and_le1)
    also have "p - 1 < p" using that by (simp add: measure_unat word_less_nat_alt)
    finally show ?thesis by (simp add: word_less_nat_alt)
  qed
  show "((si, w, pending', s), si, w, pending, s) \<in> measure (\<lambda>(si, w, pending, s). unat pending)"
    if "pending \<noteq> 0" "pending' = pending AND (pending - 1)"
    for si w s and pending pending' :: u64
    using that * by simp
  show "((si, w, pending', s1), si, w, pending, s) \<in> measure (\<lambda>(si, w, pending, s). unat pending)"
    if "pending \<noteq> 0" "pending' = pending AND (pending - 1)"
    for si w s s1 and pending pending' :: u64
    using that * by simp
qed

declare req2m_word.simps [simp del]

fun req2m_words :: "nat \<Rightarrow> nat list \<Rightarrow> pmm \<Rightarrow> nat option \<times> pmm" where
  "req2m_words si [] s = (None, s)"
| "req2m_words si (w # ws) s =
     (case req2m_word si w (NOT (l2_map s w)) s of
        (Some p, s1) \<Rightarrow> (Some p, s1)
      | (None, s1) \<Rightarrow> req2m_words si ws s1)"

fun req2m_loop :: "nat list \<Rightarrow> pmm \<Rightarrow> nat \<times> pmm" where
  "req2m_loop [] s = (0, s\<lparr>stat_req2m_fail := add64 (stat_req2m_fail s) 1\<rparr>)"
| "req2m_loop (si # sis) s =
     (if sh_free_pages (shards s si) < L2_PAGES then req2m_loop sis s
      else
        case req2m_words si [si * L3_L2_WORDS..<si * L3_L2_WORDS + L3_L2_WORDS] s of
          (Some p, s1) \<Rightarrow> (p, s1)
        | (None, s1) \<Rightarrow> req2m_loop sis s1)"

definition Request2MB :: "pmm \<Rightarrow> nat \<times> pmm" where
  "Request2MB s =
     (let (first, s1) = shard_rr_first s in
      req2m_loop (map (rr_index (shard_count s) first) [0..<shard_count s]) s1)"

text \<open>The loop over the 1024 blocks of a shard, left as soon as one is not free.\<close>

fun blocks_all_free :: "nat list \<Rightarrow> pmm \<Rightarrow> bool \<times> pmm" where
  "blocks_all_free [] s = (True, s)"
| "blocks_all_free (l2 # l2s) s =
     (let s1 = ensure_l2_init l2 s in
      if block_all_free s1 l2 then blocks_all_free l2s s1 else (False, s1))"

fun req2gb_loop :: "nat list \<Rightarrow> pmm \<Rightarrow> nat \<times> pmm" where
  "req2gb_loop [] s = (0, s\<lparr>stat_req2gb_fail := add64 (stat_req2gb_fail s) 1\<rparr>)"
| "req2gb_loop (si # sis) s =
     (if npages (shards s si) < L3_PAGES then req2gb_loop sis s
      else if sh_free_pages (shards s si) < L3_PAGES then req2gb_loop sis s
      else if \<not> list_all (\<lambda>i. l2_map s (si * L3_L2_WORDS + i) = 0) [0..<L3_L2_WORDS]
      then req2gb_loop sis s
      else
        let l2_first = si * L2_PER_L3;
            (l1_clear, s1) = blocks_all_free [l2_first..<l2_first + L2_PER_L3] s
        in
        if \<not> l1_clear then req2gb_loop sis s1
        else
          let start = si * L3_PAGES;
              s2 = s1\<lparr>l1_map := bits_set (l1_map s1) start (start + L3_PAGES),
                      l2_map := bits_set (l2_map s1) l2_first (l2_first + L2_PER_L3),
                      l3_map := bit_set (l3_map s1) si\<rparr>;
              s3 = (if start < hint (shards s2 si) then set_hint si start s2 else s2)
          in (start * PAGE_SIZE,
              (shard_free_sub si L3_PAGES s3)\<lparr>stat_req2gb_ok := add64 (stat_req2gb_ok s3) 1\<rparr>))"

definition Request2GB :: "pmm \<Rightarrow> nat \<times> pmm" where
  "Request2GB s =
     (let (first, s1) = shard_rr_first s in
      req2gb_loop (map (rr_index (shard_count s) first) [0..<shard_count s]) s1)"

definition Free2MB :: "nat \<Rightarrow> pmm \<Rightarrow> pmm" where
  "Free2MB ptr s =
     (let start = ptr div PAGE_SIZE in
      if ptr = 0 then s
      else if start mod L2_PAGES \<noteq> 0 then s
      else if start + L2_PAGES > pmm_bitmap_pages s then s
      else free_in_shard_locked (start div SHARD_PAGES) start L2_PAGES s)"

definition Free2GB :: "nat \<Rightarrow> pmm \<Rightarrow> pmm" where
  "Free2GB ptr s =
     (let start = ptr div PAGE_SIZE in
      if ptr = 0 then s
      else if start mod L3_PAGES \<noteq> 0 then s
      else if start + L3_PAGES > pmm_bitmap_pages s then s
      else free_in_shard_locked (start div SHARD_PAGES) start L3_PAGES s)"

section \<open>Self checks\<close>

definition block_free_count :: "pmm \<Rightarrow> nat \<Rightarrow> nat" where
  "block_free_count s l2 =
     sum_list (map (\<lambda>w. popcount64 (NOT (l1_map s (l2 * L2_L1_WORDS + w)))) [0..<L2_L1_WORDS])"

definition VerifyFreeCount :: "pmm \<Rightarrow> nat \<times> pmm" where
  "VerifyFreeCount s =
     (let (recount, s1) =
            fold (\<lambda>l2 (cnt, s).
                if bit_test (l2_map s) l2 then (cnt, s)
                else let s1 = ensure_l2_init l2 s in (add64 cnt (block_free_count s1 l2), s1))
              [0..<total_l2_bits s] (0, s);
          cur = free_pages s1
      in (if recount > cur then recount - cur else cur - recount, s1))"

definition Free2MBlocks :: "pmm \<Rightarrow> nat" where
  "Free2MBlocks s =
     fold (\<lambda>si cnt. fold (\<lambda>i cnt. cnt + popcount64 (NOT (l2_map s (si * L3_L2_WORDS + i))))
         [0..<L3_L2_WORDS] cnt)
       [0..<shard_count s] 0"

section \<open>Initialisation\<close>

datatype pmm_panic = Empty_Memory_Map | Metadata_Not_Placed

definition truncate_entry :: "memmap_entry \<Rightarrow> memmap_entry" where
  "truncate_entry e = e\<lparr>me_length := align_down (me_length e) PAGE_SIZE\<rparr>"

definition entry_top :: "memmap_entry \<Rightarrow> nat" where
  "entry_top e = add64 (me_base e) (me_length e)"

definition max_top :: "memmap_entry list \<Rightarrow> nat" where
  "max_top es = fold (\<lambda>e mx. if entry_top e > mx then entry_top e else mx) es 0"

definition max_phys :: "memmap_entry list \<Rightarrow> nat" where
  "max_phys es =
     (let mu = max_top (filter (\<lambda>e. me_type e = Usable) es)
      in if mu = 0 then max_top es else mu)"

text \<open>
  The metadata goes to the end of the first usable entry that can hold it; the entry
  shrinks by that much.
\<close>

fun place_meta :: "nat \<Rightarrow> memmap_entry list \<Rightarrow> memmap_entry list option" where
  "place_meta meta [] = None"
| "place_meta meta (e # es) =
     (if me_type e \<noteq> Usable \<or> me_length e < meta then map_option ((#) e) (place_meta meta es)
      else Some (e\<lparr>me_length := me_length e - meta\<rparr> # es))"

definition init_shard :: "nat \<Rightarrow> nat \<Rightarrow> pmm_shard" where
  "init_shard pages si =
     (let np = pages - si * SHARD_PAGES
      in \<lparr>first_page = si * SHARD_PAGES,
          npages = (if np < SHARD_PAGES then np else SHARD_PAGES),
          hint = si * SHARD_PAGES, sh_free_pages = 0\<rparr>)"

definition clear_l2_of_entry :: "memmap_entry \<Rightarrow> bitmap \<Rightarrow> bitmap" where
  "clear_l2_of_entry e m =
     (if me_type e \<noteq> Usable \<or> me_length e = 0 then m
      else if entry_top e = 0 then m
      else bits_clear m (me_base e div L2_SIZE) ((entry_top e - 1) div L2_SIZE + 1))"

definition l3_words_full :: "pmm \<Rightarrow> nat \<Rightarrow> bool" where
  "l3_words_full s l3 = list_all (\<lambda>i. l2_map s (l3 * L3_L2_WORDS + i) = -1) [0..<L3_L2_WORDS]"

definition reserve_entry :: "memmap_entry \<Rightarrow> pmm \<Rightarrow> pmm" where
  "reserve_entry e s =
     (if me_type e \<noteq> Bootloader_Reclaimable then s
      else if me_length e = 0 then s
      else
        let first = me_base e div PAGE_SIZE;
            count = add64 (me_length e) (PAGE_SIZE - 1) div PAGE_SIZE
        in
        if first \<ge> pmm_bitmap_pages s then s
        else
          let count' = (if count > pmm_bitmap_pages s - first
                        then pmm_bitmap_pages s - first else count)
          in mark_allocated first count' s)"

definition reserve_bootloader_memory :: "pmm \<Rightarrow> pmm" where
  "reserve_bootloader_memory s = fold reserve_entry (pmm_memmap s) s"

definition rederive_l2 :: "nat \<Rightarrow> pmm \<Rightarrow> pmm" where
  "rederive_l2 l2 s =
     (let s1 = ensure_l2_init l2 s in
      if l2_block_full s1 l2 then s1\<lparr>l2_map := bit_set (l2_map s1) l2\<rparr>
      else s1\<lparr>l2_map := bit_clear (l2_map s1) l2\<rparr>)"

definition rederive_l3 :: "nat \<Rightarrow> pmm \<Rightarrow> pmm" where
  "rederive_l3 l3 s =
     (if l3_words_full s l3 then s\<lparr>l3_map := bit_set (l3_map s) l3\<rparr>
      else s\<lparr>l3_map := bit_clear (l3_map s) l3\<rparr>)"

definition count_block :: "nat \<Rightarrow> pmm \<Rightarrow> pmm" where
  "count_block l2 s =
     (if bit_test (l2_map s) l2 then s else shard_free_add (l2 div L2_PER_L3) (block_free_count s l2) s)"

definition init_blank :: "memmap_entry list \<Rightarrow> nat \<Rightarrow> (nat \<Rightarrow> nat list) \<Rightarrow> pmm" where
  "init_blank es pages cache =
     (let l2b = (pages + L2_PAGES - 1) div L2_PAGES;
          l3b = (l2b + L2_PER_L3 - 1) div L2_PER_L3
      in \<lparr>pmm_memmap = es, l1_map = (\<lambda>_. -1), l2_map = (\<lambda>_. -1), l3_map = (\<lambda>_. -1),
          init_map = (\<lambda>_. 0), total_l2_bits = l2b, total_l3_bits = l3b,
          pmm_bitmap_pages = pages, shards = init_shard pages, shard_count = l3b,
          rr_seq = 0, free_pages = 0, slow_hint = 1,
          stat_req2m_ok = 0, stat_req2m_fail = 0, stat_req2gb_ok = 0, stat_req2gb_fail = 0,
          pmm_cache = cache\<rparr>)"

definition total_meta :: "nat \<Rightarrow> nat" where
  "total_meta pages =
     (let l2b = (pages + L2_PAGES - 1) div L2_PAGES;
          l3b = (l2b + L2_PER_L3 - 1) div L2_PER_L3
      in align_up (l2b * L2_L1_WORDS * 8) PAGE_SIZE
       + align_up (l3b * L3_L2_WORDS * 8) PAGE_SIZE
       + align_up ((l3b + 63) div 64 * 8) PAGE_SIZE
       + align_up ((l2b + 63) div 64 * 8) PAGE_SIZE
       + align_up (l3b * 64) PAGE_SIZE)"

text \<open>The passes of \<open>Init\<close> after the metadata has been placed.\<close>

definition init_passes :: "pmm \<Rightarrow> pmm" where
  "init_passes s0 =
     (let s1 = s0\<lparr>l2_map := fold clear_l2_of_entry (pmm_memmap s0) (l2_map s0)\<rparr>;
          s2 = fold (\<lambda>l3 s. if l3_words_full s l3 then s
                            else s\<lparr>l3_map := bit_clear (l3_map s) l3\<rparr>) [0..<total_l3_bits s1] s1;
          s3 = mark_allocated 0 1 s2;
          s4 = reserve_bootloader_memory s3;
          s5 = fold rederive_l2 [0..<total_l2_bits s4] s4;
          s6 = fold rederive_l3 [0..<total_l3_bits s5] s5
      in fold count_block [0..<total_l2_bits s6] (s6\<lparr>free_pages := 0\<rparr>))"

definition Init :: "memmap_entry list \<Rightarrow> (nat \<Rightarrow> nat list) \<Rightarrow> pmm_panic + pmm" where
  "Init memmap cache =
     (let es = map truncate_entry memmap;
          mp = max_phys es
      in if mp = 0 then Inl Empty_Memory_Map
         else
           let pages = add64 mp (PAGE_SIZE - 1) div PAGE_SIZE
           in case place_meta (total_meta pages) es of
                None \<Rightarrow> Inl Metadata_Not_Placed
              | Some es' \<Rightarrow> Inr (init_passes (init_blank es' pages cache)))"

end
