(* ===== verification/PMM_Maps.thy ===== *)
theory PMM_Maps
  imports PMM_Model
begin

text \<open>
  Agreement of the three bitmap levels and how the bulk transitions keep it. The
  summary levels are determined by the page level, so an operation is characterised by
  what it does to page bits.
\<close>

named_theorems pmm_frame \<open>fields an operation leaves alone\<close>

section \<open>Agreement of the levels\<close>

text \<open>
  A 2 MiB bit is set exactly when all pages of the block are in use, a 2 GiB bit
  exactly when all its blocks are.
\<close>

definition l2_agree :: "bitmap \<Rightarrow> bitmap \<Rightarrow> bool" where
  "l2_agree m1 m2 \<longleftrightarrow>
     (\<forall>l2. bit_test m2 l2 \<longleftrightarrow> (\<forall>i. l2 * L2_PAGES \<le> i \<and> i < (l2 + 1) * L2_PAGES \<longrightarrow> bit_test m1 i))"

definition l3_agree :: "bitmap \<Rightarrow> bitmap \<Rightarrow> bool" where
  "l3_agree m2 m3 \<longleftrightarrow>
     (\<forall>l3. bit_test m3 l3 \<longleftrightarrow>
        (\<forall>l2. l3 * L2_PER_L3 \<le> l2 \<and> l2 < (l3 + 1) * L2_PER_L3 \<longrightarrow> bit_test m2 l2))"

definition maps_agree :: "bitmap \<Rightarrow> bitmap \<Rightarrow> bitmap \<Rightarrow> bool" where
  "maps_agree m1 m2 m3 \<longleftrightarrow> l2_agree m1 m2 \<and> l3_agree m2 m3"

lemma maps_agree_unique:
  assumes "maps_agree m1 m2 m3" and "maps_agree m1 m2' m3'"
  shows "m2 = m2' \<and> m3 = m3'"
proof
  show "m2 = m2'"
    using assms by (intro bitmap_eqI) (simp add: maps_agree_def l2_agree_def)
  then show "m3 = m3'"
    using assms by (intro bitmap_eqI) (simp add: maps_agree_def l3_agree_def)
qed

lemma l2_agreeD:
  "l2_agree m1 m2 \<Longrightarrow> bit_test m2 l2 \<Longrightarrow> l2 * L2_PAGES \<le> i \<Longrightarrow> i < (l2 + 1) * L2_PAGES \<Longrightarrow> bit_test m1 i"
  by (simp add: l2_agree_def)

lemma l3_agreeD:
  assumes "maps_agree m1 m2 m3" and "bit_test m3 l3"
    and "l3 * L3_PAGES \<le> i" and "i < (l3 + 1) * L3_PAGES"
  shows "bit_test m1 i"
proof -
  have "l3 * L2_PER_L3 \<le> i div L2_PAGES" and "i div L2_PAGES < (l3 + 1) * L2_PER_L3"
    using assms(3,4) by (auto simp: less_eq_div_iff_mult_less_eq less_mult_imp_div_less)
  then have "bit_test m2 (i div L2_PAGES)"
    using assms(1,2) by (auto simp: maps_agree_def l3_agree_def)
  moreover have "i div L2_PAGES * L2_PAGES \<le> i" "i < (i div L2_PAGES + 1) * L2_PAGES"
    by auto
  ultimately show ?thesis using assms(1) by (meson l2_agreeD maps_agree_def)
qed

section \<open>Block predicates\<close>

lemma l2_block_full_iff:
  "l2_block_full s l2 \<longleftrightarrow>
     (\<forall>i. l2 * L2_PAGES \<le> i \<and> i < (l2 + 1) * L2_PAGES \<longrightarrow> bit_test (l1_map s) i)"
proof -
  have "l2_block_full s l2 \<longleftrightarrow> (\<forall>k<8. l1_map s (l2 * 8 + k) = -1)"
    by (auto simp: l2_block_full_def list_all_iff)
  also have "\<dots> \<longleftrightarrow> (\<forall>i. l2 * 8 * 64 \<le> i \<and> i < (l2 * 8 + 8) * 64 \<longrightarrow> bit_test (l1_map s) i)"
    by (rule words_all_ones)
  finally show ?thesis by (simp add: algebra_simps)
qed

lemma block_all_free_iff:
  "block_all_free s l2 \<longleftrightarrow>
     (\<forall>i. l2 * L2_PAGES \<le> i \<and> i < (l2 + 1) * L2_PAGES \<longrightarrow> \<not> bit_test (l1_map s) i)"
proof -
  have "block_all_free s l2 \<longleftrightarrow> (\<forall>k<8. l1_map s (l2 * 8 + k) = 0)"
    by (auto simp: block_all_free_def list_all_iff)
  also have "\<dots> \<longleftrightarrow> (\<forall>i. l2 * 8 * 64 \<le> i \<and> i < (l2 * 8 + 8) * 64 \<longrightarrow> \<not> bit_test (l1_map s) i)"
    by (rule words_all_zero)
  finally show ?thesis by (simp add: algebra_simps)
qed

lemma l3_words_full_iff:
  "l3_words_full s l3 \<longleftrightarrow>
     (\<forall>l2. l3 * L2_PER_L3 \<le> l2 \<and> l2 < (l3 + 1) * L2_PER_L3 \<longrightarrow> bit_test (l2_map s) l2)"
proof -
  have "l3_words_full s l3 \<longleftrightarrow> (\<forall>k<16. l2_map s (l3 * 16 + k) = -1)"
    by (auto simp: l3_words_full_def list_all_iff)
  also have "\<dots> \<longleftrightarrow> (\<forall>i. l3 * 16 * 64 \<le> i \<and> i < (l3 * 16 + 16) * 64 \<longrightarrow> bit_test (l2_map s) i)"
    by (rule words_all_ones)
  finally show ?thesis by (simp add: algebra_simps)
qed

lemma l2_full_propagate_alt:
  "l2_full_propagate l2 s =
     (if l3_words_full s (l2 div L2_PER_L3)
      then s\<lparr>l3_map := bit_set (l3_map s) (l2 div L2_PER_L3)\<rparr> else s)"
  by (simp add: l2_full_propagate_def l3_words_full_def Let_def)

section \<open>One block\<close>

lemma in_block: "l2 * L2_PAGES \<le> i \<Longrightarrow> i < (l2 + 1) * L2_PAGES \<Longrightarrow>
  k * L2_PAGES \<le> i \<Longrightarrow> i < (k + 1) * L2_PAGES \<Longrightarrow> l2 = k"
  by (simp add: algebra_simps)

lemma l2_agree_other_block:
  assumes "l2_agree m1 m2" and "l2 \<noteq> k"
    and "\<And>i. bit_test m1' i \<noteq> bit_test m1 i \<Longrightarrow> k * L2_PAGES \<le> i \<and> i < (k + 1) * L2_PAGES"
  shows "bit_test m2 l2 \<longleftrightarrow> (\<forall>i. l2 * L2_PAGES \<le> i \<and> i < (l2 + 1) * L2_PAGES \<longrightarrow> bit_test m1' i)"
proof -
  have "bit_test m1' i = bit_test m1 i" if "l2 * L2_PAGES \<le> i" "i < (l2 + 1) * L2_PAGES" for i
    using assms(3) [of i] in_block [OF that] assms(2) by blast
  then show ?thesis using assms(1) by (auto simp: l2_agree_def)
qed

lemma maps_agree_set_block:
  assumes agree: "maps_agree m1 m2 m3"
    and b: "k * L2_PAGES \<le> b0" "b1 \<le> (k + 1) * L2_PAGES"
    and full: "f \<longleftrightarrow> (\<forall>i. k * L2_PAGES \<le> i \<and> i < (k + 1) * L2_PAGES \<longrightarrow> bit_test (bits_set m1 b0 b1) i)"
    and m2': "m2' = (if f then bit_set m2 k else m2)"
    and g: "g \<longleftrightarrow> (\<forall>l2. k div L2_PER_L3 * L2_PER_L3 \<le> l2 \<and>
              l2 < (k div L2_PER_L3 + 1) * L2_PER_L3 \<longrightarrow> bit_test m2' l2)"
    and m3': "m3' = (if f \<and> g then bit_set m3 (k div L2_PER_L3) else m3)"
  shows "maps_agree (bits_set m1 b0 b1) m2' m3'"
proof -
  have l2: "l2_agree m1 m2" and l3: "l3_agree m2 m3"
    using agree by (auto simp: maps_agree_def)
  have "bit_test m2' l2 \<longleftrightarrow>
      (\<forall>i. l2 * L2_PAGES \<le> i \<and> i < (l2 + 1) * L2_PAGES \<longrightarrow> bit_test (bits_set m1 b0 b1) i)" for l2
  proof (cases "l2 = k")
    case True
    have "bit_test m2 k \<Longrightarrow> f"
      unfolding full using l2 by (auto simp: bitmap_simps l2_agree_def)
    then show ?thesis using True full by (auto simp: m2' bitmap_simps)
  next
    case False
    have "bit_test m2' l2 = bit_test m2 l2" using False by (auto simp: m2' bitmap_simps)
    moreover have "bit_test m2 l2 \<longleftrightarrow>
      (\<forall>i. l2 * L2_PAGES \<le> i \<and> i < (l2 + 1) * L2_PAGES \<longrightarrow> bit_test (bits_set m1 b0 b1) i)"
      by (rule l2_agree_other_block [OF l2 False]) (use b in \<open>auto simp: bitmap_simps\<close>)
    ultimately show ?thesis by simp
  qed
  moreover have "bit_test m3' l3 \<longleftrightarrow>
      (\<forall>l2. l3 * L2_PER_L3 \<le> l2 \<and> l2 < (l3 + 1) * L2_PER_L3 \<longrightarrow> bit_test m2' l2)" for l3
  proof (cases "l3 = k div L2_PER_L3")
    case True
    have "bit_test m3 l3 \<Longrightarrow> g"
      unfolding g True [symmetric] using l3 by (auto simp: m2' bitmap_simps l3_agree_def)
    moreover have "\<not> f \<Longrightarrow> bit_test m3 l3 \<longleftrightarrow> g"
      unfolding g True [symmetric] using l3 by (auto simp: m2' l3_agree_def)
    moreover have "f \<Longrightarrow> bit_test m3' l3 \<longleftrightarrow> g \<or> bit_test m3 l3"
      using True by (auto simp: m3' bitmap_simps)
    moreover have "\<not> f \<Longrightarrow> m3' = m3" by (simp add: m3')
    ultimately show ?thesis using g True by metis
  next
    case False
    have "l2 \<noteq> k" if "l3 * L2_PER_L3 \<le> l2" "l2 < (l3 + 1) * L2_PER_L3" for l2
      using that False by (metis add.commute div_nat_eqI mult.commute plus_1_eq_Suc)
    then have "(\<forall>l2. l3 * L2_PER_L3 \<le> l2 \<and> l2 < (l3 + 1) * L2_PER_L3 \<longrightarrow> bit_test m2' l2) \<longleftrightarrow>
        (\<forall>l2. l3 * L2_PER_L3 \<le> l2 \<and> l2 < (l3 + 1) * L2_PER_L3 \<longrightarrow> bit_test m2 l2)"
      by (auto simp: m2' bitmap_simps)
    moreover have "bit_test m3' l3 = bit_test m3 l3" using False by (auto simp: m3' bitmap_simps)
    ultimately show ?thesis using l3 by (simp add: l3_agree_def)
  qed
  ultimately show ?thesis by (simp add: maps_agree_def l2_agree_def l3_agree_def)
qed

lemma maps_agree_clear_block:
  assumes agree: "maps_agree m1 m2 m3"
    and b: "k * L2_PAGES \<le> b0" "b0 < b1" "b1 \<le> (k + 1) * L2_PAGES"
  shows "maps_agree (bits_clear m1 b0 b1) (bit_clear m2 k) (bit_clear m3 (k div L2_PER_L3))"
proof -
  have l2: "l2_agree m1 m2" and l3: "l3_agree m2 m3"
    using agree by (auto simp: maps_agree_def)
  have "bit_test (bit_clear m2 k) l2 \<longleftrightarrow>
      (\<forall>i. l2 * L2_PAGES \<le> i \<and> i < (l2 + 1) * L2_PAGES \<longrightarrow> bit_test (bits_clear m1 b0 b1) i)" for l2
  proof (cases "l2 = k")
    case True
    have "\<not> bit_test (bits_clear m1 b0 b1) b0" using b by (simp add: bitmap_simps)
    moreover have "k * L2_PAGES \<le> b0" "b0 < (k + 1) * L2_PAGES" using b by linarith+
    ultimately show ?thesis using True by (auto simp: bitmap_simps)
  next
    case False
    have "bit_test m2 l2 \<longleftrightarrow>
      (\<forall>i. l2 * L2_PAGES \<le> i \<and> i < (l2 + 1) * L2_PAGES \<longrightarrow> bit_test (bits_clear m1 b0 b1) i)"
      by (rule l2_agree_other_block [OF l2 False]) (use b in \<open>auto simp: bitmap_simps\<close>)
    then show ?thesis using False by (simp add: bitmap_simps)
  qed
  moreover have "bit_test (bit_clear m3 (k div L2_PER_L3)) l3 \<longleftrightarrow>
      (\<forall>l2. l3 * L2_PER_L3 \<le> l2 \<and> l2 < (l3 + 1) * L2_PER_L3 \<longrightarrow> bit_test (bit_clear m2 k) l2)" for l3
  proof (cases "l3 = k div L2_PER_L3")
    case True
    have "k div L2_PER_L3 * L2_PER_L3 \<le> k" "k < (k div L2_PER_L3 + 1) * L2_PER_L3" by auto
    moreover have "\<not> bit_test (bit_clear m2 k) k" by (simp add: bitmap_simps)
    ultimately have "\<not> (\<forall>l2. l3 * L2_PER_L3 \<le> l2 \<and> l2 < (l3 + 1) * L2_PER_L3 \<longrightarrow>
        bit_test (bit_clear m2 k) l2)" using True by blast
    then show ?thesis using True by (simp add: bitmap_simps)
  next
    case False
    have "l2 \<noteq> k" if "l3 * L2_PER_L3 \<le> l2" "l2 < (l3 + 1) * L2_PER_L3" for l2
      using that False by (metis add.commute div_nat_eqI mult.commute plus_1_eq_Suc)
    then show ?thesis using l3 False by (auto simp: bitmap_simps l3_agree_def)
  qed
  ultimately show ?thesis by (simp add: maps_agree_def l2_agree_def l3_agree_def)
qed

section \<open>Ranges of pages\<close>

lemma ensure_l2_init_id [simp]: "bit_test (init_map s) l2 \<Longrightarrow> ensure_l2_init l2 s = s"
  by (simp add: ensure_l2_init_def)

lemma bits_set_empty: "b \<le> a \<Longrightarrow> bits_set m a b = m"
  by (simp add: bits_set_def)

lemma bits_clear_empty: "b \<le> a \<Longrightarrow> bits_clear m a b = m"
  by (simp add: bits_clear_def)

lemma block_bounds:
  assumes "0 < n" and "start div L2_PAGES \<le> k" and "k \<le> (start + n - 1) div L2_PAGES"
  defines "b0 \<equiv> block_lo start (start div L2_PAGES) k"
    and "b1 \<equiv> block_hi (start + n) ((start + n - 1) div L2_PAGES) k"
  shows "k * L2_PAGES \<le> b0" and "b0 < b1" and "b1 \<le> (k + 1) * L2_PAGES"
    and "b0 = max start (k * L2_PAGES)" and "b1 = min (start + n) ((k + 1) * L2_PAGES)"
proof -
  let ?l = "(start + n - 1) div L2_PAGES"
  have s: "start div L2_PAGES * L2_PAGES \<le> start" "start < (start div L2_PAGES + 1) * L2_PAGES" by auto
  have l: "?l * L2_PAGES \<le> start + n - 1" "start + n - 1 < (?l + 1) * L2_PAGES" by auto
  then have l: "?l * L2_PAGES < start + n" "start + n \<le> (?l + 1) * L2_PAGES" using assms(1) by linarith+
  have "k = start div L2_PAGES \<or> start div L2_PAGES + 1 \<le> k" using assms(2) by linarith
  moreover have "k = ?l \<or> k + 1 \<le> ?l" using assms(3) by linarith
  moreover have "(start div L2_PAGES + 1) * L2_PAGES \<le> k * L2_PAGES" if "start div L2_PAGES + 1 \<le> k"
    using that by (rule mult_right_mono) simp
  moreover have "(k + 1) * L2_PAGES \<le> ?l * L2_PAGES" if "k + 1 \<le> ?l"
    using that by (rule mult_right_mono) simp
  ultimately show "k * L2_PAGES \<le> b0" "b0 < b1" "b1 \<le> (k + 1) * L2_PAGES"
    "b0 = max start (k * L2_PAGES)" "b1 = min (start + n) ((k + 1) * L2_PAGES)"
    using s l assms(1) unfolding b0_def b1_def block_lo_def block_hi_def
    by (auto simp: algebra_simps)
qed

definition inited_range :: "pmm \<Rightarrow> nat \<Rightarrow> nat \<Rightarrow> bool" where
  "inited_range s start n \<longleftrightarrow>
     (\<forall>l2. start div L2_PAGES \<le> l2 \<and> l2 \<le> (start + n - 1) div L2_PAGES \<longrightarrow> bit_test (init_map s) l2)"

lemma mark_allocated_spec:
  assumes agree: "maps_agree (l1_map s) (l2_map s) (l3_map s)" and n: "0 < n"
    and ini: "inited_range s start n"
  shows "\<exists>m2 m3. mark_allocated start n s =
      s\<lparr>l1_map := bits_set (l1_map s) start (start + n), l2_map := m2, l3_map := m3\<rparr>
    \<and> maps_agree (bits_set (l1_map s) start (start + n)) m2 m3"
proof -
  define first lst where "first = start div L2_PAGES" and "lst = (start + n - 1) div L2_PAGES"
  let ?lo = "block_lo start first" and ?hi = "block_hi (start + n) lst"
  define body where "body = (\<lambda>l2 s. let s1 = ensure_l2_init l2 s;
      s2 = s1\<lparr>l1_map := bits_set (l1_map s1) (?lo l2) (?hi l2)\<rparr>
    in if l2_block_full s2 l2
       then l2_full_propagate l2 (s2\<lparr>l2_map := bit_set (l2_map s2) l2\<rparr>) else s2)"
  let ?m = "\<lambda>k. bits_set (l1_map s) start (min (start + n) (k * L2_PAGES))"
  have fl: "first \<le> lst" using n by (simp add: first_def lst_def div_le_mono)
  have "k \<le> lst + 1 \<Longrightarrow> \<exists>m2 m3. fold body [first..<k] s = s\<lparr>l1_map := ?m k, l2_map := m2, l3_map := m3\<rparr>
      \<and> maps_agree (?m k) m2 m3" if "first \<le> k" for k
    using that
  proof (induction k rule: dec_induct)
    case base
    have "?m first = l1_map s" by (simp add: bits_set_empty min.coboundedI2 first_def)
    then have "fold body [first..<first] s
        = s\<lparr>l1_map := ?m first, l2_map := l2_map s, l3_map := l3_map s\<rparr>" by simp
    then show ?case using agree \<open>?m first = l1_map s\<close> by metis
  next
    case (step k)
    then have k: "first \<le> k" "k \<le> lst" by linarith+
    from step obtain m2 m3 where
      eq: "fold body [first..<k] s = s\<lparr>l1_map := ?m k, l2_map := m2, l3_map := m3\<rparr>"
      and ag: "maps_agree (?m k) m2 m3" by auto
    note b = block_bounds [OF n k [unfolded first_def lst_def], folded first_def lst_def]
    have m': "bits_set (?m k) (?lo k) (?hi k) = ?m (Suc k)"
      using b(4,5) k by (intro bitmap_eqI) (auto simp: bitmap_simps)
    define f where "f = l2_block_full (s\<lparr>l1_map := ?m (Suc k)\<rparr>) k"
    define g where "g = l3_words_full (s\<lparr>l2_map := if f then bit_set m2 k else m2\<rparr>) (k div L2_PER_L3)"
    have F: "l2_block_full t k = f" if "l1_map t = ?m (Suc k)" for t
      by (simp add: f_def l2_block_full_iff that)
    have G: "l3_words_full t (k div L2_PER_L3) = g" if "f" "l2_map t = bit_set m2 k" for t
      by (simp add: g_def l3_words_full_iff that)
    let ?m2' = "if f then bit_set m2 k else m2"
    let ?m3' = "if f \<and> g then bit_set m3 (k div L2_PER_L3) else m3"
    have "bit_test (init_map s) k" using ini k by (simp add: inited_range_def first_def lst_def)
    then have "fold body [first..<Suc k] s = s\<lparr>l1_map := ?m (Suc k), l2_map := ?m2', l3_map := ?m3'\<rparr>"
      using k(1) unfolding fold_upt_snoc [OF k(1)] eq
      by (simp add: body_def Let_def m' l2_full_propagate_alt F G del: mult_Suc)
    moreover have "maps_agree (?m (Suc k)) ?m2' ?m3'"
      unfolding m' [symmetric]
      by (rule maps_agree_set_block [OF ag b(1,3), where f = f and g = g])
         (simp_all add: g_def l3_words_full_iff m' f_def [unfolded l2_block_full_iff] del: mult_Suc)
    ultimately show ?case by blast
  qed
  from this [of "Suc lst"] fl
  obtain m2 m3 where "fold body [first..<Suc lst] s = s\<lparr>l1_map := ?m (Suc lst), l2_map := m2, l3_map := m3\<rparr>"
    and "maps_agree (?m (Suc lst)) m2 m3" by auto
  moreover have "min (start + n) (Suc lst * L2_PAGES) = start + n"
    using block_bounds(3,5) [OF n fl [unfolded first_def lst_def] order_refl, folded first_def lst_def] n
    by (metis Suc_eq_plus1 block_hi_def)
  ultimately show ?thesis by (auto simp: mark_allocated_def Let_def body_def first_def lst_def)
qed

lemma mark_free_spec:
  assumes agree: "maps_agree (l1_map s) (l2_map s) (l3_map s)" and n: "0 < n"
    and ini: "inited_range s start n"
  shows "\<exists>m2 m3. mark_free start n s =
      s\<lparr>l1_map := bits_clear (l1_map s) start (start + n), l2_map := m2, l3_map := m3\<rparr>
    \<and> maps_agree (bits_clear (l1_map s) start (start + n)) m2 m3"
proof -
  define first lst where "first = start div L2_PAGES" and "lst = (start + n - 1) div L2_PAGES"
  let ?lo = "block_lo start first" and ?hi = "block_hi (start + n) lst"
  define body where "body = (\<lambda>l2 s. let s1 = ensure_l2_init l2 s
    in s1\<lparr>l1_map := bits_clear (l1_map s1) (?lo l2) (?hi l2),
          l2_map := bit_clear (l2_map s1) l2,
          l3_map := bit_clear (l3_map s1) (l2 div L2_PER_L3)\<rparr>)"
  let ?m = "\<lambda>k. bits_clear (l1_map s) start (min (start + n) (k * L2_PAGES))"
  have fl: "first \<le> lst" using n by (simp add: first_def lst_def div_le_mono)
  have "k \<le> lst + 1 \<Longrightarrow> \<exists>m2 m3. fold body [first..<k] s = s\<lparr>l1_map := ?m k, l2_map := m2, l3_map := m3\<rparr>
      \<and> maps_agree (?m k) m2 m3" if "first \<le> k" for k
    using that
  proof (induction k rule: dec_induct)
    case base
    have "?m first = l1_map s" by (simp add: bits_clear_empty min.coboundedI2 first_def)
    then have "fold body [first..<first] s
        = s\<lparr>l1_map := ?m first, l2_map := l2_map s, l3_map := l3_map s\<rparr>" by simp
    then show ?case using agree \<open>?m first = l1_map s\<close> by metis
  next
    case (step k)
    then have k: "first \<le> k" "k \<le> lst" by linarith+
    from step obtain m2 m3 where
      eq: "fold body [first..<k] s = s\<lparr>l1_map := ?m k, l2_map := m2, l3_map := m3\<rparr>"
      and ag: "maps_agree (?m k) m2 m3" by auto
    note b = block_bounds [OF n k [unfolded first_def lst_def], folded first_def lst_def]
    have m': "bits_clear (?m k) (?lo k) (?hi k) = ?m (Suc k)"
      using b(4,5) k by (intro bitmap_eqI) (auto simp: bitmap_simps)
    have "bit_test (init_map s) k" using ini k by (simp add: inited_range_def first_def lst_def)
    then have "fold body [first..<Suc k] s = s\<lparr>l1_map := ?m (Suc k),
        l2_map := bit_clear m2 k, l3_map := bit_clear m3 (k div L2_PER_L3)\<rparr>"
      using k(1) unfolding fold_upt_snoc [OF k(1)] eq by (simp add: body_def m' del: mult_Suc)
    moreover have "maps_agree (?m (Suc k)) (bit_clear m2 k) (bit_clear m3 (k div L2_PER_L3))"
      using maps_agree_clear_block [OF ag b(1,2,3)] by (simp add: m')
    ultimately show ?case by blast
  qed
  from this [of "Suc lst"] fl
  obtain m2 m3 where "fold body [first..<Suc lst] s = s\<lparr>l1_map := ?m (Suc lst), l2_map := m2, l3_map := m3\<rparr>"
    and "maps_agree (?m (Suc lst)) m2 m3" by auto
  moreover have "min (start + n) (Suc lst * L2_PAGES) = start + n"
    using block_bounds(3,5) [OF n fl [unfolded first_def lst_def] order_refl, folded first_def lst_def] n
    by (metis Suc_eq_plus1 block_hi_def)
  ultimately show ?thesis by (auto simp: mark_free_def Let_def body_def first_def lst_def)
qed

end
