(* ===== verification/PMM_Scan.thy ===== *)
theory PMM_Scan
  imports PMM_Maps
begin

text \<open>
  The scanner of the physical memory manager finds the lowest run of free pages of the
  requested length in its range, whatever it skips by the upper bitmaps and by whole words.
\<close>

definition free_run :: "bitmap \<Rightarrow> nat \<Rightarrow> nat \<Rightarrow> bool" where
  "free_run m b n \<longleftrightarrow> (\<forall>i. b \<le> i \<and> i < b + n \<longrightarrow> \<not> bit_test m i)"

definition run_spec :: "bitmap \<Rightarrow> nat \<Rightarrow> nat \<Rightarrow> nat \<Rightarrow> nat option \<Rightarrow> bool" where
  "run_spec m from to n r \<longleftrightarrow>
     (case r of
        None \<Rightarrow> (\<forall>b. from \<le> b \<and> b + n \<le> to \<longrightarrow> \<not> free_run m b n)
      | Some b \<Rightarrow> from \<le> b \<and> b + n \<le> to \<and> free_run m b n
          \<and> (\<forall>b'. from \<le> b' \<and> b' < b \<longrightarrow> \<not> free_run m b' n))"

text \<open>The state of the scanner's loop: the run so far ends at \<open>bt\<close>, and nothing was missed.\<close>

definition scan_inv :: "bitmap \<Rightarrow> nat \<Rightarrow> nat \<Rightarrow> nat \<Rightarrow> nat \<Rightarrow> nat \<Rightarrow> nat \<Rightarrow> bool" where
  "scan_inv m from to n bt run rs \<longleftrightarrow>
     run < n \<and> from + run \<le> bt \<and> free_run m (bt - run) run \<and> (0 < run \<longrightarrow> rs = bt - run \<and> bt \<le> to)
     \<and> (\<forall>b. from \<le> b \<and> b < bt - run \<longrightarrow> \<not> free_run m b n)"

lemma not_free_run: "b \<le> i \<Longrightarrow> i < b + n \<Longrightarrow> bit_test m i \<Longrightarrow> \<not> free_run m b n"
  by (auto simp: free_run_def)

lemma scan_inv_start: "0 < n \<Longrightarrow> scan_inv m from to n from 0 rs"
  by (auto simp: scan_inv_def free_run_def)

lemma scan_inv_skip:
  assumes "scan_inv m from to n bt 0 rs" and "\<forall>i. bt \<le> i \<and> i < bt + k \<longrightarrow> bit_test m i"
  shows "scan_inv m from to n (bt + k) 0 rs"
proof -
  have "\<not> free_run m b n" if "from \<le> b" "b < bt + k" for b
  proof (cases "b < bt")
    case False
    then show ?thesis using that assms by (intro not_free_run [of b b]) (auto simp: scan_inv_def)
  qed (use that assms in \<open>auto simp: scan_inv_def\<close>)
  then show ?thesis using assms by (auto simp: scan_inv_def free_run_def)
qed

lemma scan_inv_break:
  assumes "scan_inv m from to n bt run rs" and "bit_test m bt"
  shows "scan_inv m from to n (Suc bt) 0 rs'"
proof -
  have "\<not> free_run m b n" if "from \<le> b" "b < Suc bt" for b
  proof (cases "b < bt - run")
    case False
    then show ?thesis using that assms by (intro not_free_run [of b bt]) (auto simp: scan_inv_def)
  qed (use that assms in \<open>auto simp: scan_inv_def\<close>)
  then show ?thesis using assms by (auto simp: scan_inv_def free_run_def)
qed

lemma free_run_extend:
  "run \<le> bt \<Longrightarrow> free_run m (bt - run) run \<Longrightarrow> (\<forall>i. bt \<le> i \<and> i < bt + tk \<longrightarrow> \<not> bit_test m i)
     \<Longrightarrow> free_run m (bt - run) (run + tk)"
  unfolding free_run_def by (metis add_diff_inverse_nat group_cancel.add1 le_add_diff_inverse2 not_less)

lemma scan_inv_take:
  assumes "scan_inv m from to n bt run rs" and "\<forall>i. bt \<le> i \<and> i < bt + tk \<longrightarrow> \<not> bit_test m i"
    and "run + tk < n" and "bt + tk \<le> to" and "rs' = (if run = 0 then bt else rs)"
  shows "scan_inv m from to n (bt + tk) (run + tk) rs'"
  using assms free_run_extend [of run bt m tk] by (auto simp: scan_inv_def)

lemma scan_inv_found:
  assumes "scan_inv m from to n bt run rs" and "\<forall>i. bt \<le> i \<and> i < bt + tk \<longrightarrow> \<not> bit_test m i"
    and "run + tk = n" and "bt + tk \<le> to" and "rs' = (if run = 0 then bt else rs)"
  shows "run_spec m from to n (Some rs')"
  using assms free_run_extend [of run bt m tk] by (auto simp: scan_inv_def run_spec_def)

lemma scan_inv_end:
  assumes "scan_inv m from to n bt run rs" and "\<not> bt < to"
  shows "run_spec m from to n None"
proof -
  have "\<not> free_run m b n" if "from \<le> b" "b + n \<le> to" for b
    using assms that by (cases "run = 0") (auto simp: scan_inv_def)
  then show ?thesis by (simp add: run_spec_def)
qed

lemma clip_take_bounds:
  assumes "bt < to" "run < n"
  shows "clip_take n to bt run tk \<le> tk" "run + clip_take n to bt run tk \<le> n"
    and "bt + clip_take n to bt run tk \<le> to"
  using assms by (auto simp: clip_take_def Let_def)

text \<open>The word tests of the scanner, read as statements on pages.\<close>

lemma aligned_word_index:
  fixes bt i :: nat
  assumes "bt mod 64 = 0" and "bt \<le> i" and "i - bt < 64"
  shows "i div 64 = bt div 64 \<and> i mod 64 = i - bt"
proof -
  from assms(1) obtain q where q: "bt = 64 * q" by (auto elim: dvdE)
  then obtain r where "i = 64 * q + r" using assms(2) le_Suc_ex by blast
  then show ?thesis using assms(3) q by simp
qed

lemma word_skip_pages:
  assumes "bt mod 64 = 0" and "i < bt + ctz64 (NOT (m (bt div 64)))" and "bt \<le> i"
  shows "bit_test m i"
proof -
  have "i - bt < 64" using assms(2,3) ctz64_le [of "NOT (m (bt div 64))"] by linarith
  moreover have "\<not> bit (NOT (m (bt div 64))) (i - bt)"
    using assms(2,3) by (intro ctz64_below) linarith
  moreover have "i div 64 = bt div 64" "i mod 64 = i - bt" using aligned_word_index [OF assms(1,3)] calculation(1) by auto
  ultimately show ?thesis by (simp add: bit_test_iff bit_not_iff)
qed

lemma word_free_pages:
  assumes "bt mod 64 = 0" and "i < bt + ctz64 (m (bt div 64))" and "bt \<le> i"
  shows "\<not> bit_test m i"
proof -
  have "i - bt < 64" using assms(2,3) ctz64_le [of "m (bt div 64)"] by linarith
  moreover have "\<not> bit (m (bt div 64)) (i - bt)"
    using assms(2,3) by (intro ctz64_below) linarith
  moreover have "i div 64 = bt div 64" "i mod 64 = i - bt" using aligned_word_index [OF assms(1,3)] calculation(1) by auto
  ultimately show ?thesis by (simp add: bit_test_iff)
qed

lemma block_skip_pages:
  assumes "maps_agree m1 m2 m3" and "bt mod L2_PAGES = 0" and "bit_test m2 (bt div L2_PAGES)"
    and "bt \<le> i" and "i < bt + L2_PAGES"
  shows "bit_test m1 i"
proof -
  have "bt div L2_PAGES * L2_PAGES = bt" using assms(2) by auto
  then show ?thesis using assms by (intro l2_agreeD [of m1 m2 "bt div L2_PAGES"])
    (auto simp: maps_agree_def algebra_simps)
qed

lemma shard_skip_pages:
  assumes "maps_agree m1 m2 m3" and "bt mod L3_PAGES = 0" and "bit_test m3 (bt div L3_PAGES)"
    and "bt \<le> i" and "i < bt + L3_PAGES"
  shows "bit_test m1 i"
proof -
  have "bt div L3_PAGES * L3_PAGES = bt" using assms(2) by auto
  then show ?thesis using assms by (intro l3_agreeD [of m1 m2 m3 "bt div L3_PAGES"])
    (auto simp: algebra_simps)
qed

section \<open>The loop\<close>

text \<open>
  One round of the loop keeps the invariant or returns a run. \<open>rest\<close> stands for the
  remaining rounds.
\<close>

definition scan_ok :: "nat \<Rightarrow> nat \<Rightarrow> nat \<Rightarrow> pmm \<Rightarrow> nat option \<times> pmm \<Rightarrow> bool" where
  "scan_ok from to n s p \<longleftrightarrow> snd p = s \<and> run_spec (l1_map s) from to n (fst p)"

lemma scan_ok_if:
  "(c \<Longrightarrow> scan_ok from to n s p) \<Longrightarrow> (\<not> c \<Longrightarrow> scan_ok from to n s q) \<Longrightarrow> scan_ok from to n s (if c then p else q)"
  by simp

lemma scan_ok_take:
  assumes inv: "scan_inv (l1_map s) from to n bt run rs" and to: "bt < to" and k: "0 < k"
    and free: "\<forall>i. bt \<le> i \<and> i < bt + k \<longrightarrow> \<not> bit_test (l1_map s) i"
    and rs': "rs' = (if run = 0 then bt else rs)"
    and rest: "\<And>tk. 0 < tk \<Longrightarrow> scan_inv (l1_map s) from to n (bt + tk) (run + tk) rs' \<Longrightarrow>
        scan_ok from to n s (rest tk)"
  defines "tk \<equiv> clip_take n to bt run k"
  shows "scan_ok from to n s (if run + tk = n then (Some rs', s) else rest tk)"
proof -
  have run: "run < n" using inv by (simp add: scan_inv_def)
  note clip = clip_take_bounds [OF to run, of k, folded tk_def]
  have fr: "\<forall>i. bt \<le> i \<and> i < bt + tk \<longrightarrow> \<not> bit_test (l1_map s) i" using free clip(1) by auto
  have "scan_ok from to n s (rest tk)" if "run + tk \<noteq> n"
    using scan_inv_take [OF inv fr _ clip(3) rs'] clip(2) that clip_take_pos [OF to run k]
    by (intro rest) (auto simp: tk_def)
  then show ?thesis using scan_inv_found [OF inv fr _ clip(3) rs'] by (simp add: scan_ok_def)
qed

lemma clip_take_one: "bt < to \<Longrightarrow> run < n \<Longrightarrow> clip_take n to bt run 1 = 1"
  by (simp add: clip_take_def)

lemma scan_ok_bit:
  assumes inv: "scan_inv (l1_map s) from to n bt run rs" and to: "bt < to"
    and rest: "\<And>k run' rs'. 0 < k \<Longrightarrow> scan_inv (l1_map s) from to n (bt + k) run' rs' \<Longrightarrow>
        scan_ok from to n s (rest (bt + k) run' rs')"
  shows "scan_ok from to n s
     (if \<not> bit_test (l1_map s) bt
      then (let rs' = (if run = 0 then bt else rs) in
            if Suc run = n then (Some rs', s) else rest (Suc bt) (Suc run) rs')
      else rest (Suc bt) 0 rs)"
proof (cases "bit_test (l1_map s) bt")
  case True
  then show ?thesis using rest [of 1] scan_inv_break [OF inv True, of rs] by simp
next
  case False
  let ?rs = "if run = 0 then bt else rs"
  have run: "run < n" using inv by (simp add: scan_inv_def)
  have fr: "\<forall>i. bt \<le> i \<and> i < bt + 1 \<longrightarrow> \<not> bit_test (l1_map s) i" using False by (auto simp: le_less_Suc_eq)
  show ?thesis
    using scan_ok_take [OF inv to zero_less_one fr refl, of "\<lambda>tk. rest (bt + tk) (run + tk) ?rs",
        unfolded clip_take_one [OF to run]]
      rest False by (simp add: Let_def cong del: if_weak_cong split del: if_split)
qed

lemma scan_ok_word:
  assumes inv: "scan_inv (l1_map s) from to n bt run rs" and to: "bt < to"
    and rest: "\<And>k run' rs'. 0 < k \<Longrightarrow> scan_inv (l1_map s) from to n (bt + k) run' rs' \<Longrightarrow>
        scan_ok from to n s (rest (bt + k) run' rs')"
    and w: "w = l1_map s (bt div 64)"
  shows "scan_ok from to n s
     (if bt mod 64 = 0 \<and> run = 0 \<and> w = -1 then rest (bt + 64) run rs
      else if bt mod 64 = 0 \<and> run = 0 \<and> ctz64 (NOT w) \<noteq> 0 then rest (bt + ctz64 (NOT w)) run rs
      else if bt mod 64 = 0 \<and> run \<noteq> 0 \<and> w = 0
      then (let tk = clip_take n to bt run 64 in
            if run + tk = n then (Some rs, s) else rest (bt + tk) (run + tk) rs)
      else if bt mod 64 = 0 \<and> run \<noteq> 0 \<and> clip_take n to bt run (ctz64 w) \<noteq> 0
      then (let tk = clip_take n to bt run (ctz64 w) in
            if run + tk = n then (Some rs, s) else rest (bt + tk) (run + tk) rs)
      else if \<not> bit_test (l1_map s) bt
      then (let rs' = (if run = 0 then bt else rs) in
            if Suc run = n then (Some rs', s) else rest (Suc bt) (Suc run) rs')
      else rest (Suc bt) 0 rs)"
proof -
  have run: "run < n" using inv by (simp add: scan_inv_def)
  note clip = clip_take_bounds [OF to run]
  have w0: "ctz64 (NOT w) = 64" if "w = -1" using that ctz64_0 by simp
  have w1: "ctz64 w = 64" if "w = 0" using that ctz64_0 by simp
  have skip: "scan_ok from to n s (rest (bt + ctz64 (NOT w)) run rs)"
    if "bt mod 64 = 0" "run = 0" "ctz64 (NOT w) \<noteq> 0"
    using that inv word_skip_pages [OF that(1), of _ "l1_map s"] w by (auto intro!: rest scan_inv_skip)
  have take: "scan_ok from to n s (let tk = clip_take n to bt run (ctz64 w) in
       if run + tk = n then (Some rs, s) else rest (bt + tk) (run + tk) rs)"
    if "bt mod 64 = 0" "run \<noteq> 0" "ctz64 w \<noteq> 0"
    unfolding Let_def
    using that word_free_pages [OF that(1), of _ "l1_map s"] w
    by (intro scan_ok_take [OF inv to]) (auto intro: rest)
  have ctz: "ctz64 w \<noteq> 0" if "clip_take n to bt run (ctz64 w) \<noteq> 0" using that clip(1) [of "ctz64 w"] by auto
  have skip64: "scan_ok from to n s (rest (bt + 64) run rs)" if "bt mod 64 = 0 \<and> run = 0 \<and> w = -1"
    using skip that w0 by simp
  have take64: "scan_ok from to n s (let tk = clip_take n to bt run 64 in
       if run + tk = n then (Some rs, s) else rest (bt + tk) (run + tk) rs)"
    if "bt mod 64 = 0 \<and> run \<noteq> 0 \<and> w = 0"
    using take that w1 by simp
  note bit = scan_ok_bit [where rest = rest, OF inv to rest]
  show ?thesis
    by (rule scan_ok_if, erule skip64, rule scan_ok_if, elim conjE, erule (2) skip,
        rule scan_ok_if, erule take64, rule scan_ok_if, elim conjE, erule (1) take, erule ctz, rule bit)
qed

lemma scan_loop_spec:
  assumes agree: "maps_agree (l1_map s) (l2_map s) (l3_map s)"
    and ini: "\<forall>bt < to. bit_test (init_map s) (bt div L2_PAGES)"
    and inv: "scan_inv (l1_map s) from to n bt run rs"
  shows "scan_ok from to n s (scan_loop to n s bt run rs inited)"
  using inv
proof (induction "to - bt" arbitrary: bt run rs inited rule: less_induct)
  case less
  note inv = less.prems
  have run: "run < n" using inv by (simp add: scan_inv_def)
  show ?case
  proof (cases "bt < to")
    case False
    then show ?thesis using scan_inv_end [OF inv] by (simp add: scan_loop.simps scan_ok_def)
  next
    case to: True
    have IH: "scan_ok from to n s (scan_loop to n s (bt + k) run' rs' inited')"
      if "0 < k" "scan_inv (l1_map s) from to n (bt + k) run' rs'" for k run' rs' inited'
      using that to by (intro less.hyps) auto
    have s1: "(if inited \<noteq> Some (bt div L2_PAGES) then ensure_l2_init (bt div L2_PAGES) s else s) = s"
      using ini to by simp
    have l3: "scan_ok from to n s (scan_loop to n s (bt + L3_PAGES) run rs inited)"
      if "run = 0 \<and> bt mod L3_PAGES = 0 \<and> bt div L3_PAGES < total_l3_bits s
          \<and> bit_test (l3_map s) (bt div L3_PAGES)"
      using inv that shard_skip_pages [OF agree, of bt] by (intro IH) (auto intro: scan_inv_skip)
    have l2: "scan_ok from to n s (scan_loop to n s (bt + L2_PAGES) run rs inited)"
      if "run = 0 \<and> bt mod L2_PAGES = 0 \<and> bt div L2_PAGES < total_l2_bits s
          \<and> bit_test (l2_map s) (bt div L2_PAGES)"
      using inv that block_skip_pages [OF agree, of bt] by (intro IH) (auto intro: scan_inv_skip)
    note word = scan_ok_word [OF inv to, where
      rest = "\<lambda>b r q. scan_loop to n s b r q (Some (bt div L2_PAGES))", OF IH refl]
    have go: "\<not> \<not> (bt < to \<and> run < n)" using to run by simp
    show ?thesis
      unfolding scan_loop.simps [of to n s bt run rs inited] s1 Let_def if_not_P [OF go]
      by (intro scan_ok_if l3 l2 word [unfolded Let_def])
  qed
qed

theorem scan_for_run_spec:
  assumes "maps_agree (l1_map s) (l2_map s) (l3_map s)"
    and "\<forall>bt < to. bit_test (init_map s) (bt div L2_PAGES)"
  shows "\<exists>r. scan_for_run from to n s = (r, s) \<and> (0 < n \<longrightarrow> run_spec (l1_map s) from to n r)
     \<and> (n = 0 \<longrightarrow> r = None)"
proof (cases "n = 0 \<or> from \<ge> to")
  case True
  then show ?thesis by (auto simp: scan_for_run_def run_spec_def)
next
  case False
  then show ?thesis
    using scan_loop_spec [OF assms scan_inv_start, of n "from" 0 None]
    by (auto simp: scan_for_run_def scan_ok_def prod_eq_iff)
qed

end
