(* ===== verification/PMM_Inv.thy ===== *)
theory PMM_Inv
  imports PMM_Scan
begin

text \<open>
  The invariant of the physical memory manager: its geometry, the agreement of the three
  bitmaps, the reserved pages, the free counters of the shards and the per-CPU caches.
  The lemmas say what the critical sections on one shard do to it.
\<close>

section \<open>The invariant\<close>

definition geometry_ok :: "pmm \<Rightarrow> bool" where
  "geometry_ok s \<longleftrightarrow>
     0 < pmm_bitmap_pages s \<and> pmm_bitmap_pages s \<le> 2 ^ 52
     \<and> total_l2_bits s = (pmm_bitmap_pages s + L2_PAGES - 1) div L2_PAGES
     \<and> total_l3_bits s = (total_l2_bits s + L2_PER_L3 - 1) div L2_PER_L3
     \<and> shard_count s = total_l3_bits s
     \<and> (\<forall>si < shard_count s. first_page (shards s si) = si * SHARD_PAGES
          \<and> npages (shards s si) = min SHARD_PAGES (pmm_bitmap_pages s - si * SHARD_PAGES))"

definition pmm_wf :: "pmm \<Rightarrow> bool" where
  "pmm_wf s \<longleftrightarrow> geometry_ok s
     \<and> (\<forall>l2 < total_l2_bits s. bit_test (init_map s) l2)
     \<and> maps_agree (l1_map s) (l2_map s) (l3_map s)
     \<and> (\<forall>i \<ge> pmm_bitmap_pages s. bit_test (l1_map s) i)
     \<and> bit_test (l1_map s) 0"

definition shard_free :: "bitmap \<Rightarrow> nat \<Rightarrow> nat" where
  "shard_free m si = card (clear_bits m (si * SHARD_PAGES) ((si + 1) * SHARD_PAGES))"

text \<open>The counters of \<open>s\<close> count the clear bits of \<open>m\<close>.\<close>

definition counts_for :: "bitmap \<Rightarrow> pmm \<Rightarrow> bool" where
  "counts_for m s \<longleftrightarrow>
     (\<forall>si < shard_count s. sh_free_pages (shards s si) = shard_free m si)
     \<and> free_pages s = card (clear_bits m 0 (shard_count s * SHARD_PAGES))"

definition cached :: "pmm \<Rightarrow> nat set" where
  "cached s = {p div PAGE_SIZE | p cpu. p \<in> set (pmm_cache s cpu)}"

definition cache_ok :: "pmm \<Rightarrow> bool" where
  "cache_ok s \<longleftrightarrow>
     (\<forall>cpu. length (pmm_cache s cpu) \<le> PMM_PCP_MAX \<and> distinct (pmm_cache s cpu)
        \<and> (\<forall>p \<in> set (pmm_cache s cpu). p mod PAGE_SIZE = 0 \<and> p \<noteq> 0
             \<and> p div PAGE_SIZE < pmm_bitmap_pages s \<and> bit_test (l1_map s) (p div PAGE_SIZE)))
     \<and> (\<forall>cpu cpu'. cpu \<noteq> cpu' \<longrightarrow> set (pmm_cache s cpu) \<inter> set (pmm_cache s cpu') = {})"

definition pmm_inv :: "pmm \<Rightarrow> bool" where
  "pmm_inv s \<longleftrightarrow> pmm_wf s \<and> counts_for (l1_map s) s \<and> cache_ok s"

text \<open>The pages that callers hold: allocated and in no cache.\<close>

definition owned :: "pmm \<Rightarrow> nat set" where
  "owned s = {i. i < pmm_bitmap_pages s \<and> bit_test (l1_map s) i \<and> i \<notin> cached s}"

section \<open>Geometry\<close>

definition same_geometry :: "pmm \<Rightarrow> pmm \<Rightarrow> bool" where
  "same_geometry s s' \<longleftrightarrow>
     pmm_bitmap_pages s' = pmm_bitmap_pages s \<and> total_l2_bits s' = total_l2_bits s
     \<and> total_l3_bits s' = total_l3_bits s \<and> shard_count s' = shard_count s
     \<and> init_map s' = init_map s
     \<and> (\<forall>si. first_page (shards s' si) = first_page (shards s si) \<and> npages (shards s' si) = npages (shards s si))"

lemma same_geometry_refl [simp]: "same_geometry s s"
  by (simp add: same_geometry_def)

lemma same_geometry_trans: "same_geometry s t \<Longrightarrow> same_geometry t u \<Longrightarrow> same_geometry s u"
  by (simp add: same_geometry_def)

lemma geometry_ok_cong: "same_geometry s s' \<Longrightarrow> geometry_ok s \<Longrightarrow> geometry_ok s'"
  by (simp add: same_geometry_def geometry_ok_def)

lemma geometry_bounds:
  assumes "geometry_ok s"
  shows "pmm_bitmap_pages s \<le> shard_count s * SHARD_PAGES" and "shard_count s * SHARD_PAGES < U64"
    and "0 < shard_count s" and "\<And>i. i < pmm_bitmap_pages s \<Longrightarrow> i div L2_PAGES < total_l2_bits s"
    and "\<And>i. i < pmm_bitmap_pages s \<Longrightarrow> i div SHARD_PAGES < shard_count s"
    and "\<And>si. si < shard_count s \<Longrightarrow> si * SHARD_PAGES < pmm_bitmap_pages s"
proof -
  let ?p = "pmm_bitmap_pages s"
  have c: "shard_count s = ((?p + 511) div 512 + 1023) div 1024" "0 < ?p" "?p \<le> 2 ^ 52"
    and t2: "total_l2_bits s = (?p + 511) div 512"
    using assms by (auto simp: geometry_ok_def)
  have "((?p + 511) div 512 + 1023) div 1024 * 1024 \<ge> (?p + 511) div 512"
    and "(?p + 511) div 512 * 512 \<ge> ?p" by linarith+
  then show le: "?p \<le> shard_count s * SHARD_PAGES" using c by linarith
  have hi: "shard_count s * 1024 \<le> (?p + 511) div 512 + 1023" "(?p + 511) div 512 * 512 \<le> ?p + 511"
    using c by linarith+
  then have up: "shard_count s * SHARD_PAGES < ?p + SHARD_PAGES" by linarith
  then show "shard_count s * SHARD_PAGES < U64" using c(3) by (simp add: U64_def)
  show "0 < shard_count s" using le c(2) by (cases "shard_count s") auto
  show "i div L2_PAGES < total_l2_bits s" if "i < ?p" for i
    using that t2 \<open>(?p + 511) div 512 * 512 \<ge> ?p\<close> by (intro less_mult_imp_div_less) linarith
  show "i div SHARD_PAGES < shard_count s" if "i < ?p" for i
    using that le by (intro less_mult_imp_div_less) linarith
  show "si * SHARD_PAGES < ?p" if "si < shard_count s" for si
  proof -
    have "(si + 1) * SHARD_PAGES \<le> shard_count s * SHARD_PAGES" using that by (intro mult_right_mono) auto
    then show ?thesis using up by simp
  qed
qed

lemma shard_end:
  assumes "geometry_ok s" and "si < shard_count s"
  shows "first_page (shards s si) = si * SHARD_PAGES"
    and "first_page (shards s si) + npages (shards s si) = min ((si + 1) * SHARD_PAGES) (pmm_bitmap_pages s)"
  using assms geometry_bounds(6) [OF assms] by (auto simp: geometry_ok_def)

lemma pmm_wf_inited: "pmm_wf s \<Longrightarrow> i < pmm_bitmap_pages s \<Longrightarrow> bit_test (init_map s) (i div L2_PAGES)"
  using geometry_bounds(4) by (auto simp: pmm_wf_def)

lemma pmm_wf_inited_range:
  assumes "pmm_wf s" and "0 < n" and "b + n \<le> pmm_bitmap_pages s"
  shows "inited_range s b n"
  unfolding inited_range_def
proof (intro allI impI)
  fix l2 assume "b div L2_PAGES \<le> l2 \<and> l2 \<le> (b + n - 1) div L2_PAGES"
  moreover have "(b + n - 1) div L2_PAGES < total_l2_bits s"
    using assms by (intro geometry_bounds(4)) (auto simp: pmm_wf_def)
  ultimately show "bit_test (init_map s) l2" using assms(1) by (auto simp: pmm_wf_def)
qed

section \<open>Counters\<close>

lemma shard_card_le: "card (clear_bits m a b) \<le> card (clear_bits m 0 c)" if "b \<le> c"
  using that by (intro card_mono) (auto simp: clear_bits_def)

lemma total_split:
  assumes "si < count"
  shows "card (clear_bits m 0 (count * SHARD_PAGES)) =
     card (clear_bits m 0 (si * SHARD_PAGES)) + shard_free m si
     + card (clear_bits m ((si + 1) * SHARD_PAGES) (count * SHARD_PAGES))"
proof -
  have "(si + 1) * SHARD_PAGES \<le> count * SHARD_PAGES" using assms by (intro mult_right_mono) auto
  then show ?thesis
    using clear_bits_split [of 0 "si * SHARD_PAGES" "count * SHARD_PAGES" m]
      clear_bits_split [of "si * SHARD_PAGES" "(si + 1) * SHARD_PAGES" "count * SHARD_PAGES" m]
    by (simp add: shard_free_def)
qed

text \<open>\<open>m'\<close> differs from \<open>m\<close> only inside shard \<open>si\<close>.\<close>

definition same_outside :: "nat \<Rightarrow> bitmap \<Rightarrow> bitmap \<Rightarrow> bool" where
  "same_outside si m m' \<longleftrightarrow> (\<forall>i. i div SHARD_PAGES \<noteq> si \<longrightarrow> bit_test m' i = bit_test m i)"

lemma in_shard: "si * SHARD_PAGES \<le> i \<Longrightarrow> i < (si + 1) * SHARD_PAGES \<Longrightarrow> i div SHARD_PAGES = si"
  by (metis add.commute div_nat_eqI mult.commute plus_1_eq_Suc)

lemma shard_free_other:
  assumes "same_outside si m m'" and "sj \<noteq> si"
  shows "shard_free m' sj = shard_free m sj"
proof -
  have "clear_bits m' (sj * SHARD_PAGES) ((sj + 1) * SHARD_PAGES) = clear_bits m (sj * SHARD_PAGES) ((sj + 1) * SHARD_PAGES)"
    using assms in_shard by (intro clear_bits_cong) (auto simp: same_outside_def)
  then show ?thesis by (simp add: shard_free_def)
qed

lemma same_outside_rest:
  assumes "same_outside si m m'"
  shows "clear_bits m' 0 (si * SHARD_PAGES) = clear_bits m 0 (si * SHARD_PAGES)"
    and "clear_bits m' ((si + 1) * SHARD_PAGES) c = clear_bits m ((si + 1) * SHARD_PAGES) c"
proof -
  show "clear_bits m' 0 (si * SHARD_PAGES) = clear_bits m 0 (si * SHARD_PAGES)"
    using assms by (intro clear_bits_cong) (auto simp: same_outside_def)
  have "i div SHARD_PAGES \<noteq> si" if "(si + 1) * SHARD_PAGES \<le> i" for i
    using that by auto
  then show "clear_bits m' ((si + 1) * SHARD_PAGES) c = clear_bits m ((si + 1) * SHARD_PAGES) c"
    using assms by (intro clear_bits_cong) (auto simp: same_outside_def)
qed

lemma counts_for_sub:
  assumes "counts_for m s" and "si < shard_count s" and out: "same_outside si m m'"
    and k: "shard_free m' si + k = shard_free m si"
  shows "counts_for m' (shard_free_sub si k s)"
  using assms shard_free_other [OF out]
    total_split [OF assms(2), of m] total_split [OF assms(2), of m'] same_outside_rest [OF out]
  by (auto simp: counts_for_def shard_free_sub_def u64_simps)

lemma counts_for_add:
  assumes "counts_for m s" and "si < shard_count s" and out: "same_outside si m m'"
    and k: "shard_free m' si = shard_free m si + k" and "shard_count s * SHARD_PAGES < U64"
  shows "counts_for m' (shard_free_add si k s)"
proof -
  have "card (clear_bits m' 0 (shard_count s * SHARD_PAGES)) < U64"
    using card_clear_bits_le [of m' 0 "shard_count s * SHARD_PAGES"] assms(5) by simp
  then show ?thesis
    using assms shard_free_other [OF out]
      total_split [OF assms(2), of m] total_split [OF assms(2), of m'] same_outside_rest [OF out]
    by (auto simp: counts_for_def shard_free_add_def u64_simps)
qed

section \<open>Taking and returning a range\<close>

lemma set_range_in_shard:
  assumes "si * SHARD_PAGES \<le> b" and "b + n \<le> (si + 1) * SHARD_PAGES" and "free_run m b n"
  shows "same_outside si m (bits_set m b (b + n))"
    and "shard_free (bits_set m b (b + n)) si + n = shard_free m si"
proof -
  have "i div SHARD_PAGES = si" if "b \<le> i" "i < b + n" for i
    using that assms(1,2) by (intro in_shard) simp_all
  then show "same_outside si m (bits_set m b (b + n))"
    by (auto simp: same_outside_def bitmap_simps)
  show "shard_free (bits_set m b (b + n)) si + n = shard_free m si"
    using clear_bits_set_range [OF assms(1) le_add1 assms(2) assms(3) [unfolded free_run_def],
        of "bits_set m b (b + n)"]
    by (simp only: shard_free_def bit_test_bits_set simp_thms add_diff_cancel_left')
qed

lemma clear_range_in_shard:
  assumes "si * SHARD_PAGES \<le> b" and "b + n \<le> (si + 1) * SHARD_PAGES"
    and "\<forall>i. b \<le> i \<and> i < b + n \<longrightarrow> bit_test m i"
  shows "same_outside si m (bits_clear m b (b + n))"
    and "shard_free (bits_clear m b (b + n)) si = shard_free m si + n"
proof -
  have "i div SHARD_PAGES = si" if "b \<le> i" "i < b + n" for i
    using that assms(1,2) by (intro in_shard) simp_all
  then show "same_outside si m (bits_clear m b (b + n))"
    by (auto simp: same_outside_def bitmap_simps)
  show "shard_free (bits_clear m b (b + n)) si = shard_free m si + n"
  proof -
    have "bit_test m i \<longleftrightarrow> bit_test (bits_clear m b (b + n)) i \<or> b \<le> i \<and> i < b + n" for i
      using assms(3) by (auto simp: bitmap_simps)
    moreover have "\<forall>i. b \<le> i \<and> i < b + n \<longrightarrow> \<not> bit_test (bits_clear m b (b + n)) i"
      by (auto simp: bitmap_simps)
    ultimately show ?thesis
      using clear_bits_set_range [OF assms(1) le_add1 assms(2), of "bits_clear m b (b + n)" m]
      by (simp only: shard_free_def simp_thms add_diff_cancel_left')
  qed
qed

text \<open>\<open>s'\<close> is \<open>s\<close> with the pages \<open>[b, b + n)\<close> taken, or returned, in all three maps.\<close>

definition takes :: "pmm \<Rightarrow> nat \<Rightarrow> nat \<Rightarrow> pmm \<Rightarrow> bool" where
  "takes s b n s' \<longleftrightarrow> same_geometry s s' \<and> pmm_cache s' = pmm_cache s
     \<and> l1_map s' = bits_set (l1_map s) b (b + n)
     \<and> maps_agree (l1_map s') (l2_map s') (l3_map s')"

definition returns :: "pmm \<Rightarrow> nat \<Rightarrow> nat \<Rightarrow> pmm \<Rightarrow> bool" where
  "returns s b n s' \<longleftrightarrow> same_geometry s s' \<and> pmm_cache s' = pmm_cache s
     \<and> l1_map s' = bits_clear (l1_map s) b (b + n)
     \<and> maps_agree (l1_map s') (l2_map s') (l3_map s')"

definition same_counters :: "pmm \<Rightarrow> pmm \<Rightarrow> bool" where
  "same_counters s s' \<longleftrightarrow> free_pages s' = free_pages s
     \<and> (\<forall>si. sh_free_pages (shards s' si) = sh_free_pages (shards s si))"

lemma counts_for_cong: "same_geometry s s' \<Longrightarrow> same_counters s s' \<Longrightarrow> counts_for m s' = counts_for m s"
  by (simp add: counts_for_def same_geometry_def same_counters_def)

lemma takes_wf: "takes s b n s' \<Longrightarrow> pmm_wf s \<Longrightarrow> pmm_wf s'"
  using geometry_ok_cong [of s s'] by (auto simp: pmm_wf_def takes_def same_geometry_def bitmap_simps)

lemma returns_wf:
  "returns s b n s' \<Longrightarrow> pmm_wf s \<Longrightarrow> 0 < b \<Longrightarrow> b + n \<le> pmm_bitmap_pages s \<Longrightarrow> pmm_wf s'"
  using geometry_ok_cong [of s s'] by (auto simp: pmm_wf_def returns_def same_geometry_def bitmap_simps)

lemma takes_cache: "takes s b n s' \<Longrightarrow> cache_ok s \<Longrightarrow> cache_ok s'"
  by (simp add: cache_ok_def takes_def same_geometry_def bitmap_simps)

lemma returns_cache:
  "returns s b n s' \<Longrightarrow> cache_ok s \<Longrightarrow> {b..<b + n} \<inter> cached s = {} \<Longrightarrow> cache_ok s'"
  by (auto simp: cache_ok_def returns_def same_geometry_def bitmap_simps cached_def disjoint_iff)

lemma takes_owned:
  assumes "takes s b n s'" and "b + n \<le> pmm_bitmap_pages s" and "free_run (l1_map s) b n" and "cache_ok s"
  shows "owned s' = owned s \<union> {b..<b + n}" and "owned s \<inter> {b..<b + n} = {}"
proof -
  have "i \<notin> cached s" if "b \<le> i" "i < b + n" for i
    using that assms(3,4) by (auto simp: cached_def cache_ok_def free_run_def)
  then show "owned s' = owned s \<union> {b..<b + n}"
    using assms(1,2) by (auto simp: owned_def takes_def same_geometry_def bitmap_simps cached_def)
  show "owned s \<inter> {b..<b + n} = {}"
    using assms(3) by (auto simp: owned_def free_run_def)
qed

lemma returns_owned: "returns s b n s' \<Longrightarrow> owned s' = owned s - {b..<b + n}"
  by (auto simp: owned_def returns_def same_geometry_def bitmap_simps cached_def)

lemma takes_same_counters_set_hint [simp]:
  "takes s b n (set_hint si h t) = takes s b n t"
  "returns s b n (set_hint si h t) = returns s b n t"
  "same_counters s (set_hint si h t) = same_counters s t"
  by (auto simp: takes_def returns_def same_counters_def same_geometry_def set_hint_def)

lemma takes_accounting [simp]:
  "takes s b n (shard_free_sub si k t) = takes s b n t"
  "returns s b n (shard_free_add si k t) = returns s b n t"
  by (auto simp: takes_def returns_def same_geometry_def shard_free_sub_def shard_free_add_def)

lemma mark_allocated_takes:
  assumes "pmm_wf s" and "0 < n" and "b + n \<le> pmm_bitmap_pages s"
  shows "takes s b n (mark_allocated b n s)" and "same_counters s (mark_allocated b n s)"
  using mark_allocated_spec [OF _ assms(2) pmm_wf_inited_range [OF assms]] assms(1)
  by (auto simp: pmm_wf_def takes_def same_counters_def same_geometry_def)

lemma mark_free_returns:
  assumes "pmm_wf s" and "0 < n" and "b + n \<le> pmm_bitmap_pages s"
  shows "returns s b n (mark_free b n s)" and "same_counters s (mark_free b n s)"
  using mark_free_spec [OF _ assms(2) pmm_wf_inited_range [OF assms]] assms(1)
  by (auto simp: pmm_wf_def returns_def same_counters_def same_geometry_def)

lemma mark_frame:
  assumes "pmm_wf s" and "0 < n" and "b + n \<le> pmm_bitmap_pages s"
  shows "shards (mark_allocated b n s) = shards s" "init_map (mark_allocated b n s) = init_map s"
    and "shards (mark_free b n s) = shards s" "init_map (mark_free b n s) = init_map s"
  using mark_allocated_spec [OF _ assms(2) pmm_wf_inited_range [OF assms]]
    mark_free_spec [OF _ assms(2) pmm_wf_inited_range [OF assms]] assms(1)
  by (auto simp: pmm_wf_def)

end
