(* ===== verification/PMM_Ops.thy ===== *)
theory PMM_Ops
  imports PMM_Inv
begin

text \<open>
  The critical sections and the exported calls of the physical memory manager: what each
  returns, what it does to the pages that callers own, and that it keeps the invariant.
\<close>

section \<open>Two scans around a hint\<close>

definition run_found :: "bitmap \<Rightarrow> nat \<Rightarrow> nat \<Rightarrow> nat \<Rightarrow> nat \<Rightarrow> nat option \<Rightarrow> bool" where
  "run_found m lo h hi n r \<longleftrightarrow>
     (case r of
        None \<Rightarrow> (\<forall>b. lo \<le> b \<and> b + n \<le> hi \<and> free_run m b n \<longrightarrow> b < h \<and> h < b + n)
      | Some b \<Rightarrow> lo \<le> b \<and> b + n \<le> hi \<and> free_run m b n)"

lemma two_scans:
  assumes "run_spec m h hi n r1" and "run_spec m lo h n r2" and "lo \<le> h" and "h \<le> hi"
  shows "run_found m lo h hi n (if r1 = None \<and> h > lo then r2 else r1)"
  using assms by (auto simp: run_spec_def run_found_def split: option.splits)

lemma scan_wf:
  assumes "pmm_wf s" and "to \<le> pmm_bitmap_pages s" and "0 < n"
  obtains r where "scan_for_run from to n s = (r, s)" and "run_spec (l1_map s) from to n r"
proof -
  have "\<forall>bt < to. bit_test (init_map s) (bt div L2_PAGES)"
    using assms pmm_wf_inited by auto
  then show thesis using scan_for_run_spec [of s to "from" n] assms that by (auto simp: pmm_wf_def)
qed

section \<open>One shard\<close>

lemma set_hint_other [simp]: "j \<noteq> si \<Longrightarrow> shards (set_hint si h s) j = shards s j"
  by (simp add: set_hint_def)

lemma alloc_in_shard_locked_spec:
  assumes wf: "pmm_wf s" and si: "si < shard_count s" and n: "0 < n"
    and eq: "alloc_in_shard_locked si n s = (p, s')"
  obtains (none) "p = 0" "s' = s"
      "sh_free_pages (shards s si) < n \<or>
       (\<exists>h. \<forall>b. si * SHARD_PAGES \<le> b \<and> b + n \<le> min ((si + 1) * SHARD_PAGES) (pmm_bitmap_pages s)
          \<and> free_run (l1_map s) b n \<longrightarrow> b < h \<and> h < b + n)"
    | (run) b where "p = b * PAGE_SIZE" "0 < b" "si * SHARD_PAGES \<le> b"
      "b + n \<le> (si + 1) * SHARD_PAGES" "b + n \<le> pmm_bitmap_pages s" "free_run (l1_map s) b n"
      "takes s b n s'" "same_counters s s'" "\<forall>j. j \<noteq> si \<longrightarrow> shards s' j = shards s j"
proof (cases "sh_free_pages (shards s si) < n")
  case True
  then show thesis using eq none by (auto simp: alloc_in_shard_locked_def)
next
  case False
  have g: "geometry_ok s" using wf by (simp add: pmm_wf_def)
  let ?sh = "shards s si"
  define lo hi h where "lo = first_page ?sh" and "hi = first_page ?sh + npages ?sh"
    and "h = (if hint ?sh < lo \<or> hint ?sh > hi then lo else hint ?sh)"
  have lohi: "lo = si * SHARD_PAGES" "hi = min ((si + 1) * SHARD_PAGES) (pmm_bitmap_pages s)"
    using shard_end [OF g si] by (auto simp: lo_def hi_def)
  have h: "lo \<le> h" "h \<le> hi" by (auto simp: h_def lo_def hi_def)
  obtain r1 where r1: "scan_for_run h hi n s = (r1, s)" "run_spec (l1_map s) h hi n r1"
    using scan_wf [OF wf _ n] lohi by (metis min.cobounded2)
  obtain r2 where r2: "scan_for_run lo h n s = (r2, s)" "run_spec (l1_map s) lo h n r2"
    using scan_wf [OF wf _ n] lohi h(2) by (metis min.boundedE)
  define r where "r = (if r1 = None \<and> h > lo then r2 else r1)"
  note found = two_scans [OF r1(2) r2(2) h, folded r_def]
  have "alloc_in_shard_locked si n s = (case r of None \<Rightarrow> (0, s) | Some b \<Rightarrow>
      (b * PAGE_SIZE, set_hint si (if b + n \<ge> hi then lo else b + n) (mark_allocated b n s)))"
    using False unfolding alloc_in_shard_locked_def Let_def hi_def [symmetric]
    unfolding lo_def [symmetric] h_def [symmetric] r1(1) prod.case
    by (simp add: r2(1) r_def)
  then have e: "(p, s') = (case r of None \<Rightarrow> (0, s) | Some b \<Rightarrow>
      (b * PAGE_SIZE, set_hint si (if b + n \<ge> hi then lo else b + n) (mark_allocated b n s)))"
    using eq by simp
  show thesis
  proof (cases r)
    case None
    then show thesis using found e lohi by (intro none) (auto simp: run_found_def)
  next
    case (Some b)
    then have b: "lo \<le> b" "b + n \<le> hi" "free_run (l1_map s) b n" using found by (auto simp: run_found_def)
    moreover have "0 < b"
      using b(3) n wf not_free_run [of 0 0 n "l1_map s"] by (cases b) (auto simp: pmm_wf_def)
    ultimately show thesis
      using Some e lohi mark_allocated_takes [OF wf n, of b] mark_frame(1) [OF wf n, of b]
      by (intro run [of b]) auto
  qed
qed

lemma owned_range_set:
  assumes "{b..<b + n} \<subseteq> owned s"
  shows "\<forall>i. b \<le> i \<and> i < b + n \<longrightarrow> bit_test (l1_map s) i" and "{b..<b + n} \<inter> cached s = {}"
    and "0 < n \<Longrightarrow> b + n \<le> pmm_bitmap_pages s"
proof -
  show "\<forall>i. b \<le> i \<and> i < b + n \<longrightarrow> bit_test (l1_map s) i" and "{b..<b + n} \<inter> cached s = {}"
    using assms by (auto simp: owned_def)
  assume "0 < n"
  then have "b + n - 1 \<in> owned s" using assms by auto
  then show "b + n \<le> pmm_bitmap_pages s" using \<open>0 < n\<close> by (auto simp: owned_def)
qed

lemma free_in_shard_locked_returns:
  assumes "pmm_wf s" and "0 < n" and "b + n \<le> pmm_bitmap_pages s"
  shows "returns s b n (free_in_shard_locked si b n s)"
  using mark_free_returns [OF assms] by (simp add: free_in_shard_locked_def Let_def)

lemma free_in_shard_locked_counts:
  assumes wf: "pmm_wf s" and cnt: "counts_for (l1_map s) s" and n: "0 < n"
    and b: "si * SHARD_PAGES \<le> b" "b + n \<le> (si + 1) * SHARD_PAGES" "b + n \<le> pmm_bitmap_pages s"
    and set: "\<forall>i. b \<le> i \<and> i < b + n \<longrightarrow> bit_test (l1_map s) i"
  shows "counts_for (l1_map (free_in_shard_locked si b n s)) (free_in_shard_locked si b n s)"
proof -
  have g: "geometry_ok s" using wf by (simp add: pmm_wf_def)
  note r = mark_free_returns [OF wf n b(3)]
  let ?t = "if b < hint (shards (mark_free b n s) si) then set_hint si b (mark_free b n s) else mark_free b n s"
  have t: "returns s b n ?t" "same_counters s ?t" using r by auto
  then have geo: "same_geometry s ?t" by (simp add: returns_def)
  have "b div SHARD_PAGES = si" using b n by (intro in_shard) auto
  then have "si < shard_count s" using geometry_bounds(5) [OF g, of b] b(3) n by auto
  then have si: "si < shard_count ?t" using geo by (simp add: same_geometry_def)
  have "counts_for (bits_clear (l1_map s) b (b + n)) (shard_free_add si n ?t)"
  proof (rule counts_for_add [OF _ si clear_range_in_shard [OF b(1,2) set]])
    show "counts_for (l1_map s) ?t" using cnt counts_for_cong [OF geo t(2)] by simp
    show "shard_count ?t * SHARD_PAGES < U64" using geometry_bounds(2) [OF geometry_ok_cong [OF geo g]] .
  qed
  moreover have "l1_map (free_in_shard_locked si b n s) = bits_clear (l1_map s) b (b + n)"
    using free_in_shard_locked_returns [OF wf n b(3), of si] by (simp add: returns_def)
  ultimately show ?thesis by (simp add: free_in_shard_locked_def Let_def)
qed

text \<open>Returning a range that a caller owns keeps the invariant and gives up exactly that range.\<close>

lemma free_in_shard_locked_spec:
  assumes inv: "pmm_inv s" and n: "0 < n" and b: "0 < b" "si * SHARD_PAGES \<le> b" "b + n \<le> (si + 1) * SHARD_PAGES"
    and own: "{b..<b + n} \<subseteq> owned s"
  defines "s' \<equiv> free_in_shard_locked si b n s"
  shows "pmm_inv s'" and "owned s' = owned s - {b..<b + n}" and "pmm_cache s' = pmm_cache s"
    and "pmm_bitmap_pages s' = pmm_bitmap_pages s"
proof -
  note o = owned_range_set [OF own]
  note r = free_in_shard_locked_returns [OF _ n o(3) [OF n], of si, folded s'_def]
  show "pmm_inv s'"
    using inv returns_wf [OF r _ b(1) o(3) [OF n]] returns_cache [OF r _ o(2)]
      free_in_shard_locked_counts [OF _ _ n b(2,3) o(3) [OF n] o(1), folded s'_def]
    by (simp add: pmm_inv_def)
  show "owned s' = owned s - {b..<b + n}" using r inv returns_owned by (simp add: pmm_inv_def)
  show "pmm_cache s' = pmm_cache s" "pmm_bitmap_pages s' = pmm_bitmap_pages s"
    using r inv by (auto simp: pmm_inv_def returns_def same_geometry_def)
qed

section \<open>Requests\<close>

text \<open>
  What a request of \<open>n\<close> pages may do: nothing, with a null pointer, or hand out a range of
  pages that nobody held. In both cases the invariant holds afterwards.
\<close>

definition granted :: "pmm \<Rightarrow> nat \<Rightarrow> nat \<times> pmm \<Rightarrow> bool" where
  "granted s n r \<longleftrightarrow>
     (let p = fst r; s' = snd r; b = p div PAGE_SIZE in
      pmm_inv s' \<and> pmm_bitmap_pages s' = pmm_bitmap_pages s
      \<and> (if p = 0 then owned s' = owned s
         else p mod PAGE_SIZE = 0 \<and> 0 < b \<and> b + n \<le> pmm_bitmap_pages s
           \<and> owned s \<inter> {b..<b + n} = {} \<and> owned s' = owned s \<union> {b..<b + n}))"

lemma granted_none: "pmm_inv s \<Longrightarrow> granted s n (0, s)"
  by (simp add: granted_def)

lemma takes_granted:
  assumes inv: "pmm_inv s" and t: "takes s b n s'" and cnt: "counts_for (l1_map s') s'"
    and b: "0 < b" "b + n \<le> pmm_bitmap_pages s" and free: "free_run (l1_map s) b n"
  shows "granted s n (b * PAGE_SIZE, s')"
proof -
  have "pmm_inv s'" using inv cnt takes_wf [OF t] takes_cache [OF t] by (simp add: pmm_inv_def)
  moreover have "owned s' = owned s \<union> {b..<b + n}" "owned s \<inter> {b..<b + n} = {}"
    using takes_owned [OF t b(2) free] inv by (auto simp: pmm_inv_def)
  moreover have "pmm_bitmap_pages s' = pmm_bitmap_pages s"
    using t by (simp add: takes_def same_geometry_def)
  ultimately show ?thesis using b by (simp add: granted_def)
qed

lemma shard_alloc_counts:
  assumes t: "takes s b n s'" and same: "same_counters s s'" and cnt: "counts_for (l1_map s) s"
    and si: "si < shard_count s" and free: "free_run (l1_map s) b n"
    and b: "si * SHARD_PAGES \<le> b" "b + n \<le> (si + 1) * SHARD_PAGES"
  shows "counts_for (l1_map s') (shard_free_sub si n s')"
proof -
  have geo: "same_geometry s s'" and l1: "l1_map s' = bits_set (l1_map s) b (b + n)"
    using t by (auto simp: takes_def)
  have "counts_for (l1_map s) s'" using cnt counts_for_cong [OF geo same] by simp
  moreover have "si < shard_count s'" using si geo by (simp add: same_geometry_def)
  ultimately show ?thesis unfolding l1 by (rule counts_for_sub) (rule set_range_in_shard [OF b free])+
qed

lemma request_loop_spec:
  assumes inv: "pmm_inv s" and n: "0 < n" and sis: "\<forall>si \<in> set sis. si < shard_count s"
    and eq: "request_loop n sis s = (p, s')"
  shows "p = 0 \<and> s' = s \<or> p \<noteq> 0 \<and> granted s n (p, s')"
  using sis eq
proof (induction sis)
  case (Cons si sis)
  show ?case
  proof (cases "sh_free_pages (shards s si) < n")
    case False
    obtain q t where q: "alloc_in_shard_locked si n s = (q, t)" by fastforce
    have wf: "pmm_wf s" "counts_for (l1_map s) s" using inv by (auto simp: pmm_inv_def)
    have si: "si < shard_count s" using Cons.prems by simp
    from wf(1) si n q show ?thesis
    proof (cases rule: alloc_in_shard_locked_spec)
      case none
      then show ?thesis using Cons False q by auto
    next
      case (run b)
      have "l1_map (shard_free_sub si n t) = l1_map t" by (simp add: shard_free_sub_def)
      then have "granted s n (b * PAGE_SIZE, shard_free_sub si n t)"
        using run shard_alloc_counts [OF run(7,8) wf(2) si run(6,3,4)]
        by (intro takes_granted [OF inv]) auto
      then show ?thesis using Cons.prems(2) False q run(1,2) by auto
    qed
  qed (use Cons in auto)
qed simp

lemma pmm_inv_irrelevant [simp]:
  "pmm_inv (s\<lparr>rr_seq := x\<rparr>) = pmm_inv s" "owned (s\<lparr>rr_seq := x\<rparr>) = owned s"
  "pmm_inv (s\<lparr>slow_hint := x\<rparr>) = pmm_inv s" "owned (s\<lparr>slow_hint := x\<rparr>) = owned s"
  "pmm_inv (s\<lparr>stat_req2m_ok := x\<rparr>) = pmm_inv s" "owned (s\<lparr>stat_req2m_ok := x\<rparr>) = owned s"
  "pmm_inv (s\<lparr>stat_req2m_fail := x\<rparr>) = pmm_inv s" "owned (s\<lparr>stat_req2m_fail := x\<rparr>) = owned s"
  "pmm_inv (s\<lparr>stat_req2gb_ok := x\<rparr>) = pmm_inv s" "owned (s\<lparr>stat_req2gb_ok := x\<rparr>) = owned s"
  "pmm_inv (s\<lparr>stat_req2gb_fail := x\<rparr>) = pmm_inv s" "owned (s\<lparr>stat_req2gb_fail := x\<rparr>) = owned s"
  by (simp_all add: pmm_inv_def pmm_wf_def geometry_ok_def counts_for_def cache_ok_def owned_def cached_def)

lemma granted_rr [simp]: "granted (s\<lparr>rr_seq := x\<rparr>) n r = granted s n r"
  by (simp add: granted_def)

section \<open>The slow path\<close>

lemma shard_free_sub_frame [simp]:
  "shard_count (shard_free_sub si k s) = shard_count s" "l1_map (shard_free_sub si k s) = l1_map s"
  "pmm_bitmap_pages (shard_free_sub si k s) = pmm_bitmap_pages s"
  "pmm_cache (shard_free_sub si k s) = pmm_cache s" "slow_hint (shard_free_sub si k s) = slow_hint s"
  by (simp_all add: shard_free_sub_def)

lemma slow_counts:
  assumes cnt: "counts_for m s" and free: "free_run m b n" and n: "0 < n" and hi: "b + n \<le> shard_count s * SHARD_PAGES"
  shows "counts_for (bits_set m b (b + n))
     (fold (\<lambda>si. shard_free_sub si (shard_hi (b + n) si - shard_lo b si))
        [b div SHARD_PAGES..<Suc ((b + n - 1) div SHARD_PAGES)] s)" (is "counts_for _ (fold ?f _ _)")
proof -
  let ?m = "\<lambda>k. bits_set m b (min (b + n) (k * SHARD_PAGES))"
  define a z where "a = b div SHARD_PAGES" and "z = (b + n - 1) div SHARD_PAGES"
  have z: "z * SHARD_PAGES < b + n" "b + n \<le> Suc z * SHARD_PAGES" using n by (auto simp: z_def)
  have a: "a * SHARD_PAGES \<le> b" "b < Suc a * SHARD_PAGES" by (auto simp: a_def)
  have "k \<le> Suc z \<Longrightarrow> shard_count (fold ?f [a..<k] s) = shard_count s \<and> counts_for (?m k) (fold ?f [a..<k] s)"
    if "a \<le> k" for k
    using that
  proof (induction k rule: dec_induct)
    case base
    then show ?case using cnt a by (simp add: bits_set_empty min.coboundedI2)
  next
    case (step k)
    let ?lo = "shard_lo b k" and ?hi = "shard_hi (b + n) k"
    have kz: "k * SHARD_PAGES \<le> z * SHARD_PAGES" and ka: "Suc a * SHARD_PAGES \<le> Suc k * SHARD_PAGES"
      using step by (auto intro!: mult_right_mono)
    have lo: "?lo = max b (k * SHARD_PAGES)" and hi': "?hi = min (b + n) ((k + 1) * SHARD_PAGES)"
      by (auto simp: shard_lo_def shard_hi_def)
    have le: "?lo \<le> ?hi" using kz ka z a unfolding lo hi' by simp
    have "free_run (?m k) ?lo (?hi - ?lo)"
      using free unfolding free_run_def lo hi' by (auto simp: bitmap_simps)
    then have *: "same_outside k (?m k) (bits_set (?m k) ?lo ?hi)"
      "shard_free (bits_set (?m k) ?lo ?hi) k + (?hi - ?lo) = shard_free (?m k) k"
      using set_range_in_shard [of k ?lo "?hi - ?lo" "?m k"] le by (auto simp: lo hi')
    have "bits_set (?m k) ?lo ?hi = ?m (Suc k)"
      using le by (intro bitmap_eqI) (auto simp: bitmap_simps lo hi')
    moreover have "k < shard_count s"
    proof (rule ccontr)
      assume "\<not> k < shard_count s"
      then have "shard_count s * SHARD_PAGES \<le> k * SHARD_PAGES" by (intro mult_right_mono) auto
      then show False using kz z(1) hi by linarith
    qed
    ultimately show ?case
      using step * counts_for_sub [of "?m k" "fold ?f [a..<k] s" k "?m (Suc k)" "?hi - ?lo"]
      by (auto simp: fold_upt_snoc)
  qed
  from this [of "Suc z"] have "counts_for (?m (Suc z)) (fold ?f [a..<Suc z] s)"
    using n by (simp add: a_def z_def div_le_mono)
  moreover have "min (b + n) (Suc z * SHARD_PAGES) = b + n" using z(2) by (rule min.absorb1)
  ultimately show ?thesis by (simp only: a_def z_def)
qed

lemma takes_fold_sub [simp]:
  "takes s b n (fold (\<lambda>si. shard_free_sub si (f si)) xs t) = takes s b n t"
  by (induction xs arbitrary: t) auto

lemma l1_map_fold_sub [simp]: "l1_map (fold (\<lambda>si. shard_free_sub si (f si)) xs t) = l1_map t"
  by (induction xs arbitrary: t) auto

lemma takes_slow_hint [simp]:
  "takes s b n (t\<lparr>slow_hint := x\<rparr>) = takes s b n t" "counts_for m (t\<lparr>slow_hint := x\<rparr>) = counts_for m t"
  by (simp_all add: takes_def same_geometry_def counts_for_def)

lemma alloc_global_slowpath_spec:
  assumes inv: "pmm_inv s" and n: "0 < n" and eq: "alloc_global_slowpath n s = (p, s')"
  shows "granted s n (p, s')"
    and "p = 0 \<Longrightarrow> s' = s \<and> (\<forall>b. b + n \<le> pmm_bitmap_pages s \<and> free_run (l1_map s) b n \<longrightarrow>
           b < slow_hint s \<and> slow_hint s < b + n)"
proof -
  have wf: "pmm_wf s" and cnt: "counts_for (l1_map s) s" and g: "geometry_ok s"
    using inv by (auto simp: pmm_inv_def pmm_wf_def)
  let ?P = "pmm_bitmap_pages s"
  define h where "h = (if slow_hint s > ?P then ?P else slow_hint s)"
  have h: "h \<le> ?P" by (simp add: h_def)
  obtain r1 where r1: "scan_for_run h ?P n s = (r1, s)" "run_spec (l1_map s) h ?P n r1"
    using scan_wf [OF wf order_refl n] by blast
  obtain r2 where r2: "scan_for_run 0 h n s = (r2, s)" "run_spec (l1_map s) 0 h n r2"
    using scan_wf [OF wf h n] by blast
  have none: "\<not> h < ?P \<Longrightarrow> r1 = None" using r1(1) by (simp add: scan_for_run_def)
  define r where "r = (if r1 = None \<and> h > 0 then r2 else r1)"
  note found = two_scans [OF r1(2) r2(2) le0 h, folded r_def]
  have "alloc_global_slowpath n s = (case r of None \<Rightarrow> (0, s) | Some b \<Rightarrow>
      (b * PAGE_SIZE, fold (\<lambda>si. shard_free_sub si (shard_hi (b + n) si - shard_lo b si))
         [b div SHARD_PAGES..<Suc ((b + n - 1) div SHARD_PAGES)] ((mark_allocated b n s)\<lparr>slow_hint := b + n\<rparr>)))"
    unfolding alloc_global_slowpath_def Let_def h_def [symmetric] r1(1)
    using r2(1) none by (simp add: r_def)
  note e = this [unfolded eq]
  show "granted s n (p, s')"
  proof (cases r)
    case None
    then show ?thesis using e granted_none [OF inv] by simp
  next
    case (Some b)
    then have b: "b + n \<le> ?P" "free_run (l1_map s) b n" using found by (auto simp: run_found_def)
    then have "0 < b"
      using n wf not_free_run [of 0 0 n "l1_map s"] by (cases b) (auto simp: pmm_wf_def)
    note t = mark_allocated_takes [OF wf n b(1)]
    let ?t = "mark_allocated b n s"
    have geo: "same_geometry s ?t" and l1: "l1_map ?t = bits_set (l1_map s) b (b + n)"
      using t(1) by (auto simp: takes_def)
    have "counts_for (l1_map s) (?t\<lparr>slow_hint := b + n\<rparr>)" using cnt counts_for_cong [OF geo t(2)] by simp
    moreover have "b + n \<le> shard_count (?t\<lparr>slow_hint := b + n\<rparr>) * SHARD_PAGES"
      using b(1) geometry_bounds(1) [OF g] geo by (simp add: same_geometry_def)
    ultimately have "counts_for (bits_set (l1_map s) b (b + n)) s'"
      using slow_counts [OF _ b(2) n] e Some by simp
    moreover have tk: "takes s b n s'" and p: "p = b * PAGE_SIZE" using e Some t(1) by simp_all
    ultimately have "counts_for (l1_map s') s'" by (simp add: takes_def)
    then show ?thesis unfolding p by (rule takes_granted [OF inv tk _ \<open>0 < b\<close> b(1,2)])
  qed
  assume p: "p = 0"
  have "0 < b" if "r = Some b" for b
    using that found n wf not_free_run [of 0 0 n "l1_map s"]
    by (cases b) (auto simp: pmm_wf_def run_found_def)
  then have "r = None" using e p by (cases r) auto
  then have "s' = s" and "b + n \<le> ?P \<and> free_run (l1_map s) b n \<Longrightarrow> b < h \<and> h < b + n" for b
    using e found by (auto simp: run_found_def)
  then show "s' = s \<and> (\<forall>b. b + n \<le> ?P \<and> free_run (l1_map s) b n \<longrightarrow>
           b < slow_hint s \<and> slow_hint s < b + n)"
    unfolding h_def by (metis leD leI)
qed

lemma rr_index_less: "first < count \<Longrightarrow> t < count \<Longrightarrow> rr_index count first t < count"
  by (auto simp: rr_index_def)

lemma rr_index_range: "first < count \<Longrightarrow> rr_index count first ` {0..<count} = {0..<count}"
proof
  assume f: "first < count"
  show "{0..<count} \<subseteq> rr_index count first ` {0..<count}"
  proof
    fix x assume x: "x \<in> {0..<count}"
    let ?t = "if first \<le> x then x - first else x + count - first"
    have "?t \<in> {0..<count}" "rr_index count first ?t = x" using f x by (auto simp: rr_index_def)
    then show "x \<in> rr_index count first ` {0..<count}" by (metis imageI)
  qed
qed (auto simp: rr_index_def)

lemma shard_rr_first_spec:
  assumes "pmm_inv s" and "shard_rr_first s = (first, s1)"
  shows "first < shard_count s" and "s1 = s\<lparr>rr_seq := add64 (rr_seq s) 1\<rparr>"
  using assms geometry_bounds(3) [of s] by (auto simp: shard_rr_first_def pmm_inv_def pmm_wf_def)

text \<open>
  A failed request has left the state alone but for the round-robin counter, and
  the only free runs of its size straddle the hint of the slow path.
\<close>

definition only_straddling :: "pmm \<Rightarrow> nat \<Rightarrow> bool" where
  "only_straddling s n \<longleftrightarrow>
     (\<forall>b. b + n \<le> pmm_bitmap_pages s \<and> free_run (l1_map s) b n \<longrightarrow> b < slow_hint s \<and> slow_hint s < b + n)"

lemma only_straddling_rr [simp]: "only_straddling (s\<lparr>rr_seq := x\<rparr>) n = only_straddling s n"
  by (simp add: only_straddling_def)

lemma request_general_spec:
  assumes inv: "pmm_inv s" and n: "0 < n" and eq: "request_general n s = (p, s')"
  shows "granted s n (p, s')" and "p = 0 \<Longrightarrow> only_straddling s n"
proof -
  have slow: "granted t n r \<and> (fst r = 0 \<longrightarrow> only_straddling t n)"
    if "pmm_inv t" "r = alloc_global_slowpath n t" for t r
    using alloc_global_slowpath_spec [OF that(1) n, of "fst r" "snd r"] that(2)
    by (auto simp: only_straddling_def)
  have "granted s n (p, s') \<and> (p = 0 \<longrightarrow> only_straddling s n)"
  proof (cases "n \<le> SHARD_PAGES")
    case True
    obtain first s1 where f: "shard_rr_first s = (first, s1)" by fastforce
    note rr = shard_rr_first_spec [OF inv f]
    define sis where "sis = map (rr_index (shard_count s) first) [0..<shard_count s]"
    obtain q t where q: "request_loop n sis s1 = (q, t)" by fastforce
    have inv1: "pmm_inv s1" using inv rr(2) by simp
    have "\<forall>si \<in> set sis. si < shard_count s1" using rr rr_index_less [OF rr(1)] by (auto simp: sis_def)
    from request_loop_spec [OF inv1 n this q]
    have l: "q = 0 \<and> t = s1 \<or> q \<noteq> 0 \<and> granted s n (q, t)" using rr(2) by simp
    have "(p, s') = (if q \<noteq> 0 then (q, t) else alloc_global_slowpath n t)"
      using eq True f q by (simp add: request_general_def sis_def)
    then show ?thesis using l slow [OF inv1 refl] rr(2)
      by (cases "alloc_global_slowpath n s1") (auto split: if_splits)
  next
    case False
    then show ?thesis using slow [OF inv refl] eq by (simp add: request_general_def)
  qed
  then show "granted s n (p, s')" and "p = 0 \<Longrightarrow> only_straddling s n" by auto
qed

section \<open>What one shard's critical sections touch\<close>

text \<open>\<open>s'\<close> differs from \<open>s\<close> only in the words, the bit and the descriptor of shard \<open>si\<close>.\<close>

definition only_shard :: "nat \<Rightarrow> pmm \<Rightarrow> pmm \<Rightarrow> bool" where
  "only_shard si s s' \<longleftrightarrow>
     (\<forall>w. w div (L2_PER_L3 * L2_L1_WORDS) \<noteq> si \<longrightarrow> l1_map s' w = l1_map s w)
     \<and> (\<forall>w. w div L3_L2_WORDS \<noteq> si \<longrightarrow> l2_map s' w = l2_map s w)
     \<and> (\<forall>l3. l3 \<noteq> si \<longrightarrow> bit_test (l3_map s') l3 = bit_test (l3_map s) l3)
     \<and> (\<forall>j. j \<noteq> si \<longrightarrow> shards s' j = shards s j)"

lemma same_outside_maps:
  assumes out: "same_outside si m1 m1'" and ag: "maps_agree m1 m2 m3" "maps_agree m1' m2' m3'"
  shows "w div (L2_PER_L3 * L2_L1_WORDS) \<noteq> si \<Longrightarrow> m1' w = m1 w" and "v div L3_L2_WORDS \<noteq> si \<Longrightarrow> m2' v = m2 v"
    and "l3 \<noteq> si \<Longrightarrow> bit_test m3' l3 = bit_test m3 l3"
proof -
  have l2: "bit_test m2' l2 = bit_test m2 l2" if "l2 div L2_PER_L3 \<noteq> si" for l2
  proof -
    have "bit_test m1' i = bit_test m1 i" if "l2 * L2_PAGES \<le> i" "i < (l2 + 1) * L2_PAGES" for i
    proof -
      have "i div L2_PAGES = l2" using that by (auto intro!: div_nat_eqI simp: algebra_simps)
      moreover have "i div SHARD_PAGES = i div L2_PAGES div L2_PER_L3" by (simp add: div_mult2_eq [symmetric])
      ultimately have "i div SHARD_PAGES = l2 div L2_PER_L3" by simp
      then show ?thesis using out \<open>l2 div L2_PER_L3 \<noteq> si\<close> by (simp add: same_outside_def)
    qed
    then show ?thesis using ag unfolding maps_agree_def l2_agree_def by blast
  qed
  show "m1' w = m1 w" if "w div (L2_PER_L3 * L2_L1_WORDS) \<noteq> si"
  proof (rule u64_eqI)
    fix j :: nat assume j: "j < 64"
    have "(w * 64 + j) div SHARD_PAGES = (w * 64 + j) div 64 div (L2_PER_L3 * L2_L1_WORDS)"
      by (simp add: div_mult2_eq [symmetric])
    then have "(w * 64 + j) div SHARD_PAGES \<noteq> si" using that j by simp
    then show "bit (m1' w) j = bit (m1 w) j" using out j by (simp add: bit_word_test same_outside_def)
  qed
  show "m2' v = m2 v" if "v div L3_L2_WORDS \<noteq> si"
  proof (rule u64_eqI)
    fix j :: nat assume j: "j < 64"
    have "(v * 64 + j) div L2_PER_L3 = (v * 64 + j) div 64 div L3_L2_WORDS"
      by (simp add: div_mult2_eq [symmetric])
    then have "(v * 64 + j) div L2_PER_L3 \<noteq> si" using that j by simp
    then show "bit (m2' v) j = bit (m2 v) j" using l2 j by (simp add: bit_word_test)
  qed
  show "bit_test m3' l3 = bit_test m3 l3" if "l3 \<noteq> si"
  proof -
    have "l2 div L2_PER_L3 = l3" if "l3 * L2_PER_L3 \<le> l2" "l2 < (l3 + 1) * L2_PER_L3" for l2
      using that by (auto intro!: div_nat_eqI simp: algebra_simps)
    then have "bit_test m2' l2 = bit_test m2 l2" if "l3 * L2_PER_L3 \<le> l2" "l2 < (l3 + 1) * L2_PER_L3" for l2
      using l2 \<open>l3 \<noteq> si\<close> that by blast
    then show ?thesis using ag unfolding maps_agree_def l3_agree_def by blast
  qed
qed

lemma alloc_in_shard_locked_only:
  assumes wf: "pmm_wf s" and si: "si < shard_count s" and n: "0 < n"
  shows "only_shard si s (snd (alloc_in_shard_locked si n s))"
proof -
  obtain p s' where e: "alloc_in_shard_locked si n s = (p, s')" by fastforce
  from wf si n e show ?thesis
  proof (cases rule: alloc_in_shard_locked_spec)
    case none
    then show ?thesis using e by (simp add: only_shard_def)
  next
    case (run b)
    have "maps_agree (l1_map s) (l2_map s) (l3_map s)" "maps_agree (l1_map s') (l2_map s') (l3_map s')"
      and "same_outside si (l1_map s) (l1_map s')"
      using wf run(7) set_range_in_shard(1) [OF run(3,4,6)] by (auto simp: pmm_wf_def takes_def)
    from same_outside_maps [OF this(3,1,2)] show ?thesis using run(9) e by (simp add: only_shard_def)
  qed
qed

lemma free_in_shard_locked_only:
  assumes wf: "pmm_wf s" and n: "0 < n" and b: "si * SHARD_PAGES \<le> b" "b + n \<le> (si + 1) * SHARD_PAGES" "b + n \<le> pmm_bitmap_pages s"
  shows "only_shard si s (free_in_shard_locked si b n s)"
proof -
  let ?s = "free_in_shard_locked si b n s"
  have "maps_agree (l1_map s) (l2_map s) (l3_map s)" "maps_agree (l1_map ?s) (l2_map ?s) (l3_map ?s)"
    and l1: "l1_map ?s = bits_clear (l1_map s) b (b + n)"
    using wf free_in_shard_locked_returns [OF wf n b(3), of si] by (auto simp: pmm_wf_def returns_def)
  moreover have "i div SHARD_PAGES = si" if "b \<le> i" "i < b + n" for i
    using that b(1,2) by (intro in_shard) simp_all
  then have "same_outside si (l1_map s) (l1_map ?s)" unfolding l1 by (auto simp: same_outside_def bitmap_simps)
  moreover have "\<forall>j. j \<noteq> si \<longrightarrow> shards ?s j = shards s j"
    using mark_frame(3) [OF wf n b(3)]
    by (auto simp: free_in_shard_locked_def Let_def shard_free_add_def set_hint_def)
  ultimately show ?thesis using same_outside_maps by (simp add: only_shard_def)
qed

end
