(* ===== verification/PMM_Cache.thy ===== *)
theory PMM_Cache
  imports PMM_Ops
begin

text \<open>
  The per-CPU page caches: refilling them from a shard, draining them back, and the two
  exported calls \<open>Request\<close> and \<open>Free\<close> that use them.
\<close>

section \<open>Refilling\<close>

lemma cached_append:
  "cached (s\<lparr>pmm_cache := (pmm_cache s)(cpu := pmm_cache s cpu @ [p])\<rparr>) = insert (p div PAGE_SIZE) (cached s)"
  by (auto simp: cached_def)

text \<open>A page in nobody's cache may be put into one.\<close>

lemma cache_ok_append:
  assumes ok: "cache_ok s" and len: "length (pmm_cache s cpu) < PMM_PCP_MAX"
    and p: "p mod PAGE_SIZE = 0" "p \<noteq> 0" "p div PAGE_SIZE < pmm_bitmap_pages s"
      "bit_test (l1_map s) (p div PAGE_SIZE)" "p div PAGE_SIZE \<notin> cached s"
  shows "cache_ok (s\<lparr>pmm_cache := (pmm_cache s)(cpu := pmm_cache s cpu @ [p])\<rparr>)"
proof -
  have "p \<notin> set (pmm_cache s c)" for c using p(5) by (auto simp: cached_def)
  then show ?thesis using ok len p(1-4) by (auto simp: cache_ok_def)
qed

lemma owned_append:
  "owned (s\<lparr>pmm_cache := (pmm_cache s)(cpu := pmm_cache s cpu @ [p])\<rparr>) = owned s - {p div PAGE_SIZE}"
  using cached_append [of s cpu p] by (auto simp: owned_def)

lemma wf_cache_irrelevant [simp]:
  "pmm_wf (s\<lparr>pmm_cache := c\<rparr>) = pmm_wf s" "counts_for m (s\<lparr>pmm_cache := c\<rparr>) = counts_for m s"
  "same_geometry t (s\<lparr>pmm_cache := c\<rparr>) = same_geometry t s"
  by (simp_all add: pmm_wf_def geometry_ok_def counts_for_def same_geometry_def)

text \<open>
  While a batch is collected the counters still count the map \<open>m\<close> of the beginning;
  \<open>j\<close> pages have been taken from shard \<open>si\<close> since.
\<close>

definition collecting :: "nat \<Rightarrow> bitmap \<Rightarrow> nat \<Rightarrow> pmm \<Rightarrow> bool" where
  "collecting si m j s \<longleftrightarrow> pmm_wf s \<and> cache_ok s \<and> si < shard_count s \<and> counts_for m s
     \<and> same_outside si m (l1_map s) \<and> shard_free (l1_map s) si + j = shard_free m si"

lemma same_outside_trans: "same_outside si m m' \<Longrightarrow> same_outside si m' m'' \<Longrightarrow> same_outside si m m''"
  by (simp add: same_outside_def)

lemma collecting_take:
  assumes c: "collecting si m j s" and t: "takes s b n s'" "same_counters s s'"
    and b: "si * SHARD_PAGES \<le> b" "b + n \<le> (si + 1) * SHARD_PAGES" and free: "free_run (l1_map s) b n"
  shows "collecting si m (j + n) s'"
proof -
  have geo: "same_geometry s s'" and l1: "l1_map s' = bits_set (l1_map s) b (b + n)"
    using t by (auto simp: takes_def)
  note r = set_range_in_shard [OF b free, folded l1]
  show ?thesis
    using c r takes_wf [OF t(1)] takes_cache [OF t(1)] counts_for_cong [OF geo t(2)] geo
    by (auto simp: collecting_def same_geometry_def intro: same_outside_trans)
qed

lemma collecting_append:
  assumes "collecting si m j s" and "length (pmm_cache s cpu) < PMM_PCP_MAX"
    and "0 < b" "b < pmm_bitmap_pages s" "bit_test (l1_map s) b" "b \<notin> cached s"
  shows "collecting si m j (s\<lparr>pmm_cache := (pmm_cache s)(cpu := pmm_cache s cpu @ [b * PAGE_SIZE])\<rparr>)"
  using assms cache_ok_append [of s cpu "b * PAGE_SIZE"] by (auto simp: collecting_def)

lemma pcp_fill_spec:
  fixes cpu k :: nat
  assumes "collecting si m j s"
  defines "s' \<equiv> pcp_fill cpu si k s"
  shows "collecting si m (j + (length (pmm_cache s' cpu) - length (pmm_cache s cpu))) s'"
    and "length (pmm_cache s cpu) \<le> length (pmm_cache s' cpu)"
    and "owned s' = owned s" and "same_geometry s s'"
proof -
  have "collecting si m (j + (length (pmm_cache (pcp_fill cpu si k s) cpu) - length (pmm_cache s cpu))) (pcp_fill cpu si k s)
     \<and> length (pmm_cache s cpu) \<le> length (pmm_cache (pcp_fill cpu si k s) cpu)
     \<and> owned (pcp_fill cpu si k s) = owned s \<and> same_geometry s (pcp_fill cpu si k s)"
    using assms(1)
  proof (induction k arbitrary: s j)
    case (Suc k)
    show ?case
    proof (cases "length (pmm_cache s cpu) \<ge> PMM_PCP_MAX")
      case False
      obtain q t where q: "alloc_in_shard_locked si 1 s = (q, t)" by fastforce
      have wf: "pmm_wf s" "si < shard_count s" "cache_ok s" using Suc.prems by (auto simp: collecting_def)
      from wf(1,2) zero_less_one q show ?thesis
      proof (cases rule: alloc_in_shard_locked_spec)
        case none
        then show ?thesis using False q Suc.prems by simp
      next
        case (run b)
        let ?u = "t\<lparr>pmm_cache := (pmm_cache t)(cpu := pmm_cache t cpu @ [b * PAGE_SIZE])\<rparr>"
        note own = takes_owned [OF run(7,5,6) wf(3)]
        have cache: "pmm_cache t = pmm_cache s" and geo: "same_geometry s t"
          and bit: "bit_test (l1_map t) b" using run(7) by (auto simp: takes_def bitmap_simps)
        have b: "b \<in> owned t" "b \<notin> owned s" using own by auto
        then have nc: "b \<notin> cached t" "b < pmm_bitmap_pages t" by (auto simp: owned_def)
        have "collecting si m (j + 1) ?u"
          using collecting_take [OF Suc.prems run(7,8,3,4,6)] False bit nc run(2) cache
          by (intro collecting_append) auto
        from Suc.IH [OF this] have IH: "collecting si m (j + 1 + (length (pmm_cache (pcp_fill cpu si k ?u) cpu)
              - length (pmm_cache ?u cpu))) (pcp_fill cpu si k ?u)"
          "length (pmm_cache ?u cpu) \<le> length (pmm_cache (pcp_fill cpu si k ?u) cpu)"
          "owned (pcp_fill cpu si k ?u) = owned ?u" "same_geometry ?u (pcp_fill cpu si k ?u)" by auto
        have "owned ?u = owned s" using own b owned_append [of t cpu "b * PAGE_SIZE"] by auto
        moreover have L: "pcp_fill cpu si (Suc k) s = pcp_fill cpu si k ?u" using False q run(1,2) by simp
        have ar: "j + 1 + (length (pmm_cache (pcp_fill cpu si k ?u) cpu) - length (pmm_cache ?u cpu))
            = j + (length (pmm_cache (pcp_fill cpu si k ?u) cpu) - length (pmm_cache s cpu))"
          using IH(2) cache by simp
        have "length (pmm_cache s cpu) \<le> length (pmm_cache (pcp_fill cpu si k ?u) cpu)"
          using IH(2) cache by simp
        moreover have "same_geometry s ?u" using geo by simp
        ultimately show ?thesis
          unfolding L using IH(1) [unfolded ar] IH(3) same_geometry_trans [OF _ IH(4)] by blast
      qed
    qed (use Suc in simp)
  qed simp
  then show "collecting si m (j + (length (pmm_cache s' cpu) - length (pmm_cache s cpu))) s'"
    and "length (pmm_cache s cpu) \<le> length (pmm_cache s' cpu)"
    and "owned s' = owned s" and "same_geometry s s'" by (auto simp: s'_def)
qed

lemma collecting_start: "pmm_inv s \<Longrightarrow> si < shard_count s \<Longrightarrow> collecting si (l1_map s) 0 s"
  by (simp add: collecting_def pmm_inv_def same_outside_def)

lemma owned_sub [simp]: "owned (shard_free_sub si k s) = owned s"
  by (simp add: owned_def cached_def shard_free_sub_def)

lemma collecting_finish:
  assumes "collecting si m j s"
  shows "pmm_inv (shard_free_sub si j s)"
proof -
  have "pmm_wf (shard_free_sub si j s)" "cache_ok (shard_free_sub si j s)"
    using assms by (auto simp: collecting_def pmm_wf_def geometry_ok_def shard_free_sub_def cache_ok_def)
  moreover have "counts_for (l1_map s) (shard_free_sub si j s)"
    using assms by (auto simp: collecting_def intro: counts_for_sub)
  ultimately show ?thesis by (simp add: pmm_inv_def)
qed

lemma pcp_refill_loop_spec:
  assumes inv: "pmm_inv s" and sis: "\<forall>si \<in> set sis. si < shard_count s"
    and eq: "pcp_refill_loop cpu sis s = (p, s')"
  shows "p = 0 \<and> s' = s \<or> p \<noteq> 0 \<and> granted s 1 (p, s')"
  using sis eq
proof (induction sis)
  case (Cons si sis)
  show ?case
  proof (cases "sh_free_pages (shards s si) = 0")
    case False
    obtain q t where q: "alloc_in_shard_locked si 1 s = (q, t)" by fastforce
    have wf: "pmm_wf s" "cache_ok s" and si: "si < shard_count s"
      using inv Cons.prems by (auto simp: pmm_inv_def)
    from wf(1) si zero_less_one q show ?thesis
    proof (cases rule: alloc_in_shard_locked_spec)
      case none
      then show ?thesis using Cons False q by auto
    next
      case (run b)
      have c: "collecting si (l1_map s) (0 + 1) t"
        using collecting_take [OF collecting_start [OF inv si] run(7,8,3,4,6)] .
      note fill = pcp_fill_spec [OF c, of cpu PMM_PCP_BATCH]
      let ?u = "pcp_fill cpu si PMM_PCP_BATCH t"
      let ?j = "length (pmm_cache ?u cpu) - length (pmm_cache t cpu)"
      have e: "p = b * PAGE_SIZE" "s' = shard_free_sub si (1 + ?j) ?u"
        using Cons.prems(2) False q run(1,2) by (auto simp: Let_def)
      have "pmm_inv s'" using collecting_finish [OF fill(1)] e by simp
      moreover have "owned s' = owned s \<union> {b..<b + 1}" "owned s \<inter> {b..<b + 1} = {}"
        using takes_owned [OF run(7,5,6) wf(2)] fill(3) e by auto
      moreover have "pmm_bitmap_pages s' = pmm_bitmap_pages s"
        using fill(4) run(7) e by (simp add: same_geometry_def takes_def)
      ultimately show ?thesis using e run(2,5) by (simp add: granted_def)
    qed
  qed (use Cons in auto)
qed simp

lemma pcp_refill_spec:
  assumes inv: "pmm_inv s" and eq: "pcp_refill cpu s = (p, s')"
  shows "p = 0 \<and> s' = s\<lparr>rr_seq := add64 (rr_seq s) 1\<rparr> \<or> p \<noteq> 0 \<and> granted s 1 (p, s')"
proof -
  obtain first s1 where f: "shard_rr_first s = (first, s1)" by fastforce
  note rr = shard_rr_first_spec [OF inv f]
  have "pmm_inv s1" using inv rr(2) by simp
  moreover have "\<forall>si \<in> set (map (rr_index (shard_count s) first) [0..<shard_count s]). si < shard_count s1"
    using rr rr_index_less [OF rr(1)] by auto
  moreover have "pcp_refill_loop cpu (map (rr_index (shard_count s) first) [0..<shard_count s]) s1 = (p, s')"
    using eq f by (simp add: pcp_refill_def)
  ultimately show ?thesis using pcp_refill_loop_spec rr(2) by fastforce
qed

section \<open>Request\<close>

lemma cache_okD:
  assumes "cache_ok s" and "p \<in> set (pmm_cache s cpu)"
  shows "p mod PAGE_SIZE = 0" "p \<noteq> 0" "p div PAGE_SIZE < pmm_bitmap_pages s"
    "bit_test (l1_map s) (p div PAGE_SIZE)"
  using assms by (auto simp: cache_ok_def)

lemma cached_butlast:
  assumes ok: "cache_ok s" and ne: "pmm_cache s cpu \<noteq> []"
  shows "cached (s\<lparr>pmm_cache := (pmm_cache s)(cpu := butlast (pmm_cache s cpu))\<rparr>)
     = cached s - {last (pmm_cache s cpu) div PAGE_SIZE}" (is "cached ?t = _")
proof -
  let ?p = "last (pmm_cache s cpu)"
  have split: "pmm_cache s cpu = butlast (pmm_cache s cpu) @ [?p]" using ne by simp
  have d: "distinct (butlast (pmm_cache s cpu) @ [?p])" and al: "\<forall>c. \<forall>q \<in> set (pmm_cache s c). q mod PAGE_SIZE = 0"
    and dis: "\<forall>c c'. c \<noteq> c' \<longrightarrow> set (pmm_cache s c) \<inter> set (pmm_cache s c') = {}"
    using ok ne by (auto simp: cache_ok_def)
  have pin: "?p \<in> set (pmm_cache s cpu)" using ne by simp
  have inj: "q = ?p" if "q \<in> set (pmm_cache s c)" "q div PAGE_SIZE = ?p div PAGE_SIZE" for q c
  proof -
    have "q mod PAGE_SIZE = ?p mod PAGE_SIZE" using al that(1) pin by auto
    then show ?thesis using that(2) by (metis mult_div_mod_eq)
  qed
  have mem: "q \<in> set (pmm_cache ?t c) \<longleftrightarrow> q \<in> set (pmm_cache s c) \<and> q \<noteq> ?p" for q c
  proof (cases "c = cpu")
    case True
    have "set (pmm_cache s cpu) = insert ?p (set (butlast (pmm_cache s cpu)))" by (subst split) simp
    then show ?thesis using True d by auto
  next
    case False
    then have "?p \<notin> set (pmm_cache s c)" using dis pin by fastforce
    then show ?thesis using False by auto
  qed
  have "cached ?t = {q div PAGE_SIZE | q c. q \<in> set (pmm_cache s c) \<and> q \<noteq> ?p}"
    unfolding cached_def mem ..
  also have "\<dots> = cached s - {?p div PAGE_SIZE}" using inj unfolding cached_def by auto
  finally show ?thesis .
qed

lemma cache_ok_sub:
  assumes ok: "cache_ok s" and sub: "\<And>c. set (pmm_cache t c) \<subseteq> set (pmm_cache s c)"
    and len: "\<And>c. length (pmm_cache t c) \<le> length (pmm_cache s c)" and dist: "\<And>c. distinct (pmm_cache t c)"
    and frame: "l1_map t = l1_map s" "pmm_bitmap_pages t = pmm_bitmap_pages s"
  shows "cache_ok t"
proof -
  have "set (pmm_cache t c) \<inter> set (pmm_cache t c') = {}" if "c \<noteq> c'" for c c'
    using sub [of c] sub [of c'] that ok by (fastforce simp: cache_ok_def)
  moreover have "length (pmm_cache t c) \<le> PMM_PCP_MAX" for c
    using len [of c] ok by (auto simp: cache_ok_def intro: order_trans)
  ultimately show ?thesis
    using cache_okD [OF ok subsetD [OF sub]] dist unfolding cache_ok_def frame by blast
qed

lemma cache_ok_butlast:
  assumes "cache_ok s"
  shows "cache_ok (s\<lparr>pmm_cache := (pmm_cache s)(cpu := butlast (pmm_cache s cpu))\<rparr>)"
  using assms by (intro cache_ok_sub [OF assms])
    (auto simp: cache_ok_def distinct_butlast dest: in_set_butlastD)

lemma pop_granted:
  assumes inv: "pmm_inv s" and ne: "pmm_cache s cpu \<noteq> []"
  shows "granted s 1 (last (pmm_cache s cpu), s\<lparr>pmm_cache := (pmm_cache s)(cpu := butlast (pmm_cache s cpu))\<rparr>)"
    (is "granted s 1 (?p, ?t)")
proof -
  let ?b = "?p div PAGE_SIZE"
  have ok: "cache_ok s" using inv by (simp add: pmm_inv_def)
  have p: "?p mod PAGE_SIZE = 0" "?p \<noteq> 0" "?b < pmm_bitmap_pages s" "bit_test (l1_map s) ?b" "?b \<in> cached s"
    using cache_okD [OF ok last_in_set [OF ne]] last_in_set [OF ne] by (auto simp: cached_def)
  have "pmm_inv ?t" using inv cache_ok_butlast [OF ok, of cpu] by (simp add: pmm_inv_def)
  moreover have "owned ?t = owned s \<union> {?b}"
    using cached_butlast [OF ok ne] p by (auto simp: owned_def)
  moreover have "?b \<notin> owned s" using p(5) by (simp add: owned_def)
  moreover have "0 < ?b" using p(1,2) by (metis mod_0_imp_dvd dvd_div_eq_0_iff gr0I)
  ultimately show ?thesis using p by (simp add: granted_def)
qed

lemma granted_trans_rr: "granted (s\<lparr>rr_seq := x\<rparr>) n r \<Longrightarrow> granted s n r"
  by simp

lemma Request_spec:
  assumes inv: "pmm_inv s" and eq: "Request this_cpu n s = (p, s')"
  shows "granted s n (p, s')"
    and "p = 0 \<Longrightarrow> n = 0 \<or> n > pmm_bitmap_pages s \<or> only_straddling s n"
proof -
  have gen: "granted t n r \<and> (fst r = 0 \<longrightarrow> only_straddling t n)"
    if "pmm_inv t" "0 < n" "r = request_general n t" for t r
    using request_general_spec [OF that(1,2), of "fst r" "snd r"] that(3) by auto
  have "granted s n (p, s') \<and> (p = 0 \<longrightarrow> n = 0 \<or> n > pmm_bitmap_pages s \<or> only_straddling s n)"
  proof (cases "n = 0 \<or> n > pmm_bitmap_pages s")
    case True
    then show ?thesis using eq granted_none [OF inv] by (auto simp: Request_def)
  next
    case False
    show ?thesis
    proof (cases "\<exists>cpu. n = 1 \<and> this_cpu = Some cpu")
      case True
      then obtain cpu where n1: "n = 1" and cpu: "this_cpu = Some cpu" by auto
      show ?thesis
      proof (cases "pmm_cache s cpu = []")
        case True
        obtain q t where q: "pcp_refill cpu s = (q, t)" by fastforce
        from pcp_refill_spec [OF inv q] show ?thesis
          using eq gen [of t, OF _ _ refl] inv False True cpu q n1
          by (auto simp: Request_def)
      next
        case ne: False
        have "?thesis \<longleftrightarrow> granted s 1 (p, s') \<and> p \<noteq> 0 \<or> granted s 1 (p, s') \<and> (p = 0 \<longrightarrow> only_straddling s 1)"
          using n1 False by auto
        moreover have "p \<noteq> 0" using eq ne n1 cpu False inv cache_okD [OF _ last_in_set [OF ne]]
          by (auto simp: Request_def pmm_inv_def)
        ultimately show ?thesis using pop_granted [OF inv ne] eq ne n1 cpu False by (auto simp: Request_def)
      qed
    next
      case nopcp: False
      then have "Request this_cpu n s = request_general n s"
        using False by (auto simp: Request_def split: option.splits bool.splits)
      then have "(p, s') = request_general n s" using eq by simp
      from gen [OF inv _ this] show ?thesis using False by simp
    qed
  qed
  then show "granted s n (p, s')" and "p = 0 \<Longrightarrow> n = 0 \<or> n > pmm_bitmap_pages s \<or> only_straddling s n" by auto
qed

section \<open>Free\<close>

lemma pcp_drain_spec:
  assumes "pmm_inv s"
  shows "pmm_inv (pcp_drain cpu k s)" and "owned (pcp_drain cpu k s) = owned s"
    and "pmm_bitmap_pages (pcp_drain cpu k s) = pmm_bitmap_pages s"
    and "length (pmm_cache (pcp_drain cpu k s) cpu) = length (pmm_cache s cpu) - k"
proof -
  have "pmm_inv (pcp_drain cpu k s) \<and> owned (pcp_drain cpu k s) = owned s
     \<and> pmm_bitmap_pages (pcp_drain cpu k s) = pmm_bitmap_pages s
     \<and> length (pmm_cache (pcp_drain cpu k s) cpu) = length (pmm_cache s cpu) - k"
    using assms
  proof (induction k arbitrary: s)
    case (Suc k)
    show ?case
    proof (cases "pmm_cache s cpu = []")
      case False
      let ?b = "last (pmm_cache s cpu) div PAGE_SIZE"
      let ?t = "s\<lparr>pmm_cache := (pmm_cache s)(cpu := butlast (pmm_cache s cpu))\<rparr>"
      have "last (pmm_cache s cpu) \<noteq> 0"
        using cache_okD(2) [OF _ last_in_set [OF False]] Suc.prems by (simp add: pmm_inv_def)
      then have t: "pmm_inv ?t" "0 < ?b" "?b < pmm_bitmap_pages s" "owned s \<inter> {?b..<?b + 1} = {}"
        "owned ?t = owned s \<union> {?b..<?b + 1}"
        using pop_granted [OF Suc.prems False] by (auto simp: granted_def Let_def)
      let ?u = "free_in_shard_locked (?b div SHARD_PAGES) ?b 1 ?t"
      have sh: "?b div SHARD_PAGES * SHARD_PAGES \<le> ?b" "?b + 1 \<le> (?b div SHARD_PAGES + 1) * SHARD_PAGES"
        by (rule div_times_less_eq_dividend) (simp add: Suc_le_eq dividend_less_times_div [of SHARD_PAGES] add.commute mult.commute)
      note f = free_in_shard_locked_spec [OF t(1) zero_less_one t(2) sh]
      have "pcp_drain cpu (Suc k) s = pcp_drain cpu k ?u" using False t(3) by (simp add: Let_def)
      moreover have "pmm_inv ?u" "owned ?u = owned s" "pmm_cache ?u = pmm_cache ?t" "pmm_bitmap_pages ?u = pmm_bitmap_pages ?t"
        using f t(4,5) by auto
      ultimately show ?thesis using Suc.IH [of ?u] by simp
    qed (use Suc in simp)
  qed simp
  then show "pmm_inv (pcp_drain cpu k s)" and "owned (pcp_drain cpu k s) = owned s"
    and "pmm_bitmap_pages (pcp_drain cpu k s) = pmm_bitmap_pages s"
    and "length (pmm_cache (pcp_drain cpu k s) cpu) = length (pmm_cache s cpu) - k" by auto
qed

lemma free_segments_spec:
  assumes "pmm_inv s" and "0 < start" and "shard_lo start si < stop" and "start < (si + 1) * SHARD_PAGES"
    and "{shard_lo start si..<stop} \<subseteq> owned s"
  shows "pmm_inv (free_segments start stop si s)
    \<and> owned (free_segments start stop si s) = owned s - {shard_lo start si..<stop}
    \<and> pmm_bitmap_pages (free_segments start stop si s) = pmm_bitmap_pages s"
  using assms
proof (induction start stop si s rule: free_segments.induct)
  case (1 start stop si s)
  let ?lo = "shard_lo start si" and ?hi = "shard_hi stop si"
  let ?t = "free_in_shard_locked si ?lo (?hi - ?lo) s"
  have lo: "0 < ?lo" "si * SHARD_PAGES \<le> ?lo" "?lo < (si + 1) * SHARD_PAGES"
    using 1(3,5) by (auto simp: shard_lo_def)
  have hi: "?lo < ?hi" "?hi \<le> (si + 1) * SHARD_PAGES" "?hi \<le> stop"
    using 1(4) lo(3) by (auto simp: shard_hi_def)
  have own: "{?lo..<?lo + (?hi - ?lo)} \<subseteq> owned s" using 1(6) hi by auto
  have le: "?lo + (?hi - ?lo) \<le> (si + 1) * SHARD_PAGES" "0 < ?hi - ?lo" using hi by auto
  note f = free_in_shard_locked_spec [OF 1(2) le(2) lo(1,2) le(1) own]
  have t: "pmm_inv ?t" "owned ?t = owned s - {?lo..<?hi}" "pmm_bitmap_pages ?t = pmm_bitmap_pages s" using f hi by auto
  show ?case
  proof (cases "?hi \<ge> stop")
    case True
    then have "?hi = stop" using hi(3) by simp
    then show ?thesis using t by (subst (1 2 3) free_segments.simps) (simp add: Let_def)
  next
    case False
    have lo': "shard_lo start (si + 1) = ?hi"
      using False 1(5) by (auto simp: shard_lo_def shard_hi_def split: if_splits)
    then have "{shard_lo start (si + 1)..<stop} \<subseteq> owned ?t" using 1(6) t(2) hi by auto
    moreover have "start < (si + 1 + 1) * SHARD_PAGES" using 1(5) by simp
    ultimately have "pmm_inv (free_segments start stop (si + 1) ?t)
      \<and> owned (free_segments start stop (si + 1) ?t) = owned ?t - {?hi..<stop}
      \<and> pmm_bitmap_pages (free_segments start stop (si + 1) ?t) = pmm_bitmap_pages ?t"
      using 1(1) [OF refl refl refl False t(1) 1(3)] lo' False by simp
    moreover have "owned s - {?lo..<?hi} - {?hi..<stop} = owned s - {?lo..<stop}" using hi by auto
    ultimately show ?thesis using False t(2,3) by (subst (1 2 3) free_segments.simps) (simp add: Let_def)
  qed
qed

lemma free_general_spec:
  assumes inv: "pmm_inv s" and n: "0 < n" and b: "0 < ptr div PAGE_SIZE"
    and own: "{ptr div PAGE_SIZE..<ptr div PAGE_SIZE + n} \<subseteq> owned s"
  shows "pmm_inv (free_general ptr n s)"
    and "owned (free_general ptr n s) = owned s - {ptr div PAGE_SIZE..<ptr div PAGE_SIZE + n}"
    and "pmm_bitmap_pages (free_general ptr n s) = pmm_bitmap_pages s"
proof -
  let ?b = "ptr div PAGE_SIZE"
  note o = owned_range_set(3) [OF own n]
  have lo: "shard_lo ?b (?b div SHARD_PAGES) = ?b"
    using div_times_less_eq_dividend [of ?b SHARD_PAGES] by (auto simp: shard_lo_def)
  have lt: "?b < (?b div SHARD_PAGES + 1) * SHARD_PAGES"
    by (simp add: dividend_less_times_div [of SHARD_PAGES] add.commute mult.commute)
  have e: "free_general ptr n s = free_segments ?b (?b + n) (?b div SHARD_PAGES) s"
    using o n by (auto simp: free_general_def Let_def)
  show "pmm_inv (free_general ptr n s)"
    and "owned (free_general ptr n s) = owned s - {?b..<?b + n}"
    and "pmm_bitmap_pages (free_general ptr n s) = pmm_bitmap_pages s"
    unfolding e using free_segments_spec [OF inv b _ lt, of "?b + n"] own n by (auto simp: lo)
qed

lemma Free_spec:
  assumes inv: "pmm_inv s" and al: "ptr mod PAGE_SIZE = 0"
    and own: "{ptr div PAGE_SIZE..<ptr div PAGE_SIZE + n} \<subseteq> owned s"
  shows "pmm_inv (Free this_cpu ptr n s)"
    and "ptr \<noteq> 0 \<Longrightarrow> owned (Free this_cpu ptr n s) = owned s - {ptr div PAGE_SIZE..<ptr div PAGE_SIZE + n}"
    and "pmm_bitmap_pages (Free this_cpu ptr n s) = pmm_bitmap_pages s"
proof -
  let ?b = "ptr div PAGE_SIZE" and ?s = "Free this_cpu ptr n s"
  have "pmm_inv ?s \<and> owned ?s = owned s - {?b..<?b + n} \<and> pmm_bitmap_pages ?s = pmm_bitmap_pages s" if "ptr \<noteq> 0" "n \<noteq> 0"
  proof (cases "\<exists>cpu. n = 1 \<and> this_cpu = Some cpu")
    case True
    then obtain cpu where n1: "n = 1" and cpu: "this_cpu = Some cpu" by auto
    define t where "t = (if length (pmm_cache s cpu) < PMM_PCP_MAX then s else pcp_drain cpu PMM_PCP_BATCH s)"
    have len: "length (pmm_cache s cpu) \<le> PMM_PCP_MAX" using inv by (simp add: pmm_inv_def cache_ok_def)
    have t: "pmm_inv t" "owned t = owned s" "length (pmm_cache t cpu) < PMM_PCP_MAX"
      "pmm_bitmap_pages t = pmm_bitmap_pages s"
      using inv pcp_drain_spec [OF inv, of cpu PMM_PCP_BATCH] len by (auto simp: t_def)
    have b: "?b \<in> owned t" using own t(2) n1 by auto
    have s: "?s = t\<lparr>pmm_cache := (pmm_cache t)(cpu := pmm_cache t cpu @ [ptr])\<rparr>"
      using that n1 cpu by (simp add: Free_def t_def Let_def)
    have "cache_ok ?s" unfolding s using t b al that(1)
      by (intro cache_ok_append) (auto simp: pmm_inv_def owned_def)
    then have "pmm_inv ?s" using t(1) s by (simp add: pmm_inv_def)
    then show ?thesis using owned_append [of t cpu ptr] s t(2,4) n1 by simp
  next
    case False
    then have "?s = free_general ptr n s"
      using that by (auto simp: Free_def split: option.splits bool.splits)
    moreover have "0 < ?b" using al that(1) by (metis mod_0_imp_dvd dvd_div_eq_0_iff gr0I)
    ultimately show ?thesis using free_general_spec [OF inv _ _ own] that by simp
  qed
  then show "pmm_inv ?s" and "ptr \<noteq> 0 \<Longrightarrow> owned ?s = owned s - {?b..<?b + n}"
    and "pmm_bitmap_pages ?s = pmm_bitmap_pages s"
    using inv by (cases "ptr = 0 \<or> n = 0"; auto simp: Free_def)+
qed

end
