(* ===== verification/PMM_Large.thy ===== *)
theory PMM_Large
  imports PMM_Cache
begin

text \<open>
  Large pages of the physical memory manager: requests and frees of 2 MiB and 2 GiB, and
  the two self checks.
\<close>

section \<open>2 MiB\<close>

definition block_free :: "pmm \<Rightarrow> nat \<Rightarrow> bool" where
  "block_free s l2 \<longleftrightarrow> l2 * L2_PAGES + L2_PAGES \<le> pmm_bitmap_pages s \<and> free_run (l1_map s) (l2 * L2_PAGES) L2_PAGES"

lemma block_all_free_run: "block_all_free s l2 \<longleftrightarrow> free_run (l1_map s) (l2 * L2_PAGES) L2_PAGES"
  by (simp add: block_all_free_iff free_run_def algebra_simps)

lemma mark_allocated_block:
  assumes "bit_test (init_map s) l2"
  shows "mark_allocated (l2 * L2_PAGES) L2_PAGES s =
    (let s1 = s\<lparr>l1_map := bits_set (l1_map s) (l2 * L2_PAGES) (l2 * L2_PAGES + L2_PAGES)\<rparr>
     in l2_full_propagate l2 (s1\<lparr>l2_map := bit_set (l2_map s1) l2\<rparr>))"
proof -
  have l: "(l2 * L2_PAGES + L2_PAGES - 1) div L2_PAGES = l2" by simp
  have "l2_block_full (s\<lparr>l1_map := bits_set (l1_map s) (l2 * L2_PAGES) (l2 * L2_PAGES + L2_PAGES)\<rparr>) l2"
    by (simp add: l2_block_full_iff bitmap_simps)
  then show ?thesis using assms unfolding mark_allocated_def Let_def l
    by (simp add: block_lo_def block_hi_def)
qed

lemma takes_stats [simp]:
  "takes s b n (t\<lparr>stat_req2m_ok := x\<rparr>) = takes s b n t" "counts_for m (t\<lparr>stat_req2m_ok := x\<rparr>) = counts_for m t"
  "takes s b n (t\<lparr>stat_req2gb_ok := x\<rparr>) = takes s b n t" "counts_for m (t\<lparr>stat_req2gb_ok := x\<rparr>) = counts_for m t"
  by (simp_all add: takes_def same_geometry_def counts_for_def)

lemma take_block_granted:
  assumes inv: "pmm_inv s" and si: "l2 div L2_PER_L3 = si" and free: "block_free s l2"
  shows "granted s L2_PAGES (l2 * L2_PAGES * PAGE_SIZE, take_block si l2 s)" and "0 < l2"
proof -
  let ?b = "l2 * L2_PAGES"
  have wf: "pmm_wf s" "geometry_ok s" and cnt: "counts_for (l1_map s) s" using inv by (auto simp: pmm_inv_def pmm_wf_def)
  have fit: "?b + L2_PAGES \<le> pmm_bitmap_pages s" and run: "free_run (l1_map s) ?b L2_PAGES"
    using free by (auto simp: block_free_def)
  show "0 < l2" using run wf not_free_run [of ?b 0 L2_PAGES "l1_map s"] by (cases l2) (auto simp: pmm_wf_def)
  have ini: "bit_test (init_map s) l2" using pmm_wf_inited [OF wf(1), of ?b] fit by simp
  define t where "t = mark_allocated ?b L2_PAGES s"
  define u where "u = (if ?b < hint (shards t si) then set_hint si ?b t else t)"
  have e: "take_block si l2 s = (shard_free_sub si L2_PAGES u)\<lparr>stat_req2m_ok := add64 (stat_req2m_ok u) 1\<rparr>"
    using mark_allocated_block [OF ini] by (simp add: take_block_def u_def t_def Let_def)
  have tk: "takes s ?b L2_PAGES u" "same_counters s u"
    using mark_allocated_takes [OF wf(1) _ fit] by (auto simp: u_def t_def)
  have sh: "si * SHARD_PAGES \<le> ?b" "?b + L2_PAGES \<le> (si + 1) * SHARD_PAGES"
    using si div_times_less_eq_dividend [of l2 L2_PER_L3] dividend_less_div_times [of L2_PER_L3 l2] by auto
  have "?b div SHARD_PAGES = si" using sh by (intro in_shard) auto
  then have "si < shard_count s" using geometry_bounds(5) [OF wf(2), of ?b] fit by simp
  then have "counts_for (l1_map u) (shard_free_sub si L2_PAGES u)"
    using shard_alloc_counts [OF tk cnt _ run sh] by simp
  then show "granted s L2_PAGES (?b * PAGE_SIZE, take_block si l2 s)"
    using tk(1) \<open>0 < l2\<close> unfolding e by (intro takes_granted [OF inv _ _ _ fit run]) auto
qed

text \<open>What a loop of \<open>Request2MB\<close> over a set \<open>B\<close> of blocks returns.\<close>

definition req2m_ok :: "pmm \<Rightarrow> nat set \<Rightarrow> nat option \<times> pmm \<Rightarrow> bool" where
  "req2m_ok s B r \<longleftrightarrow>
     (case fst r of
        None \<Rightarrow> snd r = s \<and> (\<forall>l2 \<in> B. \<not> block_free s l2)
      | Some p \<Rightarrow> p \<noteq> 0 \<and> p mod L2_SIZE = 0 \<and> granted s L2_PAGES (p, snd r))"

lemma req2m_word_spec:
  assumes inv: "pmm_inv s" and w: "w div L3_L2_WORDS = si"
  shows "req2m_ok s {w * 64 + j | j. bit pending j} (req2m_word si w pending s)"
proof (induction "unat pending" arbitrary: pending rule: less_induct)
  case less
  show ?case
  proof (cases "pending = 0")
    case True
    then show ?thesis by (simp add: req2m_word.simps req2m_ok_def)
  next
    case False
    define l where "l = w * 64 + ctz64 pending"
    let ?k = "ctz64 pending" and ?rest = "pending AND (pending - 1)"
    have "?rest < pending"
    proof -
      have "?rest \<le> pending - 1" by (rule word_and_le1)
      also have "pending - 1 < pending" using False by (simp add: measure_unat word_less_nat_alt)
      finally show ?thesis .
    qed
    then have IH: "req2m_ok s {w * 64 + j | j. bit ?rest j} (req2m_word si w ?rest s)"
      by (intro less) (simp add: word_less_nat_alt)
    have k: "?k < 64" using ctz64_bit [OF False] by simp
    have si: "l div L2_PER_L3 = si"
    proof -
      have "l div L2_PER_L3 = l div 64 div L3_L2_WORDS" by (simp add: div_mult2_eq [symmetric])
      then show ?thesis using k w by (simp add: l_def)
    qed
    have set: "{w * 64 + j | j. bit pending j} = insert l {w * 64 + j | j. bit ?rest j}"
      using clear_lowest_bit [OF False] ctz64_bit [OF False] unfolding l_def by blast
    have wf: "pmm_wf s" using inv by (simp add: pmm_inv_def)
    show ?thesis
    proof (cases "block_free s l")
      case True
      then have fit: "l * L2_PAGES + L2_PAGES \<le> pmm_bitmap_pages s" and all: "block_all_free s l"
        by (auto simp: block_free_def block_all_free_run)
      have ini: "bit_test (init_map s) l" using pmm_wf_inited [OF wf, of "l * L2_PAGES"] fit by simp
      have "req2m_word si w pending s = (Some (l * L2_PAGES * PAGE_SIZE), take_block si l s)"
        using False fit all ini unfolding req2m_word.simps [of si w pending s] Let_def l_def [symmetric] by simp
      then show ?thesis using take_block_granted [OF inv si True] by (auto simp: req2m_ok_def)
    next
      case nf: False
      have "req2m_word si w pending s = req2m_word si w ?rest s"
      proof (cases "l * L2_PAGES + L2_PAGES > pmm_bitmap_pages s")
        case True
        then show ?thesis using False unfolding req2m_word.simps [of si w pending s] Let_def l_def [symmetric] by simp
      next
        case fit: False
        then have ini: "bit_test (init_map s) l" using pmm_wf_inited [OF wf, of "l * L2_PAGES"] by simp
        have "\<not> block_all_free s l" using nf fit by (auto simp: block_free_def block_all_free_run)
        then show ?thesis using False fit ini unfolding req2m_word.simps [of si w pending s] Let_def l_def [symmetric] by simp
      qed
      then show ?thesis using IH nf unfolding set by (auto simp: req2m_ok_def split: option.splits)
    qed
  qed
qed

lemma req2m_words_spec:
  assumes inv: "pmm_inv s" and ws: "\<forall>w \<in> set ws. w div L3_L2_WORDS = si"
  shows "req2m_ok s {l2. l2 div 64 \<in> set ws \<and> \<not> bit_test (l2_map s) l2} (req2m_words si ws s)"
  using ws
proof (induction ws)
  case (Cons w ws)
  have w: "w div L3_L2_WORDS = si" using Cons.prems by simp
  note word = req2m_word_spec [OF inv w, of "NOT (l2_map s w)"]
  have IH: "req2m_ok s {l2. l2 div 64 \<in> set ws \<and> \<not> bit_test (l2_map s) l2} (req2m_words si ws s)"
    using Cons by simp
  have mem: "l2 \<in> {w * 64 + j | j. bit (NOT (l2_map s w)) j}"
    if "l2 div 64 = w" "\<not> bit_test (l2_map s) l2" for l2
  proof -
    have "l2 = w * 64 + l2 mod 64" using that(1) by (metis div_mult_mod_eq)
    moreover have "bit (NOT (l2_map s w)) (l2 mod 64)" using that by (auto simp: bit_test_iff bit_simps)
    ultimately show ?thesis by blast
  qed
  obtain r t where rt: "req2m_word si w (NOT (l2_map s w)) s = (r, t)" by fastforce
  show ?case
  proof (cases r)
    case None
    then have t: "t = s" "\<forall>l2 \<in> {w * 64 + j | j. bit (NOT (l2_map s w)) j}. \<not> block_free s l2"
      using word rt by (auto simp: req2m_ok_def)
    have "\<not> block_free s l2" if "l2 div 64 = w" "\<not> bit_test (l2_map s) l2" for l2
      using t(2) mem [OF that] by blast
    then show ?thesis using IH rt None t(1) by (auto simp: req2m_ok_def split: option.splits)
  next
    case (Some p)
    then show ?thesis using word rt by (auto simp: req2m_ok_def)
  qed
qed (simp add: req2m_ok_def)

lemma shard_free_run:
  assumes "si * SHARD_PAGES \<le> b" and "b + n \<le> (si + 1) * SHARD_PAGES" and "free_run m b n"
  shows "n \<le> shard_free m si"
  using set_range_in_shard(2) [OF assms] by linarith

lemma block_in_shard:
  "l2 div L2_PER_L3 * SHARD_PAGES \<le> l2 * L2_PAGES"
  "l2 * L2_PAGES + L2_PAGES \<le> (l2 div L2_PER_L3 + 1) * SHARD_PAGES"
  using div_times_less_eq_dividend [of l2 L2_PER_L3] dividend_less_div_times [of L2_PER_L3 l2] by auto

lemma block_free_l2_clear:
  assumes "maps_agree (l1_map s) (l2_map s) (l3_map s)" and "block_free s l2"
  shows "\<not> bit_test (l2_map s) l2"
proof
  assume l2: "bit_test (l2_map s) l2"
  have "l2_agree (l1_map s) (l2_map s)" using assms(1) by (simp add: maps_agree_def)
  then have "bit_test (l1_map s) (l2 * L2_PAGES)" using l2 by (rule l2_agreeD) simp_all
  then have "\<not> free_run (l1_map s) (l2 * L2_PAGES) L2_PAGES" by (rule not_free_run [rotated 2]) simp_all
  then show False using assms(2) by (simp add: block_free_def)
qed

lemma req2m_loop_spec:
  assumes inv: "pmm_inv s" and sis: "\<forall>si \<in> set sis. si < shard_count s" and eq: "req2m_loop sis s = (p, s')"
  shows "p \<noteq> 0 \<and> p mod L2_SIZE = 0 \<and> granted s L2_PAGES (p, s')
    \<or> p = 0 \<and> s' = s\<lparr>stat_req2m_fail := add64 (stat_req2m_fail s) 1\<rparr>
      \<and> (\<forall>l2. l2 div L2_PER_L3 \<in> set sis \<longrightarrow> \<not> block_free s l2)"
  using sis eq
proof (induction sis)
  case (Cons si sis)
  have cnt: "sh_free_pages (shards s si) = shard_free (l1_map s) si"
    and ag: "maps_agree (l1_map s) (l2_map s) (l3_map s)"
    using inv Cons.prems(1) by (auto simp: pmm_inv_def counts_for_def pmm_wf_def)
  let ?ws = "[si * L3_L2_WORDS..<si * L3_L2_WORDS + L3_L2_WORDS]"
  have "\<forall>w \<in> set ?ws. w div L3_L2_WORDS = si" by (auto intro: div_nat_eqI)
  note words = req2m_words_spec [OF inv this]
  have IH: ?case if "req2m_loop sis s = (p, s')" "\<forall>l2. l2 div L2_PER_L3 = si \<longrightarrow> \<not> block_free s l2"
    using Cons.IH [OF _ that(1)] Cons.prems(1) that(2) by auto
  show ?case
  proof (cases "sh_free_pages (shards s si) < L2_PAGES")
    case True
    have "\<not> block_free s l2" if "l2 div L2_PER_L3 = si" for l2
      using True cnt shard_free_run [of si "l2 * L2_PAGES" L2_PAGES "l1_map s"] block_in_shard [of l2] that
      by (auto simp: block_free_def)
    then show ?thesis using IH Cons.prems(2) True by simp
  next
    case False
    obtain r t where rt: "req2m_words si ?ws s = (r, t)" by fastforce
    show ?thesis
    proof (cases r)
      case None
      then have t: "t = s" "\<forall>l2. l2 div 64 \<in> set ?ws \<and> \<not> bit_test (l2_map s) l2 \<longrightarrow> \<not> block_free s l2"
        using words rt by (auto simp: req2m_ok_def)
      have "\<not> block_free s l2" if "l2 div L2_PER_L3 = si" for l2
      proof
        assume "block_free s l2"
        then have "\<not> bit_test (l2_map s) l2" by (rule block_free_l2_clear [OF ag])
        moreover have "l2 div 64 div L3_L2_WORDS = si" using that by (simp add: div_mult2_eq [symmetric])
        then have "l2 div 64 \<in> set ?ws"
          using div_times_less_eq_dividend [of "l2 div 64" L3_L2_WORDS]
            dividend_less_div_times [of L3_L2_WORDS "l2 div 64"] by auto
        ultimately show False using t(2) \<open>block_free s l2\<close> by blast
      qed
      then show ?thesis using IH Cons.prems(2) False rt None t(1) by simp
    next
      case (Some q)
      then show ?thesis using words rt Cons.prems(2) False by (auto simp: req2m_ok_def)
    qed
  qed
qed simp

lemma Request2MB_spec:
  assumes inv: "pmm_inv s" and eq: "Request2MB s = (p, s')"
  shows "granted s L2_PAGES (p, s')" and "p mod L2_SIZE = 0" and "p = 0 \<Longrightarrow> \<forall>l2. \<not> block_free s l2"
proof -
  obtain first s1 where f: "shard_rr_first s = (first, s1)" by fastforce
  note rr = shard_rr_first_spec [OF inv f]
  let ?sis = "map (rr_index (shard_count s) first) [0..<shard_count s]"
  have inv1: "pmm_inv s1" using inv rr(2) by simp
  have "\<forall>si \<in> set ?sis. si < shard_count s1" using rr rr_index_less [OF rr(1)] by auto
  moreover have "req2m_loop ?sis s1 = (p, s')" using eq f by (simp add: Request2MB_def)
  ultimately have *: "p \<noteq> 0 \<and> p mod L2_SIZE = 0 \<and> granted s1 L2_PAGES (p, s')
    \<or> p = 0 \<and> s' = s1\<lparr>stat_req2m_fail := add64 (stat_req2m_fail s1) 1\<rparr>
      \<and> (\<forall>l2. l2 div L2_PER_L3 \<in> set ?sis \<longrightarrow> \<not> block_free s1 l2)"
    by (rule req2m_loop_spec [OF inv1])
  have bf: "block_free s1 = block_free s" using rr(2) by (auto simp: block_free_def fun_eq_iff)
  have "\<forall>l2. \<not> block_free s l2" if "p = 0"
  proof (intro allI notI)
    fix l2 assume b: "block_free s l2"
    then have "l2 * L2_PAGES < pmm_bitmap_pages s" by (simp add: block_free_def)
    then have "l2 div L2_PER_L3 < shard_count s"
      using inv geometry_bounds(5) [of s "l2 * L2_PAGES"] by (simp add: pmm_inv_def pmm_wf_def)
    then have "l2 div L2_PER_L3 \<in> set ?sis" using rr_index_range [OF rr(1)] by auto
    then show False using * that b bf by auto
  qed
  then show "p = 0 \<Longrightarrow> \<forall>l2. \<not> block_free s l2" .
  show "granted s L2_PAGES (p, s')" and "p mod L2_SIZE = 0"
    using * rr(2) inv by (auto simp: granted_def)
qed

section \<open>2 GiB\<close>

lemma maps_agree_set_shard:
  assumes "maps_agree m1 m2 m3"
  shows "maps_agree (bits_set m1 (si * L3_PAGES) (si * L3_PAGES + L3_PAGES))
     (bits_set m2 (si * L2_PER_L3) (si * L2_PER_L3 + L2_PER_L3)) (bit_set m3 si)"
proof -
  have l2: "\<And>l2. bit_test m2 l2 \<longleftrightarrow> (\<forall>i. l2 * L2_PAGES \<le> i \<and> i < (l2 + 1) * L2_PAGES \<longrightarrow> bit_test m1 i)"
    and l3: "\<And>l3. bit_test m3 l3 \<longleftrightarrow> (\<forall>l2. l3 * L2_PER_L3 \<le> l2 \<and> l2 < (l3 + 1) * L2_PER_L3 \<longrightarrow> bit_test m2 l2)"
    using assms by (auto simp: maps_agree_def l2_agree_def l3_agree_def)
  have out: "i < si * L3_PAGES \<or> si * L3_PAGES + L3_PAGES \<le> i"
    if "\<not> (si * L2_PER_L3 \<le> l2 \<and> l2 < si * L2_PER_L3 + L2_PER_L3)" "l2 * L2_PAGES \<le> i" "i < (l2 + 1) * L2_PAGES" for l2 i
    using that by auto
  have inn: "si * L3_PAGES \<le> i \<and> i < si * L3_PAGES + L3_PAGES"
    if "si * L2_PER_L3 \<le> l2" "l2 < si * L2_PER_L3 + L2_PER_L3" "l2 * L2_PAGES \<le> i" "i < (l2 + 1) * L2_PAGES" for l2 i
    using that by auto
  have "l2_agree (bits_set m1 (si * L3_PAGES) (si * L3_PAGES + L3_PAGES)) (bits_set m2 (si * L2_PER_L3) (si * L2_PER_L3 + L2_PER_L3))"
    unfolding l2_agree_def
  proof
    fix l
    show "bit_test (bits_set m2 (si * L2_PER_L3) (si * L2_PER_L3 + L2_PER_L3)) l \<longleftrightarrow>
      (\<forall>i. l * L2_PAGES \<le> i \<and> i < (l + 1) * L2_PAGES \<longrightarrow> bit_test (bits_set m1 (si * L3_PAGES) (si * L3_PAGES + L3_PAGES)) i)"
    proof (cases "si * L2_PER_L3 \<le> l \<and> l < si * L2_PER_L3 + L2_PER_L3")
      case True
      then show ?thesis unfolding bit_test_bits_set using inn by blast
    next
      case False
      then show ?thesis unfolding bit_test_bits_set l2 using out [OF False] by (meson leD)
    qed
  qed
  moreover have "l3_agree (bits_set m2 (si * L2_PER_L3) (si * L2_PER_L3 + L2_PER_L3)) (bit_set m3 si)"
    unfolding l3_agree_def
  proof
    fix l3
    show "bit_test (bit_set m3 si) l3 \<longleftrightarrow> (\<forall>l2. l3 * L2_PER_L3 \<le> l2 \<and> l2 < (l3 + 1) * L2_PER_L3 \<longrightarrow>
        bit_test (bits_set m2 (si * L2_PER_L3) (si * L2_PER_L3 + L2_PER_L3)) l2)"
    proof (cases "l3 = si")
      case False
      have "\<not> (si * L2_PER_L3 \<le> l2 \<and> l2 < si * L2_PER_L3 + L2_PER_L3)"
        if "l3 * L2_PER_L3 \<le> l2" "l2 < (l3 + 1) * L2_PER_L3" for l2
        using that False by auto
      moreover have "bit_test (bit_set m3 si) l3 = bit_test m3 l3" using False by (simp add: bit_test_bit_set)
      ultimately show ?thesis unfolding l3 bit_test_bits_set by blast
    next
      case True
      then have "bit_test (bit_set m3 si) l3" by (simp add: bit_test_bit_set)
      moreover have "bit_test (bits_set m2 (si * L2_PER_L3) (si * L2_PER_L3 + L2_PER_L3)) l2"
        if "l3 * L2_PER_L3 \<le> l2" "l2 < (l3 + 1) * L2_PER_L3" for l2
        using that True unfolding bit_test_bits_set by simp
      ultimately show ?thesis by blast
    qed
  qed
  ultimately show ?thesis by (simp add: maps_agree_def)
qed

lemma blocks_all_free_spec:
  assumes "\<forall>l2 \<in> set l2s. bit_test (init_map s) l2"
  shows "blocks_all_free l2s s = (list_all (block_all_free s) l2s, s)"
  using assms by (induction l2s) (auto simp: Let_def)

definition shard_all_free :: "pmm \<Rightarrow> nat \<Rightarrow> bool" where
  "shard_all_free s si \<longleftrightarrow>
     si * L3_PAGES + L3_PAGES \<le> pmm_bitmap_pages s \<and> free_run (l1_map s) (si * L3_PAGES) L3_PAGES"

lemma shard_blocks_free:
  "list_all (block_all_free s) [si * L2_PER_L3..<si * L2_PER_L3 + L2_PER_L3]
     \<longleftrightarrow> free_run (l1_map s) (si * L3_PAGES) L3_PAGES" (is "?L \<longleftrightarrow> ?R")
proof
  assume L: ?L
  show ?R unfolding free_run_def
  proof (intro allI impI)
    fix i assume i: "si * L3_PAGES \<le> i \<and> i < si * L3_PAGES + L3_PAGES"
    then have "i div L2_PAGES \<in> set [si * L2_PER_L3..<si * L2_PER_L3 + L2_PER_L3]"
      by (auto simp: less_eq_div_iff_mult_less_eq div_less_iff_less_mult)
    then have "free_run (l1_map s) (i div L2_PAGES * L2_PAGES) L2_PAGES"
      using L unfolding list_all_iff block_all_free_run [symmetric] by (rule bspec [rotated])
    then show "\<not> bit_test (l1_map s) i"
      using div_times_less_eq_dividend [of i L2_PAGES] dividend_less_div_times [of L2_PAGES i]
      by (simp add: free_run_def)
  qed
next
  assume R: ?R
  have "free_run (l1_map s) (l2 * L2_PAGES) L2_PAGES"
    if "si * L2_PER_L3 \<le> l2" "l2 < si * L2_PER_L3 + L2_PER_L3" for l2
    unfolding free_run_def
  proof (intro allI impI)
    fix i assume "l2 * L2_PAGES \<le> i \<and> i < l2 * L2_PAGES + L2_PAGES"
    then have "si * L3_PAGES \<le> i \<and> i < si * L3_PAGES + L3_PAGES" using that by auto
    then show "\<not> bit_test (l1_map s) i" using R unfolding free_run_def by blast
  qed
  then show ?L by (simp add: list_all_iff block_all_free_run)
qed

lemma l2_words_zero:
  assumes ag: "maps_agree m1 m2 m3" and run: "free_run m1 (si * L3_PAGES) L3_PAGES"
  shows "list_all (\<lambda>i. m2 (si * L3_L2_WORDS + i) = 0) [0..<L3_L2_WORDS]"
proof -
  have "m2 (si * L3_L2_WORDS + i) = 0" if "i < L3_L2_WORDS" for i
  proof -
    let ?w = "si * L3_L2_WORDS + i"
    have "\<not> bit (m2 ?w) j" if j: "j < 64" for j
    proof
      assume "bit (m2 ?w) j"
      then have b: "bit_test m2 (?w * 64 + j)" using bit_word_test [OF j, of m2 ?w] by blast
      define p where "p = (?w * 64 + j) * L2_PAGES"
      have "l2_agree m1 m2" using ag by (simp add: maps_agree_def)
      then have "bit_test m1 p" using b by (rule l2_agreeD) (simp_all add: p_def)
      moreover have "si * L3_PAGES \<le> p" "p < si * L3_PAGES + L3_PAGES"
        using \<open>i < L3_L2_WORDS\<close> j by (auto simp: p_def)
      ultimately show False using run unfolding free_run_def by blast
    qed
    then show ?thesis by (simp add: u64_zero_iff)
  qed
  then show ?thesis by (simp add: list_all_iff)
qed

lemma req2gb_loop_spec:
  assumes inv: "pmm_inv s" and sis: "\<forall>si \<in> set sis. si < shard_count s" and eq: "req2gb_loop sis s = (p, s')"
  shows "p \<noteq> 0 \<and> p mod (L3_PAGES * PAGE_SIZE) = 0 \<and> granted s L3_PAGES (p, s')
    \<or> p = 0 \<and> s' = s\<lparr>stat_req2gb_fail := add64 (stat_req2gb_fail s) 1\<rparr>
      \<and> (\<forall>si \<in> set sis. \<not> shard_all_free s si)"
  using sis eq
proof (induction sis)
  case (Cons si sis)
  have wf: "pmm_wf s" and g: "geometry_ok s" and cnt: "counts_for (l1_map s) s"
    and ag: "maps_agree (l1_map s) (l2_map s) (l3_map s)" and si: "si < shard_count s"
    using inv Cons.prems(1) by (auto simp: pmm_inv_def pmm_wf_def)
  let ?b = "si * L3_PAGES"
  have np: "npages (shards s si) = min SHARD_PAGES (pmm_bitmap_pages s - ?b)" using g si by (simp add: geometry_ok_def)
  have fp: "sh_free_pages (shards s si) = shard_free (l1_map s) si" using cnt si by (simp add: counts_for_def)
  let ?l2s = "[si * L2_PER_L3..<si * L2_PER_L3 + L2_PER_L3]"
  show ?case
  proof (cases "shard_all_free s si")
    case True
    then have fit: "?b + L3_PAGES \<le> pmm_bitmap_pages s" and run: "free_run (l1_map s) ?b L3_PAGES"
      by (auto simp: shard_all_free_def)
    have b: "0 < ?b" using run wf not_free_run [of 0 0 L3_PAGES "l1_map s"] by (cases si) (auto simp: pmm_wf_def)
    have "bit_test (init_map s) l2" if "l2 \<in> set ?l2s" for l2
      using pmm_wf_inited [OF wf, of "l2 * L2_PAGES"] that fit by auto
    then have blocks: "blocks_all_free ?l2s s = (True, s)"
      using blocks_all_free_spec [OF ballI, of ?l2s s] run unfolding shard_blocks_free by simp
    define t where "t = s\<lparr>l1_map := bits_set (l1_map s) ?b (?b + L3_PAGES),
      l2_map := bits_set (l2_map s) (si * L2_PER_L3) (si * L2_PER_L3 + L2_PER_L3), l3_map := bit_set (l3_map s) si\<rparr>"
    define u where "u = (if ?b < hint (shards t si) then set_hint si ?b t else t)"
    have sh: "?b \<le> ?b" "?b + L3_PAGES \<le> (si + 1) * SHARD_PAGES" by auto
    have nf: "\<not> npages (shards s si) < L3_PAGES" "\<not> sh_free_pages (shards s si) < L3_PAGES"
      using np fit fp shard_free_run [OF sh run] by auto
    have "req2gb_loop (si # sis) s = (?b * PAGE_SIZE, (shard_free_sub si L3_PAGES u)\<lparr>stat_req2gb_ok := add64 (stat_req2gb_ok u) 1\<rparr>)"
      using nf l2_words_zero [OF ag run] blocks unfolding u_def t_def
      by (simp add: Let_def del: upt_conv_Cons split del: if_split)
    then have e: "p = ?b * PAGE_SIZE" "s' = (shard_free_sub si L3_PAGES u)\<lparr>stat_req2gb_ok := add64 (stat_req2gb_ok u) 1\<rparr>"
      using Cons.prems(2) by simp_all
    have tk: "takes s ?b L3_PAGES u" "same_counters s u"
      using maps_agree_set_shard [OF ag, of si]
      by (auto simp: u_def t_def takes_def same_counters_def same_geometry_def set_hint_def)
    have "counts_for (l1_map u) (shard_free_sub si L3_PAGES u)"
      by (rule shard_alloc_counts [OF tk cnt si run sh])
    then have "granted s L3_PAGES (p, s')"
      using tk(1) b unfolding e by (intro takes_granted [OF inv _ _ _ fit run]) auto
    moreover have "p \<noteq> 0" "p mod (L3_PAGES * PAGE_SIZE) = 0" using b e(1) by simp_all
    ultimately show ?thesis by blast
  next
    case False
    have "req2gb_loop (si # sis) s = req2gb_loop sis s"
    proof (cases "npages (shards s si) < L3_PAGES \<or> sh_free_pages (shards s si) < L3_PAGES
        \<or> \<not> list_all (\<lambda>i. l2_map s (si * L3_L2_WORDS + i) = 0) [0..<L3_L2_WORDS]")
      case True
      then show ?thesis by auto
    next
      case nskip: False
      then have fit: "?b + L3_PAGES \<le> pmm_bitmap_pages s" using np by auto
      have "bit_test (init_map s) l2" if "l2 \<in> set ?l2s" for l2
        using pmm_wf_inited [OF wf, of "l2 * L2_PAGES"] that fit by auto
      then have "blocks_all_free ?l2s s = (False, s)"
        using blocks_all_free_spec [OF ballI, of ?l2s s] False fit
        unfolding shard_all_free_def shard_blocks_free by simp
      then show ?thesis using nskip by (simp add: Let_def del: upt_conv_Cons)
    qed
    then show ?thesis using Cons.IH Cons.prems False by auto
  qed
qed simp

lemma Request2GB_spec:
  assumes inv: "pmm_inv s" and eq: "Request2GB s = (p, s')"
  shows "granted s L3_PAGES (p, s')" and "p mod (L3_PAGES * PAGE_SIZE) = 0" and "p = 0 \<Longrightarrow> \<forall>si. \<not> shard_all_free s si"
proof -
  obtain first s1 where f: "shard_rr_first s = (first, s1)" by fastforce
  note rr = shard_rr_first_spec [OF inv f]
  let ?sis = "map (rr_index (shard_count s) first) [0..<shard_count s]"
  have inv1: "pmm_inv s1" using inv rr(2) by simp
  have "\<forall>si \<in> set ?sis. si < shard_count s1" using rr rr_index_less [OF rr(1)] by auto
  moreover have "req2gb_loop ?sis s1 = (p, s')" using eq f by (simp add: Request2GB_def)
  ultimately have *: "p \<noteq> 0 \<and> p mod (L3_PAGES * PAGE_SIZE) = 0 \<and> granted s1 L3_PAGES (p, s')
    \<or> p = 0 \<and> s' = s1\<lparr>stat_req2gb_fail := add64 (stat_req2gb_fail s1) 1\<rparr> \<and> (\<forall>si \<in> set ?sis. \<not> shard_all_free s1 si)"
    by (rule req2gb_loop_spec [OF inv1])
  have bf: "shard_all_free s1 = shard_all_free s" using rr(2) by (auto simp: shard_all_free_def fun_eq_iff)
  have "\<forall>si. \<not> shard_all_free s si" if "p = 0"
  proof (intro allI notI)
    fix si assume b: "shard_all_free s si"
    then have "si * L3_PAGES < pmm_bitmap_pages s" by (simp add: shard_all_free_def)
    then have "si < shard_count s"
      using inv geometry_bounds(5) [of s "si * L3_PAGES"] by (simp add: pmm_inv_def pmm_wf_def)
    then have "si \<in> set ?sis" using rr_index_range [OF rr(1)] by auto
    then show False using * that b bf by auto
  qed
  then show "p = 0 \<Longrightarrow> \<forall>si. \<not> shard_all_free s si" .
  show "granted s L3_PAGES (p, s')" and "p mod (L3_PAGES * PAGE_SIZE) = 0"
    using * rr(2) inv by (auto simp: granted_def)
qed

section \<open>Returning large pages\<close>

lemma Free2MB_spec:
  assumes inv: "pmm_inv s" and al: "ptr mod L2_SIZE = 0" and p: "ptr \<noteq> 0"
    and own: "{ptr div PAGE_SIZE..<ptr div PAGE_SIZE + L2_PAGES} \<subseteq> owned s"
  shows "pmm_inv (Free2MB ptr s)"
    and "owned (Free2MB ptr s) = owned s - {ptr div PAGE_SIZE..<ptr div PAGE_SIZE + L2_PAGES}"
    and "pmm_bitmap_pages (Free2MB ptr s) = pmm_bitmap_pages s"
proof -
  obtain l2 where l2: "ptr = L2_SIZE * l2" using al by (auto elim: dvdE)
  then have b: "ptr div PAGE_SIZE = l2 * L2_PAGES" by simp
  have pos: "0 < l2 * L2_PAGES" using p l2 by simp
  have fit: "l2 * L2_PAGES + L2_PAGES \<le> pmm_bitmap_pages s"
    using owned_range_set(3) [OF own] by (simp add: b)
  have "Free2MB ptr s = free_in_shard_locked (l2 div L2_PER_L3) (l2 * L2_PAGES) L2_PAGES s"
    using p fit by (simp add: Free2MB_def Let_def b)
  then show "pmm_inv (Free2MB ptr s)"
    and "owned (Free2MB ptr s) = owned s - {ptr div PAGE_SIZE..<ptr div PAGE_SIZE + L2_PAGES}"
    and "pmm_bitmap_pages (Free2MB ptr s) = pmm_bitmap_pages s"
    using free_in_shard_locked_spec [OF inv _ pos block_in_shard own [unfolded b]] b by simp_all
qed

lemma Free2GB_spec:
  assumes inv: "pmm_inv s" and al: "ptr mod (L3_PAGES * PAGE_SIZE) = 0" and p: "ptr \<noteq> 0"
    and own: "{ptr div PAGE_SIZE..<ptr div PAGE_SIZE + L3_PAGES} \<subseteq> owned s"
  shows "pmm_inv (Free2GB ptr s)"
    and "owned (Free2GB ptr s) = owned s - {ptr div PAGE_SIZE..<ptr div PAGE_SIZE + L3_PAGES}"
    and "pmm_bitmap_pages (Free2GB ptr s) = pmm_bitmap_pages s"
proof -
  obtain si where si: "ptr = L3_PAGES * PAGE_SIZE * si" using al by (auto elim: dvdE)
  then have b: "ptr div PAGE_SIZE = si * L3_PAGES" by simp
  have pos: "0 < si * L3_PAGES" using p si by simp
  have fit: "si * L3_PAGES + L3_PAGES \<le> pmm_bitmap_pages s"
    using owned_range_set(3) [OF own] by (simp add: b)
  have sh: "si * L3_PAGES \<le> si * L3_PAGES" "si * L3_PAGES + L3_PAGES \<le> (si + 1) * L3_PAGES" by auto
  have "Free2GB ptr s = free_in_shard_locked si (si * L3_PAGES) L3_PAGES s"
    using p fit by (simp add: Free2GB_def Let_def b)
  then show "pmm_inv (Free2GB ptr s)"
    and "owned (Free2GB ptr s) = owned s - {ptr div PAGE_SIZE..<ptr div PAGE_SIZE + L3_PAGES}"
    and "pmm_bitmap_pages (Free2GB ptr s) = pmm_bitmap_pages s"
    using free_in_shard_locked_spec [OF inv _ pos sh own [unfolded b]] b by simp_all
qed

section \<open>Self checks\<close>

lemma block_free_count_card:
  "block_free_count s l2 = card (clear_bits (l1_map s) (l2 * L2_PAGES) ((l2 + 1) * L2_PAGES))"
proof -
  let ?m = "l1_map s" and ?a = "l2 * L2_PAGES"
  have word: "popcount64 (NOT (?m (l2 * L2_L1_WORDS + w))) = card (clear_bits ?m (?a + w * 64) (?a + (w + 1) * 64))" for w
    using popcount_word [of ?m "l2 * L2_L1_WORDS + w"] by (simp add: algebra_simps)
  have "sum_list (map (\<lambda>w. popcount64 (NOT (?m (l2 * L2_L1_WORDS + w)))) [0..<k]) = card (clear_bits ?m ?a (?a + k * 64))" for k
  proof (induction k)
    case 0
    then show ?case by (simp add: clear_bits_def)
  next
    case (Suc k)
    have "card (clear_bits ?m ?a (?a + (k + 1) * 64)) =
        card (clear_bits ?m ?a (?a + k * 64)) + card (clear_bits ?m (?a + k * 64) (?a + (k + 1) * 64))"
      by (rule clear_bits_split) auto
    then show ?case using Suc.IH word [of k] by (simp add: algebra_simps)
  qed
  from this [of L2_L1_WORDS] show ?thesis by (simp add: block_free_count_def algebra_simps)
qed

lemma verify_recount:
  assumes ag: "maps_agree (l1_map s) (l2_map s) (l3_map s)" and ini: "\<forall>l2 < k. bit_test (init_map s) l2"
    and small: "k * L2_PAGES < U64"
  shows "fold (\<lambda>l2 (cnt, s). if bit_test (l2_map s) l2 then (cnt, s)
            else let s1 = ensure_l2_init l2 s in (add64 cnt (block_free_count s1 l2), s1)) [0..<k] (0, s)
     = (card (clear_bits (l1_map s) 0 (k * L2_PAGES)), s)"
  using ini small
proof (induction k)
  case 0
  then show ?case by (simp add: clear_bits_def)
next
  case (Suc k)
  let ?c = "\<lambda>a b. card (clear_bits (l1_map s) a b)"
  have split: "?c 0 (Suc k * L2_PAGES) = ?c 0 (k * L2_PAGES) + ?c (k * L2_PAGES) ((k + 1) * L2_PAGES)"
    using clear_bits_split [of 0 "k * L2_PAGES" "Suc k * L2_PAGES" "l1_map s"] by simp
  have "?c 0 (Suc k * L2_PAGES) < U64"
    using card_clear_bits_le [of "l1_map s" 0 "Suc k * L2_PAGES"] Suc.prems(2) by simp
  then have add: "add64 (?c 0 (k * L2_PAGES)) (block_free_count s k) = ?c 0 (Suc k * L2_PAGES)"
    using split by (simp add: block_free_count_card u64_simps)
  have full: "?c (k * L2_PAGES) ((k + 1) * L2_PAGES) = 0" if "bit_test (l2_map s) k"
  proof -
    have "l2_agree (l1_map s) (l2_map s)" using ag by (simp add: maps_agree_def)
    then have "clear_bits (l1_map s) (k * L2_PAGES) ((k + 1) * L2_PAGES) = {}"
      using l2_agreeD [OF _ that] unfolding clear_bits_def by blast
    then show ?thesis by simp
  qed
  have "k * L2_PAGES < U64" "\<forall>l2 < k. bit_test (init_map s) l2" and k: "bit_test (init_map s) k"
    using Suc.prems by auto
  note IH = Suc.IH [OF this(2,1)]
  show ?case unfolding fold_upt_snoc [OF le0] IH using add full split k by (simp add: Let_def del: mult_Suc)
qed

lemma VerifyFreeCount_zero: "pmm_inv s \<Longrightarrow> VerifyFreeCount s = (0, s)"
proof -
  assume inv: "pmm_inv s"
  then have g: "geometry_ok s" and wf: "pmm_wf s" and cnt: "counts_for (l1_map s) s"
    by (auto simp: pmm_inv_def pmm_wf_def)
  let ?k = "total_l2_bits s" and ?P = "pmm_bitmap_pages s"
  have P: "?P \<le> ?k * L2_PAGES" "?k * L2_PAGES < ?P + L2_PAGES" "?P \<le> 2 ^ 52"
    using g unfolding geometry_ok_def by auto
  then have small: "?k * L2_PAGES < U64" by (simp add: U64_def)
  have top: "clear_bits (l1_map s) 0 c = clear_bits (l1_map s) 0 ?P" if "?P \<le> c" for c
    using wf that by (auto simp: clear_bits_def pmm_wf_def) (meson not_le)
  have "free_pages s = card (clear_bits (l1_map s) 0 (?k * L2_PAGES))"
    using cnt top [OF P(1)] top [OF geometry_bounds(1) [OF g]] by (simp add: counts_for_def)
  then show ?thesis
    using verify_recount [OF _ _ small] wf by (simp add: VerifyFreeCount_def pmm_wf_def)
qed

end
