(* ===== verification/PMM_Init.thy ===== *)
theory PMM_Init
  imports PMM_Large
begin

text \<open>
  Initialisation of the physical memory manager: the maps that \<open>Init\<close> leaves behind agree,
  the counters are exact, and the free pages are exactly the pages inside usable entries
  of the memory map that are not reserved.
\<close>

section \<open>Pages of the memory map\<close>

definition entry_page :: "memmap_entry \<Rightarrow> nat \<Rightarrow> bool" where
  "entry_page e i \<longleftrightarrow> me_type e = Usable \<and> me_base e \<le> i * PAGE_SIZE
     \<and> (i + 1) * PAGE_SIZE \<le> me_base e + me_length e"

definition usable_page :: "memmap_entry list \<Rightarrow> nat \<Rightarrow> bool" where
  "usable_page es i \<longleftrightarrow> (\<exists>e \<in> set es. entry_page e i)"

definition no_wrap :: "memmap_entry list \<Rightarrow> bool" where
  "no_wrap es \<longleftrightarrow> (\<forall>e \<in> set es. me_base e + me_length e + PAGE_SIZE < U64)"

lemma align_up_page: "align_up x PAGE_SIZE div PAGE_SIZE \<le> i \<longleftrightarrow> x \<le> i * PAGE_SIZE"
proof
  assume "align_up x PAGE_SIZE div PAGE_SIZE \<le> i"
  then have "align_up x PAGE_SIZE \<le> i * PAGE_SIZE"
    by (simp add: align_up_def)
  then show "x \<le> i * PAGE_SIZE" using align_up_ge [of PAGE_SIZE x] by simp
next
  assume "x \<le> i * PAGE_SIZE"
  then have "(x + PAGE_SIZE - 1) div PAGE_SIZE < i + 1" by (intro less_mult_imp_div_less) simp
  then show "align_up x PAGE_SIZE div PAGE_SIZE \<le> i" by (simp add: align_up_def)
qed

lemma align_down_page: "i < align_down x PAGE_SIZE div PAGE_SIZE \<longleftrightarrow> (i + 1) * PAGE_SIZE \<le> x"
  using less_eq_div_iff_mult_less_eq [of PAGE_SIZE "i + 1" x] by (simp add: align_down_def Suc_le_eq)

lemma align_order:
  assumes "align_up x PAGE_SIZE div PAGE_SIZE \<le> i" and "i < align_down y PAGE_SIZE div PAGE_SIZE"
  shows "align_up x PAGE_SIZE < align_down y PAGE_SIZE"
  using assms by (simp add: align_up_def align_down_def)

lemma mark_usable_entry_bit:
  assumes "me_base e + me_length e < U64"
  shows "bit_test (mark_usable_entry (l2 * L2_SIZE) (l2 * L2_SIZE + L2_SIZE) e m) i
     \<longleftrightarrow> bit_test m i \<and> \<not> (entry_page e i \<and> i div L2_PAGES = l2)"
proof -
  let ?rs = "l2 * L2_SIZE" and ?re = "l2 * L2_SIZE + L2_SIZE"
  define a z where "a = me_base e" and "z = me_base e + me_length e"
  have top: "add64 a (me_length e) = z" using assms by (simp add: z_def a_def u64_simps)
  have blk: "i div L2_PAGES = l2 \<longleftrightarrow> ?rs \<le> i * PAGE_SIZE \<and> (i + 1) * PAGE_SIZE \<le> ?re"
  proof -
    have "i div L2_PAGES = l2 \<longleftrightarrow> l2 * L2_PAGES \<le> i \<and> i < l2 * L2_PAGES + L2_PAGES"
      using div_nat_eqI [of L2_PAGES l2 i] div_times_less_eq_dividend [of i L2_PAGES]
        dividend_less_div_times [of L2_PAGES i] by (auto simp: algebra_simps)
    then show ?thesis by auto
  qed
  let ?s = "if a > ?rs then a else ?rs" and ?t = "if z < ?re then z else ?re"
  have rng: "align_up ?s PAGE_SIZE div PAGE_SIZE \<le> i \<and> i < align_down ?t PAGE_SIZE div PAGE_SIZE
      \<longleftrightarrow> (a \<le> i * PAGE_SIZE \<and> (i + 1) * PAGE_SIZE \<le> z) \<and> i div L2_PAGES = l2"
    unfolding align_up_page align_down_page blk by auto
  have out: "\<not> ((a \<le> i * PAGE_SIZE \<and> (i + 1) * PAGE_SIZE \<le> z) \<and> i div L2_PAGES = l2)"
    if "z \<le> ?rs \<or> a \<ge> ?re" using that unfolding blk by auto
  show ?thesis
  proof (cases "me_type e = Usable")
    case False
    then show ?thesis by (simp add: mark_usable_entry_def entry_page_def)
  next
    case True
    have ep: "entry_page e i \<longleftrightarrow> a \<le> i * PAGE_SIZE \<and> (i + 1) * PAGE_SIZE \<le> z"
      using True by (simp add: entry_page_def a_def z_def)
    show ?thesis
    proof (cases "z \<le> ?rs \<or> a \<ge> ?re")
      case True
      then show ?thesis using out [OF True] \<open>me_type e = Usable\<close>
        unfolding mark_usable_entry_def Let_def a_def [symmetric] top ep by auto
    next
      case False
      then have "mark_usable_entry ?rs ?re e m = (if align_up ?s PAGE_SIZE < align_down ?t PAGE_SIZE
          then bits_clear m (align_up ?s PAGE_SIZE div PAGE_SIZE) (align_down ?t PAGE_SIZE div PAGE_SIZE) else m)"
        using \<open>me_type e = Usable\<close> unfolding mark_usable_entry_def Let_def a_def [symmetric] top by simp
      then show ?thesis unfolding ep rng [symmetric]
        using align_order [of ?s i ?t] by (auto simp: bit_test_bits_clear)
    qed
  qed
qed

lemma fold_mark_usable_bit:
  assumes "no_wrap es"
  shows "bit_test (fold (mark_usable_entry (l2 * L2_SIZE) (l2 * L2_SIZE + L2_SIZE)) es m) i
     \<longleftrightarrow> bit_test m i \<and> \<not> (usable_page es i \<and> i div L2_PAGES = l2)"
  using assms
proof (induction es arbitrary: m)
  case (Cons e es)
  then have "me_base e + me_length e < U64" "no_wrap es" by (auto simp: no_wrap_def)
  then show ?case using Cons.IH mark_usable_entry_bit [of e l2 m i] by (auto simp: usable_page_def)
qed (simp add: usable_page_def)

section \<open>The lazy view of the page map\<close>

text \<open>
  What the page map says once every block is populated: a block that is not yet
  populated reads as the memory map.
\<close>

definition lazy_bit :: "pmm \<Rightarrow> nat \<Rightarrow> bool" where
  "lazy_bit s i \<longleftrightarrow>
     (if bit_test (init_map s) (i div L2_PAGES) then bit_test (l1_map s) i else \<not> usable_page (pmm_memmap s) i)"

lemma ensure_l2_init_frame [simp]:
  "pmm_memmap (ensure_l2_init l2 s) = pmm_memmap s" "l2_map (ensure_l2_init l2 s) = l2_map s"
  "l3_map (ensure_l2_init l2 s) = l3_map s" "total_l2_bits (ensure_l2_init l2 s) = total_l2_bits s"
  "total_l3_bits (ensure_l2_init l2 s) = total_l3_bits s" "pmm_bitmap_pages (ensure_l2_init l2 s) = pmm_bitmap_pages s"
  "shards (ensure_l2_init l2 s) = shards s" "shard_count (ensure_l2_init l2 s) = shard_count s"
  "free_pages (ensure_l2_init l2 s) = free_pages s" "pmm_cache (ensure_l2_init l2 s) = pmm_cache s"
  by (simp_all add: ensure_l2_init_def Let_def)

lemma ensure_l2_init_init: "bit_test (init_map (ensure_l2_init l2 s)) j \<longleftrightarrow> j = l2 \<or> bit_test (init_map s) j"
  by (auto simp: ensure_l2_init_def Let_def bitmap_simps)

lemma words_fill_block:
  "bit_test (words_fill m (l2 * L2_L1_WORDS) (l2 * L2_L1_WORDS + L2_L1_WORDS) (-1)) i
     \<longleftrightarrow> bit_test m i \<or> i div L2_PAGES = l2"
proof -
  have "i div L2_PAGES = i div 64 div L2_L1_WORDS" by (simp add: div_mult2_eq [symmetric])
  moreover have "i div 64 div L2_L1_WORDS = l2 \<longleftrightarrow> l2 * L2_L1_WORDS \<le> i div 64 \<and> i div 64 < l2 * L2_L1_WORDS + L2_L1_WORDS"
    using div_nat_eqI [of L2_L1_WORDS l2 "i div 64"] div_times_less_eq_dividend [of "i div 64" L2_L1_WORDS]
      dividend_less_div_times [of L2_L1_WORDS "i div 64"] by (auto simp: algebra_simps)
  ultimately show ?thesis by (auto simp: bit_test_iff words_fill_apply)
qed

lemma ensure_l2_init_l1:
  assumes "no_wrap (pmm_memmap s)"
  shows "bit_test (l1_map (ensure_l2_init l2 s)) i \<longleftrightarrow>
     (if \<not> bit_test (init_map s) l2 \<and> i div L2_PAGES = l2 then \<not> usable_page (pmm_memmap s) i else bit_test (l1_map s) i)"
  using fold_mark_usable_bit [OF assms, of l2] words_fill_block [of "l1_map s" l2 i]
  by (auto simp: ensure_l2_init_def Let_def)

lemma ensure_l2_init_lazy:
  assumes "no_wrap (pmm_memmap s)"
  shows "lazy_bit (ensure_l2_init l2 s) i = lazy_bit s i"
  using ensure_l2_init_l1 [OF assms, of l2 i] by (auto simp: lazy_bit_def ensure_l2_init_init)

text \<open>The state of \<open>Init\<close> between its passes: nothing beyond the covered blocks was touched.\<close>

definition init_inv :: "pmm \<Rightarrow> bool" where
  "init_inv s \<longleftrightarrow> geometry_ok s \<and> no_wrap (pmm_memmap s)
     \<and> (\<forall>i \<ge> pmm_bitmap_pages s. lazy_bit s i)
     \<and> (\<forall>i \<ge> total_l2_bits s * L2_PAGES. bit_test (l1_map s) i)
     \<and> (\<forall>l2 \<ge> total_l2_bits s. bit_test (l2_map s) l2 \<and> \<not> bit_test (init_map s) l2)
     \<and> (\<forall>l3 \<ge> total_l3_bits s. bit_test (l3_map s) l3)"

lemma init_inv_ensure:
  assumes "init_inv s" and "l2 < total_l2_bits s"
  shows "init_inv (ensure_l2_init l2 s)"
proof -
  have "i div L2_PAGES \<noteq> l2" if "total_l2_bits s * L2_PAGES \<le> i" for i
    using that assms(2) less_eq_div_iff_mult_less_eq [of L2_PAGES "total_l2_bits s" i] by auto
  then show ?thesis
    using assms ensure_l2_init_l1 [of s l2] ensure_l2_init_lazy [of s l2]
    by (auto simp: init_inv_def geometry_ok_def ensure_l2_init_init)
qed

definition init_frame :: "pmm \<Rightarrow> pmm \<Rightarrow> bool" where
  "init_frame s s' \<longleftrightarrow> pmm_memmap s' = pmm_memmap s \<and> total_l2_bits s' = total_l2_bits s
     \<and> total_l3_bits s' = total_l3_bits s \<and> pmm_bitmap_pages s' = pmm_bitmap_pages s
     \<and> shards s' = shards s \<and> shard_count s' = shard_count s \<and> free_pages s' = free_pages s
     \<and> pmm_cache s' = pmm_cache s"

lemma init_frame_refl [simp]: "init_frame s s"
  by (simp add: init_frame_def)

lemma init_frame_trans: "init_frame s t \<Longrightarrow> init_frame t u \<Longrightarrow> init_frame s u"
  by (simp add: init_frame_def)

text \<open>One block of \<open>mark_allocated\<close>.\<close>

definition mark_block :: "nat \<Rightarrow> nat \<Rightarrow> nat \<Rightarrow> pmm \<Rightarrow> pmm" where
  "mark_block l2 b0 b1 s =
     (let s1 = ensure_l2_init l2 s; s2 = s1\<lparr>l1_map := bits_set (l1_map s1) b0 b1\<rparr>
      in if l2_block_full s2 l2
         then l2_full_propagate l2 (s2\<lparr>l2_map := bit_set (l2_map s2) l2\<rparr>) else s2)"

lemma mark_allocated_blocks:
  "mark_allocated b n s = fold (\<lambda>l2. mark_block l2 (block_lo b (b div L2_PAGES) l2)
     (block_hi (b + n) ((b + n - 1) div L2_PAGES) l2)) [b div L2_PAGES..<Suc ((b + n - 1) div L2_PAGES)] s"
  unfolding mark_allocated_def mark_block_def Let_def ..

lemma mark_block_shape:
  "\<exists>m2 m3. mark_block l2 b0 b1 s = (ensure_l2_init l2 s)\<lparr>l1_map := bits_set (l1_map (ensure_l2_init l2 s)) b0 b1,
      l2_map := m2, l3_map := m3\<rparr>
    \<and> (\<forall>j. bit_test (l2_map s) j \<longrightarrow> bit_test m2 j) \<and> (\<forall>j. bit_test (l3_map s) j \<longrightarrow> bit_test m3 j)"
proof -
  let ?t = "ensure_l2_init l2 s"
  let ?u = "?t\<lparr>l1_map := bits_set (l1_map ?t) b0 b1\<rparr>"
  define f g where "f = l2_block_full ?u l2" and "g = l3_words_full (?u\<lparr>l2_map := bit_set (l2_map s) l2\<rparr>) (l2 div L2_PER_L3)"
  have "mark_block l2 b0 b1 s = ?t\<lparr>l1_map := bits_set (l1_map ?t) b0 b1,
      l2_map := if f then bit_set (l2_map s) l2 else l2_map s,
      l3_map := if f \<and> g then bit_set (l3_map s) (l2 div L2_PER_L3) else l3_map s\<rparr>"
    by (simp add: mark_block_def Let_def f_def g_def l2_full_propagate_alt)
  then show ?thesis by (intro exI conjI) (auto simp: bitmap_simps)
qed

lemma mark_block_init:
  assumes inv: "init_inv s" and l2: "l2 < total_l2_bits s" and b: "l2 * L2_PAGES \<le> b0" "b1 \<le> (l2 + 1) * L2_PAGES"
  shows "init_inv (mark_block l2 b0 b1 s) \<and> init_frame s (mark_block l2 b0 b1 s)
     \<and> (\<forall>i. lazy_bit (mark_block l2 b0 b1 s) i \<longleftrightarrow> lazy_bit s i \<or> b0 \<le> i \<and> i < b1)"
proof -
  let ?t = "ensure_l2_init l2 s"
  have nw: "no_wrap (pmm_memmap s)" using inv by (simp add: init_inv_def)
  have inv': "init_inv ?t" by (rule init_inv_ensure [OF inv l2])
  obtain m2 m3 where e: "mark_block l2 b0 b1 s = ?t\<lparr>l1_map := bits_set (l1_map ?t) b0 b1, l2_map := m2, l3_map := m3\<rparr>"
    and m: "\<forall>j. bit_test (l2_map s) j \<longrightarrow> bit_test m2 j" "\<forall>j. bit_test (l3_map s) j \<longrightarrow> bit_test m3 j"
    using mark_block_shape [of l2 b0 b1 s] by (elim exE conjE)
  have frame: "init_frame s (mark_block l2 b0 b1 s)" unfolding e by (simp add: init_frame_def)
  have "i div L2_PAGES = l2" if "b0 \<le> i" "i < b1" for i
    using that b by (auto intro!: div_nat_eqI simp: algebra_simps)
  then have lazy: "lazy_bit (mark_block l2 b0 b1 s) i \<longleftrightarrow> lazy_bit s i \<or> b0 \<le> i \<and> i < b1" for i
    using ensure_l2_init_lazy [OF nw, of l2 i] unfolding e
    by (auto simp: lazy_bit_def bitmap_simps ensure_l2_init_init)
  then have "\<forall>i \<ge> pmm_bitmap_pages s. lazy_bit (mark_block l2 b0 b1 s) i" using inv by (simp add: init_inv_def)
  then have "init_inv (mark_block l2 b0 b1 s)"
    using inv' m unfolding e by (auto simp: init_inv_def geometry_ok_def bitmap_simps)
  then show ?thesis using frame lazy by blast
qed

lemma mark_allocated_init:
  assumes inv: "init_inv s" and n: "0 < n" and b: "b + n \<le> pmm_bitmap_pages s"
  shows "init_inv (mark_allocated b n s)" and "init_frame s (mark_allocated b n s)"
    and "\<And>i. lazy_bit (mark_allocated b n s) i \<longleftrightarrow> lazy_bit s i \<or> b \<le> i \<and> i < b + n"
proof -
  define first lst where "first = b div L2_PAGES" and "lst = (b + n - 1) div L2_PAGES"
  let ?f = "\<lambda>l2. mark_block l2 (block_lo b first l2) (block_hi (b + n) lst l2)"
  let ?P = "\<lambda>k t. init_inv t \<and> init_frame s t
     \<and> (\<forall>i. lazy_bit t i \<longleftrightarrow> lazy_bit s i \<or> b \<le> i \<and> i < min (b + n) (k * L2_PAGES))"
  have fl: "first \<le> Suc lst" using n unfolding first_def lst_def by (intro le_SucI div_le_mono) simp
  have tot: "lst < total_l2_bits s"
    using geometry_bounds(4) [of s "b + n - 1"] inv b n by (simp add: init_inv_def lst_def)
  have base: "first * L2_PAGES \<le> b" by (simp add: first_def)
  have lstb: "b + n \<le> Suc lst * L2_PAGES" using n by (auto simp: lst_def)
  have "?P (Suc lst) (fold ?f [first..<Suc lst] s)"
  proof (rule fold_upt_index [where P = ?P])
    show "?P first s" using inv base by auto
    fix k t assume k: "first \<le> k" "k < Suc lst" and P: "?P k t"
    note bb = block_bounds [OF n k(1) [unfolded first_def] k(2) [unfolded less_Suc_eq_le lst_def], folded first_def lst_def]
    have "k < total_l2_bits t" using k(2) tot P by (simp add: init_frame_def)
    from mark_block_init [OF _ this bb(1,3)] P
    have "init_inv (?f k t) \<and> init_frame t (?f k t) \<and>
      (\<forall>i. lazy_bit (?f k t) i \<longleftrightarrow> lazy_bit t i \<or> block_lo b first k \<le> i \<and> i < block_hi (b + n) lst k)" by blast
    moreover have "(b \<le> i \<and> i < min (b + n) (k * L2_PAGES)) \<or> (block_lo b first k \<le> i \<and> i < block_hi (b + n) lst k)
        \<longleftrightarrow> b \<le> i \<and> i < min (b + n) (Suc k * L2_PAGES)" for i
      unfolding bb(4,5) by auto
    ultimately show "?P (Suc k) (?f k t)" using P init_frame_trans [of s t "?f k t"] by blast
  qed (rule fl)
  then have "init_inv (mark_allocated b n s) \<and> init_frame s (mark_allocated b n s) \<and>
     (\<forall>i. lazy_bit (mark_allocated b n s) i \<longleftrightarrow> lazy_bit s i \<or> b \<le> i \<and> i < min (b + n) (Suc lst * L2_PAGES))"
    unfolding mark_allocated_blocks first_def lst_def by blast
  then show "init_inv (mark_allocated b n s)" and "init_frame s (mark_allocated b n s)"
    and "\<And>i. lazy_bit (mark_allocated b n s) i \<longleftrightarrow> lazy_bit s i \<or> b \<le> i \<and> i < b + n"
    unfolding min.absorb1 [OF lstb] by blast+
qed

section \<open>Reserved entries\<close>

definition reserved_by :: "memmap_entry \<Rightarrow> nat \<Rightarrow> bool" where
  "reserved_by e i \<longleftrightarrow> me_type e = Bootloader_Reclaimable \<and> me_length e \<noteq> 0
     \<and> me_base e div PAGE_SIZE \<le> i \<and> i < me_base e div PAGE_SIZE + (me_length e + PAGE_SIZE - 1) div PAGE_SIZE"

lemma reserve_entry_init:
  assumes inv: "init_inv s" and e: "me_base e + me_length e + PAGE_SIZE < U64"
  shows "init_inv (reserve_entry e s) \<and> init_frame s (reserve_entry e s)
     \<and> (\<forall>i. lazy_bit (reserve_entry e s) i \<longleftrightarrow> lazy_bit s i \<or> reserved_by e i \<and> i < pmm_bitmap_pages s)"
proof (cases "me_type e = Bootloader_Reclaimable \<and> me_length e \<noteq> 0 \<and> me_base e div PAGE_SIZE < pmm_bitmap_pages s")
  case False
  then have "reserve_entry e s = s" by (auto simp: reserve_entry_def Let_def)
  moreover have "\<not> (reserved_by e i \<and> i < pmm_bitmap_pages s)" for i using False by (auto simp: reserved_by_def)
  ultimately show ?thesis using inv by auto
next
  case True
  define first cnt P where "first = me_base e div PAGE_SIZE" and "cnt = (me_length e + PAGE_SIZE - 1) div PAGE_SIZE"
    and "P = pmm_bitmap_pages s"
  have cnt: "add64 (me_length e) (PAGE_SIZE - 1) div PAGE_SIZE = cnt"
    using e by (simp add: cnt_def u64_simps)
  have pos: "0 < cnt" using True by (simp add: cnt_def div_greater_zero_iff)
  define n where "n = (if cnt > P - first then P - first else cnt)"
  have n: "0 < n" "first + n \<le> pmm_bitmap_pages s" using True pos by (auto simp: n_def first_def P_def)
  have eq: "reserve_entry e s = mark_allocated first n s"
    using True unfolding reserve_entry_def cnt Let_def first_def [symmetric] P_def [symmetric] n_def [symmetric]
    by simp
  have "reserved_by e i \<and> i < pmm_bitmap_pages s \<longleftrightarrow> first \<le> i \<and> i < first + n" for i
    using True unfolding reserved_by_def first_def [symmetric] cnt_def [symmetric] n_def P_def by auto
  then show ?thesis unfolding eq using mark_allocated_init [OF inv n] by blast
qed

lemma reserve_entries_init:
  assumes "init_inv s" and "no_wrap es"
  shows "init_inv (fold reserve_entry es s) \<and> init_frame s (fold reserve_entry es s)
     \<and> (\<forall>i. lazy_bit (fold reserve_entry es s) i \<longleftrightarrow>
            lazy_bit s i \<or> (\<exists>e \<in> set es. reserved_by e i) \<and> i < pmm_bitmap_pages s)"
  using assms
proof (induction es arbitrary: s)
  case (Cons e es)
  let ?t = "reserve_entry e s"
  have "me_base e + me_length e + PAGE_SIZE < U64" "no_wrap es" using Cons.prems by (auto simp: no_wrap_def)
  note step = reserve_entry_init [OF Cons.prems(1) this(1)] and nw = this(2)
  have IH: "init_inv (fold reserve_entry es ?t) \<and> init_frame ?t (fold reserve_entry es ?t)
     \<and> (\<forall>i. lazy_bit (fold reserve_entry es ?t) i \<longleftrightarrow>
            lazy_bit ?t i \<or> (\<exists>e \<in> set es. reserved_by e i) \<and> i < pmm_bitmap_pages ?t)"
    using Cons.IH [of ?t] step nw by blast
  moreover have "pmm_bitmap_pages ?t = pmm_bitmap_pages s" using step by (simp add: init_frame_def)
  moreover have "init_frame s (fold reserve_entry es ?t)" using IH step init_frame_trans by blast
  ultimately show ?case using step by auto
qed simp

section \<open>The upper maps from the page map\<close>

lemma rederive_l2_init:
  assumes inv: "init_inv s" and l2: "l2 < total_l2_bits s"
  shows "init_inv (rederive_l2 l2 s)" and "init_frame s (rederive_l2 l2 s)"
    and "lazy_bit (rederive_l2 l2 s) i = lazy_bit s i"
    and "bit_test (init_map (rederive_l2 l2 s)) j \<longleftrightarrow> j = l2 \<or> bit_test (init_map s) j"
    and "bit_test (l2_map (rederive_l2 l2 s)) j \<longleftrightarrow>
      (if j = l2 then \<forall>i. l2 * L2_PAGES \<le> i \<and> i < (l2 + 1) * L2_PAGES \<longrightarrow> lazy_bit s i else bit_test (l2_map s) j)"
proof -
  let ?t = "ensure_l2_init l2 s"
  define m where "m = (if l2_block_full ?t l2 then bit_set (l2_map s) l2 else bit_clear (l2_map s) l2)"
  have e: "rederive_l2 l2 s = ?t\<lparr>l2_map := m\<rparr>" by (simp add: rederive_l2_def Let_def m_def)
  have nw: "no_wrap (pmm_memmap s)" using inv by (simp add: init_inv_def)
  have inv': "init_inv ?t" by (rule init_inv_ensure [OF inv l2])
  have "lazy_bit (?t\<lparr>l2_map := m\<rparr>) = lazy_bit ?t" by (simp add: lazy_bit_def fun_eq_iff)
  then show "init_inv (rederive_l2 l2 s)"
    using inv' l2 unfolding e by (auto simp: init_inv_def geometry_ok_def m_def bitmap_simps)
  show "init_frame s (rederive_l2 l2 s)" unfolding e by (simp add: init_frame_def)
  show "lazy_bit (rederive_l2 l2 s) i = lazy_bit s i"
    using ensure_l2_init_lazy [OF nw, of l2 i] unfolding e by (auto simp: lazy_bit_def)
  show "bit_test (init_map (rederive_l2 l2 s)) j \<longleftrightarrow> j = l2 \<or> bit_test (init_map s) j"
    unfolding e by (simp add: ensure_l2_init_init)
  have "bit_test (l1_map ?t) i = lazy_bit s i" if "l2 * L2_PAGES \<le> i" "i < (l2 + 1) * L2_PAGES" for i
  proof -
    have "i div L2_PAGES = l2" using that by (auto intro!: div_nat_eqI simp: algebra_simps)
    then show ?thesis using ensure_l2_init_lazy [OF nw, of l2 i] by (simp add: lazy_bit_def ensure_l2_init_init)
  qed
  then have "l2_block_full ?t l2 \<longleftrightarrow> (\<forall>i. l2 * L2_PAGES \<le> i \<and> i < (l2 + 1) * L2_PAGES \<longrightarrow> lazy_bit s i)"
    unfolding l2_block_full_iff by blast
  then show "bit_test (l2_map (rederive_l2 l2 s)) j \<longleftrightarrow>
      (if j = l2 then \<forall>i. l2 * L2_PAGES \<le> i \<and> i < (l2 + 1) * L2_PAGES \<longrightarrow> lazy_bit s i else bit_test (l2_map s) j)"
    unfolding e by (auto simp: m_def bitmap_simps)
qed

lemma rederive_l2_pass:
  assumes inv: "init_inv s"
  defines "t \<equiv> fold rederive_l2 [0..<total_l2_bits s] s"
  shows "init_inv t" and "init_frame s t" and "\<And>i. lazy_bit t i = lazy_bit s i"
    and "\<And>l2. l2 < total_l2_bits s \<Longrightarrow> bit_test (init_map t) l2"
    and "\<And>l2. l2 < total_l2_bits s \<Longrightarrow> bit_test (l2_map t) l2 \<longleftrightarrow>
      (\<forall>i. l2 * L2_PAGES \<le> i \<and> i < (l2 + 1) * L2_PAGES \<longrightarrow> lazy_bit s i)"
proof -
  let ?full = "\<lambda>l2. \<forall>i. l2 * L2_PAGES \<le> i \<and> i < (l2 + 1) * L2_PAGES \<longrightarrow> lazy_bit s i"
  let ?P = "\<lambda>k u. init_inv u \<and> init_frame s u \<and> (\<forall>i. lazy_bit u i = lazy_bit s i)
    \<and> (\<forall>l2 < k. bit_test (init_map u) l2 \<and> (bit_test (l2_map u) l2 \<longleftrightarrow> ?full l2))"
  have "?P (total_l2_bits s) t"
    unfolding t_def
  proof (rule fold_upt_index [where P = ?P])
    fix k u assume k: "k < total_l2_bits s" and P: "?P k u"
    then have "k < total_l2_bits u" by (simp add: init_frame_def)
    note r = rederive_l2_init [OF conjunct1 [OF P] this]
    have lz: "\<And>i. lazy_bit u i = lazy_bit s i" using P by blast
    note r5 = r(5) [unfolded lz]
    have "init_frame s (rederive_l2 k u)" using P r(2) init_frame_trans by blast
    then show "?P (Suc k) (rederive_l2 k u)" using P r(1,3,4) r5 by (auto simp: less_Suc_eq)
  qed (use inv in simp_all)
  then show "init_inv t" and "init_frame s t" and "\<And>i. lazy_bit t i = lazy_bit s i"
    and "\<And>l2. l2 < total_l2_bits s \<Longrightarrow> bit_test (init_map t) l2"
    and "\<And>l2. l2 < total_l2_bits s \<Longrightarrow> bit_test (l2_map t) l2 \<longleftrightarrow> ?full l2" by blast+
qed

lemma rederive_l3_pass:
  defines "t \<equiv> \<lambda>s. fold rederive_l3 [0..<total_l3_bits s] s"
  shows "\<exists>m3. t s = s\<lparr>l3_map := m3\<rparr>
     \<and> (\<forall>l3 < total_l3_bits s. bit_test m3 l3 \<longleftrightarrow> l3_words_full s l3)
     \<and> (\<forall>l3 \<ge> total_l3_bits s. bit_test m3 l3 = bit_test (l3_map s) l3)"
proof -
  let ?P = "\<lambda>k u. \<exists>m3. u = s\<lparr>l3_map := m3\<rparr> \<and> (\<forall>l3 < k. bit_test m3 l3 \<longleftrightarrow> l3_words_full s l3)
     \<and> (\<forall>l3 \<ge> k. bit_test m3 l3 = bit_test (l3_map s) l3)"
  have "?P (total_l3_bits s) (t s)"
    unfolding t_def
  proof (rule fold_upt_index [where P = ?P])
    show "?P 0 s" by (rule exI [of _ "l3_map s"]) simp
    fix k u assume "?P k u"
    then obtain m3 where u: "u = s\<lparr>l3_map := m3\<rparr>" and m3: "\<forall>l3 < k. bit_test m3 l3 \<longleftrightarrow> l3_words_full s l3"
      "\<forall>l3 \<ge> k. bit_test m3 l3 = bit_test (l3_map s) l3" by blast
    let ?m = "if l3_words_full s k then bit_set m3 k else bit_clear m3 k"
    have "rederive_l3 k u = s\<lparr>l3_map := ?m\<rparr>" unfolding u by (simp add: rederive_l3_def l3_words_full_def)
    moreover have "\<forall>l3 < Suc k. bit_test ?m l3 \<longleftrightarrow> l3_words_full s l3"
      "\<forall>l3 \<ge> Suc k. bit_test ?m l3 = bit_test (l3_map s) l3"
      using m3 by (auto simp: bitmap_simps less_Suc_eq)
    ultimately show "?P (Suc k) (rederive_l3 k u)" by blast
  qed simp
  then show ?thesis .
qed

text \<open>Populating every block and deriving the upper maps makes the three maps agree.\<close>

lemma rederive_wf:
  assumes inv: "init_inv s" and zero: "lazy_bit s 0"
  defines "t \<equiv> fold rederive_l2 [0..<total_l2_bits s] s"
  defines "u \<equiv> fold rederive_l3 [0..<total_l3_bits t] t"
  shows "pmm_wf u" and "init_frame s u" and "\<And>i. bit_test (l1_map u) i = lazy_bit s i"
proof -
  note p = rederive_l2_pass [OF inv, folded t_def]
  have tot: "total_l2_bits t = total_l2_bits s" "total_l3_bits t = total_l3_bits s"
    "pmm_bitmap_pages t = pmm_bitmap_pages s" using p(2) by (auto simp: init_frame_def)
  have g: "geometry_ok t" using p(1) by (simp add: init_inv_def)
  have l1: "bit_test (l1_map t) i = lazy_bit s i" for i
  proof (cases "i div L2_PAGES < total_l2_bits s")
    case True
    then show ?thesis using p(3) [of i] p(4) by (simp add: lazy_bit_def)
  next
    case False
    then have ge: "total_l2_bits t * L2_PAGES \<le> i"
      using tot by (simp add: less_eq_div_iff_mult_less_eq)
    moreover have "pmm_bitmap_pages t \<le> total_l2_bits t * L2_PAGES" using g unfolding geometry_ok_def by auto
    ultimately have "bit_test (l1_map t) i" "lazy_bit t i" using p(1) unfolding init_inv_def by (meson le_trans)+
    then show ?thesis using p(3) by simp
  qed
  have l2: "bit_test (l2_map t) l2 \<longleftrightarrow> (\<forall>i. l2 * L2_PAGES \<le> i \<and> i < (l2 + 1) * L2_PAGES \<longrightarrow> bit_test (l1_map t) i)" for l2
  proof (cases "l2 < total_l2_bits s")
    case True
    then show ?thesis using p(5) l1 by simp
  next
    case False
    then have "bit_test (l2_map t) l2" using p(1) tot by (simp add: init_inv_def)
    moreover have "total_l2_bits t * L2_PAGES \<le> l2 * L2_PAGES" using False tot by (intro mult_right_mono) auto
    ultimately show ?thesis using p(1) unfolding init_inv_def by (meson le_trans)
  qed
  obtain m3 where u: "u = t\<lparr>l3_map := m3\<rparr>" and m3: "\<forall>l3 < total_l3_bits t. bit_test m3 l3 \<longleftrightarrow> l3_words_full t l3"
    "\<forall>l3 \<ge> total_l3_bits t. bit_test m3 l3 = bit_test (l3_map t) l3"
    using rederive_l3_pass [of t] unfolding u_def by blast
  have cover: "total_l2_bits t \<le> total_l3_bits t * L2_PER_L3" using g unfolding geometry_ok_def by auto
  have l3: "bit_test m3 l3 \<longleftrightarrow> (\<forall>l2. l3 * L2_PER_L3 \<le> l2 \<and> l2 < (l3 + 1) * L2_PER_L3 \<longrightarrow> bit_test (l2_map t) l2)" for l3
  proof (cases "l3 < total_l3_bits t")
    case True
    then show ?thesis using m3 l3_words_full_iff [of t l3] by blast
  next
    case False
    then have "bit_test m3 l3" using m3(2) p(1) by (simp add: init_inv_def)
    moreover have "total_l3_bits t * L2_PER_L3 \<le> l3 * L2_PER_L3" using False by (intro mult_right_mono) auto
    ultimately show ?thesis using p(1) cover unfolding init_inv_def by (meson le_trans)
  qed
  show "\<And>i. bit_test (l1_map u) i = lazy_bit s i" unfolding u using l1 by simp
  show "init_frame s u" unfolding u using p(2) by (simp add: init_frame_def)
  have "\<forall>i \<ge> pmm_bitmap_pages t. bit_test (l1_map t) i" using p(1) p(3) l1 by (simp add: init_inv_def)
  moreover have "maps_agree (l1_map t) (l2_map t) m3" using l2 l3 by (simp add: maps_agree_def l2_agree_def l3_agree_def)
  ultimately show "pmm_wf u" using g p(4) tot l1 [of 0] zero unfolding u by (auto simp: pmm_wf_def geometry_ok_def)
qed

section \<open>Counting\<close>

text \<open>After \<open>k\<close> blocks the counters count the map in which all later pages are taken.\<close>

lemma count_block_step:
  assumes wf: "pmm_wf s" and k: "k < total_l2_bits s"
    and cnt: "counts_for (bits_set (l1_map s) (k * L2_PAGES) (shard_count s * SHARD_PAGES)) s"
  shows "counts_for (bits_set (l1_map s) (Suc k * L2_PAGES) (shard_count s * SHARD_PAGES)) (count_block k s)"
proof -
  let ?N = "shard_count s * SHARD_PAGES" and ?m = "l1_map s" and ?si = "k div L2_PER_L3"
  let ?a = "bits_set ?m (k * L2_PAGES) ?N" and ?b = "bits_set ?m (Suc k * L2_PAGES) ?N"
  have g: "geometry_ok s" and ag: "maps_agree ?m (l2_map s) (l3_map s)" using wf by (auto simp: pmm_wf_def)
  have "k * L2_PAGES < pmm_bitmap_pages s"
    using k g unfolding geometry_ok_def by (auto simp: div_less_iff_less_mult less_eq_div_iff_mult_less_eq)
  then have si: "?si < shard_count s" using geometry_bounds(5) [OF g, of "k * L2_PAGES"] by simp
  have N: "(?si + 1) * SHARD_PAGES \<le> ?N" using si by (intro mult_right_mono) auto
  note blk = block_in_shard [of k]
  have tst: "bit_test ?a i \<longleftrightarrow> bit_test ?b i \<or> k * L2_PAGES \<le> i \<and> i < Suc k * L2_PAGES" for i
    using blk(2) N by (auto simp: bitmap_simps)
  have out: "same_outside ?si ?a ?b"
    unfolding same_outside_def
  proof (intro allI impI)
    fix i assume "i div SHARD_PAGES \<noteq> ?si"
    then have "\<not> (k * L2_PAGES \<le> i \<and> i < Suc k * L2_PAGES)"
      using in_shard [of ?si i] blk by fastforce
    then show "bit_test ?b i = bit_test ?a i" using tst by blast
  qed
  have bc: "block_free_count s k = card (clear_bits ?b (k * L2_PAGES) (Suc k * L2_PAGES))"
    unfolding block_free_count_card Suc_eq_plus1
    by (rule arg_cong [where f = card], rule clear_bits_cong) (auto simp: bitmap_simps)
  have "shard_free ?b ?si = shard_free ?a ?si + block_free_count s k"
  proof -
    let ?c = "\<lambda>m x y. card (clear_bits m x y)" and ?lo = "?si * SHARD_PAGES" and ?hi = "(?si + 1) * SHARD_PAGES"
    have sp: "?c m ?lo ?hi = ?c m ?lo (k * L2_PAGES) + ?c m (k * L2_PAGES) (Suc k * L2_PAGES) + ?c m (Suc k * L2_PAGES) ?hi" for m
      using clear_bits_split [of ?lo "k * L2_PAGES" ?hi m] clear_bits_split [of "k * L2_PAGES" "Suc k * L2_PAGES" ?hi m] blk
      by (simp add: algebra_simps)
    have "clear_bits ?b ?lo (k * L2_PAGES) = clear_bits ?a ?lo (k * L2_PAGES)"
      "clear_bits ?b (Suc k * L2_PAGES) ?hi = clear_bits ?a (Suc k * L2_PAGES) ?hi"
      using tst by (auto intro!: clear_bits_cong)
    moreover have "clear_bits ?a (k * L2_PAGES) (Suc k * L2_PAGES) = {}"
      using tst by (auto simp: clear_bits_def)
    ultimately show ?thesis unfolding shard_free_def sp bc by simp
  qed
  note add = counts_for_add [OF cnt si out this geometry_bounds(2) [OF g]]
  show ?thesis
  proof (cases "bit_test (l2_map s) k")
    case True
    have "l2_agree ?m (l2_map s)" using ag by (simp add: maps_agree_def)
    then have "bit_test ?m i" if "k * L2_PAGES \<le> i" "i < Suc k * L2_PAGES" for i
      using l2_agreeD [OF _ True, of ?m i] that by simp
    then have "?a = ?b" using tst by (intro bitmap_eqI) (auto simp: bitmap_simps)
    then show ?thesis using cnt True by (simp add: count_block_def)
  next
    case False
    then show ?thesis using add by (simp add: count_block_def)
  qed
qed

lemma count_block_frame:
  "l1_map (count_block k s) = l1_map s" "l2_map (count_block k s) = l2_map s" "same_geometry s (count_block k s)"
  "pmm_wf (count_block k s) = pmm_wf s" "pmm_cache (count_block k s) = pmm_cache s"
  by (auto simp: count_block_def shard_free_add_def same_geometry_def pmm_wf_def geometry_ok_def)

lemma count_pass:
  assumes wf: "pmm_wf s" and cache: "cache_ok s" and z: "\<forall>si. sh_free_pages (shards s si) = 0" "free_pages s = 0"
  defines "t \<equiv> fold count_block [0..<total_l2_bits s] s"
  shows "pmm_inv t" and "l1_map t = l1_map s" and "same_geometry s t" and "pmm_cache t = pmm_cache s"
proof -
  let ?N = "shard_count s * SHARD_PAGES"
  let ?P = "\<lambda>k u. same_geometry s u \<and> l1_map u = l1_map s \<and> pmm_wf u \<and> pmm_cache u = pmm_cache s
     \<and> counts_for (bits_set (l1_map s) (k * L2_PAGES) ?N) u"
  have "?P (total_l2_bits s) t"
    unfolding t_def
  proof (rule fold_upt_index [where P = ?P])
    have "clear_bits (bits_set (l1_map s) 0 ?N) a b = {}" if "b \<le> ?N" for a b
      using that by (auto simp: clear_bits_def bitmap_simps)
    moreover have "(si + 1) * SHARD_PAGES \<le> ?N" if "si < shard_count s" for si
      using that by (intro mult_right_mono) auto
    ultimately have "counts_for (bits_set (l1_map s) (0 * L2_PAGES) ?N) s"
      using z by (simp add: counts_for_def shard_free_def)
    then show "?P 0 s" using wf by simp
    fix k u assume k: "k < total_l2_bits s" and P: "?P k u"
    have "shard_count u = shard_count s" "k < total_l2_bits u" using P k by (auto simp: same_geometry_def)
    then show "?P (Suc k) (count_block k u)"
      using P count_block_step [of u k] count_block_frame [where k = k and s = u] same_geometry_trans [of s u "count_block k u"] by simp
  qed simp
  then have P: "?P (total_l2_bits s) t" .
  have N: "?N \<le> total_l2_bits s * L2_PAGES + ?N" by simp
  have "bits_set (l1_map s) (total_l2_bits s * L2_PAGES) ?N = l1_map s"
  proof (rule bitmap_eqI)
    fix i
    have "pmm_bitmap_pages s \<le> total_l2_bits s * L2_PAGES" using wf unfolding pmm_wf_def geometry_ok_def by auto
    then have "bit_test (l1_map s) i" if "total_l2_bits s * L2_PAGES \<le> i"
      using wf that unfolding pmm_wf_def by (meson le_trans)
    then show "bit_test (bits_set (l1_map s) (total_l2_bits s * L2_PAGES) ?N) i = bit_test (l1_map s) i"
      by (auto simp: bitmap_simps)
  qed
  moreover have "cache_ok t" using cache P by (simp add: cache_ok_def same_geometry_def)
  ultimately show "pmm_inv t" using P by (simp add: pmm_inv_def)
  show "l1_map t = l1_map s" and "same_geometry s t" and "pmm_cache t = pmm_cache s" using P by auto
qed

section \<open>Init\<close>

lemma place_meta_entries:
  assumes "place_meta meta es = Some es'" and "e' \<in> set es'"
  shows "\<exists>e \<in> set es. me_base e' = me_base e \<and> me_type e' = me_type e \<and> me_length e' \<le> me_length e"
  using assms
proof (induction es arbitrary: es')
  case (Cons e es)
  show ?case
  proof (cases "me_type e \<noteq> Usable \<or> me_length e < meta")
    case True
    then obtain es1 where es1: "place_meta meta es = Some es1" "es' = e # es1" using Cons.prems(1) by auto
    then show ?thesis using Cons.IH [of es1] Cons.prems(2) by auto
  next
    case False
    then show ?thesis using Cons.prems by auto
  qed
qed simp

lemma max_top_ge: "e \<in> set es \<Longrightarrow> entry_top e \<le> max_top es"
proof -
  have "m \<le> fold (\<lambda>e mx. if entry_top e > mx then entry_top e else mx) es m \<and>
    (\<forall>e \<in> set es. entry_top e \<le> fold (\<lambda>e mx. if entry_top e > mx then entry_top e else mx) es m)" for m
    by (induction es arbitrary: m) (auto, (meson leI le_trans less_imp_le)+)
  then show "e \<in> set es \<Longrightarrow> entry_top e \<le> max_top es" by (simp add: max_top_def)
qed

lemma max_top_mem: "max_top es = 0 \<or> (\<exists>e \<in> set es. max_top es = entry_top e)"
proof -
  have "fold (\<lambda>e mx. if entry_top e > mx then entry_top e else mx) es m = m \<or>
    (\<exists>e \<in> set es. fold (\<lambda>e mx. if entry_top e > mx then entry_top e else mx) es m = entry_top e)" for m
  proof (induction es arbitrary: m)
    case (Cons a es)
    show ?case using Cons.IH [of "if m < entry_top a then entry_top a else m"] by auto
  qed simp
  then show ?thesis by (simp add: max_top_def)
qed

lemma max_phys_props:
  assumes "no_wrap es" and "max_phys es \<noteq> 0"
  shows "max_phys es + PAGE_SIZE < U64"
    and "e \<in> set es \<Longrightarrow> me_type e = Usable \<Longrightarrow> me_base e + me_length e \<le> max_phys es"
proof -
  let ?us = "filter (\<lambda>e. me_type e = Usable) es"
  have top: "entry_top e = me_base e + me_length e" if "e \<in> set es" for e
    using assms(1) that by (auto simp: entry_top_def no_wrap_def intro!: add64_id)
  have "\<exists>e \<in> set es. max_phys es = entry_top e"
    using assms(2) max_top_mem [of ?us] max_top_mem [of es] by (auto simp: max_phys_def Let_def split: if_splits)
  then show "max_phys es + PAGE_SIZE < U64" using assms(1) top by (auto simp: no_wrap_def)
  assume e: "e \<in> set es" "me_type e = Usable"
  then have "entry_top e \<le> max_top ?us" by (intro max_top_ge) simp
  then show "me_base e + me_length e \<le> max_phys es" using top [OF e(1)] by (simp add: max_phys_def Let_def)
qed

lemma clear_l2_keeps:
  assumes "no_wrap es" and "\<forall>e \<in> set es. me_type e = Usable \<longrightarrow> me_base e + me_length e \<le> k * L2_SIZE"
  shows "k \<le> l2 \<Longrightarrow> bit_test (fold clear_l2_of_entry es m) l2 = bit_test m l2"
  using assms
proof (induction es arbitrary: m)
  case (Cons e es)
  have "bit_test (clear_l2_of_entry e m) l2 = bit_test m l2"
  proof (cases "me_type e = Usable \<and> entry_top e \<noteq> 0")
    case True
    have top: "entry_top e = me_base e + me_length e"
      using Cons.prems(2) by (auto simp: entry_top_def no_wrap_def intro!: add64_id)
    then have "entry_top e - 1 < k * L2_SIZE" using Cons.prems(3) True by auto
    then have "(entry_top e - 1) div L2_SIZE < k" by (rule less_mult_imp_div_less)
    then show ?thesis using Cons.prems(1) by (auto simp: clear_l2_of_entry_def bitmap_simps)
  qed (auto simp: clear_l2_of_entry_def)
  then show ?case using Cons by (simp add: no_wrap_def)
qed simp

lemma l3_clear_pass:
  defines "f \<equiv> \<lambda>l3 s. if l3_words_full s l3 then s else s\<lparr>l3_map := bit_clear (l3_map s) l3\<rparr>"
  shows "\<exists>m3. fold f [0..<k] s = s\<lparr>l3_map := m3\<rparr> \<and> (\<forall>l3 \<ge> k. bit_test m3 l3 = bit_test (l3_map s) l3)"
proof -
  let ?P = "\<lambda>k u. \<exists>m3. u = s\<lparr>l3_map := m3\<rparr> \<and> (\<forall>l3 \<ge> k. bit_test m3 l3 = bit_test (l3_map s) l3)"
  show ?thesis
  proof (rule fold_upt_index [where P = ?P])
    show "?P 0 s" by (rule exI [of _ "l3_map s"]) simp
    fix j u assume "?P j u"
    then obtain m3 where u: "u = s\<lparr>l3_map := m3\<rparr>" and m3: "\<forall>l3 \<ge> j. bit_test m3 l3 = bit_test (l3_map s) l3" by blast
    have "f j u = s\<lparr>l3_map := if l3_words_full u j then m3 else bit_clear m3 j\<rparr>" by (simp add: f_def u)
    moreover have "\<forall>l3 \<ge> Suc j. bit_test (if l3_words_full u j then m3 else bit_clear m3 j) l3 = bit_test (l3_map s) l3"
      using m3 by (auto simp: bitmap_simps)
    ultimately show "?P (Suc j) (f j u)" by blast
  qed simp
qed

text \<open>The state after the metadata is placed and the upper maps are first cleared.\<close>

lemma init_blank_inv:
  assumes nw: "no_wrap es" and pages: "0 < pages" "pages \<le> 2 ^ 52"
    and top: "\<forall>e \<in> set es. me_type e = Usable \<longrightarrow> me_base e + me_length e \<le> pages * PAGE_SIZE"
    and m2: "\<forall>l2 \<ge> total_l2_bits (init_blank es pages cache). bit_test m2 l2"
    and m3: "\<forall>l3 \<ge> total_l3_bits (init_blank es pages cache). bit_test m3 l3"
  defines "s \<equiv> (init_blank es pages cache)\<lparr>l2_map := m2, l3_map := m3\<rparr>"
  shows "init_inv s" and "lazy_bit s i \<longleftrightarrow> \<not> usable_page es i"
proof -
  have no: "\<not> bit_test (\<lambda>_. 0) j" and all: "bit_test (\<lambda>_. -1) j" for j by (simp_all add: bit_test_iff)
  have lz: "lazy_bit s i \<longleftrightarrow> \<not> usable_page es i" for i
    using no by (simp add: lazy_bit_def s_def init_blank_def Let_def)
  have "\<not> usable_page es i" if "pages \<le> i" for i
  proof
    assume "usable_page es i"
    then obtain e where "e \<in> set es" "me_type e = Usable" "(i + 1) * PAGE_SIZE \<le> me_base e + me_length e"
      by (auto simp: usable_page_def entry_page_def)
    then have "(i + 1) * PAGE_SIZE \<le> pages * PAGE_SIZE" using top by fastforce
    then show False using that by simp
  qed
  moreover have "geometry_ok s"
    using pages by (auto simp: geometry_ok_def s_def init_blank_def init_shard_def Let_def)
  moreover have "init_map s = (\<lambda>_. 0)" "l1_map s = (\<lambda>_. -1)" "pmm_memmap s = es" "pmm_bitmap_pages s = pages"
    by (auto simp: s_def init_blank_def Let_def)
  ultimately show "init_inv s" using nw m2 m3 no all lz by (simp add: init_inv_def s_def)
  show "lazy_bit s i \<longleftrightarrow> \<not> usable_page es i" by (rule lz)
qed

definition init_page_taken :: "memmap_entry list \<Rightarrow> nat \<Rightarrow> nat \<Rightarrow> bool" where
  "init_page_taken es pages i \<longleftrightarrow>
     \<not> usable_page es i \<or> i = 0 \<or> (\<exists>e \<in> set es. reserved_by e i) \<and> i < pages"

lemma init_passes_spec:
  assumes nw: "no_wrap es" and pages: "0 < pages" "pages \<le> 2 ^ 52"
    and top: "\<forall>e \<in> set es. me_type e = Usable \<longrightarrow> me_base e + me_length e \<le> pages * PAGE_SIZE"
  defines "s \<equiv> init_passes (init_blank es pages (\<lambda>_. []))"
  shows "pmm_inv s" and "\<And>i. bit_test (l1_map s) i \<longleftrightarrow> init_page_taken es pages i" and "pmm_bitmap_pages s = pages"
    and "pmm_cache s = (\<lambda>_. [])"
proof -
  define s0 where "s0 = init_blank es pages (\<lambda>_. [])"
  define s1 where "s1 = s0\<lparr>l2_map := fold clear_l2_of_entry (pmm_memmap s0) (l2_map s0)\<rparr>"
  define s2 where "s2 = fold (\<lambda>l3 s. if l3_words_full s l3 then s
      else s\<lparr>l3_map := bit_clear (l3_map s) l3\<rparr>) [0..<total_l3_bits s1] s1"
  define s3 where "s3 = mark_allocated 0 1 s2"
  define s4 where "s4 = reserve_bootloader_memory s3"
  define s6 where "s6 = fold rederive_l3 [0..<total_l3_bits (fold rederive_l2 [0..<total_l2_bits s4] s4)]
      (fold rederive_l2 [0..<total_l2_bits s4] s4)"
  have s: "s = fold count_block [0..<total_l2_bits s6] (s6\<lparr>free_pages := 0\<rparr>)"
    unfolding s_def init_passes_def Let_def s6_def s4_def s3_def s2_def s1_def s0_def ..
  have f0: "pmm_memmap s0 = es" "pmm_bitmap_pages s0 = pages" "shards s0 = init_shard pages"
    "pmm_cache s0 = (\<lambda>_. [])" "l2_map s0 = (\<lambda>_. -1)" "l3_map s0 = (\<lambda>_. -1)" "free_pages s0 = 0"
    by (auto simp: s0_def init_blank_def Let_def)
  obtain m3 where s2: "s2 = s1\<lparr>l3_map := m3\<rparr>" and m3: "\<forall>l3 \<ge> total_l3_bits s1. bit_test m3 l3 = bit_test (l3_map s1) l3"
    using l3_clear_pass [of "total_l3_bits s1" s1] unfolding s2_def by blast
  have "pages * PAGE_SIZE \<le> total_l2_bits s0 * L2_SIZE" by (simp add: s0_def init_blank_def Let_def)
  then have top': "\<forall>e \<in> set es. me_type e = Usable \<longrightarrow> me_base e + me_length e \<le> total_l2_bits s0 * L2_SIZE"
    using top by (meson le_trans)
  let ?m2 = "fold clear_l2_of_entry es (\<lambda>_. -1)"
  have all: "bit_test (\<lambda>_. -1) j" for j by (simp add: bit_test_iff)
  have "\<forall>l2 \<ge> total_l2_bits s0. bit_test ?m2 l2" using clear_l2_keeps [OF nw top'] all by blast
  moreover have "\<forall>l3 \<ge> total_l3_bits s0. bit_test m3 l3" using m3 all by (simp add: s1_def f0)
  moreover have e2: "s2 = s0\<lparr>l2_map := ?m2, l3_map := m3\<rparr>" unfolding s2 s1_def f0 by simp
  ultimately have i2: "init_inv s2" "\<And>i. lazy_bit s2 i \<longleftrightarrow> \<not> usable_page es i"
    using init_blank_inv [OF nw pages top] unfolding s0_def by blast+
  have fr2: "init_frame s0 s2" unfolding e2 by (simp add: init_frame_def)
  then have P2: "0 + 1 \<le> pmm_bitmap_pages s2" using pages(1) f0 by (simp add: init_frame_def)
  note i3 = mark_allocated_init [OF i2(1) zero_less_one P2, folded s3_def]
  have fr3: "init_frame s0 s3" using fr2 i3(2) by (rule init_frame_trans)
  then have mm: "pmm_memmap s3 = es" "pmm_bitmap_pages s3 = pages" using f0 by (auto simp: init_frame_def)
  have i4: "init_inv s4" "init_frame s3 s4"
    "\<And>i. lazy_bit s4 i \<longleftrightarrow> lazy_bit s3 i \<or> (\<exists>e \<in> set es. reserved_by e i) \<and> i < pages"
    using reserve_entries_init [OF i3(1) nw] mm unfolding s4_def reserve_bootloader_memory_def by auto
  have taken: "lazy_bit s4 i \<longleftrightarrow> init_page_taken es pages i" for i
    using i4(3) i3(3) i2(2) by (auto simp: init_page_taken_def)
  then have "lazy_bit s4 0" by (simp add: init_page_taken_def)
  note i6 = rederive_wf [OF i4(1) this, folded s6_def]
  have fr6: "init_frame s0 s6" using fr3 i4(2) i6(2) init_frame_trans by blast
  let ?t = "s6\<lparr>free_pages := 0\<rparr>"
  have "pmm_wf ?t" using i6(1) by (simp add: pmm_wf_def geometry_ok_def)
  moreover have "cache_ok ?t" using fr6 f0 by (simp add: cache_ok_def init_frame_def)
  moreover have "\<forall>si. sh_free_pages (shards ?t si) = 0" using fr6 f0 by (simp add: init_frame_def init_shard_def Let_def)
  ultimately have c: "pmm_inv s" "l1_map s = l1_map s6" "same_geometry ?t s" "pmm_cache s = pmm_cache ?t"
    using count_pass [of ?t] unfolding s by auto
  show "pmm_inv s" by (rule c(1))
  show "\<And>i. bit_test (l1_map s) i \<longleftrightarrow> init_page_taken es pages i" using c(2) i6(3) taken by simp
  show "pmm_cache s = (\<lambda>_. [])" using c(4) fr6 f0 by (simp add: init_frame_def)
  show "pmm_bitmap_pages s = pages" using c(3) fr6 f0 by (simp add: same_geometry_def init_frame_def)
qed

lemma no_wrap_truncate: "no_wrap es \<Longrightarrow> no_wrap (map truncate_entry es)"
proof -
  have "me_base (truncate_entry e) + me_length (truncate_entry e) \<le> me_base e + me_length e" for e
    using align_down_le [of "me_length e" PAGE_SIZE] by (simp add: truncate_entry_def)
  then show "no_wrap es \<Longrightarrow> no_wrap (map truncate_entry es)"
    unfolding no_wrap_def by (auto intro: le_less_trans add_right_mono)
qed

lemma Init_spec:
  assumes nw: "no_wrap memmap" and eq: "Init memmap (\<lambda>_. []) = Inr s"
  obtains es where "place_meta (total_meta (pmm_bitmap_pages s)) (map truncate_entry memmap) = Some es"
    and "pmm_inv s" and "\<And>i. bit_test (l1_map s) i \<longleftrightarrow> init_page_taken es (pmm_bitmap_pages s) i"
    and "pmm_cache s = (\<lambda>_. [])"
proof -
  define es0 where "es0 = map truncate_entry memmap"
  define mp where "mp = max_phys es0"
  have nw0: "no_wrap es0" unfolding es0_def by (rule no_wrap_truncate [OF nw])
  have mp0: "mp \<noteq> 0" using eq unfolding Init_def Let_def mp_def es0_def by (auto split: if_splits)
  note mp = max_phys_props [OF nw0 mp0 [unfolded mp_def], folded mp_def]
  define pages where "pages = (mp + (PAGE_SIZE - 1)) div PAGE_SIZE"
  have pg: "add64 mp (PAGE_SIZE - 1) div PAGE_SIZE = pages" using mp(1) by (simp add: pages_def u64_simps)
  obtain es where es: "place_meta (total_meta pages) es0 = Some es"
    and s: "s = init_passes (init_blank es pages (\<lambda>_. []))"
    using eq mp0 unfolding Init_def Let_def es0_def [symmetric] mp_def [symmetric] pg
    by (auto split: option.splits)
  note pm = place_meta_entries [OF es]
  have nw': "no_wrap es" using nw0 pm unfolding no_wrap_def by fastforce
  have "mp \<le> pages * PAGE_SIZE" unfolding pages_def by auto
  then have top: "\<forall>e \<in> set es. me_type e = Usable \<longrightarrow> me_base e + me_length e \<le> pages * PAGE_SIZE"
    using pm mp(2) by fastforce
  have p: "0 < pages" "pages \<le> 2 ^ 52"
    using mp0 mp(1) unfolding pages_def U64_def by (auto simp: div_greater_zero_iff)
  note r = init_passes_spec [OF nw' p top, folded s]
  show thesis using that [of es] es r by (simp add: es0_def)
qed

end
