(* ===== verification/Page_Source.thy ===== *)
theory Page_Source
  imports Prelude
begin

text \<open>
  The interface of an allocator of page ranges: one call that hands out \<open>sz\<close> pages or a
  null pointer, and one that takes them back. Clients of the kernel's page allocators rely
  on these laws only. \<open>owned\<close> is the set of page numbers that callers hold.
\<close>

definition page_range :: "nat \<Rightarrow> nat \<Rightarrow> nat set" where
  "page_range sz p = {p div 4096..<p div 4096 + sz}"

locale page_source =
  fixes inv :: "'s \<Rightarrow> bool" and owned :: "'s \<Rightarrow> nat set" and sz :: nat
    and get :: "'s \<Rightarrow> nat \<times> 's" and put :: "nat \<Rightarrow> 's \<Rightarrow> 's" and aligned :: "nat \<Rightarrow> bool"
  assumes get_inv: "inv s \<Longrightarrow> inv (snd (get s))"
    and get_null: "inv s \<Longrightarrow> fst (get s) = 0 \<Longrightarrow> owned (snd (get s)) = owned s"
    and get_fresh: "inv s \<Longrightarrow> fst (get s) \<noteq> 0 \<Longrightarrow> owned s \<inter> page_range sz (fst (get s)) = {}"
    and get_owned: "inv s \<Longrightarrow> fst (get s) \<noteq> 0 \<Longrightarrow> owned (snd (get s)) = owned s \<union> page_range sz (fst (get s))"
    and get_aligned: "inv s \<Longrightarrow> fst (get s) \<noteq> 0 \<Longrightarrow> aligned (fst (get s))"
    and put_inv: "inv s \<Longrightarrow> p \<noteq> 0 \<Longrightarrow> aligned p \<Longrightarrow> page_range sz p \<subseteq> owned s \<Longrightarrow> inv (put p s)"
    and put_owned: "inv s \<Longrightarrow> p \<noteq> 0 \<Longrightarrow> aligned p \<Longrightarrow> page_range sz p \<subseteq> owned s \<Longrightarrow>
          owned (put p s) = owned s - page_range sz p"
begin

text \<open>A client that asks \<open>k\<close> times and keeps what it gets.\<close>

fun gets :: "nat \<Rightarrow> 's \<Rightarrow> nat list \<times> 's" where
  "gets 0 s = ([], s)"
| "gets (Suc k) s =
     (let (p, s1) = get s; (ps, s2) = gets k s1 in (if p = 0 then ps else p # ps, s2))"

fun puts :: "nat list \<Rightarrow> 's \<Rightarrow> 's" where
  "puts [] s = s"
| "puts (p # ps) s = puts ps (put p s)"

definition disjoint_blocks :: "nat list \<Rightarrow> bool" where
  "disjoint_blocks = sorted_wrt (\<lambda>p q. page_range sz p \<inter> page_range sz q = {})"

lemma get_put_owned:
  assumes "inv s" and "fst (get s) \<noteq> 0"
  shows "owned (put (fst (get s)) (snd (get s))) = owned s"
  using assms get_inv get_fresh get_owned get_aligned put_owned [of "snd (get s)" "fst (get s)"] by auto

lemma gets_spec:
  assumes "inv s"
  shows "inv (snd (gets k s))" and "disjoint_blocks (fst (gets k s))"
    and "owned s \<inter> (\<Union>p \<in> set (fst (gets k s)). page_range sz p) = {}"
    and "owned (snd (gets k s)) = owned s \<union> (\<Union>p \<in> set (fst (gets k s)). page_range sz p)"
    and "\<forall>p \<in> set (fst (gets k s)). p \<noteq> 0 \<and> aligned p"
proof -
  let ?U = "\<lambda>ps. \<Union>p \<in> set ps. page_range sz p"
  have "inv (snd (gets k s)) \<and> disjoint_blocks (fst (gets k s)) \<and> owned s \<inter> ?U (fst (gets k s)) = {}
    \<and> owned (snd (gets k s)) = owned s \<union> ?U (fst (gets k s)) \<and> (\<forall>p \<in> set (fst (gets k s)). p \<noteq> 0 \<and> aligned p)"
    using assms
  proof (induction k arbitrary: s)
    case (Suc k)
    obtain p s1 where g: "get s = (p, s1)" by fastforce
    obtain ps s2 where gs: "gets k s1 = (ps, s2)" by fastforce
    have IH: "inv s2" "disjoint_blocks ps" "owned s1 \<inter> ?U ps = {}" "owned s2 = owned s1 \<union> ?U ps"
      "\<forall>p \<in> set ps. p \<noteq> 0 \<and> aligned p"
      using Suc.IH [of s1] get_inv [OF Suc.prems] g gs by auto
    show ?case
    proof (cases "p = 0")
      case True
      then show ?thesis using IH g gs get_null [OF Suc.prems] by auto
    next
      case False
      then have p: "owned s \<inter> page_range sz p = {}" "owned s1 = owned s \<union> page_range sz p" "aligned p"
        using get_fresh [OF Suc.prems] get_owned [OF Suc.prems] get_aligned [OF Suc.prems] g by auto
      have "page_range sz p \<inter> page_range sz q = {}" if "q \<in> set ps" for q using IH(3) p(2) that by blast
      then show ?thesis using IH g gs p False by (auto simp: disjoint_blocks_def)
    qed
  qed (simp add: disjoint_blocks_def)
  then show "inv (snd (gets k s))" and "disjoint_blocks (fst (gets k s))" and "owned s \<inter> ?U (fst (gets k s)) = {}"
    and "owned (snd (gets k s)) = owned s \<union> ?U (fst (gets k s))"
    and "\<forall>p \<in> set (fst (gets k s)). p \<noteq> 0 \<and> aligned p" by auto
qed

lemma puts_spec:
  assumes "inv s" and "disjoint_blocks ps" and "\<forall>p \<in> set ps. p \<noteq> 0 \<and> aligned p \<and> page_range sz p \<subseteq> owned s"
  shows "inv (puts ps s) \<and> owned (puts ps s) = owned s - (\<Union>p \<in> set ps. page_range sz p)"
  using assms
proof (induction ps arbitrary: s)
  case (Cons p ps)
  then have o: "inv (put p s)" "owned (put p s) = owned s - page_range sz p" using put_inv put_owned by auto
  moreover have "\<forall>q \<in> set ps. page_range sz p \<inter> page_range sz q = {}" "disjoint_blocks ps"
    using Cons.prems(2) by (auto simp: disjoint_blocks_def)
  moreover have "\<forall>q \<in> set ps. q \<noteq> 0 \<and> aligned q \<and> page_range sz q \<subseteq> owned (put p s)"
    using Cons.prems(3) o(2) calculation(3) by auto
  ultimately show ?case using Cons.IH [of "put p s"] by auto
qed simp

text \<open>Taking blocks and giving all of them back leaves the callers' pages as they were.\<close>

lemma gets_puts_owned:
  assumes "inv s"
  shows "inv (puts (fst (gets k s)) (snd (gets k s)))" and "owned (puts (fst (gets k s)) (snd (gets k s))) = owned s"
proof -
  note g = gets_spec [OF assms, of k]
  have "\<forall>p \<in> set (fst (gets k s)). p \<noteq> 0 \<and> aligned p \<and> page_range sz p \<subseteq> owned (snd (gets k s))"
    unfolding g(4) using g(5) by auto
  from puts_spec [OF g(1,2) this]
  show "inv (puts (fst (gets k s)) (snd (gets k s)))" and "owned (puts (fst (gets k s)) (snd (gets k s))) = owned s"
    unfolding g(4) using g(3) by (simp_all add: Un_Diff Diff_triv)
qed

end

end
