(* ===== verification/PMM_Run.thy ===== *)
theory PMM_Run
  imports PMM_Init Page_Source
begin

text \<open>
  Runs of the physical memory manager: any interleaving of exported calls by any CPU, with
  the list of the blocks that are live. The allocators of 4 KiB, 2 MiB and 2 GiB pages are
  instances of the page source interface.
\<close>

section \<open>The page source interface\<close>

lemma granted_page_source:
  assumes "granted s n r" and "fst r \<noteq> 0"
  shows "owned s \<inter> page_range n (fst r) = {}" and "owned (snd r) = owned s \<union> page_range n (fst r)"
    and "fst r mod PAGE_SIZE = 0"
  using assms by (auto simp: granted_def page_range_def Let_def)

lemma granted_inv: "granted s n r \<Longrightarrow> pmm_inv (snd r)" "granted s n r \<Longrightarrow> fst r = 0 \<Longrightarrow> owned (snd r) = owned s"
  "granted s n r \<Longrightarrow> pmm_bitmap_pages (snd r) = pmm_bitmap_pages s"
  by (auto simp: granted_def Let_def)

lemma Request_granted: "pmm_inv s \<Longrightarrow> granted s n (Request c n s)"
  using Request_spec(1) [of s c n "fst (Request c n s)" "snd (Request c n s)"] by simp

lemma Request2MB_granted: "pmm_inv s \<Longrightarrow> granted s L2_PAGES (Request2MB s)" "pmm_inv s \<Longrightarrow> fst (Request2MB s) mod L2_SIZE = 0"
  using Request2MB_spec(1,2) [of s "fst (Request2MB s)" "snd (Request2MB s)"] by simp_all

lemma Request2GB_granted:
  "pmm_inv s \<Longrightarrow> granted s L3_PAGES (Request2GB s)" "pmm_inv s \<Longrightarrow> fst (Request2GB s) mod (L3_PAGES * PAGE_SIZE) = 0"
  using Request2GB_spec(1,2) [of s "fst (Request2GB s)" "snd (Request2GB s)"] by simp_all

lemma granted_page_sourceI:
  assumes g: "\<And>s. pmm_inv s \<Longrightarrow> granted s n (get s)" and a: "\<And>s. pmm_inv s \<Longrightarrow> fst (get s) \<noteq> 0 \<Longrightarrow> aligned (fst (get s))"
    and p: "\<And>s p. pmm_inv s \<Longrightarrow> p \<noteq> 0 \<Longrightarrow> aligned p \<Longrightarrow> page_range n p \<subseteq> owned s \<Longrightarrow>
      pmm_inv (put p s) \<and> owned (put p s) = owned s - page_range n p"
  shows "page_source pmm_inv owned n get put aligned"
  using granted_inv(1) [OF g] granted_inv(2) [OF g] granted_page_source(1,2) [OF g] a p
  by (intro page_source.intro) simp_all

interpretation pages: page_source pmm_inv owned n "Request c n" "\<lambda>p. Free c p n" "\<lambda>p. p mod PAGE_SIZE = 0" for c n
  using Request_granted granted_page_source(3) [OF Request_granted] Free_spec
  by (intro granted_page_sourceI) (auto simp: page_range_def)

interpretation large: page_source pmm_inv owned L2_PAGES Request2MB Free2MB "\<lambda>p. p mod L2_SIZE = 0"
  using Request2MB_granted Free2MB_spec by (intro granted_page_sourceI) (auto simp: page_range_def)

interpretation huge: page_source pmm_inv owned L3_PAGES Request2GB Free2GB "\<lambda>p. p mod (L3_PAGES * PAGE_SIZE) = 0"
  using Request2GB_granted Free2GB_spec by (intro granted_page_sourceI) (auto simp: page_range_def)

section \<open>Interleaved calls\<close>

type_synonym live = "(nat \<times> nat) list"

inductive pmm_step :: "pmm \<times> live \<Rightarrow> pmm \<times> live \<Rightarrow> bool" where
  request: "Request c n s = (p, s') \<Longrightarrow> pmm_step (s, L) (s', if p = 0 then L else (p, n) # L)"
| free: "(p, n) \<in> set L \<Longrightarrow> pmm_step (s, L) (Free c p n s, remove1 (p, n) L)"
| request2MB: "Request2MB s = (p, s') \<Longrightarrow> pmm_step (s, L) (s', if p = 0 then L else (p, L2_PAGES) # L)"
| free2MB: "(p, L2_PAGES) \<in> set L \<Longrightarrow> p mod L2_SIZE = 0 \<Longrightarrow> pmm_step (s, L) (Free2MB p s, remove1 (p, L2_PAGES) L)"
| request2GB: "Request2GB s = (p, s') \<Longrightarrow> pmm_step (s, L) (s', if p = 0 then L else (p, L3_PAGES) # L)"
| free2GB: "(p, L3_PAGES) \<in> set L \<Longrightarrow> p mod (L3_PAGES * PAGE_SIZE) = 0 \<Longrightarrow>
    pmm_step (s, L) (Free2GB p s, remove1 (p, L3_PAGES) L)"
| verify: "pmm_step (s, L) (snd (VerifyFreeCount s), L)"

inductive_cases pmm_stepE: "pmm_step (s, L) (s', L')"

definition live_pages :: "live \<Rightarrow> nat set" where
  "live_pages L = (\<Union>(p, n) \<in> set L. page_range n p)"

definition live_disjoint :: "live \<Rightarrow> bool" where
  "live_disjoint = sorted_wrt (\<lambda>(p, n) (q, k). page_range n p \<inter> page_range k q = {})"

definition live_ok :: "pmm \<Rightarrow> pmm \<Rightarrow> live \<Rightarrow> bool" where
  "live_ok s0 s L \<longleftrightarrow> pmm_inv s \<and> owned s = owned s0 \<union> live_pages L \<and> owned s0 \<inter> live_pages L = {}
     \<and> pmm_bitmap_pages s = pmm_bitmap_pages s0 \<and> live_disjoint L \<and> (\<forall>(p, n) \<in> set L. p \<noteq> 0 \<and> p mod PAGE_SIZE = 0)"

lemma live_pages_Cons: "live_pages ((p, n) # L) = page_range n p \<union> live_pages L"
  by (simp add: live_pages_def)

lemma live_disjoint_Cons:
  "live_disjoint ((p, n) # L) \<longleftrightarrow> page_range n p \<inter> live_pages L = {} \<and> live_disjoint L"
  by (auto simp: live_disjoint_def live_pages_def)

lemma live_granted:
  assumes ok: "live_ok s0 s L" and g: "granted s n (p, s')"
  shows "live_ok s0 s' (if p = 0 then L else (p, n) # L)"
proof (cases "p = 0")
  case True
  then show ?thesis using ok granted_inv [OF g] by (simp add: live_ok_def)
next
  case False
  then have "owned s \<inter> page_range n p = {}" "owned s' = owned s \<union> page_range n p" "p mod PAGE_SIZE = 0"
    using granted_page_source [OF g] by auto
  then show ?thesis using ok False granted_inv(1,3) [OF g]
    by (auto simp: live_ok_def live_pages_Cons live_disjoint_Cons)
qed

text \<open>Removing a live block from the list removes exactly its pages.\<close>

lemma live_pages_remove:
  assumes "live_disjoint L" and "(p, n) \<in> set L"
  shows "live_disjoint (remove1 (p, n) L)" and "live_pages (remove1 (p, n) L) = live_pages L - page_range n p"
proof -
  have "live_disjoint (remove1 (p, n) L) \<and> live_pages (remove1 (p, n) L) = live_pages L - page_range n p"
    using assms
  proof (induction L)
    case (Cons x L)
    obtain q k where x: "x = (q, k)" by fastforce
    show ?case
    proof (cases "(q, k) = (p, n)")
      case True
      then show ?thesis using Cons.prems by (auto simp: x live_pages_Cons live_disjoint_Cons)
    next
      case False
      then have mem: "(p, n) \<in> set L" using Cons.prems(2) x by auto
      then have sub: "page_range n p \<subseteq> live_pages L" by (auto simp: live_pages_def)
      have d: "page_range k q \<inter> live_pages L = {}" "live_disjoint L" using Cons.prems(1) by (auto simp: x live_disjoint_Cons)
      have IH: "live_disjoint (remove1 (p, n) L)" "live_pages (remove1 (p, n) L) = live_pages L - page_range n p"
        using Cons.IH d(2) mem by auto
      have "remove1 (p, n) (x # L) = (q, k) # remove1 (p, n) L" using False x by auto
      then show ?thesis unfolding x using IH d sub by (auto simp: live_pages_Cons live_disjoint_Cons)
    qed
  qed simp
  then show "live_disjoint (remove1 (p, n) L)" and "live_pages (remove1 (p, n) L) = live_pages L - page_range n p" by auto
qed

lemma live_released:
  assumes ok: "live_ok s0 s L" and mem: "(p, n) \<in> set L"
    and inv: "pmm_inv s'" and own: "owned s' = owned s - page_range n p"
    and pages: "pmm_bitmap_pages s' = pmm_bitmap_pages s"
  shows "live_ok s0 s' (remove1 (p, n) L)"
proof -
  have d: "live_disjoint L" using ok by (simp add: live_ok_def)
  have sub: "page_range n p \<subseteq> live_pages L" using mem by (auto simp: live_pages_def)
  show ?thesis
    using ok inv own pages live_pages_remove [OF d mem] sub set_remove1_subset [of "(p, n)" L]
    by (auto simp: live_ok_def)
qed

lemma live_ok_mem:
  assumes "live_ok s0 s L" and "(p, n) \<in> set L"
  shows "p \<noteq> 0" "p mod PAGE_SIZE = 0" "page_range n p \<subseteq> owned s" "pmm_inv s"
  using assms by (auto simp: live_ok_def live_pages_def)

lemma pmm_step_live_ok:
  assumes "pmm_step (s, L) (s', L')" and ok: "live_ok s0 s L"
  shows "live_ok s0 s' L'"
  using assms(1)
proof cases
  case (request c n p)
  then show ?thesis using live_granted [OF ok] Request_granted [of s n c] ok by (simp add: live_ok_def)
next
  case (free p n c)
  note m = live_ok_mem [OF ok free(3)]
  show ?thesis unfolding free(1,2)
    by (rule live_released [OF ok free(3) pages.put_inv [OF m(4,1,2,3)] pages.put_owned [OF m(4,1,2,3)]
        Free_spec(3) [OF m(4,2) m(3) [unfolded page_range_def]]])
next
  case (request2MB p)
  then show ?thesis using live_granted [OF ok] Request2MB_granted(1) [of s] ok by (simp add: live_ok_def)
next
  case (free2MB p)
  note m = live_ok_mem [OF ok free2MB(3)]
  show ?thesis unfolding free2MB(1,2)
    by (rule live_released [OF ok free2MB(3) large.put_inv [OF m(4,1) free2MB(4) m(3)] large.put_owned [OF m(4,1) free2MB(4) m(3)]
        Free2MB_spec(3) [OF m(4) free2MB(4) m(1) m(3) [unfolded page_range_def]]])
next
  case (request2GB p)
  then show ?thesis using live_granted [OF ok] Request2GB_granted(1) [of s] ok by (simp add: live_ok_def)
next
  case (free2GB p)
  note m = live_ok_mem [OF ok free2GB(3)]
  show ?thesis unfolding free2GB(1,2)
    by (rule live_released [OF ok free2GB(3) huge.put_inv [OF m(4,1) free2GB(4) m(3)] huge.put_owned [OF m(4,1) free2GB(4) m(3)]
        Free2GB_spec(3) [OF m(4) free2GB(4) m(1) m(3) [unfolded page_range_def]]])
next
  case verify
  then show ?thesis using VerifyFreeCount_zero [of s] ok by (simp add: live_ok_def)
qed

lemma pmm_run_live_ok:
  assumes "pmm_step\<^sup>*\<^sup>* (s, L) (s', L')" and "live_ok s0 s L"
  shows "live_ok s0 s' L'"
  using assms by (induction rule: rtranclp_induct2) (auto intro: pmm_step_live_ok)

lemma live_ok_start: "pmm_inv s \<Longrightarrow> live_ok s s []"
  by (simp add: live_ok_def live_pages_def live_disjoint_def)

end
