(* ===== verification/PMM_Correct.thy ===== *)
theory PMM_Correct
  imports PMM_Run
begin

text \<open>
  The properties of the physical memory manager, each with a witness on the machine of
  \<open>boot_map\<close>: one usable entry of 8 MiB at address 0.
\<close>

section \<open>A concrete machine\<close>

definition boot_map :: "memmap_entry list" where
  "boot_map = [\<lparr>me_base = 0, me_length = 8388608, me_type = Usable\<rparr>]"

definition boot_entries :: "memmap_entry list" where
  "boot_entries = [\<lparr>me_base = 0, me_length = 8368128, me_type = Usable\<rparr>]"

definition boot_state :: pmm where
  "boot_state = init_passes (init_blank boot_entries 2048 (\<lambda>_. []))"

lemma boot_no_wrap: "no_wrap boot_map"
  by (simp add: no_wrap_def boot_map_def U64_def)

lemma boot_place: "place_meta (total_meta 2048) (map truncate_entry boot_map) = Some boot_entries"
  by (simp add: boot_map_def truncate_entry_def total_meta_def align_down_def align_up_def boot_entries_def)

lemma boot_Init: "Init boot_map (\<lambda>_. []) = Inr boot_state"
proof -
  have "max_phys (map truncate_entry boot_map) = 8388608"
    by (simp add: boot_map_def truncate_entry_def max_phys_def max_top_def entry_top_def align_down_def add64_def U64_def)
  moreover have "add64 8388608 (PAGE_SIZE - 1) div PAGE_SIZE = 2048" by (simp add: add64_def U64_def)
  ultimately show ?thesis using boot_place by (simp add: Init_def boot_state_def)
qed

lemma boot_page: "usable_page boot_entries i \<longleftrightarrow> i < 2043" "\<not> (\<exists>e \<in> set boot_entries. reserved_by e i)"
  by (auto simp: usable_page_def entry_page_def boot_entries_def reserved_by_def)

lemma boot_spec:
  shows "pmm_inv boot_state" and "pmm_bitmap_pages boot_state = 2048" and "pmm_cache boot_state = (\<lambda>_. [])"
    and "bit_test (l1_map boot_state) i \<longleftrightarrow> i = 0 \<or> 2043 \<le> i"
proof -
  have nw: "no_wrap boot_entries" by (simp add: no_wrap_def boot_entries_def U64_def)
  have top: "\<forall>e \<in> set boot_entries. me_type e = Usable \<longrightarrow> me_base e + me_length e \<le> 2048 * PAGE_SIZE"
    by (simp add: boot_entries_def)
  note s = init_passes_spec [OF nw _ _ top, folded boot_state_def]
  show "pmm_inv boot_state" and "pmm_bitmap_pages boot_state = 2048" and "pmm_cache boot_state = (\<lambda>_. [])"
    using s by simp_all
  show "bit_test (l1_map boot_state) i \<longleftrightarrow> i = 0 \<or> 2043 \<le> i"
    using s(2) [of i] boot_page by (auto simp: init_page_taken_def)
qed

lemma boot_free_run: "0 < b \<Longrightarrow> b + n \<le> 2043 \<Longrightarrow> free_run (l1_map boot_state) b n"
  by (auto simp: free_run_def boot_spec)

text \<open>No two runs that are far apart straddle the same hint, so the machine serves every small request.\<close>

lemma boot_Request:
  assumes "0 < n" and "n \<le> 1000"
  shows "fst (Request c n boot_state) \<noteq> 0"
proof
  assume z: "fst (Request c n boot_state) = 0"
  then have "Request c n boot_state = (0, snd (Request c n boot_state))" by (simp add: prod_eq_iff)
  then have "only_straddling boot_state n"
    using Request_spec(2) [OF boot_spec(1)] assms boot_spec(2) by force
  then have *: "b < slow_hint boot_state \<and> slow_hint boot_state < b + n" if "0 < b" "b + n \<le> 2043" for b
    using boot_free_run [OF that] that boot_spec(2) unfolding only_straddling_def by auto
  have "slow_hint boot_state < 1 + n" "1001 < slow_hint boot_state" using * [of 1] * [of 1001] assms by auto
  then show False using assms by simp
qed

section \<open>Bitmaps\<close>

text \<open>
  C5. The scanner is correct and complete: on maps that agree, with every block below
  \<open>to\<close> populated, \<open>scan_for_run\<close> returns the lowest start of a run of \<open>n\<close> free pages inside
  \<open>[from, to)\<close>, or no start when there is none, whatever 2 GiB shards, 2 MiB blocks and
  words it skipped. It changes no state.
\<close>

theorem scan_for_run_least:
  assumes "maps_agree (l1_map s) (l2_map s) (l3_map s)"
    and "\<forall>i < to. bit_test (init_map s) (i div L2_PAGES)" and "0 < n"
  shows "\<exists>r. scan_for_run from to n s = (r, s) \<and>
     (case r of
        None \<Rightarrow> \<forall>b. from \<le> b \<and> b + n \<le> to \<longrightarrow> (\<exists>i. b \<le> i \<and> i < b + n \<and> bit_test (l1_map s) i)
      | Some b \<Rightarrow> from \<le> b \<and> b + n \<le> to \<and> (\<forall>i. b \<le> i \<and> i < b + n \<longrightarrow> \<not> bit_test (l1_map s) i)
          \<and> (\<forall>b'. from \<le> b' \<and> b' < b \<longrightarrow> (\<exists>i. b' \<le> i \<and> i < b' + n \<and> bit_test (l1_map s) i)))"
proof -
  obtain r where "scan_for_run from to n s = (r, s)" and "run_spec (l1_map s) from to n r"
    using scan_for_run_spec [OF assms(1,2), of "from" n] assms(3) by auto
  then show ?thesis unfolding run_spec_def free_run_def by (cases r) auto
qed

theorem scan_for_run_least_witness:
  "\<exists>b. scan_for_run 0 2048 3 boot_state = (Some b, boot_state) \<and> b = 1"
proof -
  have wf: "pmm_wf boot_state" using boot_spec(1) by (simp add: pmm_inv_def)
  have "maps_agree (l1_map boot_state) (l2_map boot_state) (l3_map boot_state)"
    "\<forall>i < 2048. bit_test (init_map boot_state) (i div L2_PAGES)"
    using wf pmm_wf_inited [OF wf] boot_spec(2) by (auto simp: pmm_wf_def)
  from scan_for_run_least [OF this, of 3 0]
  obtain r where r: "scan_for_run 0 2048 3 boot_state = (r, boot_state)"
    and c: "case r of
        None \<Rightarrow> \<forall>b. 0 \<le> b \<and> b + 3 \<le> 2048 \<longrightarrow> (\<exists>i. b \<le> i \<and> i < b + 3 \<and> bit_test (l1_map boot_state) i)
      | Some b \<Rightarrow> 0 \<le> b \<and> b + 3 \<le> 2048 \<and> (\<forall>i. b \<le> i \<and> i < b + 3 \<longrightarrow> \<not> bit_test (l1_map boot_state) i)
          \<and> (\<forall>b'. 0 \<le> b' \<and> b' < b \<longrightarrow> (\<exists>i. b' \<le> i \<and> i < b' + 3 \<and> bit_test (l1_map boot_state) i))" by auto
  have "\<not> bit_test (l1_map boot_state) i" if "1 \<le> i" "i < 4" for i using that boot_spec(4) by simp
  then have one: "\<not> (\<exists>i. 1 \<le> i \<and> i < 1 + 3 \<and> bit_test (l1_map boot_state) i)" by auto
  have "r \<noteq> None"
  proof
    assume "r = None"
    then have "\<exists>i. 1 \<le> i \<and> i < 1 + 3 \<and> bit_test (l1_map boot_state) i" using spec [OF c [unfolded \<open>r = None\<close> option.case], of 1] by simp
    then show False using one by blast
  qed
  then obtain b where b: "r = Some b" by auto
  have free: "\<not> bit_test (l1_map boot_state) b" and below: "\<forall>b' < b. \<exists>i. b' \<le> i \<and> i < b' + 3 \<and> bit_test (l1_map boot_state) i"
    using c b by auto
  have "b \<noteq> 0" using free boot_spec(4) [of 0] by metis
  moreover have "\<not> 1 < b" using below one by blast
  ultimately show ?thesis using r b by simp
qed

text \<open>
  Taking a run of free pages and giving it back restores the whole state: all three
  bitmaps come back bit for bit, and nothing else moves.
\<close>

theorem mark_free_mark_allocated:
  assumes "pmm_wf s" and "0 < n" and "b + n \<le> pmm_bitmap_pages s" and "free_run (l1_map s) b n"
  shows "mark_free b n (mark_allocated b n s) = s"
proof -
  have ag: "maps_agree (l1_map s) (l2_map s) (l3_map s)" using assms(1) by (simp add: pmm_wf_def)
  obtain m2 m3 where t: "mark_allocated b n s = s\<lparr>l1_map := bits_set (l1_map s) b (b + n), l2_map := m2, l3_map := m3\<rparr>"
    and ag': "maps_agree (bits_set (l1_map s) b (b + n)) m2 m3"
    using mark_allocated_spec [OF ag assms(2) pmm_wf_inited_range [OF assms(1-3)]] by blast
  let ?t = "mark_allocated b n s"
  have wf: "pmm_wf ?t" "pmm_bitmap_pages ?t = pmm_bitmap_pages s"
    using mark_allocated_takes(1) [OF assms(1-3)] takes_wf assms(1) by (auto simp: takes_def same_geometry_def)
  obtain k2 k3 where u: "mark_free b n ?t = ?t\<lparr>l1_map := bits_clear (l1_map ?t) b (b + n), l2_map := k2, l3_map := k3\<rparr>"
    and ag'': "maps_agree (bits_clear (l1_map ?t) b (b + n)) k2 k3"
    using mark_free_spec [OF _ assms(2) pmm_wf_inited_range [OF wf(1) assms(2), of b]] wf assms(3) by (auto simp: pmm_wf_def)
  have l1: "bits_clear (l1_map ?t) b (b + n) = l1_map s"
    using assms(4) by (intro bitmap_eqI) (auto simp: t bitmap_simps free_run_def)
  have "k2 = l2_map s" "k3 = l3_map s" using maps_agree_unique ag ag'' unfolding l1 by blast+
  then show ?thesis unfolding u l1 using t by simp
qed

theorem mark_free_mark_allocated_witness:
  "mark_free 700 600 (mark_allocated 700 600 boot_state) = boot_state"
  using boot_spec(1,2) by (intro mark_free_mark_allocated) (simp_all add: pmm_inv_def boot_free_run)

section \<open>Requests and frees\<close>



text \<open>
  C29. A request of a possible size fails only when memory is fragmented around one place:
  every run of \<open>n\<close> free pages that exists contains the slow path's hint strictly inside.
  In particular a request of one page fails only when no page is free. A failed
  request takes nothing.
\<close>

theorem Request_null:
  assumes "pmm_inv s" and "Request this_cpu n s = (0, s')" and "0 < n" and "n \<le> pmm_bitmap_pages s"
  shows "pmm_inv s' \<and> owned s' = owned s
     \<and> (\<forall>b. b + n \<le> pmm_bitmap_pages s \<and> free_run (l1_map s) b n \<longrightarrow> b < slow_hint s \<and> slow_hint s < b + n)
     \<and> (n = 1 \<longrightarrow> (\<forall>i < pmm_bitmap_pages s. bit_test (l1_map s) i))"
proof -
  have g: "pmm_inv s'" "owned s' = owned s" using Request_spec(1) [OF assms(1,2)] by (auto simp: granted_def)
  have str: "only_straddling s n" using Request_spec(2) [OF assms(1,2)] assms(3,4) by auto
  have "bit_test (l1_map s) i" if "n = 1" "i < pmm_bitmap_pages s" for i
  proof (rule ccontr)
    assume "\<not> bit_test (l1_map s) i"
    then have "free_run (l1_map s) i 1" by (auto simp: free_run_def le_less_Suc_eq)
    then have "i < slow_hint s \<and> slow_hint s < i + 1" using str that unfolding only_straddling_def by simp
    then show False by linarith
  qed
  then show ?thesis using g str by (auto simp: only_straddling_def)
qed

definition full_map :: "memmap_entry list" where
  "full_map = [\<lparr>me_base = 4096, me_length = 20480, me_type = Usable\<rparr>]"

definition full_state :: pmm where
  "full_state = init_passes (init_blank [\<lparr>me_base = 4096, me_length = 0, me_type = Usable\<rparr>] 6 (\<lambda>_. []))"

lemma full_Init: "Init full_map (\<lambda>_. []) = Inr full_state"
proof -
  have "max_phys (map truncate_entry full_map) = 24576"
    by (simp add: full_map_def truncate_entry_def max_phys_def max_top_def entry_top_def align_down_def add64_def U64_def)
  moreover have "add64 24576 (PAGE_SIZE - 1) div PAGE_SIZE = 6" by (simp add: add64_def U64_def)
  moreover have "place_meta (total_meta 6) (map truncate_entry full_map) = Some [\<lparr>me_base = 4096, me_length = 0, me_type = Usable\<rparr>]"
    by (simp add: full_map_def truncate_entry_def total_meta_def align_down_def align_up_def)
  ultimately show ?thesis by (simp add: Init_def full_state_def)
qed

lemma full_spec: "pmm_inv full_state" "pmm_bitmap_pages full_state = 6" "bit_test (l1_map full_state) i"
proof -
  let ?es = "[\<lparr>me_base = 4096, me_length = 0, me_type = Usable\<rparr>]"
  have nw: "no_wrap ?es" by (simp add: no_wrap_def U64_def)
  note s = init_passes_spec [OF nw, of 6, folded full_state_def]
  show "pmm_inv full_state" "pmm_bitmap_pages full_state = 6" using s by simp_all
  show "bit_test (l1_map full_state) i"
    using s(2) [of i] by (auto simp: init_page_taken_def usable_page_def entry_page_def)
qed

theorem Request_null_witness:
  "\<exists>s'. Request None 1 full_state = (0, s') \<and> owned s' = owned full_state"
proof -
  let ?r = "Request None 1 full_state"
  have "fst ?r = 0"
  proof (rule ccontr)
    assume p: "fst ?r \<noteq> 0"
    have b: "fst ?r div PAGE_SIZE < 6" "fst ?r div PAGE_SIZE \<notin> owned full_state"
      using Request_granted [OF full_spec(1), of 1 None] p full_spec(2) by (auto simp: granted_def Let_def)
    have "pmm_cache full_state = (\<lambda>_. [])"
      using init_passes_spec(4) [of "[\<lparr>me_base = 4096, me_length = 0, me_type = Usable\<rparr>]" 6, folded full_state_def]
      by (simp add: no_wrap_def U64_def)
    then have "fst ?r div PAGE_SIZE \<in> owned full_state" using b(1) full_spec by (simp add: owned_def cached_def)
    then show False using b(2) by simp
  qed
  then have e: "?r = (0, snd ?r)" by (simp add: prod_eq_iff)
  from Request_null [OF full_spec(1) e] full_spec(2) e show ?thesis by (metis numeral_One one_le_numeral zero_less_one)
qed

text \<open>
  C7. Freeing a block that its caller owns keeps the invariant and takes exactly its pages
  away from the callers, whether the block goes into a per-CPU cache, drains one, or is
  split over the shards it covers.
\<close>

theorem Free_returns:
  assumes "pmm_inv s" and "ptr \<noteq> 0" and "ptr mod PAGE_SIZE = 0" and "page_range n ptr \<subseteq> owned s"
  shows "pmm_inv (Free this_cpu ptr n s) \<and> owned (Free this_cpu ptr n s) = owned s - page_range n ptr"
  using Free_spec [OF assms(1,3)] assms(2,4) by (simp add: page_range_def)

theorem Free_returns_witness:
  "owned (Free (Some 1) (fst (Request None 700 boot_state)) 700 (snd (Request None 700 boot_state))) = owned boot_state"
proof -
  let ?r = "Request None 700 boot_state"
  have p: "fst ?r \<noteq> 0" by (rule boot_Request) simp_all
  note g = Request_granted [OF boot_spec(1), of 700 None]
  note o = granted_page_source [OF g p] and i = granted_inv(1) [OF g]
  have "page_range 700 (fst ?r) \<subseteq> owned (snd ?r)" using o(2) by simp
  then show ?thesis using Free_returns [OF i p o(3)] o(1,2) by auto
qed

text \<open>
  C30. Any number of requests of one size yields blocks that are pairwise disjoint, outside
  everything owned before; giving them all back leaves exactly the pages owned before.
\<close>

theorem requests_disjoint_and_returned:
  assumes "pmm_inv s"
  shows "sorted_wrt (\<lambda>p q. page_range n p \<inter> page_range n q = {}) (fst (pages.gets c n k s))
     \<and> owned s \<inter> (\<Union>p \<in> set (fst (pages.gets c n k s)). page_range n p) = {}
     \<and> pmm_inv (pages.puts c n (fst (pages.gets c n k s)) (snd (pages.gets c n k s)))
     \<and> owned (pages.puts c n (fst (pages.gets c n k s)) (snd (pages.gets c n k s))) = owned s"
  using pages.gets_spec(2,3) [OF assms, of n c k] pages.gets_puts_owned [OF assms, of c n k]
  by (simp add: pages.disjoint_blocks_def)

theorem requests_disjoint_and_returned_witness:
  "pmm_inv boot_state \<and> owned (pages.puts None 3 (fst (pages.gets None 3 20 boot_state)) (snd (pages.gets None 3 20 boot_state)))
     = owned boot_state"
  using requests_disjoint_and_returned [OF boot_spec(1), of 3 None 20] boot_spec(1) by blast

section \<open>Large pages\<close>

text \<open>
  C31. \<open>Request2MB\<close> returns a 2 MiB-aligned block of 512 pages that nobody held, and it
  returns a null pointer only when no aligned block of 2 MiB is entirely free.
\<close>

theorem Request2MB_correct:
  assumes "pmm_inv s" and "Request2MB s = (p, s')"
  shows "pmm_inv s' \<and> p mod L2_SIZE = 0 \<and>
    (if p = 0 then owned s' = owned s \<and>
         (\<forall>l2. l2 * L2_PAGES + L2_PAGES \<le> pmm_bitmap_pages s \<longrightarrow>
               \<not> free_run (l1_map s) (l2 * L2_PAGES) L2_PAGES)
     else p div PAGE_SIZE + L2_PAGES \<le> pmm_bitmap_pages s
       \<and> owned s \<inter> page_range L2_PAGES p = {} \<and> owned s' = owned s \<union> page_range L2_PAGES p)"
  using Request2MB_spec [OF assms] by (simp add: granted_def page_range_def Let_def block_free_def)

lemma boot_Request2MB: "fst (Request2MB boot_state) \<noteq> 0"
proof
  assume "fst (Request2MB boot_state) = 0"
  then have "Request2MB boot_state = (0, snd (Request2MB boot_state))" by (simp add: prod_eq_iff)
  then have "\<not> block_free boot_state 1" using Request2MB_spec(3) [OF boot_spec(1)] by blast
  moreover have "free_run (l1_map boot_state) (1 * L2_PAGES) L2_PAGES" by (rule boot_free_run) simp_all
  ultimately show False using boot_spec(2) by (simp add: block_free_def)
qed

theorem Request2MB_correct_witness:
  "\<exists>p s'. Request2MB boot_state = (p, s') \<and> p \<noteq> 0 \<and> p mod L2_SIZE = 0 \<and> owned s' = owned boot_state \<union> page_range L2_PAGES p"
proof -
  let ?r = "Request2MB boot_state"
  have e: "?r = (fst ?r, snd ?r)" by simp
  from Request2MB_correct [OF boot_spec(1) e] boot_Request2MB e show ?thesis by metis
qed

text \<open>
  \<open>Request2GB\<close> returns a whole shard, aligned to 2 GiB, that nobody held, and a null
  pointer only when no shard is entirely free.
\<close>

theorem Request2GB_correct:
  assumes "pmm_inv s" and "Request2GB s = (p, s')"
  shows "pmm_inv s' \<and> p mod (L3_PAGES * PAGE_SIZE) = 0 \<and>
    (if p = 0 then owned s' = owned s \<and>
         (\<forall>si. si * L3_PAGES + L3_PAGES \<le> pmm_bitmap_pages s \<longrightarrow> \<not> free_run (l1_map s) (si * L3_PAGES) L3_PAGES)
     else p div PAGE_SIZE + L3_PAGES \<le> pmm_bitmap_pages s
       \<and> owned s \<inter> page_range L3_PAGES p = {} \<and> owned s' = owned s \<union> page_range L3_PAGES p)"
  using Request2GB_spec [OF assms] by (simp add: granted_def page_range_def Let_def shard_all_free_def)

theorem Request2GB_correct_witness:
  "\<exists>s'. Request2GB boot_state = (0, s') \<and> owned s' = owned boot_state"
proof -
  let ?r = "Request2GB boot_state"
  have e: "?r = (fst ?r, snd ?r)" by simp
  note c = Request2GB_correct [OF boot_spec(1) e]
  have "fst ?r = 0"
  proof (rule ccontr)
    assume "fst ?r \<noteq> 0"
    then have "fst ?r div PAGE_SIZE + L3_PAGES \<le> 2048" using c boot_spec(2) by simp
    then show False by simp
  qed
  then show ?thesis using c e by metis
qed

text \<open>
  Giving a large page back: \<open>Free2MB\<close> and \<open>Free2GB\<close> undo the requests, so that the callers
  own what they owned before.
\<close>

theorem large_round_trip:
  assumes "pmm_inv s"
  shows "(fst (Request2MB s) \<noteq> 0 \<longrightarrow> owned (Free2MB (fst (Request2MB s)) (snd (Request2MB s))) = owned s)
     \<and> (fst (Request2GB s) \<noteq> 0 \<longrightarrow> owned (Free2GB (fst (Request2GB s)) (snd (Request2GB s))) = owned s)"
  using large.get_put_owned [OF assms] huge.get_put_owned [OF assms] by auto

theorem large_round_trip_witness:
  "fst (Request2MB boot_state) \<noteq> 0 \<and> owned (Free2MB (fst (Request2MB boot_state)) (snd (Request2MB boot_state))) = owned boot_state"
  using large_round_trip [OF boot_spec(1)] boot_Request2MB by blast

section \<open>Counters and initialisation\<close>

text \<open>
  On maps that agree, \<open>VerifyFreeCount\<close> is the exact error of the global counter: the
  distance between \<open>free_pages\<close> and the number of free pages. It is 0 in every state that
  satisfies the invariant, and it changes nothing.
\<close>

theorem VerifyFreeCount_exact:
  assumes "pmm_wf s"
  shows "VerifyFreeCount s =
      (let n = card {i. i < pmm_bitmap_pages s \<and> \<not> bit_test (l1_map s) i}
       in if n > free_pages s then n - free_pages s else free_pages s - n, s)
    \<and> (pmm_inv s \<longrightarrow> fst (VerifyFreeCount s) = 0)"
proof -
  have g: "geometry_ok s" using assms by (simp add: pmm_wf_def)
  let ?k = "total_l2_bits s" and ?P = "pmm_bitmap_pages s"
  have P: "?P \<le> ?k * L2_PAGES" "?k * L2_PAGES < ?P + L2_PAGES" "?P \<le> 2 ^ 52"
    using g unfolding geometry_ok_def by auto
  then have small: "?k * L2_PAGES < U64" by (simp add: U64_def)
  have "clear_bits (l1_map s) 0 (?k * L2_PAGES) = {i. i < ?P \<and> \<not> bit_test (l1_map s) i}"
    using assms P(1) unfolding clear_bits_def pmm_wf_def by (auto intro: ccontr)
  then show ?thesis
    using verify_recount [OF _ _ small] assms VerifyFreeCount_zero [of s] by (simp add: VerifyFreeCount_def pmm_wf_def Let_def)
qed

theorem VerifyFreeCount_exact_witness: "VerifyFreeCount (boot_state\<lparr>free_pages := 0\<rparr>) = (2042, boot_state\<lparr>free_pages := 0\<rparr>)"
proof -
  let ?s = "boot_state\<lparr>free_pages := 0\<rparr>"
  have wf: "pmm_wf ?s" using boot_spec(1) by (simp add: pmm_inv_def pmm_wf_def geometry_ok_def)
  have "{i. i < pmm_bitmap_pages ?s \<and> \<not> bit_test (l1_map ?s) i} = {1..<2043}" by (auto simp: boot_spec)
  then show ?thesis using VerifyFreeCount_exact [OF wf] by simp
qed

text \<open>
  C8. Initialisation: on a memory map whose entries do not reach the end of the address
  space, a completed \<open>Init\<close> satisfies the invariant, and a page is free exactly when it lies
  inside a usable entry (after the bitmaps and shard descriptors were cut off the end of
  one), is not page 0 and is not reserved for the boot loader.
\<close>

theorem Init_correct:
  assumes "no_wrap memmap" and "Init memmap (\<lambda>_. []) = Inr s"
  shows "pmm_inv s \<and>
    (\<exists>es. place_meta (total_meta (pmm_bitmap_pages s)) (map truncate_entry memmap) = Some es \<and>
       (\<forall>i. \<not> bit_test (l1_map s) i \<longleftrightarrow>
          usable_page es i \<and> i \<noteq> 0 \<and> \<not> ((\<exists>e \<in> set es. reserved_by e i) \<and> i < pmm_bitmap_pages s)))"
  using assms by (rule Init_spec) (auto simp: init_page_taken_def)

theorem Init_correct_witness: "Init boot_map (\<lambda>_. []) = Inr boot_state \<and> pmm_inv boot_state"
  using Init_correct [OF boot_no_wrap boot_Init] boot_Init by blast

text \<open>
  C1. Runs: from a completed \<open>Init\<close>, after any sequence of requests and frees of 4 KiB runs,
  2 MiB and 2 GiB pages by any CPUs, live blocks are pairwise disjoint, every page of a live
  block is a usable page of the memory map other than page 0 and outside the reserved
  entries, and the self check of the counters reports 0.
\<close>

theorem run_safe:
  assumes nw: "no_wrap memmap" and init: "Init memmap (\<lambda>_. []) = Inr s0" and run: "pmm_step\<^sup>*\<^sup>* (s0, []) (s, L)"
  shows "sorted_wrt (\<lambda>(p, n) (q, k). page_range n p \<inter> page_range k q = {}) L
    \<and> (\<exists>es. place_meta (total_meta (pmm_bitmap_pages s0)) (map truncate_entry memmap) = Some es \<and>
        (\<forall>(p, n) \<in> set L. \<forall>i \<in> page_range n p.
           usable_page es i \<and> i \<noteq> 0 \<and> (\<forall>e \<in> set es. \<not> reserved_by e i)))
    \<and> VerifyFreeCount s = (0, s)"
proof -
  obtain es where es: "place_meta (total_meta (pmm_bitmap_pages s0)) (map truncate_entry memmap) = Some es"
    and inv: "pmm_inv s0" and bits: "\<And>i. bit_test (l1_map s0) i \<longleftrightarrow> init_page_taken es (pmm_bitmap_pages s0) i"
    and cache: "pmm_cache s0 = (\<lambda>_. [])"
    by (rule Init_spec [OF nw init], rule that)
  have ok: "live_ok s0 s L" by (rule pmm_run_live_ok [OF run live_ok_start [OF inv]])
  have "usable_page es i \<and> i \<noteq> 0 \<and> (\<forall>e \<in> set es. \<not> reserved_by e i)" if "i \<in> live_pages L" for i
  proof -
    have "i \<notin> owned s0" "i < pmm_bitmap_pages s0" using ok that by (auto simp: live_ok_def owned_def)
    then have "\<not> init_page_taken es (pmm_bitmap_pages s0) i"
      using cache bits by (simp add: owned_def cached_def)
    then show ?thesis using \<open>i < pmm_bitmap_pages s0\<close> by (auto simp: init_page_taken_def)
  qed
  then have "\<forall>(p, n) \<in> set L. \<forall>i \<in> page_range n p. usable_page es i \<and> i \<noteq> 0 \<and> (\<forall>e \<in> set es. \<not> reserved_by e i)"
    unfolding live_pages_def by blast
  then show ?thesis using es ok VerifyFreeCount_zero by (auto simp: live_ok_def live_disjoint_def)
qed

theorem run_safe_witness:
  "\<exists>p s. p \<noteq> 0 \<and> pmm_step\<^sup>*\<^sup>* (boot_state, []) (s, [(p, 1)]) \<and> VerifyFreeCount s = (0, s)"
proof -
  let ?r = "Request (Some 0) 1 boot_state"
  have p: "fst ?r \<noteq> 0" by (rule boot_Request) simp_all
  have "pmm_step (boot_state, []) (snd ?r, [(fst ?r, 1)])"
    using pmm_step.request [of "Some 0" 1 boot_state "fst ?r" "snd ?r" "[]"] p by simp
  then have run: "pmm_step\<^sup>*\<^sup>* (boot_state, []) (snd ?r, [(fst ?r, 1)])" by blast
  from run_safe [OF boot_no_wrap boot_Init run] p run show ?thesis by blast
qed

section \<open>Shards\<close>

text \<open>
  The critical sections of one shard touch nothing of another: an allocation or a free
  in shard \<open>si\<close> leaves every word of the page and block maps, every bit of the shard map
  and every descriptor that belongs to another shard as it was. This is what allows one
  lock per shard.
\<close>

theorem shard_isolation:
  assumes "pmm_wf s" and "si < shard_count s" and "0 < n"
  shows "only_shard si s (snd (alloc_in_shard_locked si n s))
    \<and> (\<forall>b. si * SHARD_PAGES \<le> b \<and> b + n \<le> (si + 1) * SHARD_PAGES \<and> b + n \<le> pmm_bitmap_pages s \<longrightarrow>
         only_shard si s (free_in_shard_locked si b n s))"
  using alloc_in_shard_locked_only [OF assms] free_in_shard_locked_only [OF assms(1,3)] by blast

theorem shard_isolation_witness:
  "only_shard 0 boot_state (snd (alloc_in_shard_locked 0 5 boot_state)) \<and> only_shard 0 boot_state (free_in_shard_locked 0 700 5 boot_state)"
proof -
  have wf: "pmm_wf boot_state" using boot_spec(1) by (simp add: pmm_inv_def)
  then have "0 < shard_count boot_state" by (intro geometry_bounds(3)) (simp add: pmm_wf_def)
  from shard_isolation [OF wf this, of 5] boot_spec(2) show ?thesis by simp
qed

section \<open>A free run that no request finds\<close>

text \<open>
  The machine with exactly two free pages, 5 and 6, and both hints on page 6.
\<close>

definition frag_entries :: "memmap_entry list" where
  "frag_entries = [\<lparr>me_base = 20480, me_length = 8192, me_type = Usable\<rparr>,
                   \<lparr>me_base = 1048576, me_length = 0, me_type = Usable\<rparr>]"

definition frag_state :: pmm where
  "frag_state = (set_hint 0 6 (init_passes (init_blank frag_entries 261 (\<lambda>_. []))))\<lparr>slow_hint := 6\<rparr>"

lemma pmm_inv_set_hint [simp]: "pmm_inv (set_hint si h s) = pmm_inv s"
proof -
  have f: "first_page (shards (set_hint si h s) j) = first_page (shards s j)"
    "npages (shards (set_hint si h s) j) = npages (shards s j)"
    "sh_free_pages (shards (set_hint si h s) j) = sh_free_pages (shards s j)" for j
    by (simp_all add: set_hint_def)
  have "geometry_ok (set_hint si h s) = geometry_ok s" "counts_for m (set_hint si h s) = counts_for m s" for m
    unfolding geometry_ok_def counts_for_def f by (simp_all add: set_hint_def)
  then show ?thesis by (simp add: pmm_inv_def pmm_wf_def cache_ok_def) (simp add: set_hint_def)
qed

lemma frag_spec:
  shows "pmm_inv frag_state" and "pmm_bitmap_pages frag_state = 261"
    and "bit_test (l1_map frag_state) i \<longleftrightarrow> i \<noteq> 5 \<and> i \<noteq> 6"
    and "hint (shards frag_state 0) = 6" and "slow_hint frag_state = 6"
proof -
  have nw: "no_wrap frag_entries" by (simp add: no_wrap_def frag_entries_def U64_def)
  have top: "\<forall>e \<in> set frag_entries. me_type e = Usable \<longrightarrow> me_base e + me_length e \<le> 261 * PAGE_SIZE"
    by (simp add: frag_entries_def)
  note s = init_passes_spec [OF nw _ _ top]
  show "pmm_inv frag_state" using s(1) by (simp add: frag_state_def)
  show "pmm_bitmap_pages frag_state = 261" using s(3) by (simp add: frag_state_def set_hint_def)
  have "usable_page frag_entries i \<longleftrightarrow> i = 5 \<or> i = 6" "\<not> (\<exists>e \<in> set frag_entries. reserved_by e i)"
    by (auto simp: usable_page_def entry_page_def frag_entries_def reserved_by_def)
  then show "bit_test (l1_map frag_state) i \<longleftrightarrow> i \<noteq> 5 \<and> i \<noteq> 6"
    using s(2) [of i] by (auto simp: frag_state_def set_hint_def init_page_taken_def)
  show "hint (shards frag_state 0) = 6" and "slow_hint frag_state = 6" by (simp_all add: frag_state_def set_hint_def)
qed

lemma frag_no_run: "b \<noteq> 5 \<Longrightarrow> \<not> free_run (l1_map frag_state) b 2"
proof
  assume "b \<noteq> 5" and run: "free_run (l1_map frag_state) b 2"
  from run have "\<not> bit_test (l1_map frag_state) b" "\<not> bit_test (l1_map frag_state) (b + 1)"
    unfolding free_run_def by simp_all
  then show False using \<open>b \<noteq> 5\<close> unfolding frag_spec(3) by linarith
qed

lemma frag_scan:
  assumes "6 \<le> from \<or> to \<le> 6" and "to \<le> 261"
  shows "scan_for_run from to 2 (frag_state\<lparr>rr_seq := x\<rparr>) = (None, frag_state\<lparr>rr_seq := x\<rparr>)"
proof -
  let ?s = "frag_state\<lparr>rr_seq := x\<rparr>"
  have wf: "pmm_wf ?s" using frag_spec(1) by (simp add: pmm_inv_def pmm_wf_def geometry_ok_def)
  have "to \<le> pmm_bitmap_pages ?s" using assms(2) frag_spec(2) by simp
  from scan_wf [OF wf this, of 2 "from"] obtain r where r: "scan_for_run from to 2 ?s = (r, ?s)"
    "run_spec (l1_map ?s) from to 2 r" by auto
  have "r = None"
  proof (cases r)
    case (Some b)
    then have "from \<le> b" "b + 2 \<le> to" "free_run (l1_map frag_state) b 2" using r(2) by (auto simp: run_spec_def)
    then show ?thesis using frag_no_run [of b] assms(1) by linarith
  qed
  then show ?thesis using r(1) by simp
qed

text \<open>
  C32. The allocator can refuse a request although the memory is there: in a state that
  satisfies the invariant, pages 5 and 6 are free and adjacent, and a request of two pages
  returns a null pointer, because both the shard and the slow path search only up to
  their hint and from their hint, and the run lies across it.
\<close>

theorem Request_misses_straddling_run:
  "pmm_inv frag_state \<and> free_run (l1_map frag_state) 5 2 \<and> fst (Request None 2 frag_state) = 0"
proof -
  have g: "geometry_ok frag_state" using frag_spec(1) by (simp add: pmm_inv_def pmm_wf_def)
  have c: "shard_count frag_state = 1" using g frag_spec(2) by (simp add: geometry_ok_def)
  have "\<forall>si < shard_count frag_state. first_page (shards frag_state si) = si * SHARD_PAGES
      \<and> npages (shards frag_state si) = min SHARD_PAGES (pmm_bitmap_pages frag_state - si * SHARD_PAGES)"
    using g unfolding geometry_ok_def by (elim conjE)
  from this [rule_format, of 0, unfolded c, OF zero_less_one]
have sh: "first_page (shards frag_state 0) = 0" "npages (shards frag_state 0) = 261"
    unfolding frag_spec(2) by (simp_all add: min_def)
  define s1 where "s1 = frag_state\<lparr>rr_seq := add64 (rr_seq frag_state) 1\<rparr>"
  have f: "shards s1 = shards frag_state" "slow_hint s1 = 6" "pmm_bitmap_pages s1 = 261"
    using frag_spec(2,5) by (simp_all add: s1_def)
  have scans: "scan_for_run 6 261 2 s1 = (None, s1)" "scan_for_run 0 6 2 s1 = (None, s1)"
    unfolding s1_def by (rule frag_scan; simp)+
  have rr: "shard_rr_first frag_state = (0, s1)" by (simp add: shard_rr_first_def c s1_def)
  have "alloc_in_shard_locked 0 2 s1 = (0, s1)"
    unfolding alloc_in_shard_locked_def Let_def f(1) sh frag_spec(4) by (simp add: scans)
  moreover have "alloc_global_slowpath 2 s1 = (0, s1)"
    unfolding alloc_global_slowpath_def Let_def f(2,3) by (simp add: scans)
  ultimately have "request_general 2 frag_state = (0, s1)"
    by (simp add: request_general_def rr c rr_index_def)
  then have "fst (Request None 2 frag_state) = 0" using frag_spec(2) by (simp add: Request_def)
  moreover have "free_run (l1_map frag_state) 5 2" unfolding free_run_def frag_spec(3) by linarith
  ultimately show ?thesis using frag_spec(1) by blast
qed

end
