(* ===== verification/RB_Model.thy ===== *)
theory RB_Model
  imports Prelude
begin

text \<open>
  The intrusive red-black tree of the kernel (\<open>kernel/include/klib/algorithm/rbtree.h\<close>),
  pointer by pointer. The store maps addresses to nodes, 0 is the null pointer, and
  every assignment of the source is an update of one field of one node. Operations
  under the tree's lock are single steps. Loops that follow pointers are partial: on a
  store that is not a tree they may not end, and then have no value.
  A comparator is a function of two node addresses, since it reads the objects in which
  the nodes are embedded.
\<close>

datatype rb_color = RB_RED | RB_BLACK

record rb_node =
  n_parent :: nat
  n_left :: nat
  n_right :: nat
  n_color :: rb_color
  n_flags :: "8 word"
  access_time :: nat
  access_count :: nat

type_synonym rb_heap = "nat \<Rightarrow> rb_node"
type_synonym rb_links = "rb_heap \<times> nat"
type_synonym rb_compare = "nat \<Rightarrow> nat \<Rightarrow> int"

record rb_root =
  r_node :: nat
  r_hint :: nat
  r_cnt :: nat
  r_clock :: nat
  warm_decay :: nat
  hot_decay :: nat
  hint_mask :: nat
  stat_cold :: nat
  stat_warm :: nat
  stat_hot :: nat
  stat_pinned :: nat

type_synonym rb = "rb_heap \<times> rb_root"

abbreviation (input) RB_FLAG_COLD :: "8 word" where "RB_FLAG_COLD \<equiv> 0"
abbreviation (input) RB_FLAG_WARM :: "8 word" where "RB_FLAG_WARM \<equiv> 1"
abbreviation (input) RB_FLAG_HOT :: "8 word" where "RB_FLAG_HOT \<equiv> 2"
abbreviation (input) RB_FLAG_PINNED :: "8 word" where "RB_FLAG_PINNED \<equiv> 128"
abbreviation (input) RB_FLAG_TEMP_MASK :: "8 word" where "RB_FLAG_TEMP_MASK \<equiv> 3"

section \<open>Field assignments\<close>

definition set_parent :: "nat \<Rightarrow> nat \<Rightarrow> rb_heap \<Rightarrow> rb_heap" where
  "set_parent a v h = h(a := (h a)\<lparr>n_parent := v\<rparr>)"

definition set_left :: "nat \<Rightarrow> nat \<Rightarrow> rb_heap \<Rightarrow> rb_heap" where
  "set_left a v h = h(a := (h a)\<lparr>n_left := v\<rparr>)"

definition set_right :: "nat \<Rightarrow> nat \<Rightarrow> rb_heap \<Rightarrow> rb_heap" where
  "set_right a v h = h(a := (h a)\<lparr>n_right := v\<rparr>)"

definition set_color :: "nat \<Rightarrow> rb_color \<Rightarrow> rb_heap \<Rightarrow> rb_heap" where
  "set_color a v h = h(a := (h a)\<lparr>n_color := v\<rparr>)"

section \<open>Statistics\<close>

definition rb_stat_dec :: "8 word \<Rightarrow> rb_root \<Rightarrow> rb_root" where
  "rb_stat_dec flags root =
     (let pure = flags AND RB_FLAG_TEMP_MASK;
          r1 = (if flags AND RB_FLAG_PINNED \<noteq> 0 then root\<lparr>stat_pinned := sub64 (stat_pinned root) 1\<rparr> else root)
      in if pure = RB_FLAG_COLD then r1\<lparr>stat_cold := sub64 (stat_cold r1) 1\<rparr>
         else if pure = RB_FLAG_WARM then r1\<lparr>stat_warm := sub64 (stat_warm r1) 1\<rparr>
         else if pure = RB_FLAG_HOT then r1\<lparr>stat_hot := sub64 (stat_hot r1) 1\<rparr>
         else r1)"

definition rb_stat_inc :: "8 word \<Rightarrow> rb_root \<Rightarrow> rb_root" where
  "rb_stat_inc flags root =
     (let pure = flags AND RB_FLAG_TEMP_MASK;
          r1 = (if flags AND RB_FLAG_PINNED \<noteq> 0 then root\<lparr>stat_pinned := add64 (stat_pinned root) 1\<rparr> else root)
      in if pure = RB_FLAG_COLD then r1\<lparr>stat_cold := add64 (stat_cold r1) 1\<rparr>
         else if pure = RB_FLAG_WARM then r1\<lparr>stat_warm := add64 (stat_warm r1) 1\<rparr>
         else if pure = RB_FLAG_HOT then r1\<lparr>stat_hot := add64 (stat_hot r1) 1\<rparr>
         else r1)"

definition rb_init_node :: "nat \<Rightarrow> rb_heap \<Rightarrow> rb_heap" where
  "rb_init_node a h =
     (if a = 0 then h
      else h(a := \<lparr>n_parent = 0, n_left = 0, n_right = 0, n_color = RB_RED, n_flags = RB_FLAG_COLD,
                   access_time = 0, access_count = 0\<rparr>))"

definition rb_root_init :: rb_root where
  "rb_root_init = \<lparr>r_node = 0, r_hint = 0, r_cnt = 0, r_clock = 0, warm_decay = 4096, hot_decay = 16384,
     hint_mask = 3, stat_cold = 0, stat_warm = 0, stat_hot = 0, stat_pinned = 0\<rparr>"

definition rb_set_decay :: "nat \<Rightarrow> nat \<Rightarrow> rb_root \<Rightarrow> rb_root" where
  "rb_set_decay warm hot root = root\<lparr>warm_decay := warm, hot_decay := hot\<rparr>"

definition rb_set_hint_mask :: "nat \<Rightarrow> rb_root \<Rightarrow> rb_root" where
  "rb_set_hint_mask m root = root\<lparr>hint_mask := (if m \<noteq> 0 then m else 3)\<rparr>"

definition rb_tick :: "rb_root \<Rightarrow> rb_root" where
  "rb_tick root = root\<lparr>r_clock := add64 (r_clock root) 1\<rparr>"

text \<open>
  A compare-and-swap that is the only writer succeeds at once; the pin, unpin and touch
  loops then run their body once.
\<close>

definition rb_pin_node :: "nat \<Rightarrow> rb \<Rightarrow> rb" where
  "rb_pin_node a s =
     (case s of (h, root) \<Rightarrow>
      let old = n_flags (h a); new = old OR RB_FLAG_PINNED
      in if a = 0 \<or> old AND RB_FLAG_PINNED \<noteq> 0 then s
         else (h(a := (h a)\<lparr>n_flags := new\<rparr>), rb_stat_inc new (rb_stat_dec old root)))"

definition rb_unpin_node :: "nat \<Rightarrow> rb \<Rightarrow> rb" where
  "rb_unpin_node a s =
     (case s of (h, root) \<Rightarrow>
      let old = n_flags (h a); new = old AND NOT RB_FLAG_PINNED
      in if a = 0 \<or> old AND RB_FLAG_PINNED = 0 then s
         else (h(a := (h a)\<lparr>n_flags := new\<rparr>), rb_stat_inc new (rb_stat_dec old root)))"

definition rb_is_pinned :: "nat \<Rightarrow> rb_heap \<Rightarrow> bool" where
  "rb_is_pinned a h = (a \<noteq> 0 \<and> n_flags (h a) AND RB_FLAG_PINNED \<noteq> 0)"

definition touch_temp :: "rb_root \<Rightarrow> nat \<Rightarrow> nat \<Rightarrow> 8 word \<Rightarrow> 8 word \<times> bool" where
  "touch_temp root elapsed cnt cur =
     (let (t1, decay) =
            (if elapsed > hot_decay root then (RB_FLAG_COLD, True)
             else if elapsed > warm_decay root
             then (if cur = RB_FLAG_HOT then RB_FLAG_WARM else RB_FLAG_COLD, True)
             else (cur, False));
          eff = (if decay then 1 else cnt)
      in (if eff \<ge> 8 \<and> t1 < RB_FLAG_HOT then RB_FLAG_HOT
          else if eff \<ge> 2 \<and> t1 < RB_FLAG_WARM then RB_FLAG_WARM else t1, decay))"

definition rb_touch :: "nat \<Rightarrow> rb \<Rightarrow> rb" where
  "rb_touch a s =
     (case s of (h, root) \<Rightarrow>
      if a = 0 then s
      else
        let elapsed = sub64 (r_clock root) (access_time (h a));
            cnt = add64 (access_count (h a)) 1;
            n1 = (h a)\<lparr>access_count := cnt\<rparr>;
            n2 = (if elapsed > 64 then n1\<lparr>access_time := r_clock root\<rparr> else n1);
            fl = n_flags n2;
            cur = fl AND RB_FLAG_TEMP_MASK;
            (new, decay) = touch_temp root elapsed cnt cur;
            fl' = (fl AND NOT RB_FLAG_TEMP_MASK) OR new
        in if fl AND RB_FLAG_PINNED \<noteq> 0 \<or> new = cur then (h(a := n2), root)
           else (h(a := (if decay then n2\<lparr>n_flags := fl', access_count := 1\<rparr> else n2\<lparr>n_flags := fl'\<rparr>)),
                 rb_stat_inc fl' (rb_stat_dec fl root)))"

section \<open>Rotations\<close>

text \<open>The child pointer of \<open>par\<close> that held \<open>node\<close>, or the root, becomes \<open>v\<close>; the source
  tests the left child first, or the right.\<close>

definition redirect :: "nat \<Rightarrow> nat \<Rightarrow> nat \<Rightarrow> rb_links \<Rightarrow> rb_links" where
  "redirect par node v s =
     (case s of (h, root) \<Rightarrow>
      if par \<noteq> 0 then (if node = n_left (h par) then set_left par v h else set_right par v h, root)
      else (h, v))"

definition redirect' :: "nat \<Rightarrow> nat \<Rightarrow> nat \<Rightarrow> rb_links \<Rightarrow> rb_links" where
  "redirect' par node v s =
     (case s of (h, root) \<Rightarrow>
      if par \<noteq> 0 then (if node = n_right (h par) then set_right par v h else set_left par v h, root)
      else (h, v))"

definition rb_rotate_left :: "nat \<Rightarrow> rb_links \<Rightarrow> rb_links" where
  "rb_rotate_left node s =
     (case s of (h, root) \<Rightarrow>
      let right = n_right (h node);
          h1 = set_right node (n_left (h right)) h;
          h2 = (if n_left (h1 right) \<noteq> 0 then set_parent (n_left (h1 right)) node h1 else h1);
          h3 = set_parent right (n_parent (h2 node)) h2;
          (h4, root') = redirect (n_parent (h3 node)) node right (h3, root);
          h5 = set_left right node h4
      in (set_parent node right h5, root'))"

definition rb_rotate_right :: "nat \<Rightarrow> rb_links \<Rightarrow> rb_links" where
  "rb_rotate_right node s =
     (case s of (h, root) \<Rightarrow>
      let left = n_left (h node);
          h1 = set_left node (n_right (h left)) h;
          h2 = (if n_right (h1 left) \<noteq> 0 then set_parent (n_right (h1 left)) node h1 else h1);
          h3 = set_parent left (n_parent (h2 node)) h2;
          (h4, root') = redirect' (n_parent (h3 node)) node left (h3, root);
          h5 = set_right left node h4
      in (set_parent node left h5, root'))"

section \<open>Insertion\<close>

text \<open>The descent: the parent of the free place and the last comparison.\<close>

partial_function (option) ins_descend ::
    "rb_compare \<Rightarrow> nat \<Rightarrow> rb_heap \<Rightarrow> nat \<Rightarrow> int \<Rightarrow> nat \<Rightarrow> (nat \<times> int) option" where
  "ins_descend cmp node h par res cur =
     (if cur = 0 then Some (par, res)
      else let res' = cmp node cur
           in ins_descend cmp node h cur res' (if res' < 0 then n_left (h cur) else n_right (h cur)))"

definition is_red :: "rb_heap \<Rightarrow> nat \<Rightarrow> bool" where
  "is_red h a = (a \<noteq> 0 \<and> n_color (h a) = RB_RED)"

text \<open>One pass of the repair loop.\<close>

definition ins_recolor :: "nat \<Rightarrow> nat \<Rightarrow> nat \<Rightarrow> rb_heap \<Rightarrow> rb_heap" where
  "ins_recolor par uncle gp h = set_color gp RB_RED (set_color uncle RB_BLACK (set_color par RB_BLACK h))"

definition ins_step :: "nat \<Rightarrow> rb_links \<Rightarrow> nat \<times> rb_links" where
  "ins_step node s =
     (case s of (h, root) \<Rightarrow>
      let par = n_parent (h node);
          gp = n_parent (h par)
      in if par = n_left (h gp)
         then
           let uncle = n_right (h gp) in
           if is_red h uncle then (gp, ins_recolor par uncle gp h, root)
           else
             let (node1, s1) = (if node = n_right (h par) then (par, rb_rotate_left par (h, root)) else (node, (h, root)));
                 h2 = set_color gp RB_RED (set_color (n_parent (fst s1 node1)) RB_BLACK (fst s1))
             in (node1, rb_rotate_right gp (h2, snd s1))
         else
           let uncle = n_left (h gp) in
           if is_red h uncle then (gp, ins_recolor par uncle gp h, root)
           else
             let (node1, s1) = (if node = n_left (h par) then (par, rb_rotate_right par (h, root)) else (node, (h, root)));
                 h2 = set_color gp RB_RED (set_color (n_parent (fst s1 node1)) RB_BLACK (fst s1))
             in (node1, rb_rotate_left gp (h2, snd s1)))"

partial_function (option) ins_loop :: "nat \<Rightarrow> rb_links \<Rightarrow> rb_links option" where
  "ins_loop node s =
     (if node = snd s \<or> n_color (fst s (n_parent (fst s node))) \<noteq> RB_RED then Some s
      else ins_loop (fst (ins_step node s)) (snd (ins_step node s)))"

definition rb_insert_raw :: "rb_compare \<Rightarrow> nat \<Rightarrow> rb \<Rightarrow> rb option" where
  "rb_insert_raw cmp node s =
     (case s of (h0, root) \<Rightarrow>
      if node = 0 then Some s
      else
        let h = rb_init_node node h0 in
        case ins_descend cmp node h 0 0 (r_node root) of
          None \<Rightarrow> None
        | Some (par, res) \<Rightarrow>
            let h1 = set_parent node par h;
                (h2, tp) = (if par = 0 then (h1, node)
                             else (if res < 0 then set_left par node h1 else set_right par node h1, r_node root));
                h3 = h2(node := (h2 node)\<lparr>access_time := r_clock root\<rparr>);
                root1 = rb_stat_inc RB_FLAG_COLD root
            in case ins_loop node (h3, tp) of
                 None \<Rightarrow> None
               | Some (h4, tp') \<Rightarrow> Some (set_color tp' RB_BLACK h4, root1\<lparr>r_node := tp'\<rparr>))"

definition rb_insert :: "rb_compare \<Rightarrow> nat \<Rightarrow> rb \<Rightarrow> rb option" where
  "rb_insert cmp node s =
     (if node = 0 then Some s
      else map_option (\<lambda>(h, root). (h, root\<lparr>r_cnt := add64 (r_cnt root) 1\<rparr>)) (rb_insert_raw cmp node s))"

section \<open>Search\<close>

partial_function (option) search_descend :: "rb_compare \<Rightarrow> nat \<Rightarrow> rb_heap \<Rightarrow> nat \<Rightarrow> nat option" where
  "search_descend cmp key h cur =
     (if cur = 0 then Some 0
      else if cmp key cur < 0 then search_descend cmp key h (n_left (h cur))
      else if cmp key cur > 0 then search_descend cmp key h (n_right (h cur))
      else Some cur)"

definition rb_search_locked_only :: "rb_compare \<Rightarrow> nat \<Rightarrow> rb \<Rightarrow> (nat \<times> rb) option" where
  "rb_search_locked_only cmp key s =
     (case s of (h, root) \<Rightarrow>
      if key = 0 then Some (0, s)
      else
        let hint = r_hint root in
        case (if hint \<noteq> 0 \<and> cmp key hint = 0 then Some hint else search_descend cmp key h (r_node root)) of
          None \<Rightarrow> None
        | Some cur \<Rightarrow>
            if cur = 0 then Some (0, s)
            else
              let (h1, root1) = rb_touch cur s;
                  root2 = (if cur \<noteq> hint \<and> r_clock root1 AND hint_mask root1 = 0
                           then root1\<lparr>r_hint := cur\<rparr> else root1)
              in Some (cur, (h1, root2)))"

definition rb_search :: "rb_compare \<Rightarrow> nat \<Rightarrow> rb \<Rightarrow> (nat \<times> rb) option" where
  "rb_search cmp key s = (if key = 0 then Some (0, s) else rb_search_locked_only cmp key s)"

section \<open>Iteration\<close>

partial_function (option) leftmost :: "rb_heap \<Rightarrow> nat \<Rightarrow> nat option" where
  "leftmost h a = (if n_left (h a) = 0 then Some a else leftmost h (n_left (h a)))"

partial_function (option) rightmost :: "rb_heap \<Rightarrow> nat \<Rightarrow> nat option" where
  "rightmost h a = (if n_right (h a) = 0 then Some a else rightmost h (n_right (h a)))"

definition rb_first :: "rb_heap \<Rightarrow> nat \<Rightarrow> nat option" where
  "rb_first h a = (if a = 0 then Some 0 else leftmost h a)"

definition rb_last :: "rb_heap \<Rightarrow> nat \<Rightarrow> nat option" where
  "rb_last h a = (if a = 0 then Some 0 else rightmost h a)"

partial_function (option) climb_right :: "rb_heap \<Rightarrow> nat \<Rightarrow> nat \<Rightarrow> nat option" where
  "climb_right h node par =
     (if par \<noteq> 0 \<and> node = n_right (h par) then climb_right h par (n_parent (h par)) else Some par)"

partial_function (option) climb_left :: "rb_heap \<Rightarrow> nat \<Rightarrow> nat \<Rightarrow> nat option" where
  "climb_left h node par =
     (if par \<noteq> 0 \<and> node = n_left (h par) then climb_left h par (n_parent (h par)) else Some par)"

definition rb_next :: "rb_heap \<Rightarrow> nat \<Rightarrow> nat option" where
  "rb_next h node =
     (if node = 0 then Some 0
      else if n_right (h node) \<noteq> 0 then rb_first h (n_right (h node))
      else climb_right h node (n_parent (h node)))"

definition rb_prev :: "rb_heap \<Rightarrow> nat \<Rightarrow> nat option" where
  "rb_prev h node =
     (if node = 0 then Some 0
      else if n_left (h node) \<noteq> 0 then rightmost h (n_left (h node))
      else climb_left h node (n_parent (h node)))"

section \<open>Removal\<close>

definition is_black :: "rb_heap \<Rightarrow> nat \<Rightarrow> bool" where
  "is_black h a = (a = 0 \<or> n_color (h a) = RB_BLACK)"

text \<open>
  One pass of the repair loop: whether it goes on, the new node and parent, and the links.
  A missing sibling, which only a damaged tree has, ends it. The second half of the pass,
  with a black sibling, comes first.
\<close>

definition erase_black_left :: "nat \<Rightarrow> nat \<Rightarrow> nat \<Rightarrow> rb_links \<Rightarrow> bool \<times> nat \<times> nat \<times> rb_links" where
  "erase_black_left node par sib s1 =
     (let h1 = fst s1 in
      if is_black h1 (n_left (h1 sib)) \<and> is_black h1 (n_right (h1 sib))
      then let h2 = set_color sib RB_RED h1 in (True, par, n_parent (h2 par), (h2, snd s1))
      else
        let (sib', s2) =
              (if is_black h1 (n_right (h1 sib))
               then
                 let h2 = (if n_left (h1 sib) \<noteq> 0 then set_color (n_left (h1 sib)) RB_BLACK h1 else h1);
                     s = rb_rotate_right sib (set_color sib RB_RED h2, snd s1)
                 in (n_right (fst s par), s)
               else (sib, s1));
            h3 = set_color par RB_BLACK (set_color sib' (n_color (fst s2 par)) (fst s2));
            h4 = (if n_right (h3 sib') \<noteq> 0 then set_color (n_right (h3 sib')) RB_BLACK h3 else h3);
            s5 = rb_rotate_left par (h4, snd s2)
        in (False, snd s5, par, s5))"

definition erase_step_left :: "nat \<Rightarrow> nat \<Rightarrow> rb_links \<Rightarrow> bool \<times> nat \<times> nat \<times> rb_links" where
  "erase_step_left node par s0 =
     (let sib = n_right (fst s0 par) in
      if sib = 0 then (False, node, par, s0)
      else if n_color (fst s0 sib) = RB_RED
      then
        let s1 = rb_rotate_left par (set_color par RB_RED (set_color sib RB_BLACK (fst s0)), snd s0);
            sib1 = n_right (fst s1 par)
        in if sib1 = 0 then (False, node, par, s1) else erase_black_left node par sib1 s1
      else erase_black_left node par sib s0)"

definition erase_black_right :: "nat \<Rightarrow> nat \<Rightarrow> nat \<Rightarrow> rb_links \<Rightarrow> bool \<times> nat \<times> nat \<times> rb_links" where
  "erase_black_right node par sib s1 =
     (let h1 = fst s1 in
      if is_black h1 (n_left (h1 sib)) \<and> is_black h1 (n_right (h1 sib))
      then let h2 = set_color sib RB_RED h1 in (True, par, n_parent (h2 par), (h2, snd s1))
      else
        let (sib', s2) =
              (if is_black h1 (n_left (h1 sib))
               then
                 let h2 = (if n_right (h1 sib) \<noteq> 0 then set_color (n_right (h1 sib)) RB_BLACK h1 else h1);
                     s = rb_rotate_left sib (set_color sib RB_RED h2, snd s1)
                 in (n_left (fst s par), s)
               else (sib, s1));
            h3 = set_color par RB_BLACK (set_color sib' (n_color (fst s2 par)) (fst s2));
            h4 = (if n_left (h3 sib') \<noteq> 0 then set_color (n_left (h3 sib')) RB_BLACK h3 else h3);
            s5 = rb_rotate_right par (h4, snd s2)
        in (False, snd s5, par, s5))"

definition erase_step_right :: "nat \<Rightarrow> nat \<Rightarrow> rb_links \<Rightarrow> bool \<times> nat \<times> nat \<times> rb_links" where
  "erase_step_right node par s0 =
     (let sib = n_left (fst s0 par) in
      if sib = 0 then (False, node, par, s0)
      else if n_color (fst s0 sib) = RB_RED
      then
        let s1 = rb_rotate_right par (set_color par RB_RED (set_color sib RB_BLACK (fst s0)), snd s0);
            sib1 = n_left (fst s1 par)
        in if sib1 = 0 then (False, node, par, s1) else erase_black_right node par sib1 s1
      else erase_black_right node par sib s0)"

definition erase_step :: "nat \<Rightarrow> nat \<Rightarrow> rb_links \<Rightarrow> bool \<times> nat \<times> nat \<times> rb_links" where
  "erase_step node par s =
     (if node = n_left (fst s par) then erase_step_left node par s else erase_step_right node par s)"

partial_function (option) erase_loop :: "nat \<Rightarrow> nat \<Rightarrow> rb_links \<Rightarrow> (nat \<times> rb_links) option" where
  "erase_loop node par s =
     (if node = snd s \<or> \<not> is_black (fst s) node then Some (node, s)
      else case erase_step node par s of
             (again, node', par', s') \<Rightarrow> if again then erase_loop node' par' s' else Some (node', s'))"

definition rb_erase_fixup :: "nat \<Rightarrow> nat \<Rightarrow> rb_links \<Rightarrow> rb_links option" where
  "rb_erase_fixup node par s =
     map_option (\<lambda>(n, (h, root)). (if n \<noteq> 0 then set_color n RB_BLACK h else h, root)) (erase_loop node par s)"

definition rb_erase_update_stats :: "nat \<Rightarrow> rb \<Rightarrow> rb" where
  "rb_erase_update_stats a s =
     (case s of (h, root) \<Rightarrow>
      if a = 0 then s
      else (h(a := (h a)\<lparr>n_flags := RB_FLAG_COLD, access_time := 0, access_count := 0\<rparr>),
            rb_stat_dec (n_flags (h a)) root))"

text \<open>The assignments that put \<open>succ\<close> in the place of \<open>node\<close>.\<close>

definition take_place :: "nat \<Rightarrow> nat \<Rightarrow> rb_links \<Rightarrow> rb_links" where
  "take_place node succ s =
     (case s of (h3, tp) \<Rightarrow>
      let h4 = set_color succ (n_color (h3 node)) h3;
          h5 = set_left succ (n_left (h4 node)) h4;
          h6 = set_parent (n_left (h5 node)) succ h5;
          (h7, tp') = redirect (n_parent (h6 node)) node succ (h6, tp)
      in (set_parent succ (n_parent (h7 node)) h7, tp'))"

definition erase_two_children :: "nat \<Rightarrow> rb_links \<Rightarrow> rb_links option" where
  "erase_two_children node s =
     (case s of (h, tp) \<Rightarrow>
      case rb_first h (n_right (h node)) of
        None \<Rightarrow> None
      | Some succ \<Rightarrow>
          let color = n_color (h succ);
              child = n_right (h succ);
              par0 = n_parent (h succ);
              (par, h3) =
                (if par0 = node then (succ, h)
                 else
                   let h1 = set_left par0 child (if child \<noteq> 0 then set_parent child par0 h else h);
                       h2 = set_right succ (n_right (h1 node)) h1
                   in (par0, set_parent (n_right (h2 node)) succ h2));
              s8 = take_place node succ (h3, tp)
          in if color = RB_BLACK then rb_erase_fixup child par s8 else Some s8)"

definition erase_one_child :: "nat \<Rightarrow> nat \<Rightarrow> rb_links \<Rightarrow> rb_links option" where
  "erase_one_child node child s =
     (case s of (h, tp) \<Rightarrow>
      let par = n_parent (h node);
          color = n_color (h node);
          h1 = (if child \<noteq> 0 then set_parent child par h else h);
          s2 = redirect par node child (h1, tp)
      in if color = RB_BLACK then rb_erase_fixup child par s2 else Some s2)"

definition rb_erase_raw :: "nat \<Rightarrow> rb \<Rightarrow> rb option" where
  "rb_erase_raw node s =
     (case s of (h, root) \<Rightarrow>
      if node = 0 \<or> r_node root = 0 then Some s
      else
        map_option (\<lambda>(h', tp). rb_erase_update_stats node (h', root\<lparr>r_node := tp\<rparr>))
          (if n_left (h node) = 0 then erase_one_child node (n_right (h node)) (h, r_node root)
           else if n_right (h node) = 0 then erase_one_child node (n_left (h node)) (h, r_node root)
           else erase_two_children node (h, r_node root)))"

definition rb_clear_hint_if_match :: "nat \<Rightarrow> rb_root \<Rightarrow> rb_root" where
  "rb_clear_hint_if_match node root = (if r_hint root = node then root\<lparr>r_hint := 0\<rparr> else root)"

definition rb_erase :: "nat \<Rightarrow> rb \<Rightarrow> rb option" where
  "rb_erase node s =
     (if node = 0 then Some s
      else map_option (\<lambda>(h, root). (h, root\<lparr>r_cnt := sub64 (r_cnt root) 1\<rparr>))
             (rb_erase_raw node (fst s, rb_clear_hint_if_match node (snd s))))"

section \<open>Ranges\<close>

partial_function (option) ge_descend :: "rb_compare \<Rightarrow> nat \<Rightarrow> rb_heap \<Rightarrow> nat \<Rightarrow> nat \<Rightarrow> nat option" where
  "ge_descend cmp lo h start cur =
     (if cur = 0 then Some start
      else if cmp cur lo \<ge> 0 then ge_descend cmp lo h cur (n_left (h cur))
      else ge_descend cmp lo h start (n_right (h cur)))"

definition rb_find_first_ge :: "rb_compare \<Rightarrow> nat \<Rightarrow> rb_heap \<Rightarrow> nat \<Rightarrow> nat option" where
  "rb_find_first_ge cmp lo h a =
     (if a = 0 then Some 0 else if lo = 0 then rb_first h a else ge_descend cmp lo h 0 a)"

partial_function (option) range_loop ::
    "rb_compare \<Rightarrow> nat \<Rightarrow> rb_heap \<Rightarrow> nat \<Rightarrow> nat list \<Rightarrow> nat \<Rightarrow> nat list option" where
  "range_loop cmp hi h max_nodes out cur =
     (if cur = 0 \<or> length out \<ge> max_nodes then Some out
      else if hi \<noteq> 0 \<and> cmp cur hi \<ge> 0 then Some out
      else case rb_next h cur of
             None \<Rightarrow> None
           | Some nx \<Rightarrow> range_loop cmp hi h max_nodes (out @ [cur]) nx)"

definition rb_snapshot_range :: "rb_compare \<Rightarrow> nat \<Rightarrow> nat \<Rightarrow> nat \<Rightarrow> rb \<Rightarrow> nat list option" where
  "rb_snapshot_range cmp lo hi max_nodes s =
     (if max_nodes = 0 then Some []
      else case rb_find_first_ge cmp lo (fst s) (r_node (snd s)) of
             None \<Rightarrow> None
           | Some cur \<Rightarrow> range_loop cmp hi (fst s) max_nodes [] cur)"

definition flag_match :: "8 word \<Rightarrow> bool \<Rightarrow> 8 word \<Rightarrow> bool" where
  "flag_match m exact fl = (if exact then fl AND RB_FLAG_TEMP_MASK = m else fl AND m \<noteq> 0)"

partial_function (option) flag_loop ::
    "8 word \<Rightarrow> bool \<Rightarrow> rb_heap \<Rightarrow> nat \<Rightarrow> nat list \<Rightarrow> nat \<Rightarrow> nat list option" where
  "flag_loop m exact h max_nodes out cur =
     (if cur = 0 \<or> length out \<ge> max_nodes then Some out
      else case rb_next h cur of
             None \<Rightarrow> None
           | Some nx \<Rightarrow>
               flag_loop m exact h max_nodes (if flag_match m exact (n_flags (h cur)) then out @ [cur] else out) nx)"

definition rb_snapshot_by_flag :: "8 word \<Rightarrow> bool \<Rightarrow> nat \<Rightarrow> rb \<Rightarrow> nat list option" where
  "rb_snapshot_by_flag m exact max_nodes s =
     (if max_nodes = 0 then Some []
      else case rb_first (fst s) (r_node (snd s)) of
             None \<Rightarrow> None
           | Some cur \<Rightarrow> flag_loop m exact (fst s) max_nodes [] cur)"

partial_function (option) erase_range_loop ::
    "rb_compare \<Rightarrow> nat \<Rightarrow> nat list \<Rightarrow> nat \<Rightarrow> rb \<Rightarrow> (nat list \<times> rb) option" where
  "erase_range_loop cmp hi freed cur s =
     (if cur = 0 then Some (freed, s)
      else if hi \<noteq> 0 \<and> cmp cur hi \<ge> 0 then Some (freed, s)
      else case rb_next (fst s) cur of
             None \<Rightarrow> None
           | Some nx \<Rightarrow>
               case rb_erase cur s of
                 None \<Rightarrow> None
               | Some s' \<Rightarrow> erase_range_loop cmp hi (freed @ [cur]) nx s')"

text \<open>The nodes erased, in the order in which \<open>free_cb\<close> is called on them.\<close>

definition rb_erase_range :: "rb_compare \<Rightarrow> nat \<Rightarrow> nat \<Rightarrow> rb \<Rightarrow> (nat list \<times> rb) option" where
  "rb_erase_range cmp lo hi s =
     (case rb_find_first_ge cmp lo (fst s) (r_node (snd s)) of
        None \<Rightarrow> None
      | Some cur \<Rightarrow> erase_range_loop cmp hi [] cur s)"

section \<open>Validation\<close>

text \<open>
  The recursive check: 0 for a violation, -1 beyond the depth limit, otherwise the black
  height; \<open>lo\<close> and \<open>hi\<close> are null or bounding nodes.
\<close>

function rb_validate_full_helper :: "rb_heap \<Rightarrow> nat \<Rightarrow> nat \<Rightarrow> nat \<Rightarrow> rb_compare \<Rightarrow> nat \<Rightarrow> int" where
  "rb_validate_full_helper h n lo hi cmp depth =
     (if n = 0 then 1
      else if depth > 4096 then -1
      else if lo \<noteq> 0 \<and> cmp n lo < 0 then 0
      else if hi \<noteq> 0 \<and> cmp n hi \<ge> 0 then 0
      else if n_color (h n) = RB_RED \<and> (is_red h (n_left (h n)) \<or> is_red h (n_right (h n))) then 0
      else
        let lh = rb_validate_full_helper h (n_left (h n)) lo n cmp (depth + 1) in
        if lh < 0 then -1
        else
          let rh = rb_validate_full_helper h (n_right (h n)) n hi cmp (depth + 1) in
          if rh < 0 then -1
          else if lh = 0 \<or> rh = 0 \<or> lh \<noteq> rh then 0
          else lh + (if n_color (h n) = RB_BLACK then 1 else 0))"
  by pat_completeness auto
termination
  by (relation "measure (\<lambda>(h, n, lo, hi, cmp, depth). 4097 - depth)") auto

declare rb_validate_full_helper.simps [simp del]

definition rb_validate :: "rb \<Rightarrow> rb_compare \<Rightarrow> bool" where
  "rb_validate s cmp =
     (case s of (h, root) \<Rightarrow>
      if r_node root = 0 then True
      else if n_color (h (r_node root)) \<noteq> RB_BLACK then False
      else rb_validate_full_helper h (r_node root) 0 0 cmp 0 > 0)"

end
