(* ===== verification/Sched_Types.thy ===== *)
theory Sched_Types
  imports RB_Model
begin

text \<open>
  The data of the scheduler (\<open>sched.h\<close>, \<open>sched_internal.h\<close>, \<open>smp.h\<close>): the fields of
  \<open>thread_t\<close> and \<open>cpu_t\<close> that the fair layer, the quantum layer, the rate feedback and the
  balancing between processors read or write. Unsigned integers are naturals with the wrap-around of
  their width written out in the operations; pointers to threads are addresses, 0 the
  null pointer.
\<close>

abbreviation (input) THREAD_INIT :: nat where "THREAD_INIT \<equiv> 0"
abbreviation (input) THREAD_RUNNING :: nat where "THREAD_RUNNING \<equiv> 1"
abbreviation (input) THREAD_BLOCKED :: nat where "THREAD_BLOCKED \<equiv> 2"
abbreviation (input) THREAD_SLEEPING :: nat where "THREAD_SLEEPING \<equiv> 3"
abbreviation (input) THREAD_TRANSFER :: nat where "THREAD_TRANSFER \<equiv> 4"
abbreviation (input) THREAD_ZOMBIE :: nat where "THREAD_ZOMBIE \<equiv> 5"

text \<open>The rate feedback of a thread: the \<open>rip_\<close> fields of \<open>thread_t\<close>.\<close>

record rip_fields =
  rip_base_self :: nat
  rip_mult_fast :: nat
  rip_mult_slow :: nat
  rip_signal_tag :: nat
  rip_last_tsc :: nat
  dispatch_rip :: nat
  rip_last_sample_ms :: nat
  rip_acc_progress :: nat
  rip_acc_ms :: nat
  rip_short_windows :: nat
  rip_stalled :: nat
  rip_min_slice_ms :: nat
  rip_max_slice_ms :: nat
  rip_quantum_adj :: int
  rip_outlier_streak :: nat

text \<open>
  The rest of a thread; \<open>timer_bucket\<close> names the slot of the wheel it hangs in, \<open>ctx_rip\<close> and \<open>ctx_cs\<close>
  are the instruction pointer and the code segment of its saved registers. The tree node of
  a thread has the address of the thread.
\<close>

record thread_t = rip_fields +
  t_id :: nat
  cpu_num :: nat
  t_state :: nat
  pagemap :: nat
  pinned :: bool
  timer_wakeup :: nat
  timer_bucket :: "(nat \<times> nat) option"
  timer_cpu :: nat
  custom_quantum :: nat
  vruntime :: nat
  deadline :: nat
  last_run_time :: nat
  dispatch_count :: nat
  t_weight :: nat
  on_rq :: bool
  vruntime_rem :: nat
  vlag :: int
  min_vruntime_subtree :: nat
  zombie_next :: nat
  ctx_rip :: nat
  ctx_cs :: nat

text \<open>
  A processor; \<open>simd_mask\<close> is what \<open>cpu_simd_mask\<close> computes from the feature bits, which are fixed
  at start-up.
\<close>

record cpu_t =
  c_id :: nat
  base_quantum :: nat
  thread_count :: nat
  total_weight :: nat
  avg_vruntime :: nat
  avg_vruntime_rem :: nat
  has_surplus :: bool
  has_runnable_thread :: bool
  rip_avg_rate :: nat
  context_switches :: nat
  timer_last_tick :: nat
  runqueue_root :: rb_root
  current_thread :: nat
  idle_thread :: nat
  tick_count :: nat
  simd_mask :: nat
  zombie_list :: nat
  zombie_count :: nat
  steal_attempts :: nat
  thread_steals :: nat
  try_pushes :: nat
  push_success :: nat
  zombie_reclaims :: nat
  preempt_count :: int
  lapic_ticks :: nat

record rip_stats_ctx =
  samples :: nat
  outliers :: nat
  tag_invalid :: nat
  short_windows :: nat
  stalled :: nat
  dead_zone :: nat
  sat_hi :: nat
  sat_lo :: nat
  base_resets :: nat
  tsc_mismatch :: nat
  mean_abs_dev :: nat
  abs_dev_sum :: nat
  dev_window :: nat
  near_reset :: nat
  wf_clamped :: nat

record dyn_adjust_ctx =
  last_tsc :: nat
  last_ctx_sw :: nat
  idle_tsc :: nat
  total_tsc :: nat
  last_adjust_ms :: nat

text \<open>A new thread of weight \<open>w\<close>, a processor that has run nothing, and cleared statistics.\<close>

definition new_thread :: "nat \<Rightarrow> thread_t" where
  "new_thread w =
     \<lparr>rip_base_self = 0, rip_mult_fast = 0, rip_mult_slow = 0, rip_signal_tag = 0, rip_last_tsc = 0,
      dispatch_rip = 0, rip_last_sample_ms = 0, rip_acc_progress = 0, rip_acc_ms = 0,
      rip_short_windows = 0, rip_stalled = 0, rip_min_slice_ms = 0, rip_max_slice_ms = 0,
      rip_quantum_adj = 0, rip_outlier_streak = 0, t_id = 1, cpu_num = 0, t_state = 1, pagemap = 4096,
      pinned = False, timer_wakeup = 0, timer_bucket = None, timer_cpu = 0, custom_quantum = 0,
      vruntime = 0, deadline = 0, last_run_time = 0, dispatch_count = 0, t_weight = w, on_rq = False,
      vruntime_rem = 0, vlag = 0, min_vruntime_subtree = 0, zombie_next = 0, ctx_rip = 0, ctx_cs = 0\<rparr>"

definition new_cpu :: cpu_t where
  "new_cpu = \<lparr>c_id = 0, base_quantum = 5, thread_count = 0, total_weight = 0, avg_vruntime = 0,
      avg_vruntime_rem = 0, has_surplus = False, has_runnable_thread = False, rip_avg_rate = 0,
      context_switches = 0, timer_last_tick = 0, runqueue_root = rb_root_init, current_thread = 0,
      idle_thread = 0, tick_count = 0, simd_mask = 0, zombie_list = 0, zombie_count = 0, steal_attempts = 0,
      thread_steals = 0, try_pushes = 0, push_success = 0, zombie_reclaims = 0,
      preempt_count = 0, lapic_ticks = 1\<rparr>"

definition new_stats :: rip_stats_ctx where
  "new_stats = \<lparr>samples = 0, outliers = 0, tag_invalid = 0, short_windows = 0, stalled = 0, dead_zone = 0,
      sat_hi = 0, sat_lo = 0, base_resets = 0, tsc_mismatch = 0, mean_abs_dev = 0, abs_dev_sum = 0,
      dev_window = 0, near_reset = 0, wf_clamped = 0\<rparr>"

end
