(* ===== verification/RIP_Model.thy ===== *)
theory RIP_Model
  imports Sched_Types
begin

text \<open>
  The quantum layer and the rate feedback of the scheduler
  (\<open>kernel/src/arch/x86_64/schedule/sched_rip.cpp\<close>): \<open>dynamic_adjust_quantum\<close>,
  \<open>get_dynamic_quantum\<close>, \<open>eligibility_capped_quantum\<close> and \<open>riprate_update\<close>. Rates are fixed
  point with 10 fractional bits. The pieces of \<open>riprate_update\<close> follow the numbered
  sections of the source; a piece that may return early yields \<open>Return\<close>.
\<close>

abbreviation (input) RIPRATE_ONE :: nat where "RIPRATE_ONE \<equiv> 1024"
abbreviation (input) RIPRATE_MAX_MULT :: nat where "RIPRATE_MAX_MULT \<equiv> 2560"
abbreviation (input) RIPRATE_MIN_MULT :: nat where "RIPRATE_MIN_MULT \<equiv> 256"
abbreviation (input) RIPRATE_OUTLIER_MULT :: nat where "RIPRATE_OUTLIER_MULT \<equiv> 16384"
abbreviation (input) RIP_OUTLIER_STREAK_MAX :: nat where "RIP_OUTLIER_STREAK_MAX \<equiv> 4"
abbreviation (input) RIP_FAST_W_NORM_Q10 :: nat where "RIP_FAST_W_NORM_Q10 \<equiv> 256"
abbreviation (input) RIP_FAST_W_OSC_Q10 :: nat where "RIP_FAST_W_OSC_Q10 \<equiv> 64"
abbreviation (input) RIP_SAMPLE_PERIOD_MS :: nat where "RIP_SAMPLE_PERIOD_MS \<equiv> 4"
abbreviation (input) RIP_MIN_SAMPLE_MS :: nat where "RIP_MIN_SAMPLE_MS \<equiv> 3"
abbreviation (input) RIP_OSC_HI :: nat where "RIP_OSC_HI \<equiv> 256"
abbreviation (input) RIP_OSC_LO :: nat where "RIP_OSC_LO \<equiv> 128"
abbreviation (input) RIP_DEAD_ZONE :: int where "RIP_DEAD_ZONE \<equiv> 32"
abbreviation (input) RIPADJ_MAX :: int where "RIPADJ_MAX \<equiv> 4"
abbreviation (input) RIPADJ_MIN :: int where "RIPADJ_MIN \<equiv> -4"
abbreviation (input) RIPRATE_AGING_MS :: nat where "RIPRATE_AGING_MS \<equiv> 50"
abbreviation (input) RIPRATE_AGING_MAX_STEPS :: nat where "RIPRATE_AGING_MAX_STEPS \<equiv> 16"

section \<open>The base quantum of a CPU\<close>

definition clamp_base :: "nat \<Rightarrow> nat" where
  "clamp_base q = (let q1 = (if q < 2 then 2 else q) in if q1 > 15 then 15 else q1)"

definition account_tsc :: "bool \<Rightarrow> nat \<Rightarrow> dyn_adjust_ctx \<Rightarrow> dyn_adjust_ctx" where
  "account_tsc idle cur_tsc dc =
     (let dc1 = (if last_tsc dc \<noteq> 0
                 then let elapsed = sub64 cur_tsc (last_tsc dc);
                          d = (if idle then dc\<lparr>idle_tsc := add64 (idle_tsc dc) elapsed\<rparr> else dc)
                      in d\<lparr>total_tsc := add64 (total_tsc d) elapsed\<rparr>
                 else dc)
      in dc1\<lparr>last_tsc := cur_tsc\<rparr>)"

definition step_base :: "nat \<Rightarrow> nat \<Rightarrow> nat \<Rightarrow> nat" where
  "step_base idle_ratio ctx_sw q =
     (if idle_ratio > 50 then (if q < 15 then q + 1 else q)
      else if idle_ratio < 10 \<and> ctx_sw > 500 then (if q < 15 then q + 1 else q)
      else if q > 5 then q - 1 else if q < 5 then q + 1 else q)"

definition dynamic_adjust_quantum ::
    "bool \<Rightarrow> nat \<Rightarrow> nat \<Rightarrow> cpu_t \<times> dyn_adjust_ctx \<Rightarrow> cpu_t \<times> dyn_adjust_ctx" where
  "dynamic_adjust_quantum idle now_ms cur_tsc s =
     (case s of (cpu0, dc0) \<Rightarrow>
      let cpu = cpu0\<lparr>base_quantum := clamp_base (base_quantum cpu0)\<rparr>;
          dc = account_tsc idle cur_tsc dc0
      in if sub64 now_ms (last_adjust_ms dc) > 100
         then
           let cpu' = (if total_tsc dc > 0
                       then cpu\<lparr>base_quantum :=
                              step_base (mul64 (idle_tsc dc) 100 div total_tsc dc)
                                (sub64 (context_switches cpu) (last_ctx_sw dc)) (base_quantum cpu)\<rparr>
                       else cpu)
           in (cpu', dc\<lparr>idle_tsc := 0, total_tsc := 0, last_ctx_sw := context_switches cpu',
                        last_adjust_ms := now_ms\<rparr>)
         else (cpu, dc))"

section \<open>The quantum of a thread\<close>

text \<open>The base: the custom quantum, or the weighted quantum of the CPU.\<close>

definition quantum_base :: "cpu_t \<Rightarrow> thread_t \<Rightarrow> nat" where
  "quantum_base cpu t =
     (if custom_quantum t > 0 then custom_quantum t
      else mul64 (base_quantum cpu) (if t_weight t \<noteq> 0 then t_weight t else 1024) div 1024)"

definition or_one :: "nat \<Rightarrow> nat" where
  "or_one m = (if m \<noteq> 0 then m else RIPRATE_ONE)"

definition fused_mult :: "nat \<Rightarrow> thread_t \<Rightarrow> nat" where
  "fused_mult fw t =
     add64 (mul64 (or_one (rip_mult_fast t)) fw) (mul64 (or_one (rip_mult_slow t)) (RIPRATE_ONE - fw))
       div RIPRATE_ONE"

definition apply_adj :: "int \<Rightarrow> nat \<Rightarrow> nat" where
  "apply_adj adj q =
     (if adj > 0 then add64 q (nat adj)
      else if adj < 0 then (if q > nat (- adj) then q - nat (- adj) else 1)
      else q)"

text \<open>
  \<open>thr\<close> is \<open>None\<close> for a null or idle thread. The result carries the statistics, in which
  an impossible fusion weight is counted.
\<close>

definition get_dynamic_quantum ::
    "cpu_t \<Rightarrow> thread_t option \<Rightarrow> nat \<Rightarrow> rip_stats_ctx \<Rightarrow> nat \<times> rip_stats_ctx" where
  "get_dynamic_quantum cpu thr w st =
     (case thr of
        None \<Rightarrow> (base_quantum cpu, st)
      | Some t \<Rightarrow>
          let bad = (w = 0 \<or> w > RIPRATE_ONE);
              fw = (if bad then RIP_FAST_W_NORM_Q10 else w);
              st' = (if bad then st\<lparr>wf_clamped := add32 (wf_clamped st) 1\<rparr> else st);
              q = mul64 (quantum_base cpu t) (fused_mult fw t) div RIPRATE_ONE;
              q1 = apply_adj (rip_quantum_adj t) q;
              q2 = (if q1 < 1 then 1 else q1);
              cap = mul64 (base_quantum cpu) 8;
              cap' = (if custom_quantum t > cap then custom_quantum t else cap)
          in (if q2 > cap' then cap' else q2, st'))"

definition eligibility_capped_quantum ::
    "cpu_t \<Rightarrow> thread_t \<Rightarrow> bool \<Rightarrow> nat \<Rightarrow> rip_stats_ctx \<Rightarrow> nat \<times> rip_stats_ctx" where
  "eligibility_capped_quantum cpu t idle fw st =
     (let (q, st') = get_dynamic_quantum cpu (if idle then None else Some t) fw st;
          w = (if t_weight t \<noteq> 0 then t_weight t else 1024)
      in (if avg_vruntime cpu > vruntime t
          then let budget = mul64 (avg_vruntime cpu - vruntime t) w div 1024
               in if budget < q then (if budget \<noteq> 0 then budget else 1) else q
          else 1, st'))"

section \<open>Rate feedback\<close>

text \<open>
  What one call of \<open>riprate_update\<close> works on: the thread, the CPU, its statistics, its
  fusion weight, and the cached answer of the TSC calibration hook (-1 before the first
  query).
\<close>

record rip_env =
  e_thr :: thread_t
  e_cpu :: cpu_t
  e_st :: rip_stats_ctx
  fast_w :: nat
  tsc_per_ms_cache :: int

datatype 'a flow = Return rip_env | Go 'a

definition upd_thr :: "(thread_t \<Rightarrow> thread_t) \<Rightarrow> rip_env \<Rightarrow> rip_env" where
  "upd_thr f e = e\<lparr>e_thr := f (e_thr e)\<rparr>"

definition upd_st :: "(rip_stats_ctx \<Rightarrow> rip_stats_ctx) \<Rightarrow> rip_env \<Rightarrow> rip_env" where
  "upd_st f e = e\<lparr>e_st := f (e_st e)\<rparr>"

definition rip_defend :: "rip_env \<Rightarrow> rip_env" where
  "rip_defend = upd_thr (\<lambda>t. t\<lparr>rip_mult_fast := or_one (rip_mult_fast t),
                             rip_mult_slow := or_one (rip_mult_slow t)\<rparr>)"

text \<open>Section 0: the signal tag.\<close>

definition rip_tag :: "nat \<Rightarrow> nat \<Rightarrow> nat \<Rightarrow> nat \<Rightarrow> rip_env \<Rightarrow> rip_env flow" where
  "rip_tag rip_now cs cur_tsc now_ms e =
     (let tag = pagemap (e_thr e) XOR (cs mod 4) in
      if rip_signal_tag (e_thr e) = 0 \<or> rip_signal_tag (e_thr e) \<noteq> tag
      then Return
             (upd_st (\<lambda>s. s\<lparr>tag_invalid := add32 (tag_invalid s) 1\<rparr>)
               (upd_thr (\<lambda>t. t\<lparr>rip_signal_tag := tag, dispatch_rip := rip_now,
                              rip_last_tsc := cur_tsc, rip_last_sample_ms := now_ms\<rparr>) e))
      else Go e)"

text \<open>Section 1: ageing.\<close>

definition decay_mult :: "nat \<Rightarrow> nat" where
  "decay_mult m =
     (if m > RIPRATE_ONE then m - (m - RIPRATE_ONE) div 16
      else if m < RIPRATE_ONE then m + (RIPRATE_ONE - m) div 16 else m)"

definition decay_adj :: "int \<Rightarrow> int" where
  "decay_adj adj =
     (if adj > 0 then adj - (adj + 15) div 16
      else if adj < 0 then adj + (- adj + 15) div 16 else adj)"

definition decay_step :: "thread_t \<Rightarrow> thread_t" where
  "decay_step t = t\<lparr>rip_mult_fast := decay_mult (rip_mult_fast t),
                    rip_mult_slow := decay_mult (rip_mult_slow t),
                    rip_quantum_adj := decay_adj (rip_quantum_adj t)\<rparr>"

definition rip_age :: "nat \<Rightarrow> thread_t \<Rightarrow> thread_t" where
  "rip_age now_ms t =
     (let last_sample = rip_last_sample_ms t;
          steps = sub64 now_ms last_sample div RIPRATE_AGING_MS;
          t1 = (if last_sample \<noteq> 0
                then if steps > RIPRATE_AGING_MAX_STEPS
                     then t\<lparr>rip_mult_fast := RIPRATE_ONE, rip_mult_slow := RIPRATE_ONE,
                            rip_quantum_adj := 0, rip_acc_progress := 0, rip_acc_ms := 0\<rparr>
                     else (decay_step ^^ steps) t
                else t)
      in t1\<lparr>rip_last_sample_ms := now_ms\<rparr>)"

text \<open>Section 2: the time the window really ran; \<open>hook\<close> is the value of \<open>sched_tsc_per_ms ()\<close>.\<close>

definition rip_elapsed :: "nat \<Rightarrow> nat \<Rightarrow> nat \<Rightarrow> rip_env \<Rightarrow> nat \<times> rip_env" where
  "rip_elapsed hook wall_ms tsc_dt e =
     (let tpm = (if tsc_per_ms_cache e < 0 then s64 (int hook) else tsc_per_ms_cache e);
          e1 = e\<lparr>tsc_per_ms_cache := tpm\<rparr>
      in if tpm > 0
         then let exec_ms = tsc_dt div nat tpm in
              if exec_ms \<noteq> 0 \<and> exec_ms \<le> wall_ms then (exec_ms, e1)
              else if exec_ms > wall_ms
              then (wall_ms, upd_st (\<lambda>s. s\<lparr>tsc_mismatch := add32 (tsc_mismatch s) 1\<rparr>) e1)
              else (wall_ms, e1)
         else (wall_ms, e1))"

text \<open>Sections 3 and 3b: the difference of the instruction pointer and the accumulator.\<close>

definition note_slice :: "nat \<Rightarrow> thread_t \<Rightarrow> thread_t" where
  "note_slice elapsed t =
     (let e = (if elapsed > 4294967295 then 4294967295 else elapsed);
          t1 = (if rip_min_slice_ms t = 0 \<or> e < rip_min_slice_ms t then t\<lparr>rip_min_slice_ms := e\<rparr> else t)
      in if e > rip_max_slice_ms t1 then t1\<lparr>rip_max_slice_ms := e\<rparr> else t1)"

definition rip_accumulate :: "nat \<Rightarrow> nat \<Rightarrow> nat \<Rightarrow> rip_env \<Rightarrow> rip_env flow" where
  "rip_accumulate rip_now wall_ms elapsed e =
     (let progress = sub64 rip_now (dispatch_rip (e_thr e));
          e1 = upd_thr (\<lambda>t. t\<lparr>dispatch_rip := rip_now\<rparr>) e
      in if progress > 17592186044416
         then Return (upd_st (\<lambda>s. s\<lparr>outliers := add32 (outliers s) 1\<rparr>) e1)
         else if progress = 0
         then Return (upd_thr (\<lambda>t. t\<lparr>rip_stalled := add32 (rip_stalled t) 1\<rparr>)
                       (upd_st (\<lambda>s. s\<lparr>stalled := add32 (stalled s) 1\<rparr>) e1))
         else
           let e2 = upd_thr (\<lambda>t. t\<lparr>rip_acc_progress := add64 (rip_acc_progress t) progress,
                                   rip_acc_ms := add64 (rip_acc_ms t) wall_ms\<rparr>) e1;
               e3 = (if elapsed < RIP_MIN_SAMPLE_MS
                     then upd_thr (\<lambda>t. t\<lparr>rip_short_windows := add32 (rip_short_windows t) 1\<rparr>)
                            (upd_st (\<lambda>s. s\<lparr>short_windows := add32 (short_windows s) 1\<rparr>) e2)
                     else e2);
               e4 = upd_thr (note_slice elapsed) e3
           in if rip_acc_ms (e_thr e4) < RIP_SAMPLE_PERIOD_MS then Return e4 else Go e4)"

text \<open>Section 5: the observed multiple of the baseline, clamped, and the run of outliers.\<close>

definition rip_observe :: "nat \<Rightarrow> nat \<Rightarrow> rip_env \<Rightarrow> (nat \<times> rip_env) flow" where
  "rip_observe obs_rate baseline e =
     (let obs_mult = shl64 obs_rate 10 div baseline in
      if obs_mult > RIPRATE_OUTLIER_MULT
      then
        let e1 = upd_st (\<lambda>s. s\<lparr>outliers := add32 (outliers s) 1\<rparr>)
                   (upd_thr (\<lambda>t. t\<lparr>rip_outlier_streak := (rip_outlier_streak t + 1) mod 256\<rparr>) e)
        in if rip_outlier_streak (e_thr e1) \<ge> RIP_OUTLIER_STREAK_MAX
           then Return
                  (upd_st (\<lambda>s. s\<lparr>base_resets := add32 (base_resets s) 1\<rparr>)
                    (upd_thr (\<lambda>t. t\<lparr>rip_base_self := obs_rate, rip_mult_fast := RIPRATE_ONE,
                                   rip_mult_slow := RIPRATE_ONE, rip_quantum_adj := 0,
                                   rip_outlier_streak := 0\<rparr>) e1))
           else if rip_outlier_streak (e_thr e1) \<ge> RIP_OUTLIER_STREAK_MAX div 2
           then Go (RIPRATE_OUTLIER_MULT, upd_st (\<lambda>s. s\<lparr>near_reset := add32 (near_reset s) 1\<rparr>) e1)
           else Go (RIPRATE_OUTLIER_MULT, e1)
      else Go (obs_mult, upd_thr (\<lambda>t. t\<lparr>rip_outlier_streak := 0\<rparr>) e))"

text \<open>The exponential moving average: move \<open>x\<close> towards \<open>obs\<close> by a \<open>2 ^ k\<close>-th of the distance.\<close>

definition ewma :: "nat \<Rightarrow> nat \<Rightarrow> nat \<Rightarrow> nat" where
  "ewma k obs x = (if obs \<ge> x then x + (obs - x) div 2 ^ k else x - (x - obs) div 2 ^ k)"

definition clamp_mult :: "nat \<Rightarrow> nat" where
  "clamp_mult m =
     (let m1 = (if m > RIPRATE_MAX_MULT then RIPRATE_MAX_MULT else m)
      in if m1 < RIPRATE_MIN_MULT then RIPRATE_MIN_MULT else m1)"

text \<open>The baselines (section 5) and the two multipliers (section 6).\<close>

definition rip_baselines :: "nat \<Rightarrow> nat \<Rightarrow> rip_env \<Rightarrow> rip_env" where
  "rip_baselines obs_rate baseline e =
     (let e1 = upd_thr (\<lambda>t. t\<lparr>rip_base_self := ewma 6 obs_rate baseline\<rparr>) e;
          g = rip_avg_rate (e_cpu e1)
      in e1\<lparr>e_cpu := (e_cpu e1)\<lparr>rip_avg_rate := (if g = 0 then obs_rate else ewma 3 obs_rate g)\<rparr>\<rparr>)"

definition rip_control :: "nat \<Rightarrow> rip_env \<Rightarrow> rip_env" where
  "rip_control obs_mult =
     upd_thr (\<lambda>t. t\<lparr>rip_mult_fast := clamp_mult (ewma 2 obs_mult (rip_mult_fast t)),
                    rip_mult_slow := clamp_mult (ewma 4 obs_mult (rip_mult_slow t))\<rparr>)"

text \<open>Section 7: statistics over 64 samples and the fusion weight of the CPU.\<close>

definition pick_weight :: "nat \<Rightarrow> nat \<Rightarrow> nat" where
  "pick_weight mean cur =
     (let cur_w = (if cur = 0 then RIP_FAST_W_NORM_Q10 else cur);
          w = (if mean > RIP_OSC_HI then RIP_FAST_W_OSC_Q10
               else if mean < RIP_OSC_LO then RIP_FAST_W_NORM_Q10 else cur_w)
      in if w \<noteq> cur_w then w else cur)"

definition rip_statistics :: "int \<Rightarrow> rip_env \<Rightarrow> rip_env" where
  "rip_statistics dev e =
     (let s0 = e_st e;
          s1 = s0\<lparr>samples := add32 (samples s0) 1,
                  abs_dev_sum := add32 (abs_dev_sum s0) (nat \<bar>dev\<bar> mod U32),
                  dev_window := add32 (dev_window s0) 1\<rparr>
      in if dev_window s1 \<ge> 64
         then let s2 = s1\<lparr>mean_abs_dev := abs_dev_sum s1 div 64, abs_dev_sum := 0, dev_window := 0\<rparr>
              in e\<lparr>e_st := s2, fast_w := pick_weight (mean_abs_dev s2) (fast_w e)\<rparr>
         else e\<lparr>e_st := s1\<rparr>)"

text \<open>Sections 8 and 9: the dead zone and the signed correction.\<close>

definition rip_correct :: "int \<Rightarrow> rip_env \<Rightarrow> rip_env" where
  "rip_correct dev e =
     (if - RIP_DEAD_ZONE < dev \<and> dev < RIP_DEAD_ZONE
      then upd_st (\<lambda>s. s\<lparr>dead_zone := add32 (dead_zone s) 1\<rparr>) e
      else
        let step0 = s32 (dev div 64);
            step = (if step0 = 0 then (if dev > 0 then 1 else -1) else step0);
            adj0 = rip_quantum_adj (e_thr e) + step;
            (adj1, e1) = (if adj0 > RIPADJ_MAX
                          then (RIPADJ_MAX, upd_st (\<lambda>s. s\<lparr>sat_hi := add32 (sat_hi s) 1\<rparr>) e)
                          else (adj0, e));
            (adj2, e2) = (if adj1 < RIPADJ_MIN
                          then (RIPADJ_MIN, upd_st (\<lambda>s. s\<lparr>sat_lo := add32 (sat_lo s) 1\<rparr>) e1)
                          else (adj1, e1))
        in upd_thr (\<lambda>t. t\<lparr>rip_quantum_adj := adj2\<rparr>) e2)"

text \<open>What a full window does once the baseline exists.\<close>

definition rip_feedback :: "nat \<Rightarrow> rip_env \<Rightarrow> rip_env" where
  "rip_feedback obs_rate e =
     (let baseline = rip_base_self (e_thr e) in
      case rip_observe obs_rate baseline e of
        Return e1 \<Rightarrow> e1
      | Go (obs_mult, e1) \<Rightarrow>
          let dev = int obs_mult - int RIPRATE_ONE
          in rip_correct dev (rip_statistics dev (rip_control obs_mult (rip_baselines obs_rate baseline e1))))"

definition riprate_update ::
    "nat \<Rightarrow> bool \<Rightarrow> nat \<Rightarrow> nat \<Rightarrow> nat \<Rightarrow> nat \<Rightarrow> nat \<Rightarrow> rip_env \<Rightarrow> rip_env" where
  "riprate_update hook idle rip_now cs wall_ms cur_tsc now_ms e0 =
     (if idle then e0
      else
        case rip_tag rip_now cs cur_tsc now_ms (rip_defend e0) of
          Return e \<Rightarrow> e
        | Go e1 \<Rightarrow>
            let e2 = upd_thr (rip_age now_ms) e1;
                tsc_dt = sub64 cur_tsc (rip_last_tsc (e_thr e2));
                e3 = upd_thr (\<lambda>t. t\<lparr>rip_last_tsc := cur_tsc\<rparr>) e2
            in if wall_ms = 0 then e3
               else
                 let (elapsed, e4) = rip_elapsed hook wall_ms tsc_dt e3 in
                 case rip_accumulate rip_now wall_ms elapsed e4 of
                   Return e \<Rightarrow> e
                 | Go e5 \<Rightarrow>
                     let obs_rate = rip_acc_progress (e_thr e5) div rip_acc_ms (e_thr e5);
                         e6 = upd_thr (\<lambda>t. t\<lparr>rip_acc_progress := 0, rip_acc_ms := 0\<rparr>) e5
                     in if rip_base_self (e_thr e6) = 0
                        then upd_thr (\<lambda>t. t\<lparr>rip_base_self := obs_rate\<rparr>) e6
                        else rip_feedback obs_rate e6)"

end
