(* ===== verification/RIP_Correct.thy ===== *)
theory RIP_Correct
  imports RIP_Model
begin

text \<open>
  Correctness of the quantum layer and of the rate feedback: the ranges the control loop
  keeps, the absence of wrap-around in its fixed-point arithmetic, the bounds of the
  quantum it yields, and its convergence.
\<close>

section \<open>Invariant\<close>

definition mult_ok :: "nat \<Rightarrow> bool" where
  "mult_ok m \<longleftrightarrow> m = 0 \<or> (RIPRATE_MIN_MULT \<le> m \<and> m \<le> RIPRATE_MAX_MULT)"

definition rip_thread_ok :: "thread_t \<Rightarrow> bool" where
  "rip_thread_ok t \<longleftrightarrow>
     mult_ok (rip_mult_fast t) \<and> mult_ok (rip_mult_slow t)
     \<and> RIPADJ_MIN \<le> rip_quantum_adj t \<and> rip_quantum_adj t \<le> RIPADJ_MAX
     \<and> rip_outlier_streak t < RIP_OUTLIER_STREAK_MAX
     \<and> rip_acc_ms t < RIP_SAMPLE_PERIOD_MS \<and> rip_acc_progress t \<le> rip_acc_ms t * 2 ^ 44
     \<and> rip_base_self t \<le> 2 ^ 44"

definition rip_stats_ok :: "rip_stats_ctx \<Rightarrow> bool" where
  "rip_stats_ok s \<longleftrightarrow> dev_window s < 64 \<and> abs_dev_sum s \<le> dev_window s * 15360 \<and> mean_abs_dev s \<le> 15360"

definition rip_ok :: "rip_env \<Rightarrow> bool" where
  "rip_ok e \<longleftrightarrow> rip_thread_ok (e_thr e) \<and> rip_stats_ok (e_st e)
     \<and> fast_w e \<in> {0, RIP_FAST_W_OSC_Q10, RIP_FAST_W_NORM_Q10} \<and> rip_avg_rate (e_cpu e) \<le> 2 ^ 44"

lemmas rip_ok_defs = rip_ok_def rip_thread_ok_def rip_stats_ok_def
lemmas upd_defs = upd_thr_def upd_st_def

lemma mult_ok_or_one [simp]: "mult_ok m \<Longrightarrow> mult_ok (or_one m)"
  by (auto simp: mult_ok_def or_one_def)

lemma mult_ok_decay [simp]: "mult_ok m \<Longrightarrow> m \<noteq> 0 \<Longrightarrow> mult_ok (decay_mult m) \<and> decay_mult m \<noteq> 0"
  by (auto simp: mult_ok_def decay_mult_def)

lemma mult_ok_clamp [simp]: "mult_ok (clamp_mult m)"
  by (auto simp: mult_ok_def clamp_mult_def Let_def)

lemma mult_ok_one [simp]: "mult_ok RIPRATE_ONE"
  by (simp add: mult_ok_def)

lemma decay_adj_range: "-4 \<le> a \<Longrightarrow> a \<le> 4 \<Longrightarrow> -4 \<le> decay_adj a \<and> decay_adj a \<le> 4"
  by (auto simp: decay_adj_def)

lemma ewma_between: "min x obs \<le> ewma k obs x \<and> ewma k obs x \<le> max x obs"
proof -
  have "(obs - x) div 2 ^ k \<le> obs - x" and "(x - obs) div 2 ^ k \<le> x - obs" by (rule div_le_dividend)+
  then show ?thesis unfolding ewma_def min_def max_def by (auto simp del: div_le_dividend)
qed

lemma ewma_le: "x \<le> b \<Longrightarrow> obs \<le> b \<Longrightarrow> ewma k obs x \<le> b"
  using ewma_between [of x obs k] by (meson le_trans max.bounded_iff)

lemma rip_thread_ok_decay:
  "rip_thread_ok t \<and> rip_mult_fast t \<noteq> 0 \<and> rip_mult_slow t \<noteq> 0 \<Longrightarrow>
   rip_thread_ok (decay_step t) \<and> rip_mult_fast (decay_step t) \<noteq> 0 \<and> rip_mult_slow (decay_step t) \<noteq> 0"
  using decay_adj_range [of "rip_quantum_adj t"] by (simp add: decay_step_def rip_thread_ok_def)

lemma rip_thread_ok_decays:
  "rip_thread_ok t \<and> rip_mult_fast t \<noteq> 0 \<and> rip_mult_slow t \<noteq> 0 \<Longrightarrow>
   rip_thread_ok ((decay_step ^^ n) t) \<and> rip_mult_fast ((decay_step ^^ n) t) \<noteq> 0
   \<and> rip_mult_slow ((decay_step ^^ n) t) \<noteq> 0"
  by (induction n) (simp_all add: rip_thread_ok_decay del: neq0_conv)

section \<open>Preservation, piece by piece\<close>

lemma rip_ok_defend: "rip_ok e \<Longrightarrow> rip_ok (rip_defend e) \<and> rip_mult_fast (e_thr (rip_defend e)) \<noteq> 0
    \<and> rip_mult_slow (e_thr (rip_defend e)) \<noteq> 0"
  by (simp add: rip_defend_def upd_defs rip_ok_defs) (simp add: or_one_def)

lemma rip_ok_tag: "rip_ok e \<Longrightarrow> case rip_tag r cs c n e of Return e' \<Rightarrow> rip_ok e' | Go e' \<Rightarrow> e' = e"
  by (simp add: rip_tag_def upd_defs rip_ok_defs Let_def)

lemma rip_ok_age:
  assumes "rip_ok e" and "rip_mult_fast (e_thr e) \<noteq> 0" and "rip_mult_slow (e_thr e) \<noteq> 0"
  shows "rip_ok (upd_thr (rip_age now) e)"
proof -
  have "rip_thread_ok (rip_age now (e_thr e))"
  proof -
    have *: "rip_thread_ok (t\<lparr>rip_last_sample_ms := n\<rparr>) = rip_thread_ok t" for t n by (simp add: rip_thread_ok_def)
    have "rip_thread_ok (e_thr e)" using assms(1) by (simp add: rip_ok_def)
    moreover from this have "rip_thread_ok ((e_thr e)\<lparr>rip_mult_fast := RIPRATE_ONE, rip_mult_slow := RIPRATE_ONE,
        rip_quantum_adj := 0, rip_acc_progress := 0, rip_acc_ms := 0\<rparr>)" by (simp add: rip_thread_ok_def)
    moreover have "rip_thread_ok ((decay_step ^^ n) (e_thr e))" for n
      using rip_thread_ok_decays assms by (simp add: rip_ok_def del: neq0_conv)
    ultimately show ?thesis unfolding rip_age_def Let_def * by simp
  qed
  then show ?thesis using assms(1) by (simp add: rip_ok_def upd_thr_def)
qed

lemma rip_ok_elapsed: "rip_ok e \<Longrightarrow> rip_ok (snd (rip_elapsed h w d e))"
  by (simp add: rip_elapsed_def upd_defs rip_ok_defs Let_def)

lemma rip_ok_last_tsc: "rip_ok e \<Longrightarrow> rip_ok (upd_thr (\<lambda>t. t\<lparr>rip_last_tsc := c\<rparr>) e)"
  by (simp add: upd_defs rip_ok_defs)

text \<open>A full window: at most \<open>2 ^ 44\<close> per millisecond, over at least four milliseconds.\<close>

definition full_window :: "rip_env \<Rightarrow> bool" where
  "full_window e \<longleftrightarrow> rip_ok (upd_thr (\<lambda>t. t\<lparr>rip_acc_progress := 0, rip_acc_ms := 0\<rparr>) e)
     \<and> RIP_SAMPLE_PERIOD_MS \<le> rip_acc_ms (e_thr e) \<and> rip_acc_progress (e_thr e) \<le> rip_acc_ms (e_thr e) * 2 ^ 44"

lemma note_slice_frame [simp]:
  "rip_acc_ms (note_slice x t) = rip_acc_ms t" "rip_acc_progress (note_slice x t) = rip_acc_progress t"
  "rip_mult_fast (note_slice x t) = rip_mult_fast t" "rip_mult_slow (note_slice x t) = rip_mult_slow t"
  "rip_quantum_adj (note_slice x t) = rip_quantum_adj t" "rip_outlier_streak (note_slice x t) = rip_outlier_streak t"
  "rip_base_self (note_slice x t) = rip_base_self t"
  by (simp_all add: note_slice_def Let_def)

lemma rip_ok_accumulate:
  assumes ok: "rip_ok e" and w: "0 < wall" "wall + 4 < U64"
  shows "case rip_accumulate r wall el e of Return e' \<Rightarrow> rip_ok e' | Go e' \<Rightarrow> full_window e'"
proof -
  let ?p = "sub64 r (dispatch_rip (e_thr e))"
  have acc: "rip_acc_ms (e_thr e) < 4" "rip_acc_progress (e_thr e) \<le> rip_acc_ms (e_thr e) * 2 ^ 44"
    using ok by (simp_all add: rip_ok_defs)
  have ms: "add64 (rip_acc_ms (e_thr e)) wall = rip_acc_ms (e_thr e) + wall" using acc w by (intro add64_id) simp
  have pr: "add64 (rip_acc_progress (e_thr e)) ?p = rip_acc_progress (e_thr e) + ?p
      \<and> rip_acc_progress (e_thr e) + ?p \<le> (rip_acc_ms (e_thr e) + wall) * 2 ^ 44" if "?p \<le> 17592186044416"
  proof
    have "rip_acc_progress (e_thr e) \<le> 3 * 2 ^ 44" using acc by simp
    then show "add64 (rip_acc_progress (e_thr e)) ?p = rip_acc_progress (e_thr e) + ?p"
      using that by (intro add64_id) (simp add: U64_def)
    have "?p \<le> wall * 2 ^ 44" using that w(1) by simp
    then show "rip_acc_progress (e_thr e) + ?p \<le> (rip_acc_ms (e_thr e) + wall) * 2 ^ 44"
      using acc(2) by (simp add: algebra_simps)
  qed
  show ?thesis
  proof (cases "?p > 17592186044416 \<or> ?p = 0")
    case True
    then show ?thesis using ok by (auto simp: rip_accumulate_def upd_defs rip_ok_defs Let_def)
  next
    case False
    then show ?thesis using ok pr ms
      by (simp add: rip_accumulate_def Let_def full_window_def upd_defs rip_ok_defs)
  qed
qed

lemma rip_ok_observe:
  assumes "rip_ok e" and "obs \<le> 2 ^ 44"
  shows "case rip_observe obs b e of Return e' \<Rightarrow> rip_ok e' | Go (m, e') \<Rightarrow> rip_ok e' \<and> m \<le> RIPRATE_OUTLIER_MULT"
  using assms by (auto simp: rip_observe_def Let_def upd_defs rip_ok_defs)

lemma rip_ok_baselines: "rip_ok e \<Longrightarrow> obs \<le> 2 ^ 44 \<Longrightarrow> b \<le> 2 ^ 44 \<Longrightarrow> rip_ok (rip_baselines obs b e)"
  by (auto simp: rip_baselines_def Let_def upd_defs rip_ok_defs intro: ewma_le)

lemma rip_ok_control: "rip_ok e \<Longrightarrow> rip_ok (rip_control m e)"
  by (simp add: rip_control_def upd_defs rip_ok_defs)

lemma pick_weight_range: "w \<in> {0, 64, 256} \<Longrightarrow> pick_weight m w \<in> {0, 64, 256}"
  by (auto simp: pick_weight_def Let_def)

lemma rip_ok_statistics:
  assumes "rip_ok e" and dev: "\<bar>dev\<bar> \<le> 15360"
  shows "rip_ok (rip_statistics dev e)"
proof -
  let ?s = "e_st e"
  have s: "dev_window ?s < 64" "abs_dev_sum ?s \<le> dev_window ?s * 15360" using assms(1) by (simp_all add: rip_ok_defs)
  have d: "nat \<bar>dev\<bar> \<le> 15360" using dev by simp
  have n: "add32 (dev_window ?s) 1 = dev_window ?s + 1" using s(1) by (intro add32_id) (simp add: U32_def)
  have a: "add32 (abs_dev_sum ?s) (nat \<bar>dev\<bar> mod U32) = abs_dev_sum ?s + nat \<bar>dev\<bar>"
    using s d by (subst mod_less) (auto simp: U32_def intro!: add32_id)
  have le: "abs_dev_sum ?s + nat \<bar>dev\<bar> \<le> (dev_window ?s + 1) * 15360" using s d by simp
  have mean: "(abs_dev_sum ?s + nat \<bar>dev\<bar>) div 64 \<le> 15360"
  proof -
    have "(dev_window ?s + 1) * 15360 \<le> 64 * 15360" using s(1) by simp
    with le have "abs_dev_sum ?s + nat \<bar>dev\<bar> \<le> 64 * 15360" by (rule le_trans)
    from div_le_mono [OF this, of 64] show ?thesis by simp
  qed
  show ?thesis using assms(1) n a le mean pick_weight_range
    by (simp add: rip_statistics_def Let_def rip_ok_defs)
qed

lemma rip_ok_correct: "rip_ok e \<Longrightarrow> rip_ok (rip_correct dev e)"
  by (simp add: rip_correct_def Let_def upd_defs rip_ok_defs)

lemma rip_ok_feedback:
  assumes "rip_ok e" and "obs \<le> 2 ^ 44"
  shows "rip_ok (rip_feedback obs e)"
proof -
  have b: "rip_base_self (e_thr e) \<le> 2 ^ 44" using assms(1) by (simp add: rip_ok_defs)
  note o = rip_ok_observe [OF assms, of "rip_base_self (e_thr e)"]
  show ?thesis
  proof (cases "rip_observe obs (rip_base_self (e_thr e)) e")
    case (Return e')
    then show ?thesis using o by (simp add: rip_feedback_def)
  next
    case (Go p)
    moreover obtain m e' where "p = (m, e')" by (cases p)
    ultimately have go: "rip_observe obs (rip_base_self (e_thr e)) e = Go (m, e')" by simp
    then have "rip_ok e'" and m: "m \<le> 16384" using o by simp_all
    then have "rip_ok (rip_statistics (int m - int RIPRATE_ONE)
        (rip_control m (rip_baselines obs (rip_base_self (e_thr e)) e')))"
      using assms(2) b by (intro rip_ok_statistics rip_ok_control rip_ok_baselines) simp_all
    then show ?thesis using go rip_ok_correct by (simp add: rip_feedback_def Let_def)
  qed
qed

lemma full_window_rate: "full_window e \<Longrightarrow> rip_acc_progress (e_thr e) div rip_acc_ms (e_thr e) \<le> 2 ^ 44"
proof -
  assume w: "full_window e"
  then have "rip_acc_progress (e_thr e) div rip_acc_ms (e_thr e) \<le> rip_acc_ms (e_thr e) * 2 ^ 44 div rip_acc_ms (e_thr e)"
    unfolding full_window_def by (intro div_le_mono) simp
  also have "\<dots> = 2 ^ 44" using w by (simp add: full_window_def)
  finally show ?thesis .
qed

lemma rip_ok_update:
  assumes "rip_ok e0" and "wall + 4 < U64"
  shows "rip_ok (riprate_update hook idle r cs wall tsc now e0)"
proof -
  note d = rip_ok_defend [OF assms(1)]
  let ?e1 = "rip_defend e0"
  let ?e2 = "upd_thr (rip_age now) ?e1"
  let ?e3 = "upd_thr (\<lambda>t. t\<lparr>rip_last_tsc := tsc\<rparr>) ?e2"
  let ?dt = "sub64 tsc (rip_last_tsc (e_thr ?e2))"
  let ?e4 = "snd (rip_elapsed hook wall ?dt ?e3)"
  have e3: "rip_ok ?e3" using d by (intro rip_ok_last_tsc rip_ok_age) simp_all
  have e4: "rip_ok ?e4" by (rule rip_ok_elapsed [OF e3])
  show ?thesis
  proof (cases "idle \<or> (\<exists>e. rip_tag r cs tsc now ?e1 = Return e) \<or> wall = 0")
    case True
    then show ?thesis using rip_ok_tag [of ?e1 r cs tsc now] d e3 assms(1)
      by (cases "rip_tag r cs tsc now ?e1") (auto simp: riprate_update_def Let_def)
  next
    case False
    then have go: "rip_tag r cs tsc now ?e1 = Go ?e1" "wall \<noteq> 0" "\<not> idle"
      using rip_ok_tag [of ?e1 r cs tsc now] d by (cases "rip_tag r cs tsc now ?e1"; simp)+
    let ?el = "fst (rip_elapsed hook wall ?dt ?e3)"
    have acc: "case rip_accumulate r wall ?el ?e4 of Return e' \<Rightarrow> rip_ok e' | Go e' \<Rightarrow> full_window e'"
      using rip_ok_accumulate [OF e4] go(2) assms(2) by simp
    have upd: "riprate_update hook idle r cs wall tsc now e0 =
      (case rip_accumulate r wall ?el ?e4 of Return e \<Rightarrow> e
       | Go e5 \<Rightarrow> let obs = rip_acc_progress (e_thr e5) div rip_acc_ms (e_thr e5);
                     e6 = upd_thr (\<lambda>t. t\<lparr>rip_acc_progress := 0, rip_acc_ms := 0\<rparr>) e5
                 in if rip_base_self (e_thr e6) = 0 then upd_thr (\<lambda>t. t\<lparr>rip_base_self := obs\<rparr>) e6
                    else rip_feedback obs e6)"
      using go by (simp add: riprate_update_def Let_def split_beta)
    show ?thesis
    proof (cases "rip_accumulate r wall ?el ?e4")
      case (Return e)
      then show ?thesis using acc upd by simp
    next
      case (Go e5)
      let ?e6 = "upd_thr (\<lambda>t. t\<lparr>rip_acc_progress := 0, rip_acc_ms := 0\<rparr>) e5"
      let ?obs = "rip_acc_progress (e_thr e5) div rip_acc_ms (e_thr e5)"
      have w: "full_window e5" using acc Go by simp
      then have ok6: "rip_ok ?e6" and obs: "?obs \<le> 2 ^ 44" using full_window_rate by (simp_all add: full_window_def)
      have "rip_ok (upd_thr (\<lambda>t. t\<lparr>rip_base_self := ?obs\<rparr>) ?e6)" using ok6 obs by (simp add: rip_ok_defs upd_defs)
      then show ?thesis using rip_ok_feedback [OF ok6 obs] unfolding upd Go Let_def by simp
    qed
  qed
qed

section \<open>Quantum\<close>

lemma or_one_range: "mult_ok m \<Longrightarrow> RIPRATE_MIN_MULT \<le> or_one m \<and> or_one m \<le> RIPRATE_MAX_MULT"
  by (auto simp: mult_ok_def or_one_def)

lemma convex_combination:
  fixes a b w :: nat
  assumes "lo \<le> a" "a \<le> hi" "lo \<le> b" "b \<le> hi" "w \<le> 1024"
  shows "lo * 1024 \<le> a * w + b * (1024 - w) \<and> a * w + b * (1024 - w) \<le> hi * 1024"
proof -
  have w: "lo * w + lo * (1024 - w) = lo * 1024" "hi * w + hi * (1024 - w) = hi * 1024"
    using assms(5) by (simp_all flip: distrib_left)
  have "lo * w \<le> a * w" "lo * (1024 - w) \<le> b * (1024 - w)" "a * w \<le> hi * w" "b * (1024 - w) \<le> hi * (1024 - w)"
    using assms by simp_all
  then show ?thesis using w by linarith
qed

lemma fused_mult_range:
  assumes "rip_thread_ok t" and "w \<le> RIPRATE_ONE"
  shows "RIPRATE_MIN_MULT \<le> fused_mult w t \<and> fused_mult w t \<le> RIPRATE_MAX_MULT"
proof -
  let ?a = "or_one (rip_mult_fast t)" and ?b = "or_one (rip_mult_slow t)"
  have r: "256 \<le> ?a" "?a \<le> 2560" "256 \<le> ?b" "?b \<le> 2560"
    using assms(1) or_one_range by (simp_all add: rip_thread_ok_def)
  note c = convex_combination [OF r assms(2)]
  then have "?a * w < U64" "?b * (1024 - w) < U64" "?a * w + ?b * (1024 - w) < U64" by (simp_all add: U64_def)
  then have eq: "fused_mult w t = (?a * w + ?b * (1024 - w)) div 1024"
    by (simp add: fused_mult_def mul64_id add64_id)
  show ?thesis unfolding eq using c by (auto simp: less_eq_div_iff_mult_less_eq div_le_mono [of _ "2560 * 1024" 1024, simplified])
qed

lemma get_dynamic_quantum_range:
  assumes "0 < base_quantum c" and "base_quantum c \<le> 15"
  shows "1 \<le> fst (get_dynamic_quantum c thr w s)
    \<and> fst (get_dynamic_quantum c thr w s) \<le> (case thr of None \<Rightarrow> base_quantum c
         | Some t \<Rightarrow> max (8 * base_quantum c) (custom_quantum t))"
proof -
  have "mul64 (base_quantum c) 8 = 8 * base_quantum c" using assms by (subst mul64_id) (simp_all add: U64_def)
  then show ?thesis using assms by (cases thr) (auto simp: get_dynamic_quantum_def Let_def)
qed

section \<open>Ageing and convergence\<close>

lemma decay_mult_towards: "(1024 \<le> m \<longrightarrow> 1024 \<le> decay_mult m \<and> decay_mult m \<le> m) \<and>
    (m \<le> 1024 \<longrightarrow> m \<le> decay_mult m \<and> decay_mult m \<le> 1024)"
  by (auto simp: decay_mult_def)

definition towards_one :: "nat \<Rightarrow> nat \<Rightarrow> bool" where
  "towards_one m m' \<longleftrightarrow> (RIPRATE_ONE \<le> m \<longrightarrow> RIPRATE_ONE \<le> m' \<and> m' \<le> m) \<and> (m \<le> RIPRATE_ONE \<longrightarrow> m \<le> m' \<and> m' \<le> RIPRATE_ONE)"

lemma decay_fields:
  "rip_mult_fast ((decay_step ^^ n) t) = (decay_mult ^^ n) (rip_mult_fast t)"
  "rip_mult_slow ((decay_step ^^ n) t) = (decay_mult ^^ n) (rip_mult_slow t)"
  "rip_quantum_adj ((decay_step ^^ n) t) = (decay_adj ^^ n) (rip_quantum_adj t)"
  by (induction n) (simp_all add: decay_step_def)

lemma decay_adj_dist: "\<bar>a\<bar> \<le> 4 \<Longrightarrow> \<bar>decay_adj a\<bar> = (if a = 0 then 0 else \<bar>a\<bar> - 1)"
  by (auto simp: decay_adj_def)

lemma decay_adj_zero: "\<bar>a\<bar> \<le> 4 \<Longrightarrow> \<bar>a\<bar> \<le> int n \<Longrightarrow> (decay_adj ^^ n) a = 0"
proof (induction n arbitrary: a)
  case (Suc n)
  have "(decay_adj ^^ n) (decay_adj a) = 0"
    using Suc.prems decay_adj_dist [of a] by (intro Suc.IH) auto
  then show ?case by (simp add: funpow_swap1)
qed simp

lemma decay_mult_towards_n: "(1024 \<le> m \<longrightarrow> 1024 \<le> (decay_mult ^^ n) m \<and> (decay_mult ^^ n) m \<le> m) \<and>
    (m \<le> 1024 \<longrightarrow> m \<le> (decay_mult ^^ n) m \<and> (decay_mult ^^ n) m \<le> 1024)"
proof (induction n)
  case (Suc n)
  then show ?case using decay_mult_towards [of "(decay_mult ^^ n) m"] by auto
qed simp

text \<open>Distance from the target under a moving average: \<open>d\<close> becomes \<open>d - d div 2 ^ k\<close>.\<close>

definition shrink :: "nat \<Rightarrow> nat \<Rightarrow> nat" where
  "shrink k d = d - d div 2 ^ k"

definition dist1 :: "nat \<Rightarrow> nat" where
  "dist1 m = (if 1024 \<le> m then m - 1024 else 1024 - m)"

lemma div_step: "(d + 1) div p \<le> d div p + (1 :: nat)"
  by (metis Suc_eq_plus1 div_Suc eq_refl le_add1)

lemma shrink_Suc: "shrink k d \<le> shrink k (Suc d)"
proof -
  have "d div 2 ^ k \<le> d" by (rule div_le_dividend)
  then show ?thesis using div_step [of d "2 ^ k"] unfolding shrink_def by (simp add: le_diff_conv)
qed

lemma shrink_mono: "a \<le> b \<Longrightarrow> shrink k a \<le> shrink k b"
  by (rule lift_Suc_mono_le [of "shrink k"]) (rule shrink_Suc)

lemma shrink_le: "shrink k a \<le> a"
  by (simp add: shrink_def)

lemma shrink_pow_mono: "a \<le> b \<Longrightarrow> (shrink k ^^ n) a \<le> (shrink k ^^ n) b"
  by (induction n) (auto intro: shrink_mono)

lemma shrink_pow_later: "(shrink k ^^ (n + j)) a \<le> (shrink k ^^ n) a"
  by (induction j) (auto intro: order_trans [OF shrink_le])

lemma funpow_fold: "(f ^^ n) x = fold (\<lambda>_. f) [0..<n] x"
  by (induction n) simp_all

lemma shrink_fast_90: "(shrink 2 ^^ 90) 1536 < 4"
  unfolding funpow_fold by (simp add: upt_rec shrink_def)

lemma shrink_slow_90: "(shrink 4 ^^ 90) 1536 < 16"
  unfolding funpow_fold by (simp add: upt_rec shrink_def)

lemma clamped_ewma_dist:
  assumes "mult_ok m" and "m \<noteq> 0"
  shows "dist1 (clamp_mult (ewma k 1024 m)) = shrink k (dist1 m) \<and> mult_ok (clamp_mult (ewma k 1024 m))
    \<and> clamp_mult (ewma k 1024 m) \<noteq> 0"
proof -
  have r: "256 \<le> m" "m \<le> 2560" using assms by (auto simp: mult_ok_def)
  have b: "(1024 - m) div 2 ^ k \<le> 1024 - m" "(m - 1024) div 2 ^ k \<le> m - 1024" by (rule div_le_dividend)+
  have "clamp_mult (ewma k 1024 m) = ewma k 1024 m"
    using ewma_between [of m 1024 k] r by (auto simp: clamp_mult_def Let_def)
  moreover have "dist1 (ewma k 1024 m) = shrink k (dist1 m)"
  proof -
    define d d' where "d = (1024 - m) div 2 ^ k" and "d' = (m - 1024) div 2 ^ k"
    have "d \<le> 1024 - m" "d' \<le> m - 1024" unfolding d_def d'_def by (rule div_le_dividend)+
    then show ?thesis
      unfolding dist1_def ewma_def shrink_def d_def [symmetric] d'_def [symmetric]
      by (cases "m = 1024") (auto simp flip: d_def d'_def split: if_splits)
  qed
  moreover have "clamp_mult x \<noteq> 0" for x by (simp add: clamp_mult_def Let_def)
  ultimately show ?thesis using mult_ok_clamp by metis
qed

lemma steady_dist:
  assumes "mult_ok (rip_mult_fast (e_thr e))" "rip_mult_fast (e_thr e) \<noteq> 0"
    and "mult_ok (rip_mult_slow (e_thr e))" "rip_mult_slow (e_thr e) \<noteq> 0"
  shows "let t = e_thr ((rip_control 1024 ^^ n) e) in
    mult_ok (rip_mult_fast t) \<and> rip_mult_fast t \<noteq> 0 \<and> mult_ok (rip_mult_slow t) \<and> rip_mult_slow t \<noteq> 0
    \<and> dist1 (rip_mult_fast t) = (shrink 2 ^^ n) (dist1 (rip_mult_fast (e_thr e)))
    \<and> dist1 (rip_mult_slow t) = (shrink 4 ^^ n) (dist1 (rip_mult_slow (e_thr e)))"
proof (induction n)
  case 0
  then show ?case using assms by simp
next
  case (Suc n)
  then show ?case by (simp add: rip_control_def upd_thr_def Let_def clamped_ewma_dist del: neq0_conv)
qed

lemma shrink_bound:
  assumes "(shrink k ^^ n) 1536 < b" and "d \<le> 1536" and "n \<le> n'"
  shows "(shrink k ^^ n') d < b"
proof -
  obtain j where "n' = n + j" using assms(3) le_Suc_ex by blast
  then show ?thesis using shrink_pow_later [of n j k d] shrink_pow_mono [OF assms(2), of n k] assms(1) by simp
qed

lemma dist1_le: "mult_ok m \<Longrightarrow> m \<noteq> 0 \<Longrightarrow> dist1 m \<le> 1536"
  by (auto simp: mult_ok_def dist1_def)

definition towards5 :: "nat \<Rightarrow> nat" where
  "towards5 q = (if q > 5 then q - 1 else if q < 5 then q + 1 else q)"

lemma towards5_pow: "(towards5 ^^ n) q = (if q > 5 then max 5 (q - n) else min 5 (q + n))"
  by (induction n) (auto simp: towards5_def)

lemma step_base_reaches:
  assumes "2 \<le> q" "q \<le> 15" and "r \<le> 50" "10 \<le> r \<or> c \<le> 500"
  shows "(step_base r c ^^ 10) q = 5 \<and> step_base r c 5 = 5"
proof -
  have "step_base r c = towards5" using assms(3,4) by (auto simp: step_base_def towards5_def fun_eq_iff)
  then show ?thesis using assms(1,2) by (simp add: towards5_pow) (simp add: towards5_def)
qed

section \<open>A concrete thread\<close>

text \<open>A thread on its second window, running at twice the rate of its baseline.\<close>

definition warm_thread :: thread_t where
  "warm_thread = (new_thread 1024)\<lparr>rip_base_self := 1000, rip_signal_tag := 4096, dispatch_rip := 50000,
      rip_last_sample_ms := 100, rip_last_tsc := 7\<rparr>"

definition warm_env :: rip_env where
  "warm_env = \<lparr>e_thr = warm_thread, e_cpu = new_cpu, e_st = new_stats, fast_w = 256, tsc_per_ms_cache = -1\<rparr>"

lemmas concrete_defs = new_thread_def new_cpu_def new_stats_def warm_thread_def warm_env_def

lemma warm_ok: "rip_ok warm_env"
  by (simp add: rip_ok_defs mult_ok_def concrete_defs)

section \<open>Properties\<close>

text \<open>
  C28. The feedback loop keeps its ranges: after any sample, whatever the instruction
  pointer, the clocks and the calibration hook say, both multipliers are unset or within
  0.25x and 2.5x, the correction is within -4 and 4, the accumulators describe an
  unfinished window, the baseline stays below \<open>2 ^ 44\<close>, the statistics have not wrapped
  and the fusion weight is one of its settings.
\<close>

theorem riprate_update_keeps_ranges:
  assumes "rip_ok e" and "wall_ms + 4 < U64"
  shows "rip_ok (riprate_update hook idle rip_now cs wall_ms cur_tsc now_ms e)"
  using assms by (rule rip_ok_update)

theorem riprate_update_keeps_ranges_witness:
  "rip_ok warm_env \<and> rip_ok (riprate_update 0 False 62000 0 6 900 106 warm_env)"
  using riprate_update_keeps_ranges [OF warm_ok, of 6] warm_ok by (simp add: U64_def)

text \<open>
  C33. The quantum: with a base quantum in its range, a thread gets at least one
  millisecond and at most the larger of eight base quanta and its custom quantum, and
  the fused multiplier is a convex combination that stays between 0.25x and 2.5x for
  every usable fusion weight, with no wrap-around on the way.
\<close>

theorem quantum_bounds:
  assumes "rip_thread_ok t" and "0 < base_quantum c" and "base_quantum c \<le> 15"
  shows "1 \<le> fst (get_dynamic_quantum c (Some t) w s)
    \<and> fst (get_dynamic_quantum c (Some t) w s) \<le> max (8 * base_quantum c) (custom_quantum t)
    \<and> (\<forall>fw \<le> RIPRATE_ONE. RIPRATE_MIN_MULT \<le> fused_mult fw t \<and> fused_mult fw t \<le> RIPRATE_MAX_MULT)"
  using get_dynamic_quantum_range [OF assms(2,3), of "Some t" w s] fused_mult_range [OF assms(1)] by simp

theorem quantum_bounds_witness:
  "rip_thread_ok warm_thread \<and> 1 \<le> fst (get_dynamic_quantum new_cpu (Some warm_thread) 256 new_stats)
    \<and> fst (get_dynamic_quantum new_cpu (Some warm_thread) 256 new_stats) \<le> 40"
proof -
  have "rip_thread_ok warm_thread" using warm_ok by (simp add: rip_ok_def warm_env_def)
  from quantum_bounds [OF this, of new_cpu 256 new_stats] this show ?thesis by (simp add: concrete_defs)
qed

text \<open>
  C34. The eligibility cap: a thread that is behind the virtual clock is given no more
  real time than its lag is worth at its weight, unless that is less than the minimum of
  one millisecond; a thread that is not behind gets exactly that minimum. The cap
  never lengthens a quantum above the minimum.
\<close>

theorem eligibility_budget:
  assumes "0 < base_quantum c" and "base_quantum c \<le> 15"
    and "(avg_vruntime c - vruntime t) * (if t_weight t \<noteq> 0 then t_weight t else 1024) < U64"
  shows "let q = fst (eligibility_capped_quantum c t idle w s);
             q0 = fst (get_dynamic_quantum c (if idle then None else Some t) w s)
         in 1 \<le> q \<and> q \<le> q0
            \<and> (q = 1 \<or> q * 1024 \<le> (avg_vruntime c - vruntime t) * (if t_weight t \<noteq> 0 then t_weight t else 1024))
            \<and> (avg_vruntime c \<le> vruntime t \<longrightarrow> q = 1)"
proof -
  define w' where "w' = (if t_weight t \<noteq> 0 then t_weight t else 1024)"
  define r where "r = get_dynamic_quantum c (if idle then None else Some t) w s"
  define b where "b = (avg_vruntime c - vruntime t) * w' div 1024"
  have m: "mul64 (avg_vruntime c - vruntime t) w' div 1024 = b"
    using assms(3) by (simp add: mul64_id w'_def b_def)
  have q0: "1 \<le> fst r" using get_dynamic_quantum_range [OF assms(1,2)] unfolding r_def by blast
  have bd: "b * 1024 \<le> (avg_vruntime c - vruntime t) * w'" unfolding b_def by (rule div_times_less_eq_dividend)
  have q: "fst (eligibility_capped_quantum c t idle w s) =
      (if avg_vruntime c > vruntime t then (if b < fst r then (if b \<noteq> 0 then b else 1) else fst r) else 1)"
    unfolding eligibility_capped_quantum_def w'_def [symmetric] r_def [symmetric] by (simp add: Let_def m split_beta)
  have mono: "fst r \<le> b \<Longrightarrow> fst r * 1024 \<le> (avg_vruntime c - vruntime t) * w'" using bd by linarith
  show ?thesis unfolding Let_def q w'_def [symmetric] r_def [symmetric] using q0 bd mono by auto
qed

theorem eligibility_budget_witness:
  "let q = fst (eligibility_capped_quantum (new_cpu\<lparr>avg_vruntime := 3\<rparr>) warm_thread False 256 new_stats)
   in 1 \<le> q \<and> (q = 1 \<or> q * 1024 \<le> 3 * 1024)"
  using eligibility_budget [of "new_cpu\<lparr>avg_vruntime := 3\<rparr>" warm_thread False 256 new_stats]
  by (simp add: concrete_defs Let_def U64_def)

text \<open>
  Stale feedback fades: when a thread is sampled again after \<open>gap\<close> milliseconds, its
  correction is gone after 200 milliseconds, its multipliers have moved towards 1.0 and
  never across it, and after 850 milliseconds they are exactly 1.0.
\<close>

theorem stale_feedback_fades:
  assumes "rip_thread_ok t" and "0 < rip_last_sample_ms t"
  shows "let t' = rip_age (rip_last_sample_ms t + gap) t in
     (200 \<le> gap \<longrightarrow> rip_quantum_adj t' = 0)
     \<and> (850 \<le> gap \<longrightarrow> rip_mult_fast t' = RIPRATE_ONE \<and> rip_mult_slow t' = RIPRATE_ONE)
     \<and> towards_one (rip_mult_fast t) (rip_mult_fast t') \<and> towards_one (rip_mult_slow t) (rip_mult_slow t')"
proof -
  define n where "n = gap div 50"
  have steps: "sub64 (rip_last_sample_ms t + gap) (rip_last_sample_ms t) div 50 = n"
    by (simp add: sub64_def n_def)
  have adj: "\<bar>rip_quantum_adj t\<bar> \<le> 4" using assms(1) by (simp add: rip_thread_ok_def abs_le_iff)
  have n4: "200 \<le> gap \<Longrightarrow> 4 \<le> n" and n17: "850 \<le> gap \<Longrightarrow> 16 < n" by (simp_all add: n_def)
  have zero: "4 \<le> n \<Longrightarrow> (decay_adj ^^ n) (rip_quantum_adj t) = 0" using adj by (intro decay_adj_zero) simp_all
  have age: "rip_age (rip_last_sample_ms t + gap) t =
    (if n > 16 then t\<lparr>rip_mult_fast := RIPRATE_ONE, rip_mult_slow := RIPRATE_ONE, rip_quantum_adj := 0,
        rip_acc_progress := 0, rip_acc_ms := 0\<rparr> else (decay_step ^^ n) t)\<lparr>rip_last_sample_ms := rip_last_sample_ms t + gap\<rparr>"
    using assms(2) unfolding rip_age_def Let_def steps by simp
  show ?thesis
    unfolding Let_def age using n4 n17 zero decay_mult_towards_n by (auto simp: decay_fields towards_one_def)
qed

theorem stale_feedback_fades_witness:
  "rip_quantum_adj (rip_age 400 (warm_thread\<lparr>rip_quantum_adj := 3, rip_mult_fast := 2000\<rparr>)) = 0
   \<and> towards_one 2000 (rip_mult_fast (rip_age 400 (warm_thread\<lparr>rip_quantum_adj := 3, rip_mult_fast := 2000\<rparr>)))"
  using stale_feedback_fades [of "warm_thread\<lparr>rip_quantum_adj := 3, rip_mult_fast := 2000\<rparr>" 300]
  by (simp add: concrete_defs Let_def rip_thread_ok_def mult_ok_def)



text \<open>
  The base quantum is always within 2 and 15 after an adjustment, for any counters and
  clocks, wrapped or not, and changes by at most one per adjustment window.
\<close>

theorem dynamic_adjust_quantum_range:
  "let c' = fst (dynamic_adjust_quantum idle now_ms cur_tsc (c, dc)) in
     2 \<le> base_quantum c' \<and> base_quantum c' \<le> 15
     \<and> base_quantum c' \<le> clamp_base (base_quantum c) + 1 \<and> clamp_base (base_quantum c) \<le> base_quantum c' + 1"
proof -
  have cl: "2 \<le> clamp_base q \<and> clamp_base q \<le> 15" for q by (simp add: clamp_base_def Let_def)
  have st: "2 \<le> step_base r x q \<and> step_base r x q \<le> 15 \<and> step_base r x q \<le> q + 1 \<and> q \<le> step_base r x q + 1"
    if "2 \<le> q" "q \<le> 15" for r x q using that by (auto simp: step_base_def)
  show ?thesis using cl st by (simp add: dynamic_adjust_quantum_def Let_def)
qed

text \<open>
  C36. The custom quantum is not a ceiling, against what the description of
  \<open>get_dynamic_quantum\<close> says: a thread with a custom quantum of 5 on a CPU with base quantum
  5 and multipliers at 2.5x, all within the ranges of the feedback loop, is given 12.
\<close>

theorem custom_quantum_exceeded:
  "let t = warm_thread\<lparr>custom_quantum := 5, rip_mult_fast := 2560, rip_mult_slow := 2560\<rparr>
   in rip_thread_ok t \<and> fst (get_dynamic_quantum new_cpu (Some t) 256 new_stats) = 12"
proof -
  define t where "t = warm_thread\<lparr>custom_quantum := 5, rip_mult_fast := 2560, rip_mult_slow := 2560\<rparr>"
  have f: "custom_quantum t = 5" "rip_mult_fast t = 2560" "rip_mult_slow t = 2560" "rip_quantum_adj t = 0"
    "base_quantum new_cpu = 5" by (simp_all add: t_def warm_thread_def new_thread_def new_cpu_def)
  have fused: "fused_mult 256 t = 2560" by (simp add: fused_mult_def or_one_def f mul64_def add64_def U64_def)
  have base: "quantum_base new_cpu t = 5" by (simp add: quantum_base_def f)
  have mul: "mul64 5 2560 = 12800" "mul64 5 8 = 40" by (simp_all add: mul64_def U64_def)
  have "fst (get_dynamic_quantum new_cpu (Some t) 256 new_stats) = 12"
    by (simp add: get_dynamic_quantum_def Let_def fused base mul f apply_adj_def)
  moreover have "rip_thread_ok t"
    by (simp add: rip_thread_ok_def mult_ok_def f) (simp add: t_def warm_thread_def new_thread_def)
  ultimately show ?thesis by (simp add: Let_def t_def)
qed

end
