(* ===== verification/CRT_Model.thy ===== *)
theory CRT_Model
  imports Prelude
begin

text \<open>
  The integer runtime the kernel links (\<open>kernel/cc-runtime/src/cc-runtime.c\<close>): arithmetic that
  traps on overflow, shifts, products and comparisons of a double word through its two
  halves, byte order, counting of bits, and division.
  Both signednesses of a width are one word type, read with \<open>uint\<close> or \<open>sint\<close>; \<open>None\<close> is
  \<open>compilerrt_abort\<close>. Routines the source instantiates by macros for several widths are
  polymorphic here.
\<close>

section \<open>Double words\<close>

text \<open>The unions \<open>dwords\<close>, \<open>udwords\<close>, \<open>twords\<close> and \<open>utwords\<close>, on a little-endian machine.\<close>

definition s_low :: "'w::len word \<Rightarrow> 'h::len word" where
  "s_low x = ucast x"

definition s_high :: "'w::len word \<Rightarrow> 'h::len word" where
  "s_high x = ucast (drop_bit LENGTH('h) x)"

definition s_all :: "'h::len word \<Rightarrow> 'h word \<Rightarrow> 'w::len word" where
  "s_all low high = ucast low OR push_bit LENGTH('h) (ucast high)"

text \<open>\<open>a >> (N - 1)\<close> on a signed number: all ones when it is negative.\<close>

definition sign_of :: "'a::len word \<Rightarrow> 'a word" where
  "sign_of a = signed_drop_bit (LENGTH('a) - 1) a"

definition MIN_of :: "'a::len word" where
  "MIN_of = push_bit (LENGTH('a) - 1) 1"

definition MAX_of :: "'a::len word" where
  "MAX_of = NOT MIN_of"

section \<open>Arithmetic that traps\<close>

definition absvsi2 :: "32 word \<Rightarrow> 32 word option" where
  "absvsi2 a = (if a = MIN_of then None else let t = sign_of a in Some ((a XOR t) - t))"

definition absvdi2 :: "64 word \<Rightarrow> 64 word option" where
  "absvdi2 a = (if a = MIN_of then None else let t = sign_of a in Some ((a XOR t) - t))"

definition absvti2 :: "128 word \<Rightarrow> 128 word option" where
  "absvti2 a = (if a = MIN_of then None else let t = sign_of a in Some ((a XOR t) - t))"

definition addvsi3 :: "32 word \<Rightarrow> 32 word \<Rightarrow> 32 word option" where
  "addvsi3 a b =
     (let s = a + b in
      if 0 \<le>s b then (if s <s a then None else Some s)
      else (if a \<le>s s then None else Some s))"

definition addvdi3 :: "64 word \<Rightarrow> 64 word \<Rightarrow> 64 word option" where
  "addvdi3 a b =
     (let s = a + b in
      if 0 \<le>s b then (if s <s a then None else Some s)
      else (if a \<le>s s then None else Some s))"

definition addvti3 :: "128 word \<Rightarrow> 128 word \<Rightarrow> 128 word option" where
  "addvti3 a b =
     (let s = a + b in
      if 0 \<le>s b then (if s <s a then None else Some s)
      else (if a \<le>s s then None else Some s))"

definition subvsi3 :: "32 word \<Rightarrow> 32 word \<Rightarrow> 32 word option" where
  "subvsi3 a b =
     (let s = a - b in
      if 0 \<le>s b then (if a <s s then None else Some s)
      else (if s \<le>s a then None else Some s))"

definition subvdi3 :: "64 word \<Rightarrow> 64 word \<Rightarrow> 64 word option" where
  "subvdi3 a b =
     (let s = a - b in
      if 0 \<le>s b then (if a <s s then None else Some s)
      else (if s \<le>s a then None else Some s))"

definition subvti3 :: "128 word \<Rightarrow> 128 word \<Rightarrow> 128 word option" where
  "subvti3 a b =
     (let s = a - b in
      if 0 \<le>s b then (if a <s s then None else Some s)
      else (if s \<le>s a then None else Some s))"

definition negdi2 :: "64 word \<Rightarrow> 64 word" where
  "negdi2 a = - a"

definition negti2 :: "128 word \<Rightarrow> 128 word" where
  "negti2 a = - a"

definition negvsi2 :: "32 word \<Rightarrow> 32 word option" where
  "negvsi2 a = (if a = MIN_of then None else Some (- a))"

definition negvdi2 :: "64 word \<Rightarrow> 64 word option" where
  "negvdi2 a = (if a = MIN_of then None else Some (- a))"

definition negvti2 :: "128 word \<Rightarrow> 128 word option" where
  "negvti2 a = (if a = MIN_of then None else Some (- a))"

text \<open>
  Products. \<open>/\<close> on signed numbers truncates; here it is only applied to numbers of one
  sign each, as integers. \<open>mulvXi3\<close> traps, \<open>muloXi4\<close> returns the wrapped product and a flag.
\<close>

definition trunc_div :: "int \<Rightarrow> int \<Rightarrow> int" where
  "trunc_div a b = sgn a * sgn b * (\<bar>a\<bar> div \<bar>b\<bar>)"

definition muloXi4 :: "'a::len word \<Rightarrow> 'a word \<Rightarrow> 'a word \<times> bool" where
  "muloXi4 a b =
     (let result = a * b in
      if a = MIN_of then (result, b \<noteq> 0 \<and> b \<noteq> 1)
      else if b = MIN_of then (result, a \<noteq> 0 \<and> a \<noteq> 1)
      else
        let sa = sign_of a; abs_a = (a XOR sa) - sa;
            sb = sign_of b; abs_b = (b XOR sb) - sb
        in if abs_a <s 2 \<or> abs_b <s 2 then (result, False)
           else if sa = sb then (result, sint abs_a > trunc_div (sint (MAX_of :: 'a word)) (sint abs_b))
           else (result, sint abs_a > trunc_div (sint (MIN_of :: 'a word)) (sint (- abs_b))))"

definition mulvXi3 :: "'a::len word \<Rightarrow> 'a word \<Rightarrow> 'a word option" where
  "mulvXi3 a b =
     (if a = MIN_of then (if b = 0 \<or> b = 1 then Some (a * b) else None)
      else if b = MIN_of then (if a = 0 \<or> a = 1 then Some (a * b) else None)
      else
        let sa = sign_of a; abs_a = (a XOR sa) - sa;
            sb = sign_of b; abs_b = (b XOR sb) - sb
        in if abs_a <s 2 \<or> abs_b <s 2 then Some (a * b)
           else if sa = sb then (if sint abs_a > trunc_div (sint (MAX_of :: 'a word)) (sint abs_b) then None else Some (a * b))
           else (if sint abs_a > trunc_div (sint (MIN_of :: 'a word)) (sint (- abs_b)) then None else Some (a * b)))"

definition mulosi4 :: "32 word \<Rightarrow> 32 word \<Rightarrow> 32 word \<times> bool" where "mulosi4 a b = muloXi4 a b"
definition mulodi4 :: "64 word \<Rightarrow> 64 word \<Rightarrow> 64 word \<times> bool" where "mulodi4 a b = muloXi4 a b"
definition muloti4 :: "128 word \<Rightarrow> 128 word \<Rightarrow> 128 word \<times> bool" where "muloti4 a b = muloXi4 a b"
definition mulvsi3 :: "32 word \<Rightarrow> 32 word \<Rightarrow> 32 word option" where "mulvsi3 a b = mulvXi3 a b"
definition mulvdi3 :: "64 word \<Rightarrow> 64 word \<Rightarrow> 64 word option" where "mulvdi3 a b = mulvXi3 a b"
definition mulvti3 :: "128 word \<Rightarrow> 128 word \<Rightarrow> 128 word option" where "mulvti3 a b = mulvXi3 a b"

section \<open>Shifts through the halves\<close>

definition ashldi3 :: "64 word \<Rightarrow> nat \<Rightarrow> 64 word" where
  "ashldi3 a b =
     (let low = s_low a :: 32 word; high = s_high a :: 32 word in
      if b AND 32 \<noteq> 0 then s_all 0 (push_bit (b - 32) low)
      else if b = 0 then a
      else s_all (push_bit b low) (push_bit b high OR drop_bit (32 - b) low))"

definition ashlti3 :: "128 word \<Rightarrow> nat \<Rightarrow> 128 word" where
  "ashlti3 a b =
     (let low = s_low a :: 64 word; high = s_high a :: 64 word in
      if b AND 64 \<noteq> 0 then s_all 0 (push_bit (b - 64) low)
      else if b = 0 then a
      else s_all (push_bit b low) (push_bit b high OR drop_bit (64 - b) low))"

definition ashrdi3 :: "64 word \<Rightarrow> nat \<Rightarrow> 64 word" where
  "ashrdi3 a b =
     (let low = s_low a :: 32 word; high = s_high a :: 32 word in
      if b AND 32 \<noteq> 0 then s_all (signed_drop_bit (b - 32) high) (signed_drop_bit (32 - 1) high)
      else if b = 0 then a
      else s_all (push_bit (32 - b) high OR drop_bit b low) (signed_drop_bit b high))"

definition ashrti3 :: "128 word \<Rightarrow> nat \<Rightarrow> 128 word" where
  "ashrti3 a b =
     (let low = s_low a :: 64 word; high = s_high a :: 64 word in
      if b AND 64 \<noteq> 0 then s_all (signed_drop_bit (b - 64) high) (signed_drop_bit (64 - 1) high)
      else if b = 0 then a
      else s_all (push_bit (64 - b) high OR drop_bit b low) (signed_drop_bit b high))"

definition lshrdi3 :: "64 word \<Rightarrow> nat \<Rightarrow> 64 word" where
  "lshrdi3 a b =
     (let low = s_low a :: 32 word; high = s_high a :: 32 word in
      if b AND 32 \<noteq> 0 then s_all (drop_bit (b - 32) high) 0
      else if b = 0 then a
      else s_all (push_bit (32 - b) high OR drop_bit b low) (drop_bit b high))"

definition lshrti3 :: "128 word \<Rightarrow> nat \<Rightarrow> 128 word" where
  "lshrti3 a b =
     (let low = s_low a :: 64 word; high = s_high a :: 64 word in
      if b AND 64 \<noteq> 0 then s_all (drop_bit (b - 64) high) 0
      else if b = 0 then a
      else s_all (push_bit (64 - b) high OR drop_bit b low) (drop_bit b high))"

section \<open>Products through the halves\<close>

definition muldsi3 :: "32 word \<Rightarrow> 32 word \<Rightarrow> 64 word" where
  "muldsi3 a b =
     (let lower_mask = drop_bit 16 (NOT 0) :: 32 word;
          low0 = (a AND lower_mask) * (b AND lower_mask);
          t0 = drop_bit 16 low0;
          low1 = low0 AND lower_mask;
          t1 = t0 + drop_bit 16 a * (b AND lower_mask);
          low2 = low1 + push_bit 16 (t1 AND lower_mask);
          high2 = drop_bit 16 t1;
          t2 = drop_bit 16 low2;
          low3 = low2 AND lower_mask;
          t3 = t2 + drop_bit 16 b * (a AND lower_mask);
          low4 = low3 + push_bit 16 (t3 AND lower_mask);
          high4 = high2 + drop_bit 16 t3
      in s_all low4 (high4 + drop_bit 16 a * drop_bit 16 b))"

definition muldi3 :: "64 word \<Rightarrow> 64 word \<Rightarrow> 64 word" where
  "muldi3 a b =
     (let x_low = s_low a :: 32 word; x_high = s_high a :: 32 word;
          y_low = s_low b :: 32 word; y_high = s_high b :: 32 word;
          r = muldsi3 x_low y_low
      in s_all (s_low r) (s_high r + (x_high * y_low + x_low * y_high)))"

definition mulddi3 :: "64 word \<Rightarrow> 64 word \<Rightarrow> 128 word" where
  "mulddi3 a b =
     (let lower_mask = drop_bit 32 (NOT 0) :: 64 word;
          low0 = (a AND lower_mask) * (b AND lower_mask);
          t0 = drop_bit 32 low0;
          low1 = low0 AND lower_mask;
          t1 = t0 + drop_bit 32 a * (b AND lower_mask);
          low2 = low1 + push_bit 32 (t1 AND lower_mask);
          high2 = drop_bit 32 t1;
          t2 = drop_bit 32 low2;
          low3 = low2 AND lower_mask;
          t3 = t2 + drop_bit 32 b * (a AND lower_mask);
          low4 = low3 + push_bit 32 (t3 AND lower_mask);
          high4 = high2 + drop_bit 32 t3
      in s_all low4 (high4 + drop_bit 32 a * drop_bit 32 b))"

definition multi3 :: "128 word \<Rightarrow> 128 word \<Rightarrow> 128 word" where
  "multi3 a b =
     (let x_low = s_low a :: 64 word; x_high = s_high a :: 64 word;
          y_low = s_low b :: 64 word; y_high = s_high b :: 64 word;
          r = mulddi3 x_low y_low
      in s_all (s_low r) (s_high r + (x_high * y_low + x_low * y_high)))"

section \<open>Comparison through the halves\<close>

text \<open>0, 1 or 2 for less, equal, greater.\<close>

definition cmpdi2 :: "64 word \<Rightarrow> 64 word \<Rightarrow> nat" where
  "cmpdi2 a b =
     (let x_low = s_low a :: 32 word; x_high = s_high a :: 32 word;
          y_low = s_low b :: 32 word; y_high = s_high b :: 32 word
      in if x_high <s y_high then 0 else if y_high <s x_high then 2
         else if x_low < y_low then 0 else if y_low < x_low then 2 else 1)"

definition cmpti2 :: "128 word \<Rightarrow> 128 word \<Rightarrow> nat" where
  "cmpti2 a b =
     (let x_low = s_low a :: 64 word; x_high = s_high a :: 64 word;
          y_low = s_low b :: 64 word; y_high = s_high b :: 64 word
      in if x_high <s y_high then 0 else if y_high <s x_high then 2
         else if x_low < y_low then 0 else if y_low < x_low then 2 else 1)"

definition ucmpdi2 :: "64 word \<Rightarrow> 64 word \<Rightarrow> nat" where
  "ucmpdi2 a b =
     (let x_low = s_low a :: 32 word; x_high = s_high a :: 32 word;
          y_low = s_low b :: 32 word; y_high = s_high b :: 32 word
      in if x_high < y_high then 0 else if y_high < x_high then 2
         else if x_low < y_low then 0 else if y_low < x_low then 2 else 1)"

definition ucmpti2 :: "128 word \<Rightarrow> 128 word \<Rightarrow> nat" where
  "ucmpti2 a b =
     (let x_low = s_low a :: 64 word; x_high = s_high a :: 64 word;
          y_low = s_low b :: 64 word; y_high = s_high b :: 64 word
      in if x_high < y_high then 0 else if y_high < x_high then 2
         else if x_low < y_low then 0 else if y_low < x_low then 2 else 1)"

section \<open>Byte order\<close>

definition bswapsi2 :: "32 word \<Rightarrow> 32 word" where
  "bswapsi2 u =
     drop_bit 24 (u AND 0xff000000) OR drop_bit 8 (u AND 0x00ff0000) OR
     push_bit 8 (u AND 0x0000ff00) OR push_bit 24 (u AND 0x000000ff)"

definition bswapdi2 :: "64 word \<Rightarrow> 64 word" where
  "bswapdi2 u =
     drop_bit 56 (u AND 0xff00000000000000) OR drop_bit 40 (u AND 0x00ff000000000000) OR
     drop_bit 24 (u AND 0x0000ff0000000000) OR drop_bit 8 (u AND 0x000000ff00000000) OR
     push_bit 8 (u AND 0x00000000ff000000) OR push_bit 24 (u AND 0x0000000000ff0000) OR
     push_bit 40 (u AND 0x000000000000ff00) OR push_bit 56 (u AND 0x00000000000000ff)"

section \<open>Counting bits\<close>

text \<open>
  The compiler's \<open>__builtin_clz\<close> and \<open>__builtin_ctz\<close>, which have no defined value at 0; the
  source calls them \<open>clzsi\<close> and \<open>ctzsi\<close> on 32 bits.
\<close>

definition builtin_clz :: "'a::len word \<Rightarrow> nat" where
  "builtin_clz x = length (takeWhile (\<lambda>i. \<not> bit x i) (rev [0..<LENGTH('a)]))"

definition builtin_ctz :: "'a::len word \<Rightarrow> nat" where
  "builtin_ctz x = length (takeWhile (\<lambda>i. \<not> bit x i) [0..<LENGTH('a)])"

definition clzsi2 :: "32 word \<Rightarrow> nat" where
  "clzsi2 a =
     (let t0 = (if a AND 0xFFFF0000 = 0 then 16 else 0);
          x1 = drop_bit (16 - t0) a;
          t1 = (if x1 AND 0xFF00 = 0 then 8 else 0);
          x2 = drop_bit (8 - t1) x1;
          t2 = (if x2 AND 0xF0 = 0 then 4 else 0);
          x3 = drop_bit (4 - t2) x2;
          t3 = (if x3 AND 0xC = 0 then 2 else 0);
          x4 = drop_bit (2 - t3) x3
      in t0 + t1 + t2 + t3 + unat ((2 - x4) AND (if x4 AND 2 = 0 then -1 else 0)))"

definition ctzsi2 :: "32 word \<Rightarrow> nat" where
  "ctzsi2 a =
     (let t0 = (if a AND 0x0000FFFF = 0 then 16 else 0);
          x1 = drop_bit t0 a;
          t1 = (if x1 AND 0x00FF = 0 then 8 else 0);
          x2 = drop_bit t1 x1;
          t2 = (if x2 AND 0x0F = 0 then 4 else 0);
          x3 = drop_bit t2 x2;
          t3 = (if x3 AND 0x3 = 0 then 2 else 0);
          x4 = drop_bit t3 x3 AND 3
      in t0 + t1 + t2 + t3 + unat ((2 - drop_bit 1 x4) AND (if x4 AND 1 = 0 then -1 else 0)))"

definition clzdi2 :: "64 word \<Rightarrow> nat" where
  "clzdi2 a =
     (let low = s_low a :: 32 word; high = s_high a :: 32 word;
          f = (if high = 0 then -1 else 0)
      in builtin_clz ((high AND NOT f) OR (low AND f)) + unat (f AND 32))"

definition clzti2 :: "128 word \<Rightarrow> nat" where
  "clzti2 a =
     (let low = s_low a :: 64 word; high = s_high a :: 64 word;
          f = (if high = 0 then -1 else 0)
      in builtin_clz ((high AND NOT f) OR (low AND f)) + unat (f AND 64))"

definition ctzdi2 :: "64 word \<Rightarrow> nat" where
  "ctzdi2 a =
     (let low = s_low a :: 32 word; high = s_high a :: 32 word;
          f = (if low = 0 then -1 else 0)
      in builtin_ctz ((high AND f) OR (low AND NOT f)) + unat (f AND 32))"

definition ctzti2 :: "128 word \<Rightarrow> nat" where
  "ctzti2 a =
     (let low = s_low a :: 64 word; high = s_high a :: 64 word;
          f = (if low = 0 then -1 else 0)
      in builtin_ctz ((high AND f) OR (low AND NOT f)) + unat (f AND 64))"

definition ffssi2 :: "32 word \<Rightarrow> nat" where
  "ffssi2 a = (if a = 0 then 0 else builtin_ctz a + 1)"

definition ffsdi2 :: "64 word \<Rightarrow> nat" where
  "ffsdi2 a =
     (let low = s_low a :: 32 word; high = s_high a :: 32 word in
      if low = 0 then (if high = 0 then 0 else builtin_ctz high + (1 + 32)) else builtin_ctz low + 1)"

definition ffsti2 :: "128 word \<Rightarrow> nat" where
  "ffsti2 a =
     (let low = s_low a :: 64 word; high = s_high a :: 64 word in
      if low = 0 then (if high = 0 then 0 else builtin_ctz high + (1 + 64)) else builtin_ctz low + 1)"

definition paritysi2 :: "32 word \<Rightarrow> nat" where
  "paritysi2 a =
     (let x1 = a XOR drop_bit 16 a; x2 = x1 XOR drop_bit 8 x1; x3 = x2 XOR drop_bit 4 x2
      in drop_bit (unat (x3 AND 0xF)) 0x6996 AND 1)"

definition paritydi2 :: "64 word \<Rightarrow> nat" where
  "paritydi2 a =
     (let x0 = s_high a XOR s_low a :: 32 word;
          x1 = x0 XOR drop_bit 16 x0; x2 = x1 XOR drop_bit 8 x1; x3 = x2 XOR drop_bit 4 x2
      in drop_bit (unat (x3 AND 0xF)) 0x6996 AND 1)"

definition parityti2 :: "128 word \<Rightarrow> nat" where
  "parityti2 a =
     (let y = s_high a XOR s_low a :: 64 word;
          x0 = s_high y XOR s_low y :: 32 word;
          x1 = x0 XOR drop_bit 16 x0; x2 = x1 XOR drop_bit 8 x1; x3 = x2 XOR drop_bit 4 x2
      in drop_bit (unat (x3 AND 0xF)) 0x6996 AND 1)"

definition popcountsi2 :: "32 word \<Rightarrow> 32 word" where
  "popcountsi2 a =
     (let x1 = a - (drop_bit 1 a AND 0x55555555);
          x2 = (drop_bit 2 x1 AND 0x33333333) + (x1 AND 0x33333333);
          x3 = (x2 + drop_bit 4 x2) AND 0x0F0F0F0F;
          x4 = x3 + drop_bit 16 x3
      in (x4 + drop_bit 8 x4) AND 0x3F)"

definition popcountdi2 :: "64 word \<Rightarrow> 32 word" where
  "popcountdi2 a =
     (let x1 = a - (drop_bit 1 a AND 0x5555555555555555);
          x2 = (drop_bit 2 x1 AND 0x3333333333333333) + (x1 AND 0x3333333333333333);
          x3 = (x2 + drop_bit 4 x2) AND 0x0F0F0F0F0F0F0F0F;
          x = ucast (x3 + drop_bit 32 x3) :: 32 word;
          x4 = x + drop_bit 16 x
      in (x4 + drop_bit 8 x4) AND 0x7F)"

definition popcountti2 :: "128 word \<Rightarrow> 32 word" where
  "popcountti2 a =
     (let m5 = push_bit 64 0x5555555555555555 OR 0x5555555555555555;
          m3 = push_bit 64 0x3333333333333333 OR 0x3333333333333333;
          m0f = push_bit 64 0x0F0F0F0F0F0F0F0F OR 0x0F0F0F0F0F0F0F0F;
          x1 = a - (drop_bit 1 a AND m5);
          x2 = (drop_bit 2 x1 AND m3) + (x1 AND m3);
          x3 = (x2 + drop_bit 4 x2) AND m0f;
          y = ucast (x3 + drop_bit 64 x3) :: 64 word;
          x = ucast (y + drop_bit 32 y) :: 32 word;
          x4 = x + drop_bit 16 x
      in (x4 + drop_bit 8 x4) AND 0xFF)"

section \<open>Division\<close>

text \<open>The difference of two \<open>unsigned\<close> numbers.\<close>

definition usub32 :: "nat \<Rightarrow> nat \<Rightarrow> nat" where
  "usub32 a b = (if b \<le> a then a - b else a + U32 - b)"

definition shift_of :: "'a::len word \<Rightarrow> 'a word \<Rightarrow> nat" where
  "shift_of n d = usub32 (if d \<noteq> 0 then builtin_clz d else LENGTH('a)) (if n \<noteq> 0 then builtin_clz n else LENGTH('a))"

text \<open>The loop: remainder, dividend with the quotient entering from the right, last quotient bit.\<close>

fun udiv_loop :: "'a::len word \<Rightarrow> nat \<Rightarrow> 'a word \<times> 'a word \<times> 'a word \<Rightarrow> 'a word \<times> 'a word \<times> 'a word" where
  "udiv_loop d 0 s = s"
| "udiv_loop d (Suc sr) (r, n, carry) =
     (let r1 = push_bit 1 r OR drop_bit (LENGTH('a) - 1) n;
          n1 = push_bit 1 n OR carry;
          s = sign_of (d - r1 - 1)
      in udiv_loop d sr (r1 - (d AND s), n1, s AND 1))"

definition udivXi3 :: "'a::len word \<Rightarrow> 'a word \<Rightarrow> 'a word" where
  "udivXi3 n d =
     (let sr = shift_of n d in
      if sr > LENGTH('a) - 1 then 0
      else if sr = LENGTH('a) - 1 then n
      else case udiv_loop d (sr + 1) (drop_bit (sr + 1) n, push_bit (LENGTH('a) - (sr + 1)) n, 0) of
             (r, n', carry) \<Rightarrow> push_bit 1 n' OR carry)"

definition umodXi3 :: "'a::len word \<Rightarrow> 'a word \<Rightarrow> 'a word" where
  "umodXi3 n d =
     (let sr = shift_of n d in
      if sr > LENGTH('a) - 1 then n
      else if sr = LENGTH('a) - 1 then 0
      else fst (udiv_loop d (sr + 1) (drop_bit (sr + 1) n, push_bit (LENGTH('a) - (sr + 1)) n, 0)))"

definition udivsi3 :: "32 word \<Rightarrow> 32 word \<Rightarrow> 32 word" where "udivsi3 a b = udivXi3 a b"
definition udivdi3 :: "64 word \<Rightarrow> 64 word \<Rightarrow> 64 word" where "udivdi3 a b = udivXi3 a b"
definition umodsi3 :: "32 word \<Rightarrow> 32 word \<Rightarrow> 32 word" where "umodsi3 a b = umodXi3 a b"
definition umoddi3 :: "64 word \<Rightarrow> 64 word \<Rightarrow> 64 word" where "umoddi3 a b = umodXi3 a b"

definition udivmodsi4 :: "32 word \<Rightarrow> 32 word \<Rightarrow> 32 word \<times> 32 word" where
  "udivmodsi4 a b = (let d = udivsi3 a b in (d, a - d * b))"

text \<open>
  The 64-bit division through 32-bit halves: the special cases, which return a quotient and a
  remainder or trap in the division instruction, or the shift count with the quotient and
  remainder registers for the loop.
\<close>

definition udivmoddi4_start ::
    "64 word \<Rightarrow> 64 word \<Rightarrow> (64 word \<times> 64 word) option + (nat \<times> (32 word \<times> 32 word) \<times> 32 word \<times> 32 word)" where
  "udivmoddi4_start a b =
     (let n_low = s_low a :: 32 word; n_high = s_high a :: 32 word;
          d_low = s_low b :: 32 word; d_high = s_high b :: 32 word
      in
      if n_high = 0 then
        if d_high = 0 then
          Inl (if d_low = 0 then None else Some (ucast (n_low div d_low), ucast (n_low mod d_low)))
        else Inl (Some (0, ucast n_low))
      else if d_low = 0 then
        if d_high = 0 then Inl None
        else if n_low = 0 then Inl (Some (ucast (n_high div d_high), s_all 0 (n_high mod d_high)))
        else if d_high AND (d_high - 1) = 0 then
          Inl (Some (ucast (drop_bit (builtin_ctz d_high) n_high), s_all n_low (n_high AND (d_high - 1))))
        else
          let sr = usub32 (builtin_clz d_high) (builtin_clz n_high) in
          if sr > 30 then Inl (Some (0, a))
          else
            let sr = sr + 1
            in Inr (sr, (0, push_bit (32 - sr) n_low),
                    push_bit (32 - sr) n_high OR drop_bit sr n_low, drop_bit sr n_high)
      else if d_high = 0 then
        if d_low AND (d_low - 1) = 0 then
          Inl (Some (if d_low = 1 then a
                     else let sr = builtin_ctz d_low
                          in s_all (push_bit (32 - sr) n_high OR drop_bit sr n_low) (drop_bit sr n_high),
                     ucast (n_low AND (d_low - 1))))
        else
          let sr = usub32 (1 + 32 + builtin_clz d_low) (builtin_clz n_high) in
          if sr = 32 then Inr (sr, (0, n_low), n_high, 0)
          else if sr < 32 then
            Inr (sr, (0, push_bit (32 - sr) n_low),
                 push_bit (32 - sr) n_high OR drop_bit sr n_low, drop_bit sr n_high)
          else
            Inr (sr, (push_bit (64 - sr) n_low, push_bit (64 - sr) n_high OR drop_bit (sr - 32) n_low),
                 drop_bit (sr - 32) n_high, 0)
      else
        let sr = usub32 (builtin_clz d_high) (builtin_clz n_high) in
        if sr > 31 then Inl (Some (0, a))
        else
          let sr = sr + 1 in
          if sr = 32 then Inr (sr, (0, n_low), n_high, 0)
          else Inr (sr, (0, push_bit (32 - sr) n_low),
                    push_bit (32 - sr) n_high OR drop_bit sr n_low, drop_bit sr n_high))"

fun udivmoddi4_loop ::
    "64 word \<Rightarrow> nat \<Rightarrow> (32 word \<times> 32 word) \<times> (32 word \<times> 32 word) \<times> 32 word
     \<Rightarrow> (32 word \<times> 32 word) \<times> (32 word \<times> 32 word) \<times> 32 word" where
  "udivmoddi4_loop d 0 s = s"
| "udivmoddi4_loop d (Suc sr) ((q_low, q_high), (r_low, r_high), carry) =
     (let r_high1 = push_bit 1 r_high OR drop_bit 31 r_low;
          r_low1 = push_bit 1 r_low OR drop_bit 31 q_high;
          q_high1 = push_bit 1 q_high OR drop_bit 31 q_low;
          q_low1 = push_bit 1 q_low OR carry;
          r_all = s_all r_low1 r_high1 :: 64 word;
          s = sign_of (d - r_all - 1);
          r_all1 = r_all - (d AND s)
      in udivmoddi4_loop d sr ((q_low1, q_high1), (s_low r_all1, s_high r_all1), ucast (s AND 1)))"

definition udivmoddi4 :: "64 word \<Rightarrow> 64 word \<Rightarrow> (64 word \<times> 64 word) option" where
  "udivmoddi4 a b =
     (case udivmoddi4_start a b of
        Inl res \<Rightarrow> res
      | Inr (sr, q, r) \<Rightarrow>
          (case udivmoddi4_loop b sr (q, r, 0) of
             ((q_low, q_high), (r_low, r_high), carry) \<Rightarrow>
               Some (push_bit 1 (s_all q_low q_high) OR ucast carry, s_all r_low r_high)))"

text \<open>
  The 128-bit division. On this architecture \<open>udiv128by64to64\<close> is the instruction \<open>divq\<close>, which
  faults when the divisor is 0 or the quotient does not fit.
\<close>

definition udiv128by64to64 :: "64 word \<Rightarrow> 64 word \<Rightarrow> 64 word \<Rightarrow> (64 word \<times> 64 word) option" where
  "udiv128by64to64 u1 u0 v =
     (if v \<le> u1 then None
      else let u = unat u1 * 2 ^ 64 + unat u0
           in Some (word_of_nat (u div unat v), word_of_nat (u mod unat v)))"

fun udivmodti4_loop :: "nat \<Rightarrow> 128 word \<times> 128 word \<times> 64 word \<Rightarrow> 128 word \<times> 128 word \<times> 64 word" where
  "udivmodti4_loop 0 s = s"
| "udivmodti4_loop (Suc k) (dividend, divisor, q_low) =
     (let s = sign_of (divisor - dividend - 1)
      in udivmodti4_loop k (dividend - (divisor AND s), drop_bit 1 divisor, push_bit 1 q_low OR ucast (s AND 1)))"

definition udivmodti4 :: "128 word \<Rightarrow> 128 word \<Rightarrow> (128 word \<times> 128 word) option" where
  "udivmodti4 a b =
     (let n_low = s_low a :: 64 word; n_high = s_high a :: 64 word;
          d_low = s_low b :: 64 word; d_high = s_high b :: 64 word
      in
      if b > a then Some (0, a)
      else if d_high = 0 then
        if n_high < d_low then
          map_option (\<lambda>(q, r). (s_all q 0, s_all r 0)) (udiv128by64to64 n_high n_low d_low)
        else if d_low = 0 then None
        else
          map_option (\<lambda>(q, r). (s_all q (n_high div d_low), s_all r 0))
            (udiv128by64to64 (n_high mod d_low) n_low d_low)
      else
        let sh = builtin_clz d_high - builtin_clz n_high in
        case udivmodti4_loop (sh + 1) (a, push_bit sh b, 0) of
          (dividend, divisor, q_low) \<Rightarrow> Some (s_all q_low 0, dividend))"

definition udivti3 :: "128 word \<Rightarrow> 128 word \<Rightarrow> 128 word option" where
  "udivti3 a b = map_option fst (udivmodti4 a b)"

definition umodti3 :: "128 word \<Rightarrow> 128 word \<Rightarrow> 128 word option" where
  "umodti3 a b = map_option snd (udivmodti4 a b)"

text \<open>Signed division, over an unsigned one.\<close>

definition divXi3 :: "('a::len word \<Rightarrow> 'a word \<Rightarrow> 'a word option) \<Rightarrow> 'a word \<Rightarrow> 'a word \<Rightarrow> 'a word option" where
  "divXi3 COMPUTE_UDIV a b =
     (let s_a = sign_of a; s_b = sign_of b;
          a_u = (a XOR s_a) + (- s_a);
          b_u = (b XOR s_b) + (- s_b);
          s = s_a XOR s_b
      in map_option (\<lambda>q. (q XOR s) + (- s)) (COMPUTE_UDIV a_u b_u))"

definition modXi3 :: "('a::len word \<Rightarrow> 'a word \<Rightarrow> 'a word option) \<Rightarrow> 'a word \<Rightarrow> 'a word \<Rightarrow> 'a word option" where
  "modXi3 ASSIGN_UMOD a b =
     (let s_b = sign_of b; b_u = (b XOR s_b) + (- s_b);
          s = sign_of a; a_u = (a XOR s) + (- s)
      in map_option (\<lambda>res. (res XOR s) + (- s)) (ASSIGN_UMOD a_u b_u))"

definition divmodXi4 :: "('a::len word \<Rightarrow> 'a word \<Rightarrow> ('a word \<times> 'a word) option) \<Rightarrow> 'a word \<Rightarrow> 'a word \<Rightarrow> ('a word \<times> 'a word) option" where
  "divmodXi4 udivmod a b =
     (let s_a = sign_of a; s_b = sign_of b;
          a' = (a XOR s_a) - s_a;
          b' = (b XOR s_b) - s_b;
          s = s_b XOR s_a
      in map_option (\<lambda>(q, r). ((q XOR s) - s, (r XOR s_a) - s_a)) (udivmod a' b'))"

definition divsi3 :: "32 word \<Rightarrow> 32 word \<Rightarrow> 32 word option" where
  "divsi3 a b = divXi3 (\<lambda>a b. if b = 0 then None else Some (a div b)) a b"

definition divdi3 :: "64 word \<Rightarrow> 64 word \<Rightarrow> 64 word option" where
  "divdi3 a b = divXi3 (\<lambda>a b. map_option fst (udivmoddi4 a b)) a b"

definition divti3 :: "128 word \<Rightarrow> 128 word \<Rightarrow> 128 word option" where
  "divti3 a b = divXi3 (\<lambda>a b. map_option fst (udivmodti4 a b)) a b"

definition modsi3 :: "32 word \<Rightarrow> 32 word \<Rightarrow> 32 word option" where
  "modsi3 a b = map_option (\<lambda>q. a - q * b) (divsi3 a b)"

definition moddi3 :: "64 word \<Rightarrow> 64 word \<Rightarrow> 64 word option" where
  "moddi3 a b = modXi3 (\<lambda>a b. map_option snd (udivmoddi4 a b)) a b"

definition modti3 :: "128 word \<Rightarrow> 128 word \<Rightarrow> 128 word option" where
  "modti3 a b = modXi3 (\<lambda>a b. map_option snd (udivmodti4 a b)) a b"

definition divmodsi4 :: "32 word \<Rightarrow> 32 word \<Rightarrow> (32 word \<times> 32 word) option" where
  "divmodsi4 a b = divmodXi4 (\<lambda>a b. Some (udivmodsi4 a b)) a b"

definition divmoddi4 :: "64 word \<Rightarrow> 64 word \<Rightarrow> (64 word \<times> 64 word) option" where
  "divmoddi4 a b = divmodXi4 udivmoddi4 a b"

definition divmodti4 :: "128 word \<Rightarrow> 128 word \<Rightarrow> (128 word \<times> 128 word) option" where
  "divmodti4 a b = divmodXi4 udivmodti4 a b"

end
