(* ===== verification/CRT_Basic.thy ===== *)
theory CRT_Basic
  imports CRT_Model
begin

text \<open>
  Signs, trapping arithmetic, and the routines that work through the halves of a double
  word. Each is equal to the operation on the whole word, or to the integer operation with
  a trap exactly when the result does not fit.
\<close>

section \<open>Signed words\<close>

abbreviation smin :: "'a::len itself \<Rightarrow> int" where
  "smin _ \<equiv> - (2 ^ (LENGTH('a) - 1))"

abbreviation smax :: "'a::len itself \<Rightarrow> int" where
  "smax _ \<equiv> 2 ^ (LENGTH('a) - 1) - 1"

definition fits :: "'a::len itself \<Rightarrow> int \<Rightarrow> bool" where
  "fits T z \<longleftrightarrow> - (2 ^ (LENGTH('a) - 1)) \<le> z \<and> z < 2 ^ (LENGTH('a) - 1)"

lemma sint_fits: "fits TYPE('a) (sint (a :: 'a::len word))"
  using sint_greater_eq [of a] sint_less [of a] by (simp add: fits_def)

lemma sint_word_of_int: "fits TYPE('a) z \<Longrightarrow> sint (word_of_int z :: 'a::len word) = z"
  by (simp add: fits_def sint_sbintrunc' signed_take_bit_int_eq_self_iff)

lemma word_of_int_sint_add: "(a :: 'a::len word) + b = word_of_int (sint a + sint b)"
  by simp

lemma word_of_int_wrap: "(word_of_int (z - 2 ^ LENGTH('a)) :: 'a::len word) = word_of_int z"
  "(word_of_int (z + 2 ^ LENGTH('a)) :: 'a::len word) = word_of_int z"
  by simp_all

lemma two_halves: "(2 :: int) ^ LENGTH('a::len) = 2 * 2 ^ (LENGTH('a) - 1)"
  by (metis Suc_pred' len_gt_0 power_Suc)

text \<open>A number less than a full turn out of range comes back by one turn.\<close>

lemma sint_wrap:
  assumes "- (2 ^ LENGTH('a)) \<le> z" "z < 2 ^ LENGTH('a)"
  shows "sint (word_of_int z :: 'a::len word) =
    (if fits TYPE('a) z then z else if z < 0 then z + 2 ^ LENGTH('a) else z - 2 ^ LENGTH('a))"
proof -
  consider "fits TYPE('a) z" | "\<not> fits TYPE('a) z" "z < 0" | "\<not> fits TYPE('a) z" "z \<ge> 0" by linarith
  then show ?thesis
  proof cases
    case 1
    then show ?thesis by (simp add: sint_word_of_int)
  next
    case 2
    then have "fits TYPE('a) (z + 2 ^ LENGTH('a))" using assms two_halves [where 'a = 'a] by (auto simp: fits_def)
    then show ?thesis using 2 sint_word_of_int [of "z + 2 ^ LENGTH('a)", where 'a = 'a] unfolding word_of_int_wrap by simp
  next
    case 3
    then have "fits TYPE('a) (z - 2 ^ LENGTH('a))" using assms two_halves [where 'a = 'a] by (auto simp: fits_def)
    then show ?thesis using 3 sint_word_of_int [of "z - 2 ^ LENGTH('a)", where 'a = 'a] unfolding word_of_int_wrap by simp
  qed
qed

lemma sign_of_eq: "sign_of (a :: 'a::len word) = (if sint a < 0 then -1 else 0)"
proof -
  have "bit (sign_of a) k = bit (if sint a < 0 then -1 else 0 :: 'a word) k" if "k < LENGTH('a)" for k
    using that bit_last_iff [of a] by (auto simp: sign_of_def bit_signed_drop_bit_iff not_le dest: bit_imp_le_length)
  then show ?thesis by (rule bit_word_eqI)
qed

lemma negate_if [simp]:
  "(x XOR sign_of a) - sign_of a = (if sint a < 0 then - x else x)"
  "(x XOR sign_of a) + - sign_of a = (if sint a < 0 then - x else x)"
  by (simp_all add: sign_of_eq flip: minus_eq_not_plus_1)

lemma sign_of_inj: "sign_of a = sign_of b \<longleftrightarrow> (sint a < 0 \<longleftrightarrow> sint b < 0)"
  by (simp add: sign_of_eq)

lemma MIN_of_eq: "(MIN_of :: 'a::len word) = word_of_int (- (2 ^ (LENGTH('a) - 1)))"
  using word_of_int_wrap(1) [of "2 ^ (LENGTH('a) - 1)", where 'a = 'a] two_halves [where 'a = 'a]
  by (simp add: MIN_of_def push_bit_eq_mult)

lemma sint_MIN_of: "sint (MIN_of :: 'a::len word) = - (2 ^ (LENGTH('a) - 1))"
  unfolding MIN_of_eq by (rule sint_word_of_int) (simp add: fits_def)

lemma sint_eq_iff: "a = b \<longleftrightarrow> sint a = sint (b :: 'a::len word)"
  using signed_word_eqI by blast

lemma eq_MIN_of: "a = (MIN_of :: 'a::len word) \<longleftrightarrow> sint a = - (2 ^ (LENGTH('a) - 1))"
  by (simp add: sint_eq_iff sint_MIN_of)

lemma sint_MAX_of: "sint (MAX_of :: 'a::len word) = 2 ^ (LENGTH('a) - 1) - 1"
proof -
  have "(MAX_of :: 'a word) = word_of_int (2 ^ (LENGTH('a) - 1) - 1)"
    by (simp add: MAX_of_def MIN_of_eq not_eq_complement)
  moreover have "fits TYPE('a) (2 ^ (LENGTH('a) - 1) - 1)" by (simp add: fits_def)
  ultimately show ?thesis using sint_word_of_int by metis
qed

lemma sint_neg: "sint a \<noteq> - (2 ^ (LENGTH('a) - 1)) \<Longrightarrow> sint (- a :: 'a::len word) = - sint a"
proof -
  assume "sint a \<noteq> - (2 ^ (LENGTH('a) - 1))"
  then have "fits TYPE('a) (- sint a)" using sint_fits [of a] by (auto simp: fits_def)
  from sint_word_of_int [OF this] show ?thesis by simp
qed

section \<open>Arithmetic that traps\<close>

text \<open>The result of a trapping operation: the number, or a trap when it does not fit.\<close>

definition traps :: "'a::len word option \<Rightarrow> int \<Rightarrow> bool" where
  "traps res z \<longleftrightarrow> (if fits TYPE('a) z then \<exists>w. res = Some w \<and> sint w = z else res = None)"

lemma abs_traps:
  "traps (if a = MIN_of then None else Some ((a XOR sign_of a) - sign_of a)) \<bar>sint (a :: 'a::len word)\<bar>"
proof (cases "a = MIN_of")
  case True
  then show ?thesis by (simp add: traps_def fits_def sint_MIN_of)
next
  case False
  then have "sint a \<noteq> - (2 ^ (LENGTH('a) - 1))" by (simp add: eq_MIN_of)
  then show ?thesis using False sint_fits [of a] sint_neg [of a] by (auto simp: traps_def fits_def)
qed

lemma absv_traps: "traps (absvsi2 x) \<bar>sint x\<bar>" "traps (absvdi2 y) \<bar>sint y\<bar>" "traps (absvti2 z) \<bar>sint z\<bar>"
  unfolding absvsi2_def absvdi2_def absvti2_def Let_def by (rule abs_traps)+

lemma neg_traps: "traps (if a = MIN_of then None else Some (- a)) (- sint (a :: 'a::len word))"
proof (cases "a = MIN_of")
  case True
  then show ?thesis by (simp add: traps_def fits_def sint_MIN_of)
next
  case False
  then have "sint a \<noteq> - (2 ^ (LENGTH('a) - 1))" by (simp add: eq_MIN_of)
  then show ?thesis using False sint_fits [of a] sint_neg [of a] by (auto simp: traps_def fits_def)
qed

lemma sint_add:
  "sint (a + b :: 'a::len word) =
    (let z = sint a + sint b in if fits TYPE('a) z then z else if z < 0 then z + 2 ^ LENGTH('a) else z - 2 ^ LENGTH('a))"
proof -
  have "sint (word_of_int (sint a + sint b) :: 'a word) =
    (let z = sint a + sint b in if fits TYPE('a) z then z else if z < 0 then z + 2 ^ LENGTH('a) else z - 2 ^ LENGTH('a))"
    unfolding Let_def using sint_fits [of a] sint_fits [of b] two_halves [where 'a = 'a] by (intro sint_wrap) (auto simp: fits_def)
  then show ?thesis by simp
qed

lemma sint_diff:
  "sint (a - b :: 'a::len word) =
    (let z = sint a - sint b in if fits TYPE('a) z then z else if z < 0 then z + 2 ^ LENGTH('a) else z - 2 ^ LENGTH('a))"
proof -
  have "sint (word_of_int (sint a - sint b) :: 'a word) =
    (let z = sint a - sint b in if fits TYPE('a) z then z else if z < 0 then z + 2 ^ LENGTH('a) else z - 2 ^ LENGTH('a))"
    unfolding Let_def using sint_fits [of a] sint_fits [of b] two_halves [where 'a = 'a] by (intro sint_wrap) (auto simp: fits_def)
  then show ?thesis by simp
qed

lemma add_traps:
  fixes a b :: "'a::len word"
  shows "traps (let s = a + b in if 0 \<le>s b then (if s <s a then None else Some s) else (if a \<le>s s then None else Some s)) (sint a + sint b)"
  using sint_add [of a b] sint_fits [of a] sint_fits [of b] two_halves [where 'a = 'a]
  by (auto simp: traps_def fits_def Let_def word_sle_eq word_sless_alt split: if_splits)

lemma sub_traps:
  fixes a b :: "'a::len word"
  shows "traps (let s = a - b in if 0 \<le>s b then (if a <s s then None else Some s) else (if s \<le>s a then None else Some s)) (sint a - sint b)"
  using sint_diff [of a b] sint_fits [of a] sint_fits [of b] two_halves [where 'a = 'a]
  by (auto simp: traps_def fits_def Let_def word_sle_eq word_sless_alt split: if_splits)

text \<open>Products: the test by division is the test of the product.\<close>

lemma div_less_iff: "0 < (b :: int) \<Longrightarrow> c div b < a \<longleftrightarrow> c < a * b"
proof
  assume b: "0 < b" and "c div b < a"
  then have "(c div b + 1) * b \<le> a * b" by (intro mult_right_mono) simp_all
  then have "c div b * b + b \<le> a * b" by (simp add: distrib_right)
  then show "c < a * b" using pos_mod_bound [OF b, of c] div_mult_mod_eq [of c b] by linarith
next
  assume b: "0 < b" and "c < a * b"
  show "c div b < a"
  proof (rule ccontr)
    assume "\<not> c div b < a"
    then have "a * b \<le> c div b * b" using b by (intro mult_right_mono) simp_all
    then show False using \<open>c < a * b\<close> pos_mod_sign [OF b, of c] div_mult_mod_eq [of c b] by linarith
  qed
qed

lemma sint_abs: "a \<noteq> (MIN_of :: 'a::len word) \<Longrightarrow> sint (if sint a < 0 then - a else a) = \<bar>sint a\<bar>"
  by (simp add: eq_MIN_of sint_neg)

lemma sint_two: "LENGTH('a::len) > 2 \<Longrightarrow> sint (2 :: 'a word) = 2"
proof -
  assume "LENGTH('a) > 2"
  then have "(2::int) ^ 2 \<le> 2 ^ (LENGTH('a) - 1)" by (intro power_increasing) simp_all
  then have "fits TYPE('a) 2" by (simp add: fits_def)
  from sint_word_of_int [OF this] show ?thesis by simp
qed

text \<open>The overflow test shared by both routines.\<close>

definition mul_overflows :: "'a::len word \<Rightarrow> 'a word \<Rightarrow> bool" where
  "mul_overflows a b \<longleftrightarrow>
     (if a = MIN_of then b \<noteq> 0 \<and> b \<noteq> 1
      else if b = MIN_of then a \<noteq> 0 \<and> a \<noteq> 1
      else
        let sa = sign_of a; abs_a = (a XOR sa) - sa;
            sb = sign_of b; abs_b = (b XOR sb) - sb
        in if abs_a <s 2 \<or> abs_b <s 2 then False
           else if sa = sb then sint abs_a > trunc_div (sint (MAX_of :: 'a word)) (sint abs_b)
           else sint abs_a > trunc_div (sint (MIN_of :: 'a word)) (sint (- abs_b)))"

lemma muloXi4_alt: "muloXi4 a b = (a * b, mul_overflows a b)"
  by (simp add: muloXi4_def mul_overflows_def Let_def)

lemma mulvXi3_alt: "mulvXi3 a b = (if mul_overflows a b then None else Some (a * b))"
  by (auto simp: mulvXi3_def mul_overflows_def Let_def)

lemma MIN_times:
  assumes "sint a = - (2 ^ (LENGTH('a) - 1))" and "LENGTH('a) > 2"
  shows "(b \<noteq> 0 \<and> b \<noteq> 1) \<longleftrightarrow> \<not> fits TYPE('a) (sint a * sint (b :: 'a::len word))"
proof -
  let ?M = "2 ^ (LENGTH('a) - 1) :: int"
  have M: "?M > 0" by simp
  have "sint (1 :: 'a word) = 1" using assms(2) by simp
  then have b: "b = 0 \<longleftrightarrow> sint b = 0" "b = 1 \<longleftrightarrow> sint b = 1" by (simp_all add: sint_eq_iff)
  consider "sint b = 0" | "sint b = 1" | "sint b < 0" | "sint b > 1" by linarith
  then show ?thesis
  proof cases
    case 3
    then have "?M * 1 \<le> ?M * (- sint b)" using M by (intro mult_left_mono) simp_all
    then show ?thesis using 3 assms(1) b by (auto simp: fits_def)
  next
    case 4
    then have "?M * 2 \<le> ?M * sint b" using M by (intro mult_left_mono) simp_all
    then have "- (?M * sint b) < - ?M" using M by linarith
    then show ?thesis using 4 assms(1) b by (auto simp: fits_def)
  qed (use b assms(1) in \<open>auto simp: fits_def\<close>)
qed

lemma mul_overflows_iff:
  fixes a b :: "'a::len word"
  assumes len: "LENGTH('a) > 2"
  shows "mul_overflows a b \<longleftrightarrow> \<not> fits TYPE('a) (sint a * sint b)"
proof -
  let ?M = "2 ^ (LENGTH('a) - 1) :: int" and ?x = "sint a" and ?y = "sint b"
  have M: "?M > 0" by simp
  consider "a = MIN_of" | "a \<noteq> MIN_of" "b = MIN_of" | "a \<noteq> MIN_of" "b \<noteq> MIN_of" by blast
  then show ?thesis
  proof cases
    case 1
    then show ?thesis using MIN_times [of a b] len by (simp add: mul_overflows_def sint_MIN_of)
  next
    case 2
    then show ?thesis using MIN_times [of b a] len by (simp add: mul_overflows_def sint_MIN_of mult.commute)
  next
    case 3
    define A where "A = (if ?x < 0 then - a else a)"
    define B where "B = (if ?y < 0 then - b else b)"
    have AB: "sint A = \<bar>?x\<bar>" "sint B = \<bar>?y\<bar>" unfolding A_def B_def using sint_abs 3 by blast+
    have xy: "\<bar>?x\<bar> < ?M" "\<bar>?y\<bar> < ?M"
      using 3 sint_fits [of a] sint_fits [of b] by (auto simp: eq_MIN_of fits_def abs_if)
    have "\<bar>?y\<bar> \<noteq> - ?M" using M abs_ge_zero [of ?y] by linarith
    then have nB: "sint (- B) = - \<bar>?y\<bar>" using sint_neg [of B] unfolding AB(2) by blast
    have mo: "mul_overflows a b = (if \<bar>?x\<bar> < 2 \<or> \<bar>?y\<bar> < 2 then False
        else if (?x < 0) = (?y < 0) then \<bar>?x\<bar> > trunc_div (?M - 1) \<bar>?y\<bar> else \<bar>?x\<bar> > trunc_div (- ?M) (- \<bar>?y\<bar>))"
      using 3 unfolding mul_overflows_def Let_def negate_if A_def [symmetric] B_def [symmetric] sign_of_inj
        word_sless_alt AB nB sint_two [OF len] sint_MAX_of sint_MIN_of by simp
    show ?thesis
    proof (cases "\<bar>?x\<bar> < 2 \<or> \<bar>?y\<bar> < 2")
      case True
      then have "?x = 0 \<or> ?x = 1 \<or> ?x = -1 \<or> ?y = 0 \<or> ?y = 1 \<or> ?y = -1" by linarith
      then have "fits TYPE('a) (?x * ?y)" using xy M by (auto simp: fits_def)
      then show ?thesis using True mo by simp
    next
      case False
      then have pos: "0 < \<bar>?y\<bar>" by linarith
      have d: "trunc_div (?M - 1) \<bar>?y\<bar> = (?M - 1) div \<bar>?y\<bar>" "trunc_div (- ?M) (- \<bar>?y\<bar>) = ?M div \<bar>?y\<bar>"
        using False M xy(2) by (auto simp: trunc_div_def sgn_if)
      define p where "p = \<bar>?x\<bar> * \<bar>?y\<bar>"
      have p: "0 \<le> p" "(?x < 0) = (?y < 0) \<Longrightarrow> ?x * ?y = p" "(?x < 0) \<noteq> (?y < 0) \<Longrightarrow> ?x * ?y = - p"
        by (auto simp: p_def abs_if)
      have q: "\<bar>?x\<bar> > (?M - 1) div \<bar>?y\<bar> \<longleftrightarrow> ?M - 1 < p" "\<bar>?x\<bar> > ?M div \<bar>?y\<bar> \<longleftrightarrow> ?M < p"
        unfolding p_def by (rule div_less_iff [OF pos])+
      show ?thesis
      proof (cases "(?x < 0) = (?y < 0)")
        case True
        then have "mul_overflows a b \<longleftrightarrow> ?M - 1 < p" using False mo d(1) q(1) by simp
        then show ?thesis unfolding p(2) [OF True] fits_def using p(1) M by linarith
      next
        case F: False
        then have "mul_overflows a b \<longleftrightarrow> ?M < p" using False mo d(2) q(2) by simp
        then show ?thesis unfolding p(3) [OF F] fits_def using p(1) M by linarith
      qed
    qed
  qed
qed

lemma sint_mult: "fits TYPE('a) (sint a * sint b) \<Longrightarrow> sint (a * b :: 'a::len word) = sint a * sint b"
  using sint_word_of_int [of "sint a * sint b", where 'a = 'a] by simp

lemma mulvXi3_traps: "LENGTH('a::len) > 2 \<Longrightarrow> traps (mulvXi3 a b) (sint a * sint (b :: 'a word))"
  by (simp add: traps_def mulvXi3_alt mul_overflows_iff sint_mult)

end
