(* ===== verification/CRT_Halves.thy ===== *)
theory CRT_Halves
  imports CRT_Basic
begin

text \<open>
  The routines that work through the halves of a double word: shifts, products, comparisons
  and byte order.
\<close>

section \<open>Halves\<close>

lemma bit_s_low: "bit (s_low x :: 'h::len word) n \<longleftrightarrow> n < LENGTH('h) \<and> bit (x :: 'w::len word) n"
  by (simp add: s_low_def bit_simps)

lemma bit_s_high: "bit (s_high x :: 'h::len word) n \<longleftrightarrow> n < LENGTH('h) \<and> bit (x :: 'w::len word) (LENGTH('h) + n)"
  by (auto simp: s_high_def bit_simps)

lemma bit_s_all:
  "bit (s_all l h :: 'w::len word) n \<longleftrightarrow>
     n < LENGTH('w) \<and> (if n < LENGTH('h) then bit l n else bit (h :: 'h::len word) (n - LENGTH('h)))"
  by (auto simp: s_all_def bit_simps dest: bit_imp_le_length)

lemmas bit_halves = bit_s_low bit_s_high bit_s_all

lemma and_power_nat: "b < 2 * 2 ^ k \<Longrightarrow> b AND 2 ^ k \<noteq> 0 \<longleftrightarrow> 2 ^ k \<le> (b :: nat)"
proof -
  assume "b < 2 * 2 ^ k"
  then have "b div 2 ^ k = (if 2 ^ k \<le> b then 1 else 0)" by (auto intro: div_nat_eqI)
  then have "bit b k \<longleftrightarrow> 2 ^ k \<le> b" by (simp add: bit_iff_odd)
  then show ?thesis by (simp add: and_exp_eq_0_iff_not_bit)
qed

lemmas shift_test = and_power_nat [of _ 5, simplified] and_power_nat [of _ 6, simplified]

section \<open>Shifts\<close>

text \<open>One index at a time, for halves of any length.\<close>

lemma shl_far:
  assumes "LENGTH('w) = LENGTH('h) + LENGTH('h)" "LENGTH('h) \<le> b" "b < LENGTH('w)"
  shows "s_all 0 (push_bit (b - LENGTH('h)) (s_low a :: 'h::len word)) = (push_bit b a :: 'w::len word)"
proof (rule bit_word_eqI)
  fix n
  assume n: "n < LENGTH('w)"
  have "n - LENGTH('h) - (b - LENGTH('h)) = n - b" using assms(2) by simp
  then show "bit (s_all 0 (push_bit (b - LENGTH('h)) (s_low a :: 'h word)) :: 'w word) n = bit (push_bit b a) n"
    using n assms by (auto simp: bit_halves bit_push_bit_iff)
qed

lemma shl_near:
  assumes "LENGTH('w) = LENGTH('h) + LENGTH('h)" "b < LENGTH('h)"
  shows "s_all (push_bit b (s_low a)) (push_bit b (s_high a) OR drop_bit (LENGTH('h) - b) (s_low a) :: 'h::len word) = (push_bit b a :: 'w::len word)"
proof (rule bit_word_eqI)
  fix n
  assume n: "n < LENGTH('w)"
  have e: "LENGTH('h) + (n - LENGTH('h) - b) = n - b" if "LENGTH('h) + b \<le> n" using that by simp
  have e': "LENGTH('h) - b + (n - LENGTH('h)) = n - b" if "LENGTH('h) \<le> n" using that assms(2) by simp
  show "bit (s_all (push_bit b (s_low a)) (push_bit b (s_high a) OR drop_bit (LENGTH('h) - b) (s_low a) :: 'h word) :: 'w word) n = bit (push_bit b a) n"
    using n assms e e' by (auto simp: bit_halves bit_push_bit_iff bit_or_iff bit_drop_bit_eq)
qed

lemma shr_far:
  assumes "LENGTH('w) = LENGTH('h) + LENGTH('h)" "LENGTH('h) \<le> b"
  shows "s_all (drop_bit (b - LENGTH('h)) (s_high a :: 'h::len word)) 0 = (drop_bit b a :: 'w::len word)"
proof (rule bit_word_eqI)
  fix n
  assume n: "n < LENGTH('w)"
  have "LENGTH('h) + (b - LENGTH('h) + n) = b + n" using assms(2) by simp
  then show "bit (s_all (drop_bit (b - LENGTH('h)) (s_high a :: 'h word)) 0 :: 'w word) n = bit (drop_bit b a) n"
    using n assms bit_imp_le_length [of a "b + n"] by (auto simp: bit_halves bit_drop_bit_eq)
qed

lemma shr_near:
  assumes "LENGTH('w) = LENGTH('h) + LENGTH('h)" "b < LENGTH('h)"
  shows "s_all (push_bit (LENGTH('h) - b) (s_high a) OR drop_bit b (s_low a)) (drop_bit b (s_high a) :: 'h::len word) = (drop_bit b a :: 'w::len word)"
proof (rule bit_word_eqI)
  fix n
  assume n: "n < LENGTH('w)"
  have "LENGTH('h) + (b + (n - LENGTH('h))) = b + n" if "LENGTH('h) \<le> n" using that by simp
  moreover have "LENGTH('h) + (n - (LENGTH('h) - b)) = b + n" if "LENGTH('h) \<le> b + n" using that assms(2) by simp
  ultimately show "bit (s_all (push_bit (LENGTH('h) - b) (s_high a) OR drop_bit b (s_low a)) (drop_bit b (s_high a) :: 'h word) :: 'w word) n = bit (drop_bit b a) n"
    using n assms bit_imp_le_length [of a "b + n"] by (auto simp: bit_halves bit_push_bit_iff bit_or_iff bit_drop_bit_eq add.commute [of n b])
qed

lemma bit_sdrop: "n < LENGTH('a) \<Longrightarrow> bit (signed_drop_bit b (a :: 'a::len word)) n = bit a (if b + n < LENGTH('a) then b + n else LENGTH('a) - 1)"
  by (auto simp: bit_signed_drop_bit_iff not_less)

lemma sar_far:
  assumes "LENGTH('w) = LENGTH('h) + LENGTH('h)" "LENGTH('h) \<le> b"
  shows "s_all (signed_drop_bit (b - LENGTH('h)) (s_high a :: 'h::len word)) (signed_drop_bit (LENGTH('h) - 1) (s_high a)) = (signed_drop_bit b a :: 'w::len word)"
proof (rule bit_word_eqI)
  fix n
  assume n: "n < LENGTH('w)"
  have e: "LENGTH('h) + (b - LENGTH('h) + n) = b + n" "LENGTH('h) + (LENGTH('h) - 1) = LENGTH('w) - 1" using assms by simp_all
  show "bit (s_all (signed_drop_bit (b - LENGTH('h)) (s_high a :: 'h word)) (signed_drop_bit (LENGTH('h) - 1) (s_high a)) :: 'w word) n = bit (signed_drop_bit b a) n"
  proof (cases "n < LENGTH('h)")
    case True
    then show ?thesis using n assms e by (auto simp: bit_halves bit_sdrop)
  next
    case False
    then have "n - LENGTH('h) < LENGTH('h)" "\<not> b + n < LENGTH('w)" using n assms by simp_all
    then show ?thesis using False n e(2) by (auto simp: bit_halves bit_sdrop)
  qed
qed

lemma sar_near:
  assumes "LENGTH('w) = LENGTH('h) + LENGTH('h)" "b < LENGTH('h)"
  shows "s_all (push_bit (LENGTH('h) - b) (s_high a) OR drop_bit b (s_low a)) (signed_drop_bit b (s_high a) :: 'h::len word) = (signed_drop_bit b a :: 'w::len word)"
proof (rule bit_word_eqI)
  fix n
  assume n: "n < LENGTH('w)"
  have e: "LENGTH('h) + (LENGTH('h) - 1) = LENGTH('w) - 1" using assms by simp
  show "bit (s_all (push_bit (LENGTH('h) - b) (s_high a) OR drop_bit b (s_low a)) (signed_drop_bit b (s_high a) :: 'h word) :: 'w word) n = bit (signed_drop_bit b a) n"
  proof (cases "n < LENGTH('h)")
    case True
    have "LENGTH('h) + (n - (LENGTH('h) - b)) = b + n" if "LENGTH('h) \<le> b + n" using that assms(2) by simp
    then show ?thesis using True n assms by (auto simp: bit_halves bit_sdrop bit_push_bit_iff bit_or_iff bit_drop_bit_eq add.commute [of n b])
  next
    case False
    then have "n - LENGTH('h) < LENGTH('h)" "LENGTH('h) + (b + (n - LENGTH('h))) = b + n" "b + (n - LENGTH('h)) < LENGTH('h) \<longleftrightarrow> b + n < LENGTH('w)"
      using n assms by auto
    then show ?thesis using False n e by (auto simp: bit_halves bit_sdrop)
  qed
qed

text \<open>The routines.\<close>

lemma ashldi3_eq: "b < 64 \<Longrightarrow> ashldi3 a b = push_bit b a"
  using shl_far [where 'w = 64 and 'h = 32, of b a] shl_near [where 'w = 64 and 'h = 32, of b a]
  by (simp add: ashldi3_def Let_def shift_test)

lemma ashlti3_eq: "b < 128 \<Longrightarrow> ashlti3 a b = push_bit b a"
  using shl_far [where 'w = 128 and 'h = 64, of b a] shl_near [where 'w = 128 and 'h = 64, of b a]
  by (simp add: ashlti3_def Let_def shift_test)

lemma lshrdi3_eq: "b < 64 \<Longrightarrow> lshrdi3 a b = drop_bit b a"
  using shr_far [where 'w = 64 and 'h = 32, of b a] shr_near [where 'w = 64 and 'h = 32, of b a]
  by (simp add: lshrdi3_def Let_def shift_test)

lemma lshrti3_eq: "b < 128 \<Longrightarrow> lshrti3 a b = drop_bit b a"
  using shr_far [where 'w = 128 and 'h = 64, of b a] shr_near [where 'w = 128 and 'h = 64, of b a]
  by (simp add: lshrti3_def Let_def shift_test)

lemma ashrdi3_eq: "b < 64 \<Longrightarrow> ashrdi3 a b = signed_drop_bit b a"
  using sar_far [where 'w = 64 and 'h = 32, of b a] sar_near [where 'w = 64 and 'h = 32, of b a]
  by (simp add: ashrdi3_def Let_def shift_test)

lemma ashrti3_eq: "b < 128 \<Longrightarrow> ashrti3 a b = signed_drop_bit b a"
  using sar_far [where 'w = 128 and 'h = 64, of b a] sar_near [where 'w = 128 and 'h = 64, of b a]
  by (simp add: ashrti3_def Let_def shift_test)

end
