(* ===== verification/CRT_Mul.thy ===== *)
theory CRT_Mul
  imports CRT_Halves
begin

text \<open>
  Products and comparisons through the halves, as arithmetic on the numbers the halves
  stand for.
\<close>

section \<open>Halves as numbers\<close>

lemma unat_s_low: "unat (s_low (x :: 'w::len word) :: 'h::len word) = unat x mod 2 ^ LENGTH('h)"
  by (simp add: s_low_def unsigned_ucast_eq take_bit_eq_mod)

lemma unat_drop: "unat (drop_bit n (x :: 'a::len word)) = unat x div 2 ^ n"
  unfolding unat_drop_bit_eq by (rule drop_bit_eq_div)

lemma unat_s_high:
  assumes "LENGTH('w) = LENGTH('h) + LENGTH('h)"
  shows "unat (s_high (x :: 'w::len word) :: 'h::len word) = unat x div 2 ^ LENGTH('h)"
proof -
  have "unat x < 2 ^ LENGTH('h) * 2 ^ LENGTH('h)" using unsigned_less [of x] by (simp add: assms power_add)
  then have "unat x div 2 ^ LENGTH('h) < 2 ^ LENGTH('h)" by (simp add: less_mult_imp_div_less)
  then show ?thesis by (simp add: s_high_def unsigned_ucast_eq unat_drop take_bit_eq_mod)
qed

lemma unat_word_of_nat: "n < 2 ^ LENGTH('a) \<Longrightarrow> unat (word_of_nat n :: 'a::len word) = n"
  by (simp add: unat_of_nat)

lemma unat_s_all:
  assumes "LENGTH('w) = LENGTH('h) + LENGTH('h)"
  shows "unat (s_all l h :: 'w::len word) = unat l + unat (h :: 'h::len word) * 2 ^ LENGTH('h)"
proof -
  have l: "unat l < 2 ^ LENGTH('h)" and h: "unat h < 2 ^ LENGTH('h)" by simp_all
  have "unat h * 2 ^ LENGTH('h) + 2 ^ LENGTH('h) \<le> 2 ^ LENGTH('h) * 2 ^ LENGTH('h)"
    using h by (metis Suc_leI add.commute mult_Suc mult_le_mono1)
  then have b: "unat l + unat h * 2 ^ LENGTH('h) < 2 ^ LENGTH('w)" using l unfolding assms power_add by linarith
  have "(ucast l :: 'w word) AND push_bit LENGTH('h) (ucast h) = 0"
    by (rule bit_word_eqI) (auto simp: bit_simps dest: bit_imp_le_length)
  then have "(s_all l h :: 'w word) = ucast l + push_bit LENGTH('h) (ucast h)"
    by (simp add: s_all_def disjunctive_add_eq_or)
  also have "\<dots> = word_of_nat (unat l + unat h * 2 ^ LENGTH('h))"
    by (simp add: push_bit_eq_mult)
  finally show ?thesis using unat_word_of_nat [OF b] by metis
qed

lemma halves_eq:
  assumes "LENGTH('w) = LENGTH('h) + LENGTH('h)"
  shows "unat (x :: 'w::len word) = unat (s_low x :: 'h::len word) + unat (s_high x :: 'h word) * 2 ^ LENGTH('h)"
  using mod_mult_div_eq [of "unat x" "2 ^ LENGTH('h)"] by (simp add: unat_s_low unat_s_high [OF assms] mult.commute)

section \<open>Products\<close>

text \<open>
  Schoolbook multiplication in base \<open>B\<close> with the carries of the source, on numbers; no
  intermediate sum reaches \<open>B * B\<close>.
\<close>

lemma schoolbook:
  fixes B xl xh yl yh :: nat
  assumes "xl < B" "xh < B" "yl < B" "yh < B"
  defines "t1 \<equiv> xl * yl div B + xh * yl"
  defines "t3 \<equiv> t1 mod B + yh * xl"
  shows "t1 < B * B" "t3 < B * B" "xl * yl mod B + t1 mod B * B < B * B" "(xl * yl mod B + t1 mod B * B) div B = t1 mod B"
    "(xl * yl mod B + t1 mod B * B) mod B = xl * yl mod B" "xl * yl mod B + t3 mod B * B < B * B"
    "xl * yl mod B + t3 mod B * B + (t1 div B + t3 div B + xh * yh) * (B * B) = (xl + xh * B) * (yl + yh * B)"
    "t1 div B + t3 div B + xh * yh < B * B"
proof -
  have B: "0 < B" using assms(1) by simp
  have sq: "(B - 1) * (B - 1) + (B - 1) < B * B" using B by (cases B) simp_all
  have pr: "u * v \<le> (B - 1) * (B - 1)" if "u < B" "v < B" for u v using that by (intro mult_mono) simp_all
  have "xl * yl < B * B" using pr [OF assms(1,3)] sq by linarith
  then have "xl * yl div B < B" by (simp add: less_mult_imp_div_less)
  then show t1: "t1 < B * B" using pr [OF assms(2,3)] sq unfolding t1_def by linarith
  have "t1 mod B < B" using B by simp
  then show "t3 < B * B" using pr [OF assms(4,1)] sq unfolding t3_def by linarith
  have low: "u mod B + v mod B * B < B * B" for u v
  proof -
    have "u mod B < B" "v mod B \<le> B - 1" using B by (simp_all add: Suc_leI less_Suc_eq_le [symmetric])
    moreover from this have "v mod B * B \<le> (B - 1) * B" by (intro mult_right_mono) simp_all
    moreover have "(B - 1) * B + B = B * B" using B by (cases B) simp_all
    ultimately show ?thesis by linarith
  qed
  show "xl * yl mod B + t1 mod B * B < B * B" "xl * yl mod B + t3 mod B * B < B * B" by (rule low)+
  show "(xl * yl mod B + t1 mod B * B) div B = t1 mod B" "(xl * yl mod B + t1 mod B * B) mod B = xl * yl mod B" using B by simp_all
  have e: "B * B * (t1 div B) + B * (t1 mod B) = B * t1" "B * B * (t3 div B) + B * (t3 mod B) = B * t3"
    "B * (xl * yl div B) + xl * yl mod B = xl * yl"
    by (simp_all flip: distrib_left add: mult.assoc)
  have "xl * yl mod B + t3 mod B * B + (t1 div B + t3 div B + xh * yh) * (B * B)
      = xl * yl mod B + (B * B * (t3 div B) + B * (t3 mod B)) + B * B * (t1 div B) + xh * yh * (B * B)"
    by (simp add: algebra_simps)
  also have "\<dots> = xl * yl mod B + B * t3 + B * B * (t1 div B) + xh * yh * (B * B)" unfolding e(2) ..
  also have "\<dots> = xl * yl mod B + B * (yh * xl) + (B * B * (t1 div B) + B * (t1 mod B)) + xh * yh * (B * B)"
    unfolding t3_def by (simp add: algebra_simps)
  also have "\<dots> = xl * yl mod B + B * (yh * xl) + B * t1 + xh * yh * (B * B)" unfolding e(1) ..
  also have "\<dots> = (B * (xl * yl div B) + xl * yl mod B) + B * (yh * xl) + B * (xh * yl) + xh * yh * (B * B)"
    unfolding t1_def by (simp add: algebra_simps)
  also have "\<dots> = (xl + xh * B) * (yl + yh * B)" unfolding e(3) by (simp add: algebra_simps)
  finally show eq: "xl * yl mod B + t3 mod B * B + (t1 div B + t3 div B + xh * yh) * (B * B) = (xl + xh * B) * (yl + yh * B)" .
  have bnd: "u + v * B \<le> B * B - 1" if "u < B" "v < B" for u v
    using low [of u v] that by simp
  have "(xl + xh * B) * (yl + yh * B) \<le> (B * B - 1) * (B * B - 1)"
    using bnd [OF assms(1,2)] bnd [OF assms(3,4)] by (rule mult_mono) simp_all
  also have "\<dots> < B * B * (B * B)" using B by (intro mult_strict_mono) simp_all
  finally have "(t1 div B + t3 div B + xh * yh) * (B * B) < B * B * (B * B)" using eq by linarith
  then show "t1 div B + t3 div B + xh * yh < B * B" using B by simp
qed

lemma unat_add_small: "unat x + unat y < 2 ^ LENGTH('a) \<Longrightarrow> unat (x + y :: 'a::len word) = unat x + unat y"
  by (simp add: unat_word_ariths)

lemma unat_mult_small: "unat x * unat y < 2 ^ LENGTH('a) \<Longrightarrow> unat (x * y :: 'a::len word) = unat x * unat y"
  by (simp add: unat_word_ariths)

lemma unat_push_small: "unat x * 2 ^ n < 2 ^ LENGTH('a) \<Longrightarrow> unat (push_bit n (x :: 'a::len word)) = unat x * 2 ^ n"
  unfolding unsigned_push_bit_eq by (simp add: push_bit_eq_mult take_bit_eq_mod)

text \<open>The body shared by \<open>muldsi3\<close> and \<open>mulddi3\<close>.\<close>

definition mul_halves :: "nat \<Rightarrow> 'h::len word \<Rightarrow> 'h word \<Rightarrow> 'h word \<times> 'h word" where
  "mul_halves q a b =
     (let lower_mask = drop_bit q (NOT 0) :: 'h word;
          low0 = (a AND lower_mask) * (b AND lower_mask);
          t0 = drop_bit q low0;
          low1 = low0 AND lower_mask;
          t1 = t0 + drop_bit q a * (b AND lower_mask);
          low2 = low1 + push_bit q (t1 AND lower_mask);
          high2 = drop_bit q t1;
          t2 = drop_bit q low2;
          low3 = low2 AND lower_mask;
          t3 = t2 + drop_bit q b * (a AND lower_mask);
          low4 = low3 + push_bit q (t3 AND lower_mask);
          high4 = high2 + drop_bit q t3
      in (low4, high4 + drop_bit q a * drop_bit q b))"

lemma unat_lower_mask:
  assumes "LENGTH('h) = q + q"
  shows "unat (x AND drop_bit q (NOT 0) :: 'h::len word) = unat x mod 2 ^ q"
proof -
  have "(drop_bit q (NOT 0) :: 'h word) = mask q"
    by (rule bit_word_eqI) (use assms in \<open>auto simp: bit_simps\<close>)
  then have "x AND drop_bit q (NOT 0) = take_bit q x" by (simp only: take_bit_eq_mask)
  then show ?thesis by (simp only: unsigned_take_bit_eq) (rule take_bit_eq_mod)
qed

lemma mul_halves_spec:
  fixes a b :: "'h::len word"
  assumes len: "LENGTH('h) = q + q" and m: "mul_halves q a b = (l, h)"
  shows "unat l + unat h * 2 ^ LENGTH('h) = unat a * unat b"
proof -
  define B :: nat where "B = 2 ^ q"
  have BB: "2 ^ LENGTH('h) = B * B" by (simp add: B_def len power_add)
  define xl where "xl = unat a mod B" define xh where "xh = unat a div B"
  define yl where "yl = unat b mod B" define yh where "yh = unat b div B"
  have "unat a < 2 ^ LENGTH('h)" "unat b < 2 ^ LENGTH('h)" by simp_all
  then have "unat a < B * B" "unat b < B * B" unfolding BB .
  then have lt: "xl < B" "xh < B" "yl < B" "yh < B"
    by (simp_all add: xl_def xh_def yl_def yh_def B_def less_mult_imp_div_less)
  note sb = schoolbook [OF lt]
  note dr = unat_drop [of q, where 'a = 'h, folded B_def]
  define M where "M = (drop_bit q (NOT 0) :: 'h word)"
  have mk: "unat (x AND M) = unat x mod B" for x unfolding M_def B_def by (rule unat_lower_mask [OF len])
  define low0 where "low0 = (a AND M) * (b AND M)"
  have "xl * yl < B * B" using lt by (intro mult_strict_mono) simp_all
  then have low0: "unat low0 = xl * yl" unfolding low0_def by (subst unat_mult_small) (simp_all add: mk BB xl_def yl_def)
  define t1 where "t1 = drop_bit q low0 + drop_bit q a * (b AND M)"
  have "xh * yl < B * B" using lt by (intro mult_strict_mono) simp_all
  then have "unat (drop_bit q a * (b AND M)) = xh * yl" by (subst unat_mult_small) (simp_all add: mk dr BB xh_def yl_def)
  then have t1: "unat t1 = xl * yl div B + xh * yl" unfolding t1_def using sb(1) by (subst unat_add_small) (simp_all add: dr low0 BB)
  define low2 where "low2 = (low0 AND M) + push_bit q (t1 AND M)"
  have p: "unat (push_bit q (t AND M)) = unat t mod B * B" for t
  proof -
    have "unat t mod B * B < B * B" using lt by (intro mult_strict_right_mono) simp_all
    then show ?thesis using unat_push_small [of "t AND M" q] by (simp add: mk BB del: push_bit_and flip: B_def)
  qed
  have low2: "unat low2 = xl * yl mod B + unat t1 mod B * B"
    unfolding low2_def using sb(3) by (subst unat_add_small) (simp_all add: p t1 mk low0 BB del: push_bit_and)
  define t3 where "t3 = drop_bit q low2 + drop_bit q b * (a AND M)"
  have "yh * xl < B * B" using lt by (intro mult_strict_mono) simp_all
  then have "unat (drop_bit q b * (a AND M)) = yh * xl" by (subst unat_mult_small) (simp_all add: mk dr BB yh_def xl_def)
  then have t3: "unat t3 = unat t1 mod B + yh * xl"
    unfolding t3_def using sb(2,4) by (subst unat_add_small) (simp_all add: dr low2 t1 BB)
  have l: "l = (low2 AND M) + push_bit q (t3 AND M)" and h: "h = drop_bit q t1 + drop_bit q t3 + drop_bit q a * drop_bit q b"
    using m by (simp_all add: mul_halves_def Let_def t3_def low2_def t1_def low0_def M_def)
  have ul: "unat l = xl * yl mod B + unat t3 mod B * B"
    unfolding l using sb(5,6) by (subst unat_add_small) (simp_all add: p t1 t3 mk low2 BB del: push_bit_and)
  have "xh * yh < B * B" using lt by (intro mult_strict_mono) simp_all
  then have "unat (drop_bit q a * drop_bit q b) = xh * yh" by (subst unat_mult_small) (simp_all add: dr BB xh_def yh_def)
  moreover have "unat (drop_bit q t1 + drop_bit q t3) = unat t1 div B + unat t3 div B"
    using sb(8) by (subst unat_add_small) (simp_all add: dr t1 t3 BB)
  ultimately have uh: "unat h = unat t1 div B + unat t3 div B + xh * yh"
    unfolding h using sb(8) by (subst unat_add_small) (simp_all add: t1 t3 BB)
  have "unat a = xl + xh * B" "unat b = yl + yh * B" by (simp_all add: xl_def xh_def yl_def yh_def)
  then show ?thesis using sb(7) by (simp add: ul uh t1 t3 BB)
qed

lemma join_mod: "l < H \<Longrightarrow> l + k mod H * H = (l + k * H) mod (H * H)" for l k H :: nat
  by (simp add: mod_mult2_eq)

text \<open>The double-width product modulo the double word.\<close>

lemma mul_wide:
  fixes a b :: "'w::len word" and l h :: "'h::len word"
  assumes len: "LENGTH('w) = LENGTH('h) + LENGTH('h)"
    and p: "unat l + unat h * 2 ^ LENGTH('h) = unat (s_low a :: 'h word) * unat (s_low b :: 'h word)"
  shows "s_all l (h + (s_high a * s_low b + s_low a * s_high b)) = a * b"
proof -
  define H :: nat where "H = 2 ^ LENGTH('h)"
  have HH: "2 ^ LENGTH('w) = H * H" by (simp add: H_def len power_add)
  let ?xl = "unat (s_low a :: 'h word)" and ?xh = "unat (s_high a :: 'h word)"
  let ?yl = "unat (s_low b :: 'h word)" and ?yh = "unat (s_high b :: 'h word)"
  have ab: "unat a = ?xl + ?xh * H" "unat b = ?yl + ?yh * H" using halves_eq [OF len] by (simp_all add: H_def)
  have "unat (h + (s_high a * s_low b + s_low a * s_high b)) = (unat h + (?xh * ?yl + ?xl * ?yh)) mod H"
    by (simp add: unat_word_ariths H_def mod_simps)
  then have "unat (s_all l (h + (s_high a * s_low b + s_low a * s_high b)) :: 'w word)
      = unat l + (unat h + (?xh * ?yl + ?xl * ?yh)) mod H * H" by (simp add: unat_s_all [OF len] H_def)
  also have "\<dots> = (unat l + (unat h + (?xh * ?yl + ?xl * ?yh)) * H) mod (H * H)"
    by (rule join_mod) (simp add: H_def)
  also have "\<dots> = (?xl * ?yl + (?xh * ?yl + ?xl * ?yh) * H) mod (H * H)"
    unfolding p [folded H_def, symmetric] by (simp add: distrib_right add.assoc)
  also have "\<dots> = (unat a * unat b) mod (H * H)"
  proof -
    have "unat a * unat b = (?xl * ?yl + (?xh * ?yl + ?xl * ?yh) * H) + ?xh * ?yh * (H * H)"
      unfolding ab by (simp add: algebra_simps)
    then show ?thesis by simp
  qed
  also have "\<dots> = unat (a * b)" by (simp add: unat_word_ariths HH)
  finally show ?thesis by (simp add: word_unat_eq_iff)
qed

lemma muldsi3_halves: "muldsi3 a b = (case mul_halves 16 a b of (l, h) \<Rightarrow> s_all l h)"
  by (simp add: muldsi3_def mul_halves_def Let_def)

lemma mulddi3_halves: "mulddi3 a b = (case mul_halves 32 a b of (l, h) \<Rightarrow> s_all l h)"
  by (simp add: mulddi3_def mul_halves_def Let_def)

lemma unat_muldsi3: "unat (muldsi3 a b) = unat a * unat b"
  using mul_halves_spec [of 16 a b] by (cases "mul_halves 16 a b") (simp add: muldsi3_halves unat_s_all)

lemma unat_mulddi3: "unat (mulddi3 a b) = unat a * unat b"
  using mul_halves_spec [of 32 a b] by (cases "mul_halves 32 a b") (simp add: mulddi3_halves unat_s_all)

lemma muldi3_eq: "muldi3 a b = a * b"
  unfolding muldi3_def Let_def
  by (rule mul_wide) (simp_all add: unat_muldsi3 flip: halves_eq [where 'w = 64 and 'h = 32, simplified])

lemma multi3_eq: "multi3 a b = a * b"
  unfolding multi3_def Let_def
  by (rule mul_wide) (simp_all add: unat_mulddi3 flip: halves_eq [where 'w = 128 and 'h = 64, simplified])

section \<open>Comparisons\<close>

lemma lex_less:
  fixes xl yl xh yh H :: int
  assumes "0 \<le> xl" "xl < H" "0 \<le> yl" "yl < H"
  shows "xl + xh * H < yl + yh * H \<longleftrightarrow> xh < yh \<or> xh = yh \<and> xl < yl"
proof -
  have mono: "u + a * H < v + b * H" if "a < b" "u < H" "0 \<le> v" for u v a b
  proof -
    have "(a + 1) * H \<le> b * H" using that assms by (intro mult_right_mono) simp_all
    then show ?thesis using that by (simp add: distrib_right)
  qed
  show ?thesis
  proof (cases xh yh rule: linorder_cases)
    case less
    then show ?thesis using mono [OF less assms(2,3)] by simp
  next
    case greater
    then show ?thesis using mono [OF greater assms(4,1)] by simp
  qed simp
qed

lemma uint_halves:
  assumes "LENGTH('w) = LENGTH('h) + LENGTH('h)"
  shows "uint (x :: 'w::len word) = uint (s_low x :: 'h::len word) + uint (s_high x :: 'h word) * 2 ^ LENGTH('h)"
  using halves_eq [OF assms, of x] by (metis of_nat_add of_nat_mult of_nat_numeral of_nat_power of_nat_unat)

lemma top_bit_s_high:
  assumes "LENGTH('w) = LENGTH('h) + LENGTH('h)"
  shows "bit (s_high (x :: 'w::len word) :: 'h::len word) (LENGTH('h) - 1) = bit x (LENGTH('w) - 1)"
proof -
  have "LENGTH('h) + (LENGTH('h) - 1) = LENGTH('w) - 1" using assms len_gt_0 [where 'a = 'h] by linarith
  then show ?thesis by (simp add: s_high_def bit_simps)
qed

lemma sint_top: "sint (x :: 'a::len word) = uint x - (if bit x (LENGTH('a) - 1) then 2 ^ LENGTH('a) else 0)"
proof -
  have b: "bit x (LENGTH('a) - 1) \<longleftrightarrow> sint x < 0" using bit_last_iff [of x] by simp
  have u: "uint x = sint x mod 2 ^ LENGTH('a)" using uint_sint [of x] by (simp only: take_bit_eq_mod)
  have lt: "sint x < 2 ^ LENGTH('a)" "- (2 ^ LENGTH('a)) \<le> sint x"
    using sint_fits [of x] two_halves [where 'a = 'a] by (auto simp: fits_def)
  show ?thesis
  proof (cases "sint x < 0")
    case True
    then have "sint x mod 2 ^ LENGTH('a) = sint x + 2 ^ LENGTH('a)"
      using lt mod_pos_pos_trivial [of "sint x + 2 ^ LENGTH('a)" "2 ^ LENGTH('a)"] by simp
    then show ?thesis using True b u by simp
  next
    case False
    then show ?thesis using b u lt by simp
  qed
qed

lemma sint_halves:
  assumes "LENGTH('w) = LENGTH('h) + LENGTH('h)"
  shows "sint (x :: 'w::len word) = uint (s_low x :: 'h::len word) + sint (s_high x :: 'h word) * 2 ^ LENGTH('h)"
  unfolding sint_top top_bit_s_high [OF assms] uint_halves [OF assms] by (simp add: assms power_add left_diff_distrib)

text \<open>The answer 0, 1, 2 of the four comparison routines.\<close>

definition three_way :: "int \<Rightarrow> int \<Rightarrow> nat" where
  "three_way x y = (if x < y then 0 else if x = y then 1 else 2)"

lemma lex_three_way:
  assumes "0 \<le> xl" "xl < H" "0 \<le> yl" "yl < H"
  shows "(if xh < yh then 0 else if yh < xh then 2 else if xl < yl then 0 else if yl < xl then 2 else 1)
    = three_way (xl + xh * H) (yl + yh * H)"
  using lex_less [OF assms, of xh yh] lex_less [OF assms(3,4,1,2), of yh xh]
  by (cases xh yh rule: linorder_cases; cases xl yl rule: linorder_cases) (use assms in \<open>auto simp: three_way_def\<close>)

lemma ucmp_halves:
  fixes a b :: "'w::len word"
  assumes len: "LENGTH('w) = LENGTH('h::len) + LENGTH('h)"
  shows "(if s_high a < (s_high b :: 'h word) then 0 else if s_high b < (s_high a :: 'h word) then 2
     else if s_low a < (s_low b :: 'h word) then 0 else if s_low b < (s_low a :: 'h word) then 2 else 1)
     = three_way (uint a) (uint b)"
  unfolding word_less_def uint_halves [OF len, of a] uint_halves [OF len, of b] by (rule lex_three_way) simp_all

lemma cmp_halves:
  fixes a b :: "'w::len word"
  assumes len: "LENGTH('w) = LENGTH('h::len) + LENGTH('h)"
  shows "(if s_high a <s (s_high b :: 'h word) then 0 else if s_high b <s (s_high a :: 'h word) then 2
     else if s_low a < (s_low b :: 'h word) then 0 else if s_low b < (s_low a :: 'h word) then 2 else 1)
     = three_way (sint a) (sint b)"
  unfolding word_less_def word_sless_alt sint_halves [OF len, of a] sint_halves [OF len, of b] by (rule lex_three_way) simp_all

lemmas cmp_eqs =
  ucmp_halves [where 'w = 64 and 'h = 32, simplified] ucmp_halves [where 'w = 128 and 'h = 64, simplified]
  cmp_halves [where 'w = 64 and 'h = 32, simplified] cmp_halves [where 'w = 128 and 'h = 64, simplified]

lemma ucmpdi2_eq: "ucmpdi2 a b = three_way (uint a) (uint b)" unfolding ucmpdi2_def Let_def by (rule cmp_eqs)
lemma ucmpti2_eq: "ucmpti2 a b = three_way (uint a) (uint b)" unfolding ucmpti2_def Let_def by (rule cmp_eqs)
lemma cmpdi2_eq: "cmpdi2 a b = three_way (sint a) (sint b)" unfolding cmpdi2_def Let_def by (rule cmp_eqs)
lemma cmpti2_eq: "cmpti2 a b = three_way (sint a) (sint b)" unfolding cmpti2_def Let_def by (rule cmp_eqs)

end
