(* ===== verification/CRT_Bits.thy ===== *)
theory CRT_Bits
  imports CRT_Mul
begin

text \<open>
  Counting leading zeros, trailing zeros and set bits: the word routines against recursive
  counts on numbers.
\<close>

section \<open>Conjunction of numbers by digits\<close>

lemma and_join:
  fixes a b c d :: nat
  assumes "a < 2 ^ j" "c < 2 ^ j"
  shows "(a + 2 ^ j * b) AND (c + 2 ^ j * d) = (a AND c) + 2 ^ j * (b AND d)"
proof -
  let ?l = "(a + 2 ^ j * b) AND (c + 2 ^ j * d)"
  have "?l mod 2 ^ j = a AND c" using assms by (simp flip: take_bit_eq_mod) (simp add: take_bit_eq_mod)
  moreover have "?l div 2 ^ j = b AND d" using assms by (simp flip: drop_bit_eq_div) (simp add: drop_bit_eq_div)
  ultimately show ?thesis using mod_mult_div_eq [of ?l "2 ^ j"] by simp
qed

lemma and_low: "(a + 2 ^ j * b) AND (2 ^ j - 1) = a" if "a < 2 ^ j" for a b :: nat
proof -
  have "(a + 2 ^ j * b) AND mask j = take_bit j (a + 2 ^ j * b)" by (simp add: take_bit_eq_mask)
  then show ?thesis using that by (simp add: mask_eq_exp_minus_1 take_bit_eq_mod)
qed

lemma unat_and: "unat (x AND y) = (unat x AND unat y)" by (rule unsigned_and_eq)

section \<open>Leading zeros\<close>

text \<open>The number of bits of a number.\<close>

fun bitlen :: "nat \<Rightarrow> nat" where
  "bitlen n = (if n = 0 then 0 else Suc (bitlen (n div 2)))"

declare bitlen.simps [simp del]

lemma bitlen_0 [simp]: "bitlen 0 = 0" by (simp add: bitlen.simps [of 0])

lemma bitlen_le: "bitlen n \<le> k \<longleftrightarrow> n < 2 ^ k"
proof (induction n arbitrary: k rule: bitlen.induct)
  case (1 n)
  show ?case
  proof (cases "n = 0 \<or> k = 0")
    case True
    then show ?thesis by (cases "n = 0") (simp_all add: bitlen.simps [of n])
  next
    case False
    then obtain j where "k = Suc j" by (cases k) auto
    with False 1 show ?thesis by (simp add: bitlen.simps [of n] div_less_iff_less_mult mult.commute)
  qed
qed

lemma bitlen_div: "bitlen (n div 2 ^ k) = bitlen n - k"
proof (induction k)
  case (Suc k)
  have "bitlen (m div 2) = bitlen m - 1" for m by (cases "m = 0") (simp_all add: bitlen.simps [of m])
  then show ?case using Suc by (simp add: div_mult2_eq mult.commute [of 2])
qed simp

lemma bitlen_eq: "2 ^ k \<le> n \<Longrightarrow> n < 2 ^ Suc k \<Longrightarrow> bitlen n = Suc k"
  using bitlen_le [of n k] bitlen_le [of n "Suc k"] by linarith

lemma bitlen_word: "bitlen (unat (x :: 'a::len word)) \<le> LENGTH('a)"
  by (simp add: bitlen_le)

lemma bitlen_pos: "n \<noteq> 0 \<Longrightarrow> 0 < bitlen n" by (simp add: bitlen.simps [of n])

lemma length_takeWhile_rev:
  assumes "P k" "k < n" "\<forall>i<n. k < i \<longrightarrow> \<not> P i"
  shows "length (takeWhile (\<lambda>i. \<not> P i) (rev [0..<n])) = n - Suc k"
  using assms by (induction n) (auto simp: less_Suc_eq)

lemma bit_unat: "bit x i = bit (unat x) i" for x :: "'a::len word"
  by (simp add: bit_unsigned_iff)

lemma builtin_clz_eq: "builtin_clz (x :: 'a::len word) = LENGTH('a) - bitlen (unat x)"
proof (cases "x = 0")
  case True
  then show ?thesis by (simp add: builtin_clz_def takeWhile_eq_all_conv [THEN iffD2])
next
  case False
  define k where "k = bitlen (unat x) - 1"
  have p: "bitlen (unat x) = Suc k" using bitlen_pos [of "unat x"] False unfolding k_def by (simp add: unat_eq_zero)
  have kl: "k < LENGTH('a)" using bitlen_word [of x] p by simp
  have ge: "2 ^ k \<le> unat x" and lt: "unat x < 2 ^ Suc k"
    using bitlen_le [of "unat x" k] bitlen_le [of "unat x" "Suc k"] p by auto
  have "unat x div 2 ^ k = 1" using ge lt by (intro div_nat_eqI) simp_all
  then have b: "bit x k" by (simp add: bit_unat bit_iff_odd)
  have nb: "\<not> bit x i" if "k < i" for i
  proof -
    have "(2::nat) ^ Suc k \<le> 2 ^ i" using that by (intro power_increasing) simp_all
    then show ?thesis using lt by (simp add: bit_unat bit_iff_odd)
  qed
  show ?thesis unfolding builtin_clz_def p using length_takeWhile_rev [of "bit x" k "LENGTH('a)"] b kl nb by simp
qed

section \<open>The binary search of \<open>__clzsi2\<close>\<close>

lemma test_high:
  fixes x :: "'a::len word"
  assumes "unat x < 2 ^ (k + k)"
  shows "x AND push_bit k (mask k) = 0 \<longleftrightarrow> unat x < 2 ^ k"
proof -
  have "x AND push_bit k (mask k) = push_bit k (take_bit k (drop_bit k x))"
    by (rule bit_word_eqI) (auto simp: bit_simps)
  also have "take_bit k (drop_bit k x) = drop_bit k x"
  proof -
    have "unat (drop_bit k x) < 2 ^ k" using assms by (simp add: unat_drop less_mult_imp_div_less power_add)
    then have "take_bit k (unat (drop_bit k x)) = unat (drop_bit k x)" by (simp add: take_bit_nat_eq_self)
    then show ?thesis by (simp add: word_unat_eq_iff unsigned_take_bit_eq)
  qed
  finally have e: "x AND push_bit k (mask k) = push_bit k (drop_bit k x)" .
  have "push_bit k (drop_bit k x) = 0 \<longleftrightarrow> drop_bit k x = 0"
  proof
    assume z: "push_bit k (drop_bit k x) = 0"
    show "drop_bit k x = 0"
    proof (rule bit_word_eqI)
      fix i show "bit (drop_bit k x) i = bit 0 i"
        using arg_cong [OF z, of "\<lambda>w. bit w (i + k)"] by (auto simp: bit_simps add.commute dest: bit_imp_le_length)
    qed
  qed simp
  also have "\<dots> \<longleftrightarrow> unat x < 2 ^ k" by (simp add: word_unat_eq_iff unat_drop div_eq_0_iff)
  finally show ?thesis unfolding e .
qed

text \<open>One halving step: the count grows by what the shifted number loses.\<close>

lemma clz_step:
  fixes x :: "'a::len word"
  assumes "unat x < 2 ^ (k + k)" "m = push_bit k (mask k)"
  shows "(if x AND m = 0 then k else 0) + (k - bitlen (unat (drop_bit (k - (if x AND m = 0 then k else 0)) x)))
      = k + k - bitlen (unat x)"
    and "unat (drop_bit (k - (if x AND m = 0 then k else 0)) x) < 2 ^ k"
  using assms bitlen_le [of "unat x" k] bitlen_le [of "unat x" "k + k"]
  by (auto simp: test_high unat_drop bitlen_div less_mult_imp_div_less power_add)

lemma clz_last:
  fixes x :: "32 word"
  assumes "unat x < 4"
  shows "unat ((2 - x) AND (if x AND 2 = 0 then -1 else 0)) = 2 - bitlen (unat x)"
proof -
  have "unat x \<in> {0, 1, 2, 3}" using assms by auto
  then have "x = 0 \<or> x = 1 \<or> x = 2 \<or> x = 3" by (auto simp: word_unat_eq_iff)
  then show ?thesis by (auto simp: bitlen.simps [of 1] bitlen.simps [of 2] bitlen.simps [of 3] bitlen.simps [of "Suc 0"])
qed

lemma clzsi2_eq: "clzsi2 a = 32 - bitlen (unat a)"
proof -
  define t0 where "t0 = (if a AND 0xFFFF0000 = 0 then 16 else (0::nat))"
  define x1 where "x1 = drop_bit (16 - t0) a"
  define t1 where "t1 = (if x1 AND 0xFF00 = 0 then 8 else (0::nat))"
  define x2 where "x2 = drop_bit (8 - t1) x1"
  define t2 where "t2 = (if x2 AND 0xF0 = 0 then 4 else (0::nat))"
  define x3 where "x3 = drop_bit (4 - t2) x2"
  define t3 where "t3 = (if x3 AND 0xC = 0 then 2 else (0::nat))"
  define x4 where "x4 = drop_bit (2 - t3) x3"
  have m: "(0xFFFF0000 :: 32 word) = push_bit 16 (mask 16)" "(0xFF00 :: 32 word) = push_bit 8 (mask 8)"
    "(0xF0 :: 32 word) = push_bit 4 (mask 4)" "(0xC :: 32 word) = push_bit 2 (mask 2)"
    by (simp_all add: mask_eq_exp_minus_1 push_bit_eq_mult)
  have "unat a < 2 ^ (16 + 16)" using unsigned_less [of a] by simp
  note s1 = clz_step [OF this m(1), folded t0_def, folded x1_def]
  have "unat x1 < 2 ^ (8 + 8)" using s1(2) by simp
  note s2 = clz_step [OF this m(2), folded t1_def, folded x2_def]
  have "unat x2 < 2 ^ (4 + 4)" using s2(2) by simp
  note s3 = clz_step [OF this m(3), folded t2_def, folded x3_def]
  have "unat x3 < 2 ^ (2 + 2)" using s3(2) by simp
  note s4 = clz_step [OF this m(4), folded t3_def, folded x4_def]
  have l: "unat ((2 - x4) AND (if x4 AND 2 = 0 then -1 else 0)) = 2 - bitlen (unat x4)"
    using s4(2) by (intro clz_last) simp
  have "clzsi2 a = t0 + t1 + t2 + t3 + unat ((2 - x4) AND (if x4 AND 2 = 0 then -1 else 0))"
    unfolding clzsi2_def Let_def t0_def x1_def t1_def x2_def t2_def x3_def t3_def x4_def ..
  moreover have "t3 + (2 - bitlen (unat x4)) = 4 - bitlen (unat x3)" "t2 + (4 - bitlen (unat x3)) = 8 - bitlen (unat x2)"
    "t1 + (8 - bitlen (unat x2)) = 16 - bitlen (unat x1)" "t0 + (16 - bitlen (unat x1)) = 32 - bitlen (unat a)"
    using s4(1) s3(1) s2(1) s1(1) by simp_all
  ultimately show ?thesis by (simp only: l add.assoc)
qed

section \<open>Leading zeros through the halves\<close>

lemma bitlen_halves:
  fixes x :: "'w::len word"
  assumes len: "LENGTH('w) = LENGTH('h::len) + LENGTH('h)"
  shows "bitlen (unat x) = (if s_high x = (0 :: 'h word) then bitlen (unat (s_low x :: 'h word))
    else LENGTH('h) + bitlen (unat (s_high x :: 'h word)))"
proof -
  have "unat (s_high x :: 'h word) = unat x div 2 ^ LENGTH('h)" by (rule unat_s_high [OF len])
  then have b: "bitlen (unat (s_high x :: 'h word)) = bitlen (unat x) - LENGTH('h)" by (simp add: bitlen_div)
  show ?thesis
  proof (cases "s_high x = (0 :: 'h word)")
    case True
    then have "unat x = unat (s_low x :: 'h word)" using halves_eq [OF len, of x] by simp
    then show ?thesis using True by simp
  next
    case False
    then have "0 < bitlen (unat (s_high x :: 'h word))" by (intro bitlen_pos) (simp add: unat_eq_zero)
    then show ?thesis using False b by simp
  qed
qed

lemma clz_halves:
  fixes x :: "'w::len word"
  assumes len: "LENGTH('w) = LENGTH('h::len) + LENGTH('h)"
  shows "s_high x = (0 :: 'h word) \<Longrightarrow> builtin_clz (s_low x :: 'h word) + LENGTH('h) = LENGTH('w) - bitlen (unat x)"
    and "s_high x \<noteq> (0 :: 'h word) \<Longrightarrow> builtin_clz (s_high x :: 'h word) = LENGTH('w) - bitlen (unat x)"
  using bitlen_word [of "s_low x :: 'h word"]
  by (simp_all add: builtin_clz_eq bitlen_halves [OF len, of x] len)

lemma clzdi2_eq: "clzdi2 a = 64 - bitlen (unat a)"
  using clz_halves [where 'w = 64 and 'h = 32, of a] by (cases "s_high a = (0 :: 32 word)") (simp_all add: clzdi2_def)

lemma clzti2_eq: "clzti2 a = 128 - bitlen (unat a)"
  using clz_halves [where 'w = 128 and 'h = 64, of a] by (cases "s_high a = (0 :: 64 word)") (simp_all add: clzti2_def)

section \<open>Trailing zeros\<close>

text \<open>The exponent of 2 in a number, 0 for the number 0.\<close>

fun low_zeros :: "nat \<Rightarrow> nat" where
  "low_zeros n = (if n = 0 \<or> odd n then 0 else Suc (low_zeros (n div 2)))"

declare low_zeros.simps [simp del]

lemma low_zeros_mult: "n \<noteq> 0 \<Longrightarrow> low_zeros (2 ^ k * n) = k + low_zeros n"
proof (induction k)
  case (Suc k)
  have "low_zeros (2 * m) = Suc (low_zeros m)" if "m \<noteq> 0" for m using that by (subst low_zeros.simps) simp
  then show ?case using Suc by (simp add: mult.assoc)
qed simp

lemma low_zeros_odd [simp]: "odd n \<Longrightarrow> low_zeros n = 0" by (simp add: low_zeros.simps [of n])

lemma low_zeros_dvd: "n \<noteq> 0 \<Longrightarrow> \<exists>m. odd m \<and> n = 2 ^ low_zeros n * m"
proof (induction n rule: low_zeros.induct)
  case (1 n)
  show ?case
  proof (cases "odd n")
    case False
    then obtain m where "odd m" "n div 2 = 2 ^ low_zeros (n div 2) * m" using 1 by fastforce
    moreover have "low_zeros n = Suc (low_zeros (n div 2))" using 1(2) False by (simp add: low_zeros.simps [of n])
    moreover have "n = 2 * (n div 2)" using False by simp
    ultimately show ?thesis by (metis mult.assoc power_Suc)
  qed (use 1 in auto)
qed

lemma length_takeWhile_upt:
  "P (k :: nat) \<Longrightarrow> k < n \<Longrightarrow> \<forall>i<k. \<not> P i \<Longrightarrow> length (takeWhile (\<lambda>i. \<not> P i) [0..<n]) = k"
proof -
  assume a: "P k" "k < n" "\<forall>i<k. \<not> P i"
  then have "[0..<n] = [0..<k] @ k # [Suc k..<n]"
    using upt_add_eq_append [of 0 k "n - k"] upt_conv_Cons [of k n] by simp
  moreover have "takeWhile (\<lambda>i. \<not> P i) ([0..<k] @ k # [Suc k..<n]) = [0..<k]"
    using a by (subst takeWhile_append2) simp_all
  ultimately show ?thesis by simp
qed

lemma low_zeros_less: "n \<noteq> 0 \<Longrightarrow> n < 2 ^ k \<Longrightarrow> low_zeros n < k"
proof (rule ccontr)
  assume n: "n \<noteq> 0" "n < 2 ^ k" "\<not> low_zeros n < k"
  obtain m where m: "odd m" "n = 2 ^ low_zeros n * m" using low_zeros_dvd [OF n(1)] by blast
  have "(2::nat) ^ k \<le> 2 ^ low_zeros n" using n(3) by (intro power_increasing) simp_all
  also have "\<dots> \<le> n" by (subst (2) m(2)) (use m(1) in \<open>auto simp: Suc_le_eq odd_pos\<close>)
  finally show False using n(2) by simp
qed

lemma builtin_ctz_eq: "x \<noteq> 0 \<Longrightarrow> builtin_ctz (x :: 'a::len word) = low_zeros (unat x)"
proof -
  assume "x \<noteq> 0"
  then have n0: "unat x \<noteq> 0" by (simp add: unat_eq_zero)
  define k where "k = low_zeros (unat x)"
  obtain m where m: "odd m" "unat x = 2 ^ k * m" using low_zeros_dvd [OF n0] by (auto simp: k_def)
  have kl: "k < LENGTH('a)" unfolding k_def by (rule low_zeros_less [OF n0]) simp
  have "bit x k" using m by (simp add: bit_unat bit_iff_odd)
  moreover have "\<not> bit x i" if "i < k" for i
  proof -
    have "unat x = 2 ^ i * (2 ^ (k - i) * m)" using m(2) that by (simp flip: power_add mult.assoc)
    then show ?thesis using that by (simp add: bit_unat bit_iff_odd)
  qed
  ultimately show ?thesis unfolding builtin_ctz_def k_def [symmetric] using kl by (intro length_takeWhile_upt) simp_all
qed

lemma test_low: "x AND mask k = 0 \<longleftrightarrow> 2 ^ k dvd unat (x :: 'a::len word)"
proof -
  have "unat (x AND mask k) = unat x mod 2 ^ k"
    by (simp only: take_bit_eq_mask [symmetric] unsigned_take_bit_eq) (rule take_bit_eq_mod)
  then show ?thesis using unat_eq_zero [of "x AND mask k"] by (simp add: dvd_eq_mod_eq_0)
qed

text \<open>One step of \<open>__ctzsi2\<close>: the shifted number keeps a set bit among its low \<open>k\<close>.\<close>

lemma ctz_step:
  fixes x :: "'a::len word"
  assumes nd: "\<not> 2 ^ (k + k) dvd unat x" and m: "m = mask k"
  shows "(if x AND m = 0 then k else 0) + low_zeros (unat (drop_bit (if x AND m = 0 then k else 0) x)) = low_zeros (unat x)"
    and "\<not> 2 ^ k dvd unat (drop_bit (if x AND m = 0 then k else 0) x)"
proof -
  have "(k + low_zeros (unat x div 2 ^ k) = low_zeros (unat x)) \<and> \<not> 2 ^ k dvd unat x div 2 ^ k" if "2 ^ k dvd unat x"
  proof -
    from that obtain j where j: "unat x = 2 ^ k * j" by blast
    have "\<not> 2 ^ k dvd j" using nd by (simp add: j power_add)
    moreover from this have "j \<noteq> 0" by (metis dvd_0_right)
    ultimately show ?thesis using low_zeros_mult [of j k] by (simp add: j)
  qed
  then show "(if x AND m = 0 then k else 0) + low_zeros (unat (drop_bit (if x AND m = 0 then k else 0) x)) = low_zeros (unat x)"
    and "\<not> 2 ^ k dvd unat (drop_bit (if x AND m = 0 then k else 0) x)"
    by (auto simp: m test_low unat_drop)
qed

lemma low_zeros_mod_4: "\<not> 4 dvd n \<Longrightarrow> low_zeros n = low_zeros (n mod 4)"
proof -
  assume "\<not> 4 dvd n"
  then have "n mod 4 \<in> {1, 2, 3}" by (auto simp: dvd_eq_mod_eq_0)
  moreover have "n = 4 * (n div 4) + n mod 4" by simp
  moreover have "low_zeros (4 * k + 2) = 1" for k by (subst low_zeros.simps) simp
  moreover have "low_zeros 2 = 1" by (subst low_zeros.simps) simp
  moreover have "low_zeros (4 * k + 1) = 0" "low_zeros (4 * k + 3) = 0" for k by simp_all
  ultimately show ?thesis by (metis insertE low_zeros_odd odd_numeral odd_one singletonD)
qed

lemma ctz_last:
  fixes x :: "32 word"
  assumes "\<not> 4 dvd unat x"
  shows "unat ((2 - drop_bit 1 (x AND 3)) AND (if (x AND 3) AND 1 = 0 then -1 else 0)) = low_zeros (unat x)"
proof -
  define y where "y = x AND 3"
  have "y = take_bit 2 x" by (simp add: y_def take_bit_eq_mask mask_eq_exp_minus_1)
  then have u: "unat y = unat x mod 4" by (simp only: unsigned_take_bit_eq) (simp add: take_bit_eq_mod)
  then have "unat y \<in> {1, 2, 3}" using assms by (auto simp: dvd_eq_mod_eq_0)
  then have "y = 1 \<or> y = 2 \<or> y = 3" by (auto simp: word_unat_eq_iff)
  moreover have "low_zeros 2 = 1" by (subst low_zeros.simps) simp
  moreover have "low_zeros (unat x) = low_zeros (unat y)" using low_zeros_mod_4 [OF assms] u by simp
  ultimately show ?thesis unfolding y_def [symmetric] by auto
qed

lemma ctzsi2_eq: "a \<noteq> 0 \<Longrightarrow> ctzsi2 a = low_zeros (unat a)"
proof -
  assume a: "a \<noteq> 0"
  define t0 where "t0 = (if a AND 0x0000FFFF = 0 then 16 else (0::nat))"
  define x1 where "x1 = drop_bit t0 a"
  define t1 where "t1 = (if x1 AND 0x00FF = 0 then 8 else (0::nat))"
  define x2 where "x2 = drop_bit t1 x1"
  define t2 where "t2 = (if x2 AND 0x0F = 0 then 4 else (0::nat))"
  define x3 where "x3 = drop_bit t2 x2"
  define t3 where "t3 = (if x3 AND 0x3 = 0 then 2 else (0::nat))"
  define x4 where "x4 = drop_bit t3 x3"
  have m: "(0x0000FFFF :: 32 word) = mask 16" "(0x00FF :: 32 word) = mask 8"
    "(0x0F :: 32 word) = mask 4" "(0x3 :: 32 word) = mask 2"
    by (simp_all add: mask_eq_exp_minus_1)
  have "\<not> 2 ^ (16 + 16) dvd unat a" 
  proof
    assume "2 ^ (16 + 16) dvd unat a"
    then have "2 ^ (16 + 16) \<le> unat a" using a by (intro dvd_imp_le) (simp_all add: unat_eq_zero flip: neq0_conv)
    moreover have "unat a < 2 ^ LENGTH(32)" by (rule unsigned_less)
    ultimately show False by simp
  qed
  note s1 = ctz_step [OF this m(1), folded t0_def, folded x1_def]
  have "\<not> 2 ^ (8 + 8) dvd unat x1" using s1(2) by simp
  note s2 = ctz_step [OF this m(2), folded t1_def, folded x2_def]
  have "\<not> 2 ^ (4 + 4) dvd unat x2" using s2(2) by simp
  note s3 = ctz_step [OF this m(3), folded t2_def, folded x3_def]
  have "\<not> 2 ^ (2 + 2) dvd unat x3" using s3(2) by simp
  note s4 = ctz_step [OF this m(4), folded t3_def, folded x4_def]
  have l: "unat ((2 - drop_bit 1 (x4 AND 3)) AND (if (x4 AND 3) AND 1 = 0 then -1 else 0)) = low_zeros (unat x4)"
    using s4(2) by (intro ctz_last) simp
  have "ctzsi2 a = t0 + t1 + t2 + t3 + unat ((2 - drop_bit 1 (x4 AND 3)) AND (if (x4 AND 3) AND 1 = 0 then -1 else 0))"
    unfolding ctzsi2_def Let_def t0_def x1_def t1_def x2_def t2_def x3_def t3_def x4_def ..
  then show ?thesis by (simp only: l add.assoc s4(1) s3(1) s2(1) s1(1))
qed

lemma low_zeros_halves:
  fixes x :: "'w::len word"
  assumes len: "LENGTH('w) = LENGTH('h::len) + LENGTH('h)" and x: "x \<noteq> 0"
  shows "s_low x = (0 :: 'h word) \<Longrightarrow> s_high x \<noteq> (0 :: 'h word) \<and> builtin_ctz (s_high x :: 'h word) + LENGTH('h) = low_zeros (unat x)"
    and "s_low x \<noteq> (0 :: 'h word) \<Longrightarrow> builtin_ctz (s_low x :: 'h word) = low_zeros (unat x)"
proof -
  let ?l = "unat (s_low x :: 'h word)" and ?h = "unat (s_high x :: 'h word)"
  have e: "unat x = ?l + ?h * 2 ^ LENGTH('h)" by (rule halves_eq [OF len])
  {
    assume "s_low x = (0 :: 'h word)"
    with e x have "?h \<noteq> 0" "unat x = 2 ^ LENGTH('h) * ?h" by (auto simp: unat_eq_zero mult.commute)
    then show "s_high x \<noteq> (0 :: 'h word) \<and> builtin_ctz (s_high x :: 'h word) + LENGTH('h) = low_zeros (unat x)"
      using low_zeros_mult [of ?h "LENGTH('h)"] by (auto simp: builtin_ctz_eq unat_eq_zero)
  next
    assume l: "s_low x \<noteq> (0 :: 'h word)"
    then have n0: "?l \<noteq> 0" by (simp add: unat_eq_zero)
    obtain m where m: "odd m" "?l = 2 ^ low_zeros ?l * m" using low_zeros_dvd [OF n0] by blast
    have k: "low_zeros ?l < LENGTH('h)" by (rule low_zeros_less [OF n0]) simp
    have "unat x = 2 ^ low_zeros ?l * (m + 2 ^ (LENGTH('h) - low_zeros ?l) * ?h)"
      using k by (subst e, subst m(2)) (simp add: distrib_left mult.commute [of ?h] flip: power_add mult.assoc)
    moreover have "odd (m + 2 ^ (LENGTH('h) - low_zeros ?l) * ?h)" using m(1) k by simp
    ultimately have "low_zeros (unat x) = low_zeros ?l"
      using low_zeros_mult [of "m + 2 ^ (LENGTH('h) - low_zeros ?l) * ?h" "low_zeros ?l"] by (metis add_0_right even_zero low_zeros_odd)
    then show "builtin_ctz (s_low x :: 'h word) = low_zeros (unat x)" using l by (simp add: builtin_ctz_eq)
  }
qed

lemma ctzdi2_eq: "a \<noteq> 0 \<Longrightarrow> ctzdi2 a = low_zeros (unat a)"
  using low_zeros_halves [where 'w = 64 and 'h = 32, of a] by (cases "s_low a = (0 :: 32 word)") (simp_all add: ctzdi2_def)

lemma ctzti2_eq: "a \<noteq> 0 \<Longrightarrow> ctzti2 a = low_zeros (unat a)"
  using low_zeros_halves [where 'w = 128 and 'h = 64, of a] by (cases "s_low a = (0 :: 64 word)") (simp_all add: ctzti2_def)

lemma ffssi2_eq: "ffssi2 a = (if a = 0 then 0 else Suc (low_zeros (unat a)))"
  by (simp add: ffssi2_def builtin_ctz_eq)

lemma ffsdi2_eq: "ffsdi2 a = (if a = 0 then 0 else Suc (low_zeros (unat a)))"
  using low_zeros_halves [where 'w = 64 and 'h = 32, of a]
  by (cases "a = 0"; cases "s_low a = (0 :: 32 word)") (simp_all add: ffsdi2_def s_low_def s_high_def)

lemma ffsti2_eq: "ffsti2 a = (if a = 0 then 0 else Suc (low_zeros (unat a)))"
  using low_zeros_halves [where 'w = 128 and 'h = 64, of a]
  by (cases "a = 0"; cases "s_low a = (0 :: 64 word)") (simp_all add: ffsti2_def s_low_def s_high_def)

end
