(* ===== verification/CRT_Pop.thy ===== *)
theory CRT_Pop
  imports CRT_Bits
begin

text \<open>
  Parity and population count. The parallel sums are read as sums over the digits of a number in
  base 4, 16 and 256.
\<close>

section \<open>The number of set bits\<close>

fun ones :: "nat \<Rightarrow> nat" where
  "ones n = (if n = 0 then 0 else n mod 2 + ones (n div 2))"

declare ones.simps [simp del]

lemma ones_0 [simp]: "ones 0 = 0" by (simp add: ones.simps [of 0])

lemma ones_rec: "ones n = n mod 2 + ones (n div 2)" by (cases "n = 0") (simp_all add: ones.simps [of n])

lemma ones_split: "ones n = ones (n mod 2 ^ k) + ones (n div 2 ^ k)"
proof (induction k arbitrary: n)
  case (Suc k)
  have "ones (n mod 2 ^ Suc k) = n mod 2 + ones (n div 2 mod 2 ^ k)"
    using ones_rec [of "n mod 2 ^ Suc k"] by (simp add: mod_mult2_eq mod_mod_cancel)
  then show ?case using ones_rec [of n] Suc [of "n div 2"] by (simp add: div_mult2_eq)
qed simp

lemma ones_join: "a < 2 ^ k \<Longrightarrow> ones (a + 2 ^ k * b) = ones a + ones b"
  by (subst ones_split [of _ k]) simp

lemma ones_le: "n < 2 ^ k \<Longrightarrow> ones n \<le> k"
proof (induction k arbitrary: n)
  case (Suc k)
  then have "ones (n div 2) \<le> k" by (simp add: div_less_iff_less_mult mult.commute)
  then show ?case using ones_rec [of n] by simp
qed simp

lemma ones_bits: "ones (unat x) = card {i. i < LENGTH('a) \<and> bit x i}" for x :: "'a::len word"
proof -
  have "ones n = card {i. i < k \<and> bit n i}" if "n < 2 ^ k" for n k
    using that
  proof (induction k arbitrary: n)
    case (Suc k)
    then have IH: "ones (n div 2) = card {i. i < k \<and> bit (n div 2) i}" by (simp add: div_less_iff_less_mult mult.commute)
    have "{i. i < Suc k \<and> bit n i} = {i. i = 0 \<and> odd n} \<union> Suc ` {i. i < k \<and> bit (n div 2) i}"
      by (auto simp: bit_Suc less_Suc_eq_0_disj bit_0)
    moreover have "finite {i. i = (0::nat) \<and> odd n}" by simp
    ultimately have "card {i. i < Suc k \<and> bit n i} = card {i. i = (0::nat) \<and> odd n} + card (Suc ` {i. i < k \<and> bit (n div 2) i})"
      by (simp add: card_Un_disjoint disjoint_iff)
    also have "card (Suc ` {i. i < k \<and> bit (n div 2) i}) = card {i. i < k \<and> bit (n div 2) i}" by (simp add: card_image)
    finally have "card {i. i < Suc k \<and> bit n i} = card {i. i = (0::nat) \<and> odd n} + card {i. i < k \<and> bit (n div 2) i}" .
    then show ?case using IH ones_rec [of n] by (simp add: mod2_eq_if)
  qed simp
  from this [of "unat x" "LENGTH('a)"] show ?thesis by (simp add: bit_unat)
qed

section \<open>Parity\<close>

lemma even_ones_xor: "even (ones (a XOR b)) \<longleftrightarrow> even (ones a + ones b)" for a b :: nat
proof (induction a arbitrary: b rule: ones.induct)
  case (1 a)
  show ?case
  proof (cases "a = 0")
    case False
    have "(a XOR b) div 2 = (a div 2) XOR (b div 2)" using drop_bit_xor [of 1 a b] by (simp add: drop_bit_eq_div)
    moreover have "odd ((a XOR b) mod 2) \<longleftrightarrow> odd (a + b)" by (simp add: even_xor_iff)
    ultimately show ?thesis
      using 1 [OF False, of "b div 2"] ones_rec [of a] ones_rec [of b] ones_rec [of "a XOR b"] by auto
  qed simp
qed

lemma parity_step: "even (ones ((n XOR (n div 2 ^ k)) mod 2 ^ k)) \<longleftrightarrow> even (ones (n mod 2 ^ (k + k)))" for n :: nat
proof -
  have "(n XOR (n div 2 ^ k)) mod 2 ^ k = (n mod 2 ^ k) XOR (n div 2 ^ k mod 2 ^ k)"
    by (simp flip: take_bit_eq_mod)
  moreover have "n mod 2 ^ (k + k) mod 2 ^ k = n mod 2 ^ k" by (simp add: mod_mod_cancel power_add)
  moreover have "n mod 2 ^ (k + k) div 2 ^ k = n div 2 ^ k mod 2 ^ k" by (simp add: power_add mod_mult2_eq)
  ultimately show ?thesis using ones_split [of "n mod 2 ^ (k + k)" k] by (simp add: even_ones_xor)
qed

lemma parity_word_step:
  "even (ones (unat (x XOR drop_bit k x) mod 2 ^ k)) \<longleftrightarrow> even (ones (unat x mod 2 ^ (k + k)))" for x :: "'a::len word"
  using parity_step [of "unat x" k] by (simp only: unsigned_xor_eq unat_drop)

lemma ones_numeral: "ones (numeral k) = numeral k mod 2 + ones (numeral k div 2)" by (rule ones_rec)

lemma ones_1: "ones (Suc 0) = 1" using ones_rec [of 1] by simp

lemma parity_table: "m < 16 \<Longrightarrow> drop_bit m (0x6996 :: nat) AND 1 = ones m mod 2"
proof -
  assume "m < 16"
  then have "m = 0 \<or> m = 1 \<or> m = 2 \<or> m = 3 \<or> m = 4 \<or> m = 5 \<or> m = 6 \<or> m = 7 \<or> m = 8 \<or> m = 9 \<or> m = 10
    \<or> m = 11 \<or> m = 12 \<or> m = 13 \<or> m = 14 \<or> m = 15" by presburger
  then show ?thesis by (elim disjE) (simp_all add: ones_numeral ones_1 drop_bit_eq_div and_one_eq)
qed

lemma parity_fold:
  fixes a :: "32 word"
  shows "(let x1 = a XOR drop_bit 16 a; x2 = x1 XOR drop_bit 8 x1; x3 = x2 XOR drop_bit 4 x2
      in drop_bit (unat (x3 AND 0xF)) 0x6996 AND (1 :: nat)) = ones (unat a) mod 2"
proof -
  define x1 where "x1 = a XOR drop_bit 16 a"
  define x2 where "x2 = x1 XOR drop_bit 8 x1"
  define x3 where "x3 = x2 XOR drop_bit 4 x2"
  have "(0xF :: 32 word) = mask 4" by (simp add: mask_eq_exp_minus_1)
  then have u: "unat (x3 AND 0xF) = unat x3 mod 2 ^ 4"
    by (simp only: take_bit_eq_mask [symmetric] unsigned_take_bit_eq) (rule take_bit_eq_mod)
  have "even (ones (unat x3 mod 2 ^ 4)) \<longleftrightarrow> even (ones (unat a mod 2 ^ 32))"
    using parity_word_step [of x2 4] parity_word_step [of x1 8] parity_word_step [of a 16]
    by (simp add: x1_def [symmetric] x2_def [symmetric] x3_def [symmetric])
  moreover have "unat a < 2 ^ LENGTH(32)" by (rule unsigned_less)
  ultimately have "ones (unat x3 mod 2 ^ 4) mod 2 = ones (unat a) mod 2" by (simp add: mod2_eq_if)
  moreover have "unat (x3 AND 0xF) < 16" unfolding u by simp
  ultimately show ?thesis unfolding Let_def x1_def [symmetric] unfolding x2_def [symmetric] unfolding x3_def [symmetric]
    using parity_table [of "unat (x3 AND 0xF)"] u by simp
qed

lemma ones_halves:
  fixes x :: "'w::len word"
  assumes "LENGTH('w) = LENGTH('h::len) + LENGTH('h)"
  shows "ones (unat (s_high x XOR s_low x :: 'h word)) mod 2 = ones (unat x) mod 2"
  using even_ones_xor [of "unat (s_high x :: 'h word)" "unat (s_low x :: 'h word)"] ones_split [of "unat x" "LENGTH('h)"]
  by (simp only: unsigned_xor_eq unat_s_high [OF assms] unat_s_low mod2_eq_if) auto

lemma paritysi2_eq: "paritysi2 a = ones (unat a) mod 2"
  unfolding paritysi2_def by (rule parity_fold)

lemma paritydi2_eq: "paritydi2 a = ones (unat a) mod 2"
  unfolding paritydi2_def using parity_fold [of "s_high a XOR s_low a"] ones_halves [where 'w = 64 and 'h = 32, of a]
  by (simp add: Let_def)

lemma parityti2_eq: "parityti2 a = ones (unat a) mod 2"
  unfolding parityti2_def using parity_fold [of "s_high (s_high a XOR s_low a :: 64 word) XOR s_low (s_high a XOR s_low a :: 64 word)"]
    ones_halves [where 'w = 128 and 'h = 64, of a] ones_halves [where 'w = 64 and 'h = 32, of "s_high a XOR s_low a"]
  by (simp add: Let_def)

section \<open>Population count\<close>

text \<open>
  \<open>fields f j k n\<close> replaces each of the \<open>k\<close> low digits \<open>d\<close> of \<open>n\<close> in base \<open>2 ^ j\<close> by \<open>f d\<close>;
  \<open>rep\<close> is the number with \<open>k\<close> equal digits, a mask of the source.
\<close>

fun fields :: "(nat \<Rightarrow> nat) \<Rightarrow> nat \<Rightarrow> nat \<Rightarrow> nat \<Rightarrow> nat" where
  "fields f j 0 n = 0"
| "fields f j (Suc k) n = f (n mod 2 ^ j) + 2 ^ j * fields f j k (n div 2 ^ j)"

fun rep :: "nat \<Rightarrow> nat \<Rightarrow> nat \<Rightarrow> nat" where
  "rep j m 0 = 0"
| "rep j m (Suc k) = m + 2 ^ j * rep j m k"

lemma fields_cong: "(\<And>d. d < 2 ^ j \<Longrightarrow> f d = g d) \<Longrightarrow> fields f j k n = fields g j k n"
  by (induction k arbitrary: n) simp_all

lemma div_2_digits: "n div 2 = (n mod 4 div 2 + 2 * (n div 4 mod 2)) + 2 ^ 2 * (n div 4 div 2)" for n :: nat
proof -
  have "n = n mod 4 + 2 * (2 * (n div 4))" by simp
  then have "n div 2 = (n mod 4 + 2 * (2 * (n div 4))) div 2" by (rule arg_cong)
  also have "\<dots> = n mod 4 div 2 + 2 * (n div 4)" by (simp only: div_mult_self2 [OF zero_neq_numeral [symmetric]] add.commute)
  finally have "n div 2 = n mod 4 div 2 + 2 * (n div 4)" .
  moreover have "n div 4 = n div 4 mod 2 + 2 * (n div 4 div 2)" by simp
  moreover have "x = r + 2 * m + 2 ^ 2 * p" if "x = r + 2 * q" "q = m + 2 * p" for x r q m p :: nat using that by simp
  ultimately show ?thesis by blast
qed

lemma swar_1: "(n div 2) AND rep 2 1 k = fields (\<lambda>d. d div 2) 2 k n"
proof (induction k arbitrary: n)
  case (Suc k)
  define r where "r = n mod 4 div 2 + 2 * (n div 4 mod 2)"
  have "n mod 4 < 4" by simp
  then have l: "n mod 4 div 2 < 2" by (simp add: div_less_iff_less_mult)
  then have r4: "r < 2 ^ 2" by (simp add: r_def)
  have n: "n div 2 = r + 2 ^ 2 * (n div 4 div 2)" unfolding r_def by (rule div_2_digits)
  have "(n div 2) AND rep 2 1 (Suc k) = (r AND 1) + 2 ^ 2 * ((n div 4 div 2) AND rep 2 1 k)"
    unfolding rep.simps n by (rule and_join [OF r4]) simp
  moreover have "r AND 1 = n mod 4 div 2" using l by (simp add: and_one_eq r_def)
  ultimately show ?case using Suc [of "n div 4"] by simp
qed simp

lemma fields_diff: "(\<And>d. g d \<le> f d) \<Longrightarrow> fields f j k n - fields g j k n = fields (\<lambda>d. f d - g d) j k n \<and> fields g j k n \<le> fields f j k n"
proof (induction k arbitrary: n)
  case (Suc k)
  have "a + c * x - (b + c * y) = a - b + c * (x - y)" if "b \<le> a" "y \<le> x" for a b c x y :: nat
    using that mult_le_mono2 [of y x c] by (simp add: diff_mult_distrib2)
  with Suc show ?case by (simp add: add_mono)
qed simp

lemma fields_id: "n < 2 ^ (j * k) \<Longrightarrow> fields (\<lambda>d. d) j k n = n"
  by (induction k arbitrary: n) (simp_all add: less_mult_imp_div_less mult.commute power_add)

lemma ones_2: "d < 2 ^ 2 \<Longrightarrow> d - d div 2 = ones d"
proof -
  assume "d < 2 ^ 2"
  then have "d = 0 \<or> d = 1 \<or> d = 2 \<or> d = 3" by simp presburger
  then show ?thesis by (elim disjE) (simp_all add: ones_numeral ones_1)
qed

lemma pairs: "n < 2 ^ (2 * k) \<Longrightarrow> (n div 2) AND rep 2 1 k \<le> n \<and> n - ((n div 2) AND rep 2 1 k) = fields ones 2 k n"
  using fields_diff [of "\<lambda>d. d div 2" "\<lambda>d. d" 2 k n] fields_cong [of 2 "\<lambda>d. d - d div 2" ones k n]
  unfolding swar_1 by (simp add: fields_id ones_2)

text \<open>Digits of double width.\<close>

lemma two_digits:
  assumes "\<And>d. d < 2 ^ j \<Longrightarrow> g d < 2 ^ j"
  shows "fields g j (2 * Suc k) n =
    (g (n mod 2 ^ j) + 2 ^ j * g (n div 2 ^ j mod 2 ^ j)) + 2 ^ (2 * j) * fields g j (2 * k) (n div 2 ^ (2 * j))"
    and "g (n mod 2 ^ j) + 2 ^ j * g (n div 2 ^ j mod 2 ^ j) < 2 ^ (2 * j)"
proof -
  have p: "(2::nat) ^ (2 * j) = 2 ^ j * 2 ^ j" by (simp add: mult_2 power_add)
  show "fields g j (2 * Suc k) n =
    (g (n mod 2 ^ j) + 2 ^ j * g (n div 2 ^ j mod 2 ^ j)) + 2 ^ (2 * j) * fields g j (2 * k) (n div 2 ^ (2 * j))"
    unfolding p by (simp add: div_mult2_eq [symmetric] distrib_left)
  have "2 ^ j * (Suc (g (n div 2 ^ j mod 2 ^ j))) \<le> 2 ^ j * 2 ^ j" using assms by (intro mult_le_mono2) (simp add: Suc_le_eq)
  then show "g (n mod 2 ^ j) + 2 ^ j * g (n div 2 ^ j mod 2 ^ j) < 2 ^ (2 * j)"
    using assms [of "n mod 2 ^ j"] unfolding p by simp
qed

lemma ones_less: "0 < j \<Longrightarrow> d < 2 ^ j \<Longrightarrow> ones d < 2 ^ j"
  using ones_le [of d j] less_exp [of j] by linarith

lemma ones_two_digits: "ones (n mod 2 ^ (2 * j)) = ones (n mod 2 ^ j) + ones (n div 2 ^ j mod 2 ^ j)"
proof -
  have "n mod 2 ^ (2 * j) mod 2 ^ j = n mod 2 ^ j" by (simp add: mod_mod_cancel mult_2 power_add)
  moreover have "n mod 2 ^ (2 * j) div 2 ^ j = n div 2 ^ j mod 2 ^ j" by (simp add: mult_2 power_add mod_mult2_eq)
  ultimately show ?thesis using ones_split [of "n mod 2 ^ (2 * j)" j] by simp
qed

lemma shift_digit:
  fixes a b y :: nat
  assumes "a < 2 ^ j"
  shows "((a + 2 ^ j * b) + 2 ^ (j + j) * y) div 2 ^ j = (b + 2 ^ j * (y mod 2 ^ j)) + 2 ^ (j + j) * (y div 2 ^ j)"
proof -
  have "((a + 2 ^ j * b) + 2 ^ (j + j) * y) = a + 2 ^ j * (b + 2 ^ j * y)" by (simp add: power_add distrib_left)
  moreover have "(a + 2 ^ j * (b + 2 ^ j * y)) div 2 ^ j = b + 2 ^ j * y" using assms by simp
  ultimately have "((a + 2 ^ j * b) + 2 ^ (j + j) * y) div 2 ^ j = b + 2 ^ j * y" by (simp only:)
  moreover have "y = y mod 2 ^ j + 2 ^ j * (y div 2 ^ j)" by simp
  then have "2 ^ j * y = 2 ^ j * (y mod 2 ^ j) + 2 ^ (j + j) * (y div 2 ^ j)" by (metis distrib_left mult.assoc power_add)
  ultimately show ?thesis by simp
qed

lemma quads: "(fields ones 2 (2 * k) n div 4 AND rep 4 3 k) + (fields ones 2 (2 * k) n AND rep 4 3 k) = fields ones 4 k n"
proof (induction k arbitrary: n)
  case (Suc k)
  define y where "y = fields ones 2 (2 * k) (n div 16)"
  define a where "a = ones (n mod 4)" define b where "b = ones (n div 4 mod 4)"
  have ab: "a < 2 ^ 2" "b < 2 ^ 2" using ones_less [of 2] by (simp_all add: a_def b_def)
  have f: "fields ones 2 (2 * Suc k) n = (a + 2 ^ 2 * b) + 2 ^ 4 * y"
    using two_digits(1) [of 2 ones k n] ones_less [of 2] by (simp add: y_def a_def b_def)
  have d: "fields ones 2 (2 * Suc k) n div 4 = (b + 2 ^ 2 * (y mod 4)) + 2 ^ 4 * (y div 4)"
    using shift_digit [OF ab(1), of b y] unfolding f by simp
  have e: "rep 4 3 (Suc k) = 3 + 2 ^ 4 * rep 4 3 k" by simp
  have "fields ones 2 (2 * Suc k) n AND rep 4 3 (Suc k) = ((a + 2 ^ 2 * b) AND 3) + 2 ^ 4 * (y AND rep 4 3 k)"
    unfolding f e using ab by (intro and_join) simp_all
  moreover have "y mod 4 < 4" by simp
  then have "fields ones 2 (2 * Suc k) n div 4 AND rep 4 3 (Suc k) = ((b + 2 ^ 2 * (y mod 4)) AND 3) + 2 ^ 4 * ((y div 4) AND rep 4 3 k)"
    unfolding d e using ab by (intro and_join) simp_all
  moreover have "(a + 2 ^ 2 * b) AND 3 = a" "(b + 2 ^ 2 * (y mod 4)) AND 3 = b" using and_low [OF ab(1), of b] and_low [OF ab(2), of "y mod 4"] by simp_all
  ultimately show ?case using Suc [of "n div 16"] ones_two_digits [of n 2] by (simp add: y_def [symmetric] a_def b_def)
qed simp

text \<open>Bytes: no sum of two nibbles carries, and the mask keeps every other sum.\<close>

lemma low_digit: "fields ones 4 (2 * k) n mod 16 \<le> 4"
proof (cases k)
  case (Suc m)
  have "ones (n mod 16) \<le> 4" by (rule ones_le) simp
  moreover have "fields ones 4 (2 * k) n = ones (n mod 16) + 16 * fields ones 4 (Suc (2 * m)) (n div 16)" by (simp add: Suc)
  ultimately show ?thesis by (simp only: mod_mult_self2 [of _ 16])
qed simp

lemma bytes: "(fields ones 4 (2 * k) n + fields ones 4 (2 * k) n div 16) AND rep 8 15 k = fields ones 8 k n"
proof (induction k arbitrary: n)
  case (Suc k)
  define y where "y = fields ones 4 (2 * k) (n div 256)"
  define a where "a = ones (n mod 16)" define b where "b = ones (n div 16 mod 16)"
  have ab: "a \<le> 4" "b \<le> 4" by (simp_all add: a_def b_def ones_le)
  have y: "y mod 16 \<le> 4" unfolding y_def by (rule low_digit)
  have f: "fields ones 4 (2 * Suc k) n = (a + 2 ^ 4 * b) + 2 ^ (4 + 4) * y"
    using two_digits(1) [of 4 ones k n] ones_less [of 4] by (simp add: y_def a_def b_def)
  have d: "fields ones 4 (2 * Suc k) n div 16 = (b + 2 ^ 4 * (y mod 16)) + 2 ^ (4 + 4) * (y div 16)"
    using shift_digit [of a 4 b y] ab unfolding f by simp
  have s: "fields ones 4 (2 * Suc k) n + fields ones 4 (2 * Suc k) n div 16
      = ((a + b) + 2 ^ 4 * (b + y mod 16)) + 2 ^ 8 * (y + y div 16)"
    unfolding d unfolding f by (simp add: distrib_left)
  have e: "rep 8 15 (Suc k) = 15 + 2 ^ 8 * rep 8 15 k" by simp
  have "(fields ones 4 (2 * Suc k) n + fields ones 4 (2 * Suc k) n div 16) AND rep 8 15 (Suc k)
      = (((a + b) + 2 ^ 4 * (b + y mod 16)) AND 15) + 2 ^ 8 * ((y + y div 16) AND rep 8 15 k)"
    unfolding s e using ab y by (intro and_join) simp_all
  moreover have "((a + b) + 2 ^ 4 * (b + y mod 16)) AND 15 = a + b" using and_low [of "a + b" 4 "b + y mod 16"] ab by simp
  ultimately show ?case using Suc [of "n div 256"] ones_two_digits [of n 4] by (simp add: y_def [symmetric] a_def b_def)
qed simp

section \<open>The parallel sums on words\<close>

lemma fields_less: "(\<And>d. d < 2 ^ j \<Longrightarrow> f d < 2 ^ j) \<Longrightarrow> fields f j k n < 2 ^ (j * k)"
proof (induction k arbitrary: n)
  case (Suc k)
  have "fields f j k (n div 2 ^ j) < 2 ^ (j * k)" using Suc by blast
  then have "2 ^ j * Suc (fields f j k (n div 2 ^ j)) \<le> 2 ^ j * 2 ^ (j * k)" by (intro mult_le_mono2) simp
  moreover have "f (n mod 2 ^ j) < 2 ^ j" using Suc(2) by simp
  ultimately show ?case by (simp add: power_add)
qed simp

lemma unat_add_take: "unat (x + y) = take_bit LENGTH('a) (unat x + unat y)" for x y :: "'a::len word"
  by (simp add: unat_word_ariths take_bit_eq_mod)

lemma swar_bytes:
  fixes a m5 m3 mf :: "'a::len word"
  assumes W: "LENGTH('a) = 8 * k" and m5: "unat m5 = rep 2 1 (4 * k)" and m3: "unat m3 = rep 4 3 (2 * k)"
    and mf: "unat mf = rep 8 15 k"
    and x1: "x1 = a - (drop_bit 1 a AND m5)"
    and x2: "x2 = (drop_bit 2 x1 AND m3) + (x1 AND m3)"
    and x3: "x3 = (x2 + drop_bit 4 x2) AND mf"
  shows "unat x3 = fields ones 8 k (unat a)"
proof -
  let ?n = "unat a"
  have "?n < 2 ^ LENGTH('a)" by (rule unsigned_less)
  then have n: "?n < 2 ^ (2 * (4 * k))" by (simp add: W)
  have "unat (drop_bit 1 a AND m5) = ((?n div 2) AND rep 2 1 (4 * k))" by (simp only: unat_and unat_drop m5 power_one_right)
  with pairs [OF n] have u1: "unat x1 = fields ones 2 (4 * k) ?n"
    unfolding x1 by (subst unat_sub) (simp_all only: word_le_nat_alt)
  have "unat (drop_bit 2 x1 AND m3) + unat (x1 AND m3) = fields ones 4 (2 * k) ?n"
    using quads [of "2 * k" ?n] by (simp add: unat_and unat_drop m3 u1)
  moreover have "fields ones 4 (2 * k) ?n < 2 ^ LENGTH('a)"
    using fields_less [of 4 ones "2 * k" ?n] ones_less [of 4] by (simp add: W)
  ultimately have u2: "unat x2 = fields ones 4 (2 * k) ?n" unfolding x2 by (simp add: unat_add_take take_bit_nat_eq_self)
  have "unat x3 = (take_bit LENGTH('a) (fields ones 4 (2 * k) ?n + fields ones 4 (2 * k) ?n div 16) AND take_bit LENGTH('a) (unat mf))"
    unfolding x3 unat_and unat_add_take by (simp add: unat_drop u2 take_bit_nat_eq_self)
  also have "\<dots> = take_bit LENGTH('a) (fields ones 8 k ?n)" unfolding mf bytes [symmetric] by simp
  also have "\<dots> = fields ones 8 k ?n"
    using fields_less [of 8 ones k ?n] ones_less [of 8] by (simp add: W take_bit_nat_eq_self)
  finally show ?thesis .
qed

lemma fields_append: "fields f j (k + l) n = fields f j k n + 2 ^ (j * k) * fields f j l (n div 2 ^ (j * k))"
  by (induction k arbitrary: n) (simp_all add: power_add distrib_left div_mult2_eq)

text \<open>Four bytes, and the sum of four bytes.\<close>

lemma four_bytes:
  obtains b0 b1 b2 b3 where "fields ones 8 4 n = b0 + 256 * (b1 + 256 * (b2 + 256 * b3))"
    "b0 \<le> 8" "b1 \<le> 8" "b2 \<le> 8" "b3 \<le> 8" "b0 + b1 + b2 + b3 = ones (n mod 2 ^ 32)"
proof -
  define b where "b m = ones (m mod 2 ^ 8)" for m
  have "(4::nat) = Suc (Suc (Suc (Suc 0)))" by simp
  then have f: "fields ones 8 4 n = b n + 2 ^ 8 * (b (n div 2 ^ 8) + 2 ^ 8 * (b (n div 2 ^ 8 div 2 ^ 8) + 2 ^ 8 * b (n div 2 ^ 8 div 2 ^ 8 div 2 ^ 8)))"
    by (simp only: fields.simps b_def mult_0_right add_0_right)
  have l: "b m \<le> 8" for m unfolding b_def by (rule ones_le) simp
  have t: "b n + b (n div 2 ^ 8) + b (n div 2 ^ 8 div 2 ^ 8) + b (n div 2 ^ 8 div 2 ^ 8 div 2 ^ 8) = ones (n mod 2 ^ 32)"
  proof -
    have "n div 2 ^ 16 = n div 2 ^ 8 div 2 ^ 8" by (simp flip: div_mult2_eq)
    then show ?thesis unfolding b_def
      using ones_two_digits [of n 8] ones_two_digits [of "n div 2 ^ 16" 8] ones_two_digits [of n 16] by simp
  qed
  have p: "(2::nat) ^ 8 = 256" by simp
  show thesis by (rule that [OF f [unfolded p] l l l l t [unfolded p]])
qed

lemma byte_div: "a < c \<Longrightarrow> (a + c * q) div c = q" for a c q :: nat by simp

lemma byte_mod: "a < c \<Longrightarrow> (a + c * q) mod c = a" for a c q :: nat by simp

lemma sum_bytes:
  fixes x x4 :: "32 word"
  assumes x: "unat x = b0 + 256 * (b1 + 256 * (b2 + 256 * b3))" and b: "b0 \<le> 32" "b1 \<le> 32" "b2 \<le> 32" "b3 \<le> 32"
    and x4: "x4 = x + drop_bit 16 x"
  shows "unat (x4 + drop_bit 8 x4) mod 256 = b0 + b1 + b2 + b3"
proof -
  have "b0 + 256 * (b1 + 256 * (b2 + 256 * b3)) = (b0 + 256 * b1) + 65536 * (b2 + 256 * b3)" by simp
  then have "(b0 + 256 * (b1 + 256 * (b2 + 256 * b3))) div 65536 = b2 + 256 * b3" using b by (simp only: byte_div)
  then have "unat x4 = (b0 + b2) + 256 * ((b1 + b3) + 256 * (b2 + 256 * b3))"
    unfolding x4 using b by (subst unat_add_small) (simp_all add: unat_drop x)
  moreover have "((b0 + b2) + 256 * ((b1 + b3) + 256 * (b2 + 256 * b3))) div 256 = (b1 + b3) + 256 * (b2 + 256 * b3)"
    using b by (intro byte_div) simp
  ultimately have "unat (x4 + drop_bit 8 x4) = (b0 + b1 + b2 + b3) + 256 * ((b1 + b3) + 256 * (b2 + 256 * b3) + (b2 + 256 * b3))"
    using b by (subst unat_add_small) (simp_all add: unat_drop)
  moreover have "b0 + b1 + b2 + b3 < 256" using b by linarith
  ultimately show ?thesis by (simp only: byte_mod)
qed

lemma rep_numeral: "rep j m (numeral k) = m + 2 ^ j * rep j m (pred_numeral k)"
  by (simp add: numeral_eq_Suc)

lemma unat_and_mask: "k \<le> 8 \<Longrightarrow> unat (x AND mask k) = unat x mod 256 mod 2 ^ k" for x :: "'a::len word"
proof -
  assume "k \<le> 8"
  then have "(2::nat) ^ k dvd 2 ^ 8" by (rule le_imp_power_dvd)
  then have "unat x mod 256 mod 2 ^ k = unat x mod 2 ^ k" by (simp add: mod_mod_cancel)
  moreover have "unat (x AND mask k) = unat x mod 2 ^ k"
    by (simp only: take_bit_eq_mask [symmetric] unsigned_take_bit_eq) (rule take_bit_eq_mod)
  ultimately show ?thesis by simp
qed

text \<open>A number of four bytes, none above \<open>c\<close>, that sum up to \<open>s\<close>.\<close>

definition byte_sum :: "nat \<Rightarrow> nat \<Rightarrow> nat \<Rightarrow> bool" where
  "byte_sum c s v \<longleftrightarrow> (\<exists>b0 b1 b2 b3. v = b0 + 256 * (b1 + 256 * (b2 + 256 * b3)) \<and>
     b0 \<le> c \<and> b1 \<le> c \<and> b2 \<le> c \<and> b3 \<le> c \<and> b0 + b1 + b2 + b3 = s)"

lemma byte_sum_fields: "byte_sum 8 (ones (n mod 2 ^ 32)) (fields ones 8 4 n)"
  unfolding byte_sum_def by (rule four_bytes [of n]) blast

lemma byte_sum_add: "byte_sum c s v \<Longrightarrow> byte_sum d t w \<Longrightarrow> byte_sum (c + d) (s + t) (v + w)"
proof -
  assume "byte_sum c s v" "byte_sum d t w"
  then obtain b0 b1 b2 b3 e0 e1 e2 e3 where v: "v = b0 + 256 * (b1 + 256 * (b2 + 256 * b3))"
      "b0 \<le> c" "b1 \<le> c" "b2 \<le> c" "b3 \<le> c" "b0 + b1 + b2 + b3 = s"
    and w: "w = e0 + 256 * (e1 + 256 * (e2 + 256 * e3))" "e0 \<le> d" "e1 \<le> d" "e2 \<le> d" "e3 \<le> d" "e0 + e1 + e2 + e3 = t"
    unfolding byte_sum_def by blast
  then have "v + w = (b0 + e0) + 256 * ((b1 + e1) + 256 * ((b2 + e2) + 256 * (b3 + e3)))" by simp
  moreover have "(b0 + e0) + (b1 + e1) + (b2 + e2) + (b3 + e3) = s + t" using v w by simp
  ultimately show ?thesis unfolding byte_sum_def using add_mono [OF v(2) w(2)] add_mono [OF v(3) w(3)]
      add_mono [OF v(4) w(4)] add_mono [OF v(5) w(5)] by blast
qed

lemma byte_sum_less: "byte_sum c s v \<Longrightarrow> c \<le> 32 \<Longrightarrow> v < 2 ^ 31"
  unfolding byte_sum_def by auto

text \<open>The end of the three routines, from a word that holds four byte sums.\<close>

lemma pop_end:
  fixes x x4 :: "32 word"
  assumes x: "byte_sum c s (unat x)"
    and c: "4 * c < 2 ^ k" "c \<le> 32" "k \<le> 8" and x4: "x4 = x + drop_bit 16 x"
  shows "unat ((x4 + drop_bit 8 x4) AND mask k) = s"
proof -
  from x obtain b0 b1 b2 b3 where v: "unat x = b0 + 256 * (b1 + 256 * (b2 + 256 * b3))"
    and b: "b0 \<le> c" "b1 \<le> c" "b2 \<le> c" "b3 \<le> c" "b0 + b1 + b2 + b3 = s" unfolding byte_sum_def by blast
  have "unat (x4 + drop_bit 8 x4) mod 256 = b0 + b1 + b2 + b3" by (rule sum_bytes [OF v _ _ _ _ x4]) (use b c in linarith)+
  moreover have "b0 + b1 + b2 + b3 < 2 ^ k" using b c by linarith
  ultimately show ?thesis using b by (simp add: unat_and_mask [OF c(3)])
qed

lemma popcountsi2_eq: "unat (popcountsi2 a) = ones (unat a)"
proof -
  define x1 where "x1 = a - (drop_bit 1 a AND 0x55555555)"
  define x2 where "x2 = (drop_bit 2 x1 AND 0x33333333) + (x1 AND 0x33333333)"
  define x3 where "x3 = (x2 + drop_bit 4 x2) AND 0x0F0F0F0F"
  have "unat x3 = fields ones 8 4 (unat a)"
    by (rule swar_bytes [OF _ _ _ _ x1_def x2_def x3_def]) (simp_all add: rep_numeral)
  then have "byte_sum 8 (ones (unat a mod 2 ^ 32)) (unat x3)" by (simp only: byte_sum_fields)
  from pop_end [OF this, of 6] have "unat (popcountsi2 a) = ones (unat a mod 2 ^ 32)"
    unfolding popcountsi2_def Let_def x1_def [symmetric] unfolding x2_def [symmetric] unfolding x3_def [symmetric]
    by (simp add: mask_eq_exp_minus_1)
  moreover have "unat a < 2 ^ LENGTH(32)" by (rule unsigned_less)
  ultimately show ?thesis by simp
qed

lemma fold_half:
  fixes x :: "'w::len word"
  assumes len: "LENGTH('w) = LENGTH('h::len) + LENGTH('h)" and x: "unat x = L + 2 ^ LENGTH('h) * H"
    and L: "L + H < 2 ^ LENGTH('h)"
  shows "unat (ucast (x + drop_bit LENGTH('h) x) :: 'h word) = L + H"
proof -
  have d: "unat (drop_bit LENGTH('h) x) = H" unfolding unat_drop x using L by simp
  have "unat (ucast (x + drop_bit LENGTH('h) x) :: 'h word) = take_bit LENGTH('h) (take_bit LENGTH('w) (unat x + H))"
    unfolding unsigned_ucast_eq unat_add_take d by simp
  also have "\<dots> = take_bit LENGTH('h) (unat x + H)" by (simp add: len)
  also have "\<dots> = ((L + H) + 2 ^ LENGTH('h) * H) mod 2 ^ LENGTH('h)"
    unfolding take_bit_eq_mod x by (simp add: ac_simps)
  finally show ?thesis using L by simp
qed

lemma popcountdi2_eq: "unat (popcountdi2 a) = ones (unat a)"
proof -
  define x1 where "x1 = a - (drop_bit 1 a AND 0x5555555555555555)"
  define x2 where "x2 = (drop_bit 2 x1 AND 0x3333333333333333) + (x1 AND 0x3333333333333333)"
  define x3 where "x3 = (x2 + drop_bit 4 x2) AND 0x0F0F0F0F0F0F0F0F"
  define x where "x = (ucast (x3 + drop_bit 32 x3) :: 32 word)"
  let ?n = "unat a"
  have "unat x3 = fields ones 8 (4 + 4) ?n"
    by (rule swar_bytes [OF _ _ _ _ x1_def x2_def x3_def]) (simp_all add: rep_numeral)
  then have x3: "unat x3 = fields ones 8 4 ?n + 2 ^ LENGTH(32) * fields ones 8 4 (?n div 2 ^ 32)"
    unfolding fields_append by simp
  note b = byte_sum_add [OF byte_sum_fields [of ?n] byte_sum_fields [of "?n div 2 ^ 32"]]
  have "unat x = fields ones 8 4 ?n + fields ones 8 4 (?n div 2 ^ 32)"
    using fold_half [OF _ x3] byte_sum_less [OF b] by (simp add: x_def)
  then have "byte_sum (8 + 8) (ones (?n mod 2 ^ 32) + ones (?n div 2 ^ 32 mod 2 ^ 32)) (unat x)" using b by (simp only:)
  from pop_end [OF this, of 7] have "unat (popcountdi2 a) = ones (?n mod 2 ^ 32) + ones (?n div 2 ^ 32 mod 2 ^ 32)"
    unfolding popcountdi2_def Let_def x1_def [symmetric] unfolding x2_def [symmetric] unfolding x3_def [symmetric]
    unfolding x_def [symmetric] by (simp add: mask_eq_exp_minus_1)
  moreover have "?n < 2 ^ LENGTH(64)" by (rule unsigned_less)
  then have "?n div 2 ^ 32 < 2 ^ 32" by (simp add: div_less_iff_less_mult)
  ultimately show ?thesis using ones_split [of ?n 32] by simp
qed

lemma popcountti2_eq: "unat (popcountti2 a) = ones (unat a)"
proof -
  define m5 where "m5 = (push_bit 64 0x5555555555555555 OR 0x5555555555555555 :: 128 word)"
  define m3 where "m3 = (push_bit 64 0x3333333333333333 OR 0x3333333333333333 :: 128 word)"
  define m0f where "m0f = (push_bit 64 0x0F0F0F0F0F0F0F0F OR 0x0F0F0F0F0F0F0F0F :: 128 word)"
  define x1 where "x1 = a - (drop_bit 1 a AND m5)"
  define x2 where "x2 = (drop_bit 2 x1 AND m3) + (x1 AND m3)"
  define x3 where "x3 = (x2 + drop_bit 4 x2) AND m0f"
  define y where "y = (ucast (x3 + drop_bit 64 x3) :: 64 word)"
  define x where "x = (ucast (y + drop_bit 32 y) :: 32 word)"
  let ?n = "unat a" let ?F = "fields ones 8 4"
  let ?n1 = "?n div 2 ^ 32" let ?n2 = "?n div 2 ^ 64" let ?n3 = "?n2 div 2 ^ 32"
  have "unat x3 = fields ones 8 ((4 + 4) + (4 + 4)) ?n"
    by (rule swar_bytes [OF _ _ _ _ x1_def x2_def x3_def]) (simp_all add: rep_numeral m5_def m3_def m0f_def)
  then have x3: "unat x3 = (?F ?n + 2 ^ 32 * ?F ?n1) + 2 ^ LENGTH(64) * (?F ?n2 + 2 ^ 32 * ?F ?n3)"
    unfolding fields_append by simp
  note b02 = byte_sum_add [OF byte_sum_fields [of ?n] byte_sum_fields [of ?n2]]
  note b13 = byte_sum_add [OF byte_sum_fields [of ?n1] byte_sum_fields [of ?n3]]
  note b = byte_sum_add [OF b02 b13]
  have "?F ?n + ?F ?n2 < 2 ^ 31" "?F ?n1 + ?F ?n3 < 2 ^ 31" using byte_sum_less [OF b02] byte_sum_less [OF b13] by simp_all
  then have y: "unat y = (?F ?n + ?F ?n2) + 2 ^ LENGTH(32) * (?F ?n1 + ?F ?n3)"
    unfolding y_def using fold_half [OF _ x3] by simp
  have "unat x = (?F ?n + ?F ?n2) + (?F ?n1 + ?F ?n3)"
    using fold_half [OF _ y] byte_sum_less [OF b] by (simp add: x_def)
  then have "byte_sum (8 + 8 + (8 + 8)) (ones (?n mod 2 ^ 32) + ones (?n2 mod 2 ^ 32) + (ones (?n1 mod 2 ^ 32) + ones (?n3 mod 2 ^ 32))) (unat x)"
    using b by (simp only:)
  from pop_end [OF this, of 8] have p: "unat (popcountti2 a) = ones (?n mod 2 ^ 32) + ones (?n2 mod 2 ^ 32) + (ones (?n1 mod 2 ^ 32) + ones (?n3 mod 2 ^ 32))"
    unfolding popcountti2_def Let_def m5_def [symmetric] m3_def [symmetric] m0f_def [symmetric] unfolding x1_def [symmetric]
    unfolding x2_def [symmetric] unfolding x3_def [symmetric]
    unfolding y_def [symmetric] unfolding x_def [symmetric] by (simp add: mask_eq_exp_minus_1)
  have "?n < 2 ^ LENGTH(128)" by (rule unsigned_less)
  then have "?n2 < 2 ^ 64" by (simp add: div_less_iff_less_mult)
  then have "?n3 < 2 ^ 32" by (simp add: div_less_iff_less_mult)
  then have "ones ?n2 = ones (?n2 mod 2 ^ 32) + ones (?n3 mod 2 ^ 32)" using ones_split [of ?n2 32] by simp
  moreover have "ones (?n mod 2 ^ 64) = ones (?n mod 2 ^ 32) + ones (?n1 mod 2 ^ 32)" using ones_two_digits [of ?n 32] by simp
  ultimately show ?thesis using p ones_split [of ?n 64] by linarith
qed

end
