(* ===== verification/CRT_Swap.thy ===== *)
theory CRT_Swap
  imports CRT_Mul
begin

text \<open>Byte reversal: the bytes of the result are the bytes of the argument in reverse.\<close>

definition byte_of :: "'a::len word \<Rightarrow> nat \<Rightarrow> 'a word" where
  "byte_of u i = take_bit 8 (drop_bit (8 * i) u)"

lemma byte_and: "u AND push_bit (8 * i) (mask 8) = push_bit (8 * i) (byte_of u i)" for u :: "'a::len word"
  by (rule bit_word_eqI) (auto simp: byte_of_def bit_simps)

lemma byte_down: "j \<le> i \<Longrightarrow> 8 * i + 8 \<le> LENGTH('a) \<Longrightarrow> drop_bit (8 * (i - j)) (u AND push_bit (8 * i) (mask 8)) = push_bit (8 * j) (byte_of u i)"
  for u :: "'a::len word"
  by (rule bit_word_eqI) (auto simp: byte_of_def bit_simps algebra_simps)

lemma byte_up: "push_bit (8 * k) (u AND push_bit (8 * i) (mask 8)) = push_bit (8 * (i + k)) (byte_of u i)" for u :: "'a::len word"
  by (rule bit_word_eqI) (auto simp: byte_of_def bit_simps algebra_simps)

lemma masks:
  "(0x000000ff :: 32 word) = push_bit (8 * 0) (mask 8)" "(0x0000ff00 :: 32 word) = push_bit (8 * 1) (mask 8)"
  "(0x00ff0000 :: 32 word) = push_bit (8 * 2) (mask 8)" "(0xff000000 :: 32 word) = push_bit (8 * 3) (mask 8)"
  by (simp_all add: mask_eq_exp_minus_1 push_bit_eq_mult)

lemma bswapsi2_bytes: "bswapsi2 u = push_bit (8 * 0) (byte_of u 3) OR push_bit (8 * 1) (byte_of u 2) OR push_bit (8 * 2) (byte_of u 1) OR push_bit (8 * 3) (byte_of u 0)"
  unfolding bswapsi2_def masks
  using byte_down [of 0 3 u] byte_down [of 1 2 u] byte_up [of 1 u 1] byte_up [of 3 u 0] by simp

lemma masks64:
  "(0x00000000000000ff :: 64 word) = push_bit (8 * 0) (mask 8)" "(0x000000000000ff00 :: 64 word) = push_bit (8 * 1) (mask 8)"
  "(0x0000000000ff0000 :: 64 word) = push_bit (8 * 2) (mask 8)" "(0x00000000ff000000 :: 64 word) = push_bit (8 * 3) (mask 8)"
  "(0x000000ff00000000 :: 64 word) = push_bit (8 * 4) (mask 8)" "(0x0000ff0000000000 :: 64 word) = push_bit (8 * 5) (mask 8)"
  "(0x00ff000000000000 :: 64 word) = push_bit (8 * 6) (mask 8)" "(0xff00000000000000 :: 64 word) = push_bit (8 * 7) (mask 8)"
  by (simp_all add: mask_eq_exp_minus_1 push_bit_eq_mult)

lemma bswapdi2_bytes: "bswapdi2 u =
    push_bit (8 * 0) (byte_of u 7) OR push_bit (8 * 1) (byte_of u 6) OR push_bit (8 * 2) (byte_of u 5) OR
    push_bit (8 * 3) (byte_of u 4) OR push_bit (8 * 4) (byte_of u 3) OR push_bit (8 * 5) (byte_of u 2) OR
    push_bit (8 * 6) (byte_of u 1) OR push_bit (8 * 7) (byte_of u 0)"
  unfolding bswapdi2_def masks64
  using byte_down [of 0 7 u] byte_down [of 1 6 u] byte_down [of 2 5 u] byte_down [of 3 4 u]
    byte_up [of 1 u 3] byte_up [of 3 u 2] byte_up [of 5 u 1] byte_up [of 7 u 0] by simp

lemma byte_of_or: "byte_of (u OR v) i = byte_of u i OR byte_of v i" for u v :: "'a::len word"
  by (simp add: byte_of_def)

lemma byte_of_push: "8 * i + 8 \<le> LENGTH('a) \<Longrightarrow> byte_of (push_bit (8 * j) (byte_of u k)) i = (if i = j then byte_of u k else 0)"
  for u :: "'a::len word"
proof (rule bit_word_eqI)
  fix n assume a: "8 * i + 8 \<le> LENGTH('a)" "n < LENGTH('a)"
  have "i = j" if "n < 8" "8 * j \<le> n + 8 * i" "n + 8 * i - 8 * j < 8" using that by linarith
  then show "bit (byte_of (push_bit (8 * j) (byte_of u k)) i) n = bit (if i = j then byte_of u k else 0) n"
    using a by (auto simp: byte_of_def bit_simps)
qed

lemma bswapsi2_byte_of: "i < 4 \<Longrightarrow> byte_of (bswapsi2 u) i = byte_of u (3 - i)"
proof -
  assume i: "i < 4"
  then have l: "8 * i + 8 \<le> LENGTH(32)" by simp
  from i have "i = 0 \<or> i = 1 \<or> i = 2 \<or> i = 3" by presburger
  then show ?thesis unfolding bswapsi2_bytes byte_of_or byte_of_push [OF l] by (elim disjE) simp_all
qed

lemma bswapdi2_byte_of: "i < 8 \<Longrightarrow> byte_of (bswapdi2 u) i = byte_of u (7 - i)"
proof -
  assume i: "i < 8"
  then have l: "8 * i + 8 \<le> LENGTH(64)" by simp
  from i have "i = 0 \<or> i = 1 \<or> i = 2 \<or> i = 3 \<or> i = 4 \<or> i = 5 \<or> i = 6 \<or> i = 7" by presburger
  then show ?thesis unfolding bswapdi2_bytes byte_of_or byte_of_push [OF l] by (elim disjE) simp_all
qed

text \<open>Words with the same bytes are equal, so reversing twice gives the argument back.\<close>

lemma bytes_eqI:
  fixes u v :: "'a::len word"
  assumes "LENGTH('a) = 8 * k" "\<And>i. i < k \<Longrightarrow> byte_of u i = byte_of v i"
  shows "u = v"
proof (rule bit_word_eqI)
  fix n assume "n < LENGTH('a)"
  then have "n div 8 < k" using assms(1) by (simp add: less_mult_imp_div_less mult.commute)
  from arg_cong [OF assms(2) [OF this], of "\<lambda>w. bit w (n mod 8)"]
  show "bit u n = bit v n" by (simp add: byte_of_def bit_simps)
qed

lemma bswapsi2_twice: "bswapsi2 (bswapsi2 u) = u"
  by (rule bytes_eqI [where k = 4]) (simp_all add: bswapsi2_byte_of)

lemma bswapdi2_twice: "bswapdi2 (bswapdi2 u) = u"
  by (rule bytes_eqI [where k = 8]) (simp_all add: bswapdi2_byte_of)

end
