(* ===== verification/CRT_Div.thy ===== *)
theory CRT_Div
  imports CRT_Bits
begin

text \<open>
  Division. The loop shifts a double register, remainder and dividend, to the left; the quotient
  bits enter from the right. With \<open>U\<close> the double register followed by the carry, \<open>k\<close> steps give
  \<open>U\<^sub>k + Q * d * 2 ^ (N + 1) = 2 ^ k * U\<^sub>0 + Q\<close> where \<open>Q\<close> is the number of the \<open>k\<close> quotient bits.
\<close>

section \<open>The comparison by sign\<close>

lemma sign_compare:
  fixes d r :: "'a::len word"
  assumes "int (unat r) < int (unat d) + 2 ^ (LENGTH('a) - 1)" "int (unat d) \<le> int (unat r) + 2 ^ (LENGTH('a) - 1)"
  shows "sign_of (d - r - 1) = (if d \<le> r then -1 else 0)"
proof -
  let ?z = "int (unat d) - int (unat r) - 1"
  have "d - r - 1 = word_of_int ?z" by simp
  moreover have "fits TYPE('a) ?z" using assms by (simp add: fits_def)
  ultimately have "sint (d - r - 1) = ?z" by (simp only: sint_word_of_int)
  then show ?thesis by (auto simp: sign_of_eq word_le_def)
qed

section \<open>One step of the loop\<close>

lemma or_disjoint_unat: "x AND y = 0 \<Longrightarrow> unat (x OR y) = unat x + unat y" for x y :: "'a::len word"
proof -
  assume d: "x AND y = 0"
  then have "unat x AND unat y = 0" by (metis unsigned_and_eq unsigned_0)
  then show ?thesis by (simp add: unsigned_or_eq disjunctive_add_eq_or)
qed

lemma and_one_push: "push_bit 1 x AND y = 0" if "unat y \<le> 1" for x y :: "'a::len word"
proof -
  have "y = 0 \<or> y = 1" using that by (auto simp: word_unat_eq_iff)
  moreover have "push_bit 1 x AND 1 = 0" 
    by (rule bit_word_eqI) (auto simp only: bit_and_iff bit_push_bit_iff bit_1_iff bit_0_eq)
  ultimately show ?thesis by auto
qed

lemma unat_shift_in: "unat (push_bit 1 x OR y) = 2 * unat x mod 2 ^ LENGTH('a) + unat y" if "unat y \<le> 1" for x y :: "'a::len word"
proof -
  have "unat (push_bit 1 x) = 2 * unat x mod 2 ^ LENGTH('a)" by (simp add: unat_word_ariths push_bit_eq_mult mult.commute)
  then show ?thesis by (simp only: or_disjoint_unat [OF and_one_push [OF that]])
qed

lemma top_bit: "unat (drop_bit (LENGTH('a) - 1) x) \<le> 1"
    and top_split: "2 * unat x = unat (drop_bit (LENGTH('a) - 1) x) * 2 ^ LENGTH('a) + 2 * unat x mod 2 ^ LENGTH('a)" for x :: "'a::len word"
proof -
  define P where "P = (2 :: nat) ^ (LENGTH('a) - 1)"
  have P: "2 ^ LENGTH('a) = 2 * P" unfolding P_def by (metis Suc_pred' len_gt_0 power_Suc)
  have d: "unat (drop_bit (LENGTH('a) - 1) x) = unat x div P" unfolding P_def by (rule unat_drop)
  have "unat x < 2 * P" using unsigned_less [of x] unfolding P [symmetric] by simp
  then show "unat (drop_bit (LENGTH('a) - 1) x) \<le> 1" unfolding d by (simp add: less_mult_imp_div_less flip: less_Suc_eq_le)
  have "2 * unat x mod (2 * P) = 2 * (unat x mod P)" by simp
  moreover have "unat x = unat x div P * P + unat x mod P" by simp
  ultimately show "2 * unat x = unat (drop_bit (LENGTH('a) - 1) x) * 2 ^ LENGTH('a) + 2 * unat x mod 2 ^ LENGTH('a)"
    unfolding d P by (metis distrib_left mult.left_commute)
qed

text \<open>What the loop needs of the divisor, the number of steps and the remainder.\<close>

definition div_ok :: "'a::len word \<Rightarrow> nat \<Rightarrow> 'a word \<Rightarrow> bool" where
  "div_ok d k r \<longleftrightarrow> r < d \<and> (k = 0 \<or> unat d \<le> 2 ^ (LENGTH('a) - 1) \<or>
     k = 1 \<and> 2 ^ (LENGTH('a) - 1) \<le> 2 * unat r \<and> unat r < 2 ^ (LENGTH('a) - 1))"

definition reg :: "'a::len word \<times> 'a word \<times> 'a word \<Rightarrow> nat" where
  "reg = (\<lambda>(r, n, c). 2 * (unat r * 2 ^ LENGTH('a) + unat n) + unat c)"

lemma udiv_step:
  fixes d r n c :: "'a::len word"
  assumes ok: "div_ok d (Suc k) r" and c: "unat c \<le> 1"
    and r1: "r1 = push_bit 1 r OR drop_bit (LENGTH('a) - 1) n" and n1: "n1 = push_bit 1 n OR c"
    and s: "s = sign_of (d - r1 - 1)"
  shows "reg (r1 - (d AND s), n1, s AND 1) + unat (s AND 1) * (unat d * 2 ^ (LENGTH('a) + 1)) = 2 * reg (r, n, c) + unat (s AND 1)"
    and "r1 - (d AND s) < d" and "unat (s AND 1) \<le> 1"
proof -
  define P where "P = (2 :: nat) ^ (LENGTH('a) - 1)"
  have P: "2 ^ LENGTH('a) = 2 * P" unfolding P_def by (metis Suc_pred' len_gt_0 power_Suc)
  have rd: "unat r < unat d" using ok by (simp add: div_ok_def word_less_nat_alt)
  have rP: "unat r < P" using ok rd by (auto simp: div_ok_def P_def)
  define t where "t = unat (drop_bit (LENGTH('a) - 1) n)"
  have t: "t \<le> 1" unfolding t_def by (rule top_bit)
  have ur: "unat r1 = 2 * unat r + t" unfolding r1 using rP unat_shift_in [OF top_bit, of r n] by (simp add: P t_def)
  have un: "unat n1 + t * 2 ^ LENGTH('a) = 2 * unat n + unat c"
    unfolding n1 unat_shift_in [OF c] using top_split [of n] by (simp add: t_def)
  have dP: "unat d < 2 * P" using unsigned_less [of d] unfolding P [symmetric] by simp
  have lt: "unat r1 < unat d + P" using ok rd dP t rP by (auto simp: div_ok_def P_def ur)
  have ge: "unat d \<le> unat r1 + P" using ok dP by (auto simp: div_ok_def P_def ur)
  have "int P = 2 ^ (LENGTH('a) - 1)" by (simp add: P_def)
  then have sg: "s = (if d \<le> r1 then -1 else 0)" unfolding s using lt ge by (intro sign_compare) linarith+
  show "unat (s AND 1) \<le> 1" by (simp add: sg)
  have sub: "unat (r1 - d) = unat r1 - unat d" if "d \<le> r1" using that by (rule unat_sub)
  show "r1 - (d AND s) < d" using rd t by (auto simp: sg word_less_nat_alt sub ur not_le)
  show "reg (r1 - (d AND s), n1, s AND 1) + unat (s AND 1) * (unat d * 2 ^ (LENGTH('a) + 1)) = 2 * reg (r, n, c) + unat (s AND 1)"
  proof (cases "d \<le> r1")
    case True
    then have "unat (r1 - d) + unat d = 2 * unat r + t" using sub ur by (simp add: word_le_nat_alt)
    then have "(unat (r1 - d) + unat d) * 2 ^ LENGTH('a) = 2 * unat r * 2 ^ LENGTH('a) + t * 2 ^ LENGTH('a)" by (simp add: distrib_right)
    then show ?thesis using True un by (simp add: sg reg_def algebra_simps)
  next
    case False
    have "unat r1 * 2 ^ LENGTH('a) = 2 * unat r * 2 ^ LENGTH('a) + t * 2 ^ LENGTH('a)" by (simp add: ur distrib_right)
    then show ?thesis using False un by (simp add: sg reg_def algebra_simps)
  qed
qed

section \<open>The loop\<close>

lemma udiv_loop_spec:
  fixes d r n c :: "'a::len word"
  assumes "div_ok d k r" "unat c \<le> 1" "udiv_loop d k (r, n, c) = (r', n', c')"
  shows "\<exists>Q < 2 ^ k. reg (r', n', c') + Q * (unat d * 2 ^ (LENGTH('a) + 1)) = 2 ^ k * reg (r, n, c) + Q
    \<and> r' < d \<and> unat c' \<le> 1"
  using assms
proof (induction k arbitrary: r n c)
  case 0
  then show ?case by (intro exI [of _ 0]) (simp add: div_ok_def)
next
  case (Suc k)
  define r1 where "r1 = push_bit 1 r OR drop_bit (LENGTH('a) - 1) n"
  define n1 where "n1 = push_bit 1 n OR c"
  define s where "s = sign_of (d - r1 - 1)"
  note st = udiv_step [OF Suc.prems(1,2) r1_def n1_def s_def]
  have ok: "div_ok d k (r1 - (d AND s))" using Suc.prems(1) st(2) by (auto simp: div_ok_def)
  have "udiv_loop d k (r1 - (d AND s), n1, s AND 1) = (r', n', c')"
    using Suc.prems(3) by (simp only: udiv_loop.simps Let_def r1_def n1_def s_def)
  from Suc.IH [OF ok st(3) this] obtain Q where Q: "Q < 2 ^ k"
    "reg (r', n', c') + Q * (unat d * 2 ^ (LENGTH('a) + 1)) = 2 ^ k * reg (r1 - (d AND s), n1, s AND 1) + Q" "r' < d" "unat c' \<le> 1"
    by blast
  define b where "b = unat (s AND 1)"
  define D where "D = unat d * 2 ^ (LENGTH('a) + 1)"
  have b: "b \<le> 1" using st(3) by (simp add: b_def)
  have "2 ^ k * (reg (r1 - (d AND s), n1, s AND 1) + b * D) = 2 ^ k * (2 * reg (r, n, c) + b)"
    using st(1) by (simp only: b_def D_def)
  then have "reg (r', n', c') + (Q + 2 ^ k * b) * D = 2 ^ Suc k * reg (r, n, c) + (Q + 2 ^ k * b)"
    using Q(2) [folded D_def] by (simp add: algebra_simps)
  moreover have "Q + 2 ^ k * b < 2 ^ Suc k" using Q(1) b by (cases b) auto
  ultimately show ?case using Q(3,4) unfolding D_def by blast
qed

lemma digit_unique:
  fixes x y a c B :: nat
  assumes "x < B" "y < B" "x + a * B = y + c * B"
  shows "x = y \<and> a = c"
proof -
  have "(x + a * B) mod B = x" "(y + c * B) mod B = y" "(x + a * B) div B = a" "(y + c * B) div B = c" using assms(1,2) by simp_all
  then show ?thesis unfolding assms(3) by simp
qed

text \<open>A loop that starts with the dividend in the double register ends with quotient and remainder.\<close>

lemma udiv_loop_divides:
  fixes d r n :: "'a::len word"
  assumes ok: "div_ok d k r" and k: "k \<le> LENGTH('a)"
    and start: "unat r * 2 ^ LENGTH('a) + unat n = n0 * 2 ^ (LENGTH('a) - k)"
    and loop: "udiv_loop d k (r, n, 0) = (r', n', c')"
  shows "unat r' = n0 mod unat d" and "unat (push_bit 1 n' OR c') = n0 div unat d"
proof -
  define B where "B = (2 :: nat) ^ (LENGTH('a) + 1)"
  obtain Q where Q: "Q < 2 ^ k" "reg (r', n', c') + Q * (unat d * B) = 2 ^ k * reg (r, n, 0) + Q" "r' < d" "unat c' \<le> 1"
    using udiv_loop_spec [OF ok _ loop] unfolding B_def by auto
  have "2 ^ k * reg (r, n, 0) = 2 * (n0 * (2 ^ k * 2 ^ (LENGTH('a) - k)))" using start by (simp add: reg_def)
  also have "2 ^ k * 2 ^ (LENGTH('a) - k) = (2 :: nat) ^ LENGTH('a)" using k by (simp flip: power_add)
  finally have s: "2 ^ k * reg (r, n, 0) = n0 * B" by (simp add: B_def)
  have e: "(2 * unat n' + unat c') + (unat r' + Q * unat d) * B = Q + n0 * B"
    using Q(2) unfolding s by (simp add: reg_def B_def algebra_simps)
  have "(2 :: nat) ^ k \<le> 2 ^ LENGTH('a)" using k by (intro power_increasing) simp_all
  then have QB: "Q < 2 ^ LENGTH('a)" using Q(1) by linarith
  then have "Q < B" by (simp add: B_def)
  moreover have "unat n' < 2 ^ LENGTH('a)" by (rule unsigned_less)
  then have "2 * unat n' + unat c' < B" using Q(4) unfolding B_def power_add power_one_right by linarith
  ultimately have q: "2 * unat n' + unat c' = Q" and r: "unat r' + Q * unat d = n0"
    using digit_unique [OF _ _ e] by simp_all
  have "unat r' < unat d" using Q(3) by (simp add: word_less_nat_alt)
  with r have "n0 div unat d = Q \<and> n0 mod unat d = unat r'" by (auto simp flip: r)
  moreover have "unat (push_bit 1 n' OR c') = Q"
    unfolding unat_shift_in [OF Q(4)] using QB q by simp
  ultimately show "unat r' = n0 mod unat d" and "unat (push_bit 1 n' OR c') = n0 div unat d" by simp_all
qed

section \<open>The shift count\<close>

lemma bitlen_less: "bitlen x < bitlen y \<Longrightarrow> x < y"
proof -
  assume b: "bitlen x < bitlen y"
  have "x < 2 ^ bitlen x" using bitlen_le [of x "bitlen x"] by simp
  moreover have "2 ^ bitlen x \<le> y" using bitlen_le [of y "bitlen x"] b by simp
  ultimately show ?thesis by linarith
qed

lemma shift_of_eq:
  fixes n d :: "'a::len word"
  assumes "LENGTH('a) < 2 ^ 31" "d \<noteq> 0"
  shows "bitlen (unat n) < bitlen (unat d) \<Longrightarrow> LENGTH('a) - 1 < shift_of n d"
    and "bitlen (unat d) \<le> bitlen (unat n) \<Longrightarrow> shift_of n d = bitlen (unat n) - bitlen (unat d)"
  using assms bitlen_word [of n] bitlen_word [of d]
  by (auto simp: shift_of_def usub32_def builtin_clz_eq U32_def)

lemma unat_push: "unat (push_bit j n) = unat n * 2 ^ j mod 2 ^ LENGTH('a)" for n :: "'a::len word"
proof -
  have "unat (push_bit j n) = take_bit LENGTH('a) (push_bit j (unat n))" by (rule unsigned_push_bit_eq)
  then show ?thesis by (simp only: take_bit_eq_mod push_bit_eq_mult)
qed

lemma start_regs:
  fixes n :: "'a::len word"
  assumes k: "k \<le> LENGTH('a)"
  shows "unat (drop_bit k n) * 2 ^ LENGTH('a) + unat (push_bit (LENGTH('a) - k) n) = unat n * 2 ^ (LENGTH('a) - k)"
proof -
  have N: "(2::nat) ^ LENGTH('a) = 2 ^ (LENGTH('a) - k) * 2 ^ k" using k by (simp flip: power_add)
  have "unat (push_bit (LENGTH('a) - k) n) = unat n * 2 ^ (LENGTH('a) - k) mod 2 ^ LENGTH('a)"
    by (rule unat_push)
  moreover have "unat (drop_bit k n) = unat n * 2 ^ (LENGTH('a) - k) div 2 ^ LENGTH('a)"
    unfolding unat_drop N by (simp add: div_mult2_eq)
  ultimately show ?thesis by (simp only: div_mult_mod_eq)
qed

lemma start_ok:
  fixes n d :: "'a::len word"
  assumes N: "2 \<le> LENGTH('a)" and le: "bitlen (unat d) \<le> bitlen (unat n)" and d: "d \<noteq> 0"
    and k: "k = bitlen (unat n) - bitlen (unat d) + 1"
  shows "div_ok d k (drop_bit k n)"
proof -
  have d0: "0 < bitlen (unat d)" using d by (intro bitlen_pos) (simp add: unat_eq_zero)
  have "bitlen (unat (drop_bit k n)) = bitlen (unat n) - k" by (simp only: unat_drop bitlen_div)
  then have "bitlen (unat (drop_bit k n)) = bitlen (unat d) - 1" using le by (simp add: k)
  then have r: "drop_bit k n < d" unfolding word_less_nat_alt using d0 by - (rule bitlen_less, simp)
  have "k = 1 \<and> 2 ^ (LENGTH('a) - 1) \<le> 2 * unat (drop_bit k n) \<and> unat (drop_bit k n) < 2 ^ (LENGTH('a) - 1)"
    if "\<not> unat d \<le> 2 ^ (LENGTH('a) - 1)"
  proof -
    obtain m where m: "LENGTH('a) = Suc (Suc m)" using N by (metis Suc_le_D numeral_2_eq_2 Suc_le_mono)
    have "bitlen (unat d) = LENGTH('a)" using that bitlen_le [of "unat d" "LENGTH('a) - 1"] bitlen_word [of d] by simp
    then have bn: "bitlen (unat n) = LENGTH('a)" and k1: "k = 1" using le bitlen_word [of n] k by simp_all
    have "2 ^ Suc m \<le> unat n" "unat n < 2 ^ Suc (Suc m)"
      using bn bitlen_le [of "unat n" "Suc m"] bitlen_le [of "unat n" "Suc (Suc m)"] by (auto simp: m)
    then show ?thesis unfolding k1 unat_drop m by auto
  qed
  then show ?thesis using r by (auto simp: div_ok_def)
qed

section \<open>Unsigned division\<close>

lemma udivXi3_start:
  fixes n d :: "'a::len word"
  assumes N: "2 \<le> LENGTH('a)" "LENGTH('a) < 2 ^ 31" and d: "d \<noteq> 0"
  shows "udivXi3 n d = n div d" and "umodXi3 n d = n mod d"
proof -
  consider (less) "bitlen (unat n) < bitlen (unat d)" | (one) "bitlen (unat d) \<le> bitlen (unat n)" "shift_of n d = LENGTH('a) - 1"
    | (loop) "bitlen (unat d) \<le> bitlen (unat n)" "shift_of n d < LENGTH('a) - 1"
  proof (cases "bitlen (unat n) < bitlen (unat d)")
    case False
    have "0 < bitlen (unat d)" using d by (intro bitlen_pos) (simp add: unat_eq_zero)
    then have "shift_of n d \<le> LENGTH('a) - 1" using shift_of_eq(2) [OF N(2) d, of n] bitlen_word [of n] False by simp
    then show ?thesis using that(2,3) False by (cases "shift_of n d = LENGTH('a) - 1") simp_all
  qed (rule that(1))
  then have "udivXi3 n d = n div d \<and> umodXi3 n d = n mod d"
  proof cases
    case less
    then have "n < d" using bitlen_less by (simp add: word_less_nat_alt)
    then show ?thesis using shift_of_eq(1) [OF N(2) d less] by (simp add: udivXi3_def umodXi3_def div_word_less mod_word_less)
  next
    case one
    have d0: "0 < bitlen (unat d)" using d by (intro bitlen_pos) (simp add: unat_eq_zero)
    have "bitlen (unat d) = 1"
      using shift_of_eq(2) [OF N(2) d one(1)] one bitlen_word [of n] N d0 by simp
    then have "unat d < 2" using bitlen_le [of "unat d" 1] by simp
    then have "d = 1" using d by (simp add: word_unat_eq_iff)
    then show ?thesis using one by (simp add: udivXi3_def umodXi3_def)
  next
    case loop
    define k where "k = shift_of n d + 1"
    have k: "k = bitlen (unat n) - bitlen (unat d) + 1" using shift_of_eq(2) [OF N(2) d loop(1)] by (simp add: k_def)
    have kN: "k \<le> LENGTH('a)" using loop by (simp add: k_def)
    obtain r' n' c' where l: "udiv_loop d k (drop_bit k n, push_bit (LENGTH('a) - k) n, 0) = (r', n', c')" by (metis surj_pair)
    note div = udiv_loop_divides [OF start_ok [OF N(1) loop(1) d k] kN start_regs [OF kN] l]
    have "udivXi3 n d = push_bit 1 n' OR c'" "umodXi3 n d = r'"
    proof -
      have "\<not> LENGTH('a) - 1 < shift_of n d" "shift_of n d \<noteq> LENGTH('a) - 1" using loop(2) by simp_all
      then show "udivXi3 n d = push_bit 1 n' OR c'" "umodXi3 n d = r'"
        using l unfolding udivXi3_def umodXi3_def Let_def k_def by (simp_all only: if_False prod.case fst_conv)
    qed
    then show ?thesis using div by (simp add: word_unat_eq_iff unat_div_distrib unat_mod_distrib)
  qed
  then show "udivXi3 n d = n div d" and "umodXi3 n d = n mod d" by simp_all
qed

end
