(* ===== verification/CRT_Div64.thy ===== *)
theory CRT_Div64
  imports CRT_Div
begin

text \<open>
  \<open>__udivmoddi4\<close>: the same loop with both registers in halves, and the special cases in front
  of it.
\<close>

section \<open>The loop on halves\<close>

lemma shift_join:
  fixes l h x :: "'h::len word"
  assumes len: "LENGTH('w::len) = LENGTH('h) + LENGTH('h)"
  shows "(s_all (push_bit 1 l OR x) (push_bit 1 h OR drop_bit (LENGTH('h) - 1) l) :: 'w word) = push_bit 1 (s_all l h) OR ucast x"
proof (rule bit_word_eqI)
  fix n assume n: "n < LENGTH('w)"
  have e: "LENGTH('h) - 1 + (n - LENGTH('h)) = n - 1" "n - LENGTH('h) - 1 = n - 1 - LENGTH('h)" if "LENGTH('h) \<le> n"
    using that len_gt_0 [where 'a = 'h] by linarith+
  consider "n < LENGTH('h)" | "n = LENGTH('h)" | "LENGTH('h) < n" by linarith
  then show "bit (s_all (push_bit 1 l OR x) (push_bit 1 h OR drop_bit (LENGTH('h) - 1) l) :: 'w word) n = bit (push_bit 1 (s_all l h) OR ucast x :: 'w word) n"
  proof cases
    case 1
    then have "n - 1 < LENGTH('h)" by simp
    then show ?thesis using 1 n len by (auto simp only: bit_s_all bit_or_iff bit_push_bit_iff bit_ucast_iff if_True possible_bit_word)
  next
    case 2
    then have "n - 1 < LENGTH('h)" "\<not> n < LENGTH('h)" "1 \<le> n" "\<not> bit x n" using len_gt_0 [where 'a = 'h] bit_imp_le_length [of x n] by (auto simp del: len_gt_0)
    then show ?thesis using 2 n len e(1)
      by (auto simp only: bit_s_all bit_or_iff bit_push_bit_iff bit_ucast_iff if_True if_False possible_bit_word bit_drop_bit_eq comp_def diff_self_eq_0 add_0_right)
  next
    case 3
    then have "\<not> n < LENGTH('h)" "\<not> n - 1 < LENGTH('h)" "1 \<le> n" "1 \<le> n - LENGTH('h)" "\<not> bit x n" "\<not> bit l (n - 1)" "LENGTH('h) \<le> n"
      using bit_imp_le_length [of x n] bit_imp_le_length [of l "n - 1"] by auto
    then show ?thesis using n len e
      by (auto simp only: bit_s_all bit_or_iff bit_push_bit_iff bit_ucast_iff if_True if_False possible_bit_word bit_drop_bit_eq comp_def)
  qed
qed

lemma top_join:
  fixes l h :: "'h::len word"
  assumes len: "LENGTH('w::len) = LENGTH('h) + LENGTH('h)"
  shows "drop_bit (LENGTH('w) - 1) (s_all l h :: 'w word) = ucast (drop_bit (LENGTH('h) - 1) h)"
proof (rule bit_word_eqI)
  fix n assume n: "n < LENGTH('w)"
  have e: "LENGTH('w) - 1 + n - LENGTH('h) = LENGTH('h) - 1 + n" "\<not> LENGTH('w) - 1 + n < LENGTH('h)"
    using len len_gt_0 [where 'a = 'h] by linarith+
  show "bit (drop_bit (LENGTH('w) - 1) (s_all l h :: 'w word)) n = bit (ucast (drop_bit (LENGTH('h) - 1) h) :: 'w word) n"
    using n e bit_imp_le_length [of h "LENGTH('h) - 1 + n"] len by (auto simp: bit_s_all bit_drop_bit_eq bit_ucast_iff)
qed

lemma s_all_halves: "LENGTH('w) = LENGTH('h) + LENGTH('h) \<Longrightarrow> s_all (s_low x) (s_high x :: 'h::len word) = (x :: 'w::len word)"
  by (simp only: word_unat_eq_iff unat_s_all halves_eq [of x, symmetric])

lemma udivmoddi4_loop_sim:
  assumes "udivmoddi4_loop d k ((ql, qh), (rl, rh), c) = ((ql', qh'), (rl', rh'), c')"
  shows "udiv_loop d k (s_all rl rh, s_all ql qh, ucast c) = (s_all rl' rh', s_all ql' qh', ucast c')"
  using assms
proof (induction k arbitrary: ql qh rl rh c)
  case (Suc k)
  define rh1 where "rh1 = push_bit 1 rh OR drop_bit 31 rl"
  define rl1 where "rl1 = push_bit 1 rl OR drop_bit 31 qh"
  define qh1 where "qh1 = push_bit 1 qh OR drop_bit 31 ql"
  define ql1 where "ql1 = push_bit 1 ql OR c"
  define r1 where "r1 = (s_all rl1 rh1 :: 64 word)"
  define s where "s = sign_of (d - r1 - 1)"
  have "LENGTH(32) - 1 = 31" "LENGTH(64) - 1 = 63" by simp_all
  note len = this
  have r: "r1 = push_bit 1 (s_all rl rh) OR drop_bit (LENGTH(64) - 1) (s_all ql qh)"
    unfolding r1_def rl1_def rh1_def using shift_join [where 'w = 64 and 'h = 32, of rl "drop_bit 31 qh" rh]
      top_join [where 'w = 64 and 'h = 32, of ql qh] unfolding len by simp
  have n: "(s_all ql1 qh1 :: 64 word) = push_bit 1 (s_all ql qh) OR ucast c"
    unfolding ql1_def qh1_def using shift_join [where 'w = 64 and 'h = 32, of ql c qh] unfolding len by simp
  have "sign_of (d - r1 - 1) \<in> {-1, 0}" by (simp add: sign_of_eq)
  then have c: "ucast (ucast (s AND 1) :: 32 word) = s AND 1" by (auto simp: s_def)
  have "udivmoddi4_loop d k ((ql1, qh1), (s_low (r1 - (d AND s)), s_high (r1 - (d AND s))), ucast (s AND 1)) = ((ql', qh'), (rl', rh'), c')"
    using Suc.prems unfolding udivmoddi4_loop.simps Let_def s_def r1_def rh1_def rl1_def qh1_def ql1_def .
  from Suc.IH [OF this]
  have "udiv_loop d k (r1 - (d AND s), push_bit 1 (s_all ql qh) OR ucast c, s AND 1) = (s_all rl' rh', s_all ql' qh', ucast c')"
    by (simp only: n c s_all_halves [where 'w = 64 and 'h = 32, simplified])
  then show ?case unfolding udiv_loop.simps Let_def r [symmetric] s_def [symmetric] by (simp only: r s_def)
qed simp

section \<open>Powers of two\<close>

lemma and_pred:
  assumes "0 < (d :: nat)" "d AND (d - 1) = 0"
  shows "d = 2 ^ low_zeros d"
proof -
  obtain m where m: "odd m" "d = 2 ^ low_zeros d * m" using low_zeros_dvd [of d] assms(1) by auto
  define k where "k = low_zeros d"
  obtain j where j: "m = 1 + 2 ^ 1 * j" using m(1) by (metis add.commute oddE power_one_right)
  have "d - 1 = (2 ^ k - 1) + 2 ^ k * (m - 1)"
    using m(2) j by (simp add: k_def [symmetric] diff_mult_distrib2)
  then have "d AND (d - 1) = (0 AND (2 ^ k - 1)) + 2 ^ k * (m AND (m - 1))"
    using and_join [of 0 k "2 ^ k - 1" m "m - 1"] m(2) by (simp add: k_def [symmetric])
  moreover have "m AND (m - 1) = 2 * j" using and_join [of 1 1 0 j j] by (simp add: j)
  ultimately show ?thesis using assms(2) m(2) j by (simp add: k_def)
qed

lemma power_of_two:
  assumes "d \<noteq> 0" "d AND (d - 1) = (0 :: 'a::len word)"
  shows "unat d = 2 ^ builtin_ctz d" and "builtin_ctz d < LENGTH('a)"
proof -
  have p: "0 < unat d" using assms(1) by (simp add: unat_gt_0)
  have "unat (d - 1) = unat d - 1" using assms(1) by (simp add: unat_minus_one)
  then have "unat d AND (unat d - 1) = 0" using assms(2) by (metis unat_and unat_0)
  from and_pred [OF p this] show "unat d = 2 ^ builtin_ctz d" using assms(1) by (simp add: builtin_ctz_eq)
  show "builtin_ctz d < LENGTH('a)" using assms(1) p low_zeros_less [of "unat d" "LENGTH('a)"] by (simp add: builtin_ctz_eq)
qed

lemma and_pred_mod: "unat d = 2 ^ k \<Longrightarrow> unat (x AND (d - 1)) = unat x mod unat (d :: 'a::len word)"
proof -
  assume d: "unat d = 2 ^ k"
  then have "d \<noteq> 0" by auto
  then have "unat (d - 1) = mask k" using d by (simp add: unat_minus_one mask_eq_exp_minus_1)
  then have "unat (x AND (d - 1)) = take_bit k (unat x)" by (simp add: unat_and take_bit_eq_mask)
  then show ?thesis using d by (simp add: take_bit_eq_mod)
qed

section \<open>The cases in front of the loop\<close>

lemma unat_ucast_up: "LENGTH('h) \<le> LENGTH('w) \<Longrightarrow> unat (ucast (x :: 'h::len word) :: 'w::len word) = unat x"
  by (simp add: unsigned_ucast_eq take_bit_nat_eq_self less_le_trans [OF unsigned_less])

text \<open>What the front hands on: an answer, or the registers of the loop.\<close>

definition front_ok :: "64 word \<Rightarrow> 64 word \<Rightarrow> (64 word \<times> 64 word) option + (nat \<times> (32 word \<times> 32 word) \<times> 32 word \<times> 32 word) \<Rightarrow> bool" where
  "front_ok a b res = (case res of
      Inl ans \<Rightarrow> ans = Some (a div b, a mod b)
    | Inr (sr, (q_low, q_high), r_low, r_high) \<Rightarrow>
        bitlen (unat b) \<le> bitlen (unat a) \<and> sr = bitlen (unat a) - bitlen (unat b) + 1 \<and> sr \<le> 64 \<and>
        s_all r_low r_high = drop_bit sr a \<and> s_all q_low q_high = push_bit (64 - sr) a)"

lemma front_answer: "unat q = unat a div unat b \<Longrightarrow> unat r = unat a mod unat b \<Longrightarrow> front_ok a b (Inl (Some (q, r)))"
  by (simp add: front_ok_def word_unat_eq_iff unat_div_distrib unat_mod_distrib)

lemma front_less: "a < b \<Longrightarrow> front_ok a b (Inl (Some (0, a)))"
  by (rule front_answer) (simp_all add: word_less_nat_alt)

lemma halves64: "unat (x :: 64 word) = unat (s_low x :: 32 word) + unat (s_high x :: 32 word) * 2 ^ 32"
  using halves_eq [where 'w = 64 and 'h = 32, of x] by simp

lemma half_less: "unat (x :: 32 word) < 2 ^ 32" using unsigned_less [of x] by simp

lemma front_high:
  assumes "s_low b = (0 :: 32 word)" "unat q = unat (s_high a :: 32 word) div unat (s_high b :: 32 word)"
    and "unat r = unat (s_low a :: 32 word) + unat (s_high a :: 32 word) mod unat (s_high b :: 32 word) * 2 ^ 32"
  shows "front_ok a b (Inl (Some (q, r)))"
proof (rule front_answer)
  have b: "unat b = 2 ^ 32 * unat (s_high b :: 32 word)" using halves64 [of b] assms(1) by simp
  have d: "unat a div 2 ^ 32 = unat (s_high a :: 32 word)" "unat a mod 2 ^ 32 = unat (s_low a :: 32 word)"
    using half_less [of "s_low a"] unfolding halves64 [of a] by (simp_all only: div_mult_self1 mod_mult_self1) simp_all
  show "unat q = unat a div unat b" unfolding b assms(2) div_mult2_eq d ..
  show "unat r = unat a mod unat b" unfolding b assms(3) mod_mult2_eq d by simp
qed

lemma front_near:
  assumes "bitlen (unat b) \<le> bitlen (unat a)" "sr = bitlen (unat a) - bitlen (unat b) + 1" "0 < sr" "sr < 32"
  shows "front_ok a b (Inr (sr, (0, push_bit (32 - sr) (s_low a)), push_bit (32 - sr) (s_high a) OR drop_bit sr (s_low a), drop_bit sr (s_high a)))"
  using assms shl_far [where 'w = 64 and 'h = 32, of "64 - sr" a] shr_near [where 'w = 64 and 'h = 32, of sr a]
  by (simp add: front_ok_def)

lemma front_half:
  assumes "bitlen (unat b) \<le> bitlen (unat a)" "32 = bitlen (unat a) - bitlen (unat b) + 1"
  shows "front_ok a b (Inr (32, (0, s_low a), s_high a, 0))"
  using assms shl_far [where 'w = 64 and 'h = 32, of 32 a] shr_far [where 'w = 64 and 'h = 32, of 32 a]
  by (simp add: front_ok_def)

lemma front_far:
  assumes "bitlen (unat b) \<le> bitlen (unat a)" "sr = bitlen (unat a) - bitlen (unat b) + 1" "32 < sr" "sr < 64"
  shows "front_ok a b (Inr (sr, (push_bit (64 - sr) (s_low a), push_bit (64 - sr) (s_high a) OR drop_bit (sr - 32) (s_low a)), drop_bit (sr - 32) (s_high a), 0))"
proof -
  have "s_all (push_bit (64 - sr) (s_low a)) (push_bit (64 - sr) (s_high a) OR drop_bit (sr - 32) (s_low a) :: 32 word) = push_bit (64 - sr) a"
    using shl_near [where 'w = 64 and 'h = 32, of "64 - sr" a] assms(3,4) by simp
  moreover have "s_all (drop_bit (sr - 32) (s_high a :: 32 word)) 0 = drop_bit sr a"
    using shr_far [where 'w = 64 and 'h = 32, of sr a] assms(3) by simp
  moreover have "sr \<le> 64" using assms(4) by simp
  ultimately show ?thesis using assms(1,2) unfolding front_ok_def sum.case prod.case by blast
qed

lemma bitlen_high: "s_high x \<noteq> (0 :: 32 word) \<Longrightarrow> bitlen (unat (x :: 64 word)) = 32 + bitlen (unat (s_high x :: 32 word))"
  using bitlen_halves [where 'w = 64 and 'h = 32, of x] by simp

lemma bitlen_low: "s_high x = (0 :: 32 word) \<Longrightarrow> bitlen (unat (x :: 64 word)) = bitlen (unat (s_low x :: 32 word))"
  using bitlen_halves [where 'w = 64 and 'h = 32, of x] by simp

lemma bitlen_range: "x \<noteq> 0 \<Longrightarrow> 0 < bitlen (unat (x :: 32 word)) \<and> bitlen (unat x) \<le> 32"
  using bitlen_word [of x] bitlen_pos [of "unat x"] unat_eq_zero [of x] by fastforce

lemma front_small:
  assumes "s_high a = (0 :: 32 word)" "b \<noteq> 0"
  shows "front_ok a b (udivmoddi4_start a b)"
proof (cases "s_high b = (0 :: 32 word)")
  case True
  then have "s_low b \<noteq> (0 :: 32 word)" using assms(2) halves64 [of b] by (auto simp: word_unat_eq_iff)
  then show ?thesis using True assms(1)
    by (auto simp: udivmoddi4_start_def Let_def halves64 [of a] halves64 [of b] unat_ucast_up unat_div_distrib unat_mod_distrib intro!: front_answer)
next
  case False
  have "unat a = unat (s_low a :: 32 word)" using halves64 [of a] assms(1) by simp
  moreover have "1 \<le> unat (s_high b :: 32 word)" using False by (simp add: unat_gt_0 Suc_le_eq)
  then have "2 ^ 32 \<le> unat b" using halves64 [of b] mult_le_mono1 [of 1 "unat (s_high b :: 32 word)" "2 ^ 32"] by simp
  ultimately have "a < b" "ucast (s_low a :: 32 word) = a" using half_less [of "s_low a"] by (simp_all add: word_less_nat_alt word_unat_eq_iff unat_ucast_up)
  then show ?thesis using False assms(1) front_less by (simp add: udivmoddi4_start_def Let_def)
qed

lemma front_low_zero:
  assumes n: "s_high a \<noteq> (0 :: 32 word)" and d: "s_low b = (0 :: 32 word)" "s_high b \<noteq> (0 :: 32 word)"
  shows "front_ok a b (udivmoddi4_start a b)"
proof -
  define sr where "sr = usub32 (builtin_clz (s_high b :: 32 word)) (builtin_clz (s_high a :: 32 word))"
  have sr: "sr = usub32 (32 - bitlen (unat (s_high b :: 32 word))) (32 - bitlen (unat (s_high a :: 32 word)))"
    unfolding sr_def by (simp add: builtin_clz_eq)
  consider (zero) "s_low a = (0 :: 32 word)"
    | (power) "s_low a \<noteq> (0 :: 32 word)" "s_high b AND (s_high b - 1) = (0 :: 32 word)"
    | (less) "s_low a \<noteq> (0 :: 32 word)" "s_high b AND (s_high b - 1) \<noteq> (0 :: 32 word)" "30 < sr"
    | (loop) "s_low a \<noteq> (0 :: 32 word)" "s_high b AND (s_high b - 1) \<noteq> (0 :: 32 word)" "sr \<le> 30" by linarith
  then show ?thesis
  proof cases
    case zero
    then show ?thesis using n d
      by (auto simp: udivmoddi4_start_def Let_def unat_ucast_up unat_div_distrib unat_mod_distrib unat_s_all intro!: front_high)
  next
    case power
    note p = power_of_two [OF d(2) power(2)]
    show ?thesis using n d power p
      by (auto simp: udivmoddi4_start_def Let_def unat_ucast_up unat_drop unat_s_all and_pred_mod [OF p(1)] intro!: front_high)
  next
    case less
    have b1: "bitlen (unat (s_high b :: 32 word)) \<noteq> 1"
    proof
      assume "bitlen (unat (s_high b :: 32 word)) = 1"
      then have "unat (s_high b :: 32 word) < 2" using bitlen_le [of "unat (s_high b :: 32 word)" 1] by simp
      then have "(s_high b :: 32 word) = 1" using d(2) by (simp add: word_unat_eq_iff)
      then show False using less(2) by simp
    qed
    have "bitlen (unat (s_high a :: 32 word)) < bitlen (unat (s_high b :: 32 word))"
      using less(3) b1 bitlen_range [OF n] bitlen_range [OF d(2)] by (auto simp: sr usub32_def split: if_splits)
    then have "a < b" unfolding word_less_nat_alt by - (rule bitlen_less, simp add: bitlen_high n d(2))
    then show ?thesis using n d less front_less by (simp add: udivmoddi4_start_def Let_def sr_def [symmetric])
  next
    case loop
    have "bitlen (unat b) \<le> bitlen (unat a)" "sr + 1 = bitlen (unat a) - bitlen (unat b) + 1"
      using loop(3) bitlen_range [OF n] bitlen_range [OF d(2)] by (auto simp: sr usub32_def bitlen_high n d(2) U32_def split: if_splits)
    then have "front_ok a b (Inr (sr + 1, (0, push_bit (32 - (sr + 1)) (s_low a)), push_bit (32 - (sr + 1)) (s_high a) OR drop_bit (sr + 1) (s_low a), drop_bit (sr + 1) (s_high a)))"
      using loop(3) by (intro front_near) simp_all
    then show ?thesis using n d loop by (simp add: udivmoddi4_start_def Let_def sr_def [symmetric])
  qed
qed

lemma front_high_zero:
  assumes n: "s_high a \<noteq> (0 :: 32 word)" and d: "s_low b \<noteq> (0 :: 32 word)" "s_high b = (0 :: 32 word)"
  shows "front_ok a b (udivmoddi4_start a b)"
proof (cases "s_low b AND (s_low b - 1) = (0 :: 32 word)")
  case True
  note p = power_of_two [OF d(1) True]
  define t where "t = builtin_ctz (s_low b :: 32 word)"
  have b: "unat b = 2 ^ t" using halves64 [of b] d(2) p(1) by (simp add: t_def)
  have t: "t < 32" using p(2) by (simp add: t_def)
  have "(2::nat) ^ t dvd 2 ^ 32" using t by (intro le_imp_power_dvd) simp
  then have m: "unat a mod 2 ^ t = unat (s_low a :: 32 word) mod 2 ^ t"
    unfolding halves64 [of a] by (metis dvd_mult mod_add_right_eq add.right_neutral dvd_imp_mod_0)
  have r: "unat (ucast (s_low a AND (s_low b - 1) :: 32 word) :: 64 word) = unat a mod unat b"
    using and_pred_mod [OF p(1), of "s_low a"] p(1) m by (simp add: unat_ucast_up b flip: t_def)
  have q: "(if s_low b = (1 :: 32 word) then a
     else s_all (push_bit (32 - t) (s_high a) OR drop_bit t (s_low a)) (drop_bit t (s_high a) :: 32 word)) = drop_bit t a"
  proof (cases "s_low b = (1 :: 32 word)")
    case True
    then have "t = 0" using p(1) by (cases t) (simp_all add: t_def)
    then show ?thesis using True by simp
  next
    case False
    then show ?thesis using shr_near [where 'w = 64 and 'h = 32, of t a] t by simp
  qed
  have "udivmoddi4_start a b = Inl (Some (drop_bit t a, ucast (s_low a AND (s_low b - 1) :: 32 word)))"
    unfolding q [symmetric] using n d True by (simp add: udivmoddi4_start_def Let_def t_def)
  then show ?thesis using r by (simp add: front_answer unat_drop b)
next
  case False
  define sr where "sr = usub32 (1 + 32 + builtin_clz (s_low b :: 32 word)) (builtin_clz (s_high a :: 32 word))"
  have b1: "bitlen (unat (s_low b :: 32 word)) \<noteq> 1"
  proof
    assume "bitlen (unat (s_low b :: 32 word)) = 1"
    then have "unat (s_low b :: 32 word) < 2" using bitlen_le [of "unat (s_low b :: 32 word)" 1] by simp
    then have "(s_low b :: 32 word) = 1" using d(1) by (simp add: word_unat_eq_iff)
    then show False using False by simp
  qed
  have sr: "bitlen (unat b) \<le> bitlen (unat a)" "sr = bitlen (unat a) - bitlen (unat b) + 1" "0 < sr" "sr < 64"
    using b1 bitlen_range [OF n] bitlen_range [OF d(1)]
    by (auto simp: sr_def usub32_def builtin_clz_eq bitlen_high n bitlen_low d(2))
  have e: "udivmoddi4_start a b = (if sr = 32 then Inr (sr, (0, s_low a), s_high a, 0)
     else if sr < 32 then Inr (sr, (0, push_bit (32 - sr) (s_low a)), push_bit (32 - sr) (s_high a) OR drop_bit sr (s_low a), drop_bit sr (s_high a))
     else Inr (sr, (push_bit (64 - sr) (s_low a), push_bit (64 - sr) (s_high a) OR drop_bit (sr - 32) (s_low a)), drop_bit (sr - 32) (s_high a), 0))"
    unfolding udivmoddi4_start_def Let_def sr_def [symmetric] using n d False by simp
  consider "sr = 32" | "sr < 32" | "32 < sr" by linarith
  then show ?thesis unfolding e
    using front_near [OF sr(1,2,3)] front_far [OF sr(1,2) _ sr(4)] front_half [OF sr(1)] sr(2) by cases auto
qed

lemma front_both:
  assumes n: "s_high a \<noteq> (0 :: 32 word)" and d: "s_low b \<noteq> (0 :: 32 word)" "s_high b \<noteq> (0 :: 32 word)"
  shows "front_ok a b (udivmoddi4_start a b)"
proof -
  define sr where "sr = usub32 (builtin_clz (s_high b :: 32 word)) (builtin_clz (s_high a :: 32 word))"
  have sr: "sr = usub32 (32 - bitlen (unat (s_high b :: 32 word))) (32 - bitlen (unat (s_high a :: 32 word)))"
    unfolding sr_def by (simp add: builtin_clz_eq)
  show ?thesis
  proof (cases "31 < sr")
    case True
    then have "bitlen (unat (s_high a :: 32 word)) < bitlen (unat (s_high b :: 32 word))"
      using bitlen_range [OF n] bitlen_range [OF d(2)] by (auto simp: sr usub32_def split: if_splits)
    then have "a < b" unfolding word_less_nat_alt by - (rule bitlen_less, simp add: bitlen_high n d(2))
    then show ?thesis using n d True front_less by (simp add: udivmoddi4_start_def Let_def sr_def [symmetric])
  next
    case False
    have s: "bitlen (unat b) \<le> bitlen (unat a)" "sr + 1 = bitlen (unat a) - bitlen (unat b) + 1"
      using False bitlen_range [OF n] bitlen_range [OF d(2)] by (auto simp: sr usub32_def bitlen_high n d(2) U32_def split: if_splits)
    have e: "udivmoddi4_start a b = (if sr + 1 = 32 then Inr (32, (0, s_low a), s_high a, 0)
       else Inr (sr + 1, (0, push_bit (32 - (sr + 1)) (s_low a)), push_bit (32 - (sr + 1)) (s_high a) OR drop_bit (sr + 1) (s_low a), drop_bit (sr + 1) (s_high a)))"
      using n d False by (simp add: udivmoddi4_start_def Let_def sr_def [symmetric])
    show ?thesis unfolding e using front_near [OF s] front_half [OF s(1)] s(2) False by (cases "sr + 1 = 32") auto
  qed
qed

lemma udivmoddi4_start_ok: "b \<noteq> 0 \<Longrightarrow> front_ok a b (udivmoddi4_start a b)"
proof -
  assume b: "b \<noteq> 0"
  then have "s_low b \<noteq> (0 :: 32 word) \<or> s_high b \<noteq> (0 :: 32 word)" using halves64 [of b] by (auto simp: word_unat_eq_iff)
  then show ?thesis using front_small [OF _ b] front_low_zero [of a b] front_high_zero [of a b] front_both [of a b] by blast
qed

lemma udivmoddi4_eq: "udivmoddi4 a b = (if b = 0 then None else Some (a div b, a mod b))"
proof (cases "b = 0")
  case True
  then show ?thesis by (simp add: udivmoddi4_def udivmoddi4_start_def Let_def s_low_def s_high_def)
next
  case False
  note ok = udivmoddi4_start_ok [OF False, of a]
  show ?thesis
  proof (cases "udivmoddi4_start a b")
    case (Inl res)
    then show ?thesis using ok False by (simp add: front_ok_def udivmoddi4_def)
  next
    case (Inr x)
    obtain sr ql qh rl rh where x: "x = (sr, (ql, qh), rl, rh)" by (metis surj_pair)
    have s: "bitlen (unat b) \<le> bitlen (unat a)" "sr = bitlen (unat a) - bitlen (unat b) + 1" "sr \<le> LENGTH(64)"
      "s_all rl rh = drop_bit sr a" "s_all ql qh = push_bit (LENGTH(64) - sr) a" using ok Inr x by (simp_all add: front_ok_def)
    obtain ql' qh' rl' rh' c' where l: "udivmoddi4_loop b sr ((ql, qh), (rl, rh), 0) = ((ql', qh'), (rl', rh'), c')" by (metis surj_pair)
    have "udiv_loop b sr (drop_bit sr a, push_bit (LENGTH(64) - sr) a, 0) = (s_all rl' rh', s_all ql' qh', ucast c')"
      using udivmoddi4_loop_sim [OF l] s(4,5) by simp
    from udiv_loop_divides [OF start_ok [OF _ s(1) False s(2)] s(3) start_regs [OF s(3)] this]
    have "(s_all rl' rh' :: 64 word) = a mod b" "push_bit 1 (s_all ql' qh') OR ucast c' = a div b"
      by (simp_all add: word_unat_eq_iff unat_div_distrib unat_mod_distrib)
    then show ?thesis using Inr x l False by (simp add: udivmoddi4_def)
  qed
qed

end
