(* ===== verification/CRT_Div128.thy ===== *)
theory CRT_Div128
  imports CRT_Div64
begin

text \<open>
  \<open>__udivmodti4\<close>: the division instruction where the divisor fits a half, shift and subtract
  otherwise; and the signed divisions over the unsigned ones.
\<close>

section \<open>Shift and subtract\<close>

lemma even_mod_Suc: "2 * m mod (2 * Q) + 1 = (2 * m + 1) mod (2 * Q)" for m Q :: nat
  by (simp add: mod_mult2_eq)

lemma ti4_step:
  fixes x v :: "128 word" and q :: "64 word"
  assumes lt: "unat x < 2 * unat v" and ok: "unat v \<le> 2 ^ 127 \<or> 2 ^ 127 \<le> unat x" and s: "s = sign_of (v - x - 1)"
  obtains c where "c \<le> (1 :: nat)" "unat (x - (v AND s)) + c * unat v = unat x" "unat (x - (v AND s)) < unat v"
    "unat (push_bit 1 q OR ucast (s AND 1)) = (2 * unat q + c) mod 2 ^ 64"
proof -
  define P where "P = (2 :: nat) ^ 127"
  have "2 ^ LENGTH(128) = 2 * P" by (simp add: P_def)
  then have x128: "unat x < 2 * P" and v128: "unat v < 2 * P" using unsigned_less [of x] unsigned_less [of v] by metis+
  have iP: "int P = 2 ^ (LENGTH(128) - 1)" by (simp add: P_def)
  have "unat x < unat v + P" "unat v \<le> unat x + P" using ok [folded P_def] lt x128 v128 by linarith+
  then have "int (unat x) < int (unat v) + 2 ^ (LENGTH(128) - 1)" "int (unat v) \<le> int (unat x) + 2 ^ (LENGTH(128) - 1)"
    unfolding iP [symmetric] by linarith+
  then have sg: "s = (if v \<le> x then -1 else 0)" unfolding s by (rule sign_compare)
  have sh: "unat (push_bit 1 q OR ucast (s AND 1)) = 2 * unat q mod 2 ^ 64 + unat (ucast (s AND 1) :: 64 word)"
    using unat_shift_in [of "ucast (s AND 1)" q] by (auto simp: sg)
  have "(2 :: nat) ^ 64 = 2 * 2 ^ 63" by simp
  then have ev: "2 * m mod 2 ^ 64 + 1 = (2 * m + 1) mod 2 ^ 64" for m :: nat by (simp only: even_mod_Suc)
  show thesis
  proof (cases "v \<le> x")
    case True
    then show ?thesis using that [of 1] lt sh ev [of "unat q"] by (simp add: sg unat_sub word_le_nat_alt)
  next
    case False
    then show ?thesis using that [of 0] sh by (simp add: sg word_le_nat_alt)
  qed
qed

lemma udivmodti4_loop_divides:
  assumes "unat v = unat b * 2 ^ k" "unat x < unat b * 2 ^ Suc k" "unat v \<le> 2 ^ 127 \<or> 2 ^ 127 \<le> unat x"
    and "udivmodti4_loop (Suc k) (x, v, q) = (x', v', q')"
  shows "unat x' = unat x mod unat b \<and> unat q' = (unat q * 2 ^ Suc k + unat x div unat b) mod 2 ^ 64"
  using assms
proof (induction k arbitrary: x v q)
  case 0
  define s where "s = sign_of (v - x - 1)"
  have "unat x < 2 * unat v" using 0 by simp
  from ti4_step [OF this 0(3) s_def, of q] obtain c where c: "c \<le> 1" "unat (x - (v AND s)) + c * unat v = unat x" "unat (x - (v AND s)) < unat v"
    "unat (push_bit 1 q OR ucast (s AND 1)) = (2 * unat q + c) mod 2 ^ 64" by blast
  have v: "unat v = unat b" using 0(1) by simp
  have "unat x = unat (x - (v AND s)) + c * unat b" using c(2) v by simp
  then have "unat x mod unat b = unat (x - (v AND s))" "unat x div unat b = c" using c(3) v by simp_all
  moreover have "x' = x - (v AND s)" "q' = push_bit 1 q OR ucast (s AND 1)" using 0(4) by (simp_all add: s_def Let_def)
  ultimately show ?case using c(4) by (simp add: mult.commute)
next
  case (Suc k)
  define s where "s = sign_of (v - x - 1)"
  have "unat x < 2 * unat v" using Suc.prems(1,2) by simp
  from ti4_step [OF this Suc.prems(3) s_def, of q] obtain c where c: "c \<le> 1" "unat (x - (v AND s)) + c * unat v = unat x" "unat (x - (v AND s)) < unat v"
    "unat (push_bit 1 q OR ucast (s AND 1)) = (2 * unat q + c) mod 2 ^ 64" by blast
  define x1 where "x1 = x - (v AND s)"
  have v1: "unat (drop_bit 1 v) = unat b * 2 ^ k" using Suc.prems(1) by (simp add: unat_drop)
  have lt: "unat x1 < unat b * 2 ^ Suc k" using c(3) Suc.prems(1) by (simp add: x1_def)
  have le: "unat (drop_bit 1 v) \<le> 2 ^ 127"
  proof -
    have "unat v < 2 ^ LENGTH(128)" by (rule unsigned_less)
    then have "unat v < 2 ^ 127 * 2" by simp
    then have "unat v div 2 < 2 ^ 127" by (rule less_mult_imp_div_less)
    then show ?thesis unfolding unat_drop power_one_right by (rule less_imp_le)
  qed
  have "udivmodti4_loop (Suc k) (x1, drop_bit 1 v, push_bit 1 q OR ucast (s AND 1)) = (x', v', q')"
    using Suc.prems(4) unfolding udivmodti4_loop.simps(2) [of "Suc k"] Let_def x1_def s_def .
  from Suc.IH [OF v1 lt _ this] le have IH: "unat x' = unat x1 mod unat b"
    "unat q' = ((2 * unat q + c) mod 2 ^ 64 * 2 ^ Suc k + unat x1 div unat b) mod 2 ^ 64" unfolding c(4) by blast+
  have x: "unat x = unat x1 + c * 2 ^ Suc k * unat b" using c(2) Suc.prems(1) by (simp add: x1_def mult.commute mult.left_commute)
  have "0 < unat b" using lt by (cases "unat b") simp_all
  then have "unat x mod unat b = unat x1 mod unat b" "unat x div unat b = c * 2 ^ Suc k + unat x1 div unat b" unfolding x by simp_all
  moreover have "((2 * unat q + c) mod 2 ^ 64 * 2 ^ Suc k + unat x1 div unat b) mod 2 ^ 64
      = ((2 * unat q + c) * 2 ^ Suc k + unat x1 div unat b) mod 2 ^ 64" 
    by (rule mod_add_cong [OF mod_mult_left_eq refl])
  moreover have "(2 * unat q + c) * 2 ^ Suc k + unat x1 div unat b = unat q * 2 ^ Suc (Suc k) + (c * 2 ^ Suc k + unat x1 div unat b)"
    by (simp add: distrib_right)
  ultimately show ?case unfolding IH by (simp only:)
qed

section \<open>The division instruction\<close>

lemma halves128: "unat (x :: 128 word) = unat (s_high x :: 64 word) * 2 ^ 64 + unat (s_low x :: 64 word)"
  using halves_eq [where 'w = 128 and 'h = 64, of x] by simp

lemma divq_spec:
  assumes "u1 < v"
  shows "\<exists>q r. udiv128by64to64 u1 u0 v = Some (q, r) \<and>
    unat q = (unat u1 * 2 ^ 64 + unat u0) div unat v \<and> unat r = (unat u1 * 2 ^ 64 + unat u0) mod unat v"
proof -
  let ?u = "unat u1 * 2 ^ 64 + unat u0"
  have lt: "unat u1 < unat v" using assms by (simp add: word_less_nat_alt)
  have u0: "unat u0 < 2 ^ 64" using unsigned_less [of u0] by simp
  have "(unat u1 + 1) * 2 ^ 64 \<le> unat v * 2 ^ 64" using lt by (intro mult_le_mono1) simp
  then have "?u < unat v * 2 ^ 64" using u0 by (simp add: distrib_right)
  then have "?u div unat v < 2 ^ 64" by (simp add: less_mult_imp_div_less mult.commute)
  moreover have "?u mod unat v < unat v" using lt by (intro mod_less_divisor) linarith
  moreover have "unat v < 2 ^ 64" using unsigned_less [of v] by simp
  ultimately show ?thesis using assms by (simp add: udiv128by64to64_def Let_def unat_of_nat not_le)
qed

lemma long_division: "(h * B + l) div d = h div d * B + (h mod d * B + l) div d" "(h * B + l) mod d = (h mod d * B + l) mod d"
  if "0 < d" for h l d B :: nat
proof -
  have e: "h * B + l = h div d * B * d + (h mod d * B + l)"
    by (metis (no_types, opaque_lifting) add.assoc distrib_right div_mult_mod_eq mult.assoc mult.commute)
  show "(h * B + l) div d = h div d * B + (h mod d * B + l) div d" by (subst e) (use that in simp)
  show "(h * B + l) mod d = (h mod d * B + l) mod d" by (subst e) simp
qed

lemma ti4_answer: "unat q = unat a div unat b \<Longrightarrow> unat r = unat a mod unat b \<Longrightarrow> Some (q, r) = Some (a div b, a mod (b :: 128 word))"
  by (simp add: word_unat_eq_iff unat_div_distrib unat_mod_distrib)

lemma join128: "unat (s_all l h :: 128 word) = unat (h :: 64 word) * 2 ^ 64 + unat l"
  using unat_s_all [where 'w = 128 and 'h = 64, of l h] by simp

lemma ti4_low:
  assumes "\<not> a < b" "s_high b = (0 :: 64 word)" "b \<noteq> 0"
  shows "udivmodti4 a b = Some (a div b, a mod b)"
proof -
  have b: "unat b = unat (s_low b :: 64 word)" using halves128 [of b] assms(2) by simp
  have "0 < unat b" using assms(3) by (simp add: unat_gt_0)
  then have p: "0 < unat (s_low b :: 64 word)" by (simp only: b)
  then have d0: "s_low b \<noteq> (0 :: 64 word)" by auto
  show ?thesis
  proof (cases "s_high a < (s_low b :: 64 word)")
    case True
    then obtain q r where q: "udiv128by64to64 (s_high a) (s_low a) (s_low b) = Some (q, r)"
      "unat q = unat a div unat b" "unat r = unat a mod unat b" using divq_spec [OF True, of "s_low a"] by (auto simp: b halves128 [of a])
    then have "udivmodti4 a b = Some (s_all q 0, s_all r 0)" using assms True by (simp add: udivmodti4_def Let_def)
    also have "\<dots> = Some (a div b, a mod b)" using q by (intro ti4_answer) (simp_all add: join128)
    finally show ?thesis .
  next
    case False
    have "s_high a mod s_low b < (s_low b :: 64 word)" using p by (simp add: word_less_nat_alt unat_mod_distrib)
    then obtain q r where q: "udiv128by64to64 (s_high a mod s_low b) (s_low a) (s_low b) = Some (q, r)"
      "unat q = (unat (s_high a mod s_low b :: 64 word) * 2 ^ 64 + unat (s_low a :: 64 word)) div unat b"
      "unat r = (unat (s_high a mod s_low b :: 64 word) * 2 ^ 64 + unat (s_low a :: 64 word)) mod unat b"
      using divq_spec [of "s_high a mod s_low b" "s_low b" "s_low a"] unfolding b by blast
    then have "udivmodti4 a b = Some (s_all q (s_high a div s_low b), s_all r 0)" using assms False d0 by (simp add: udivmodti4_def Let_def)
    also have "\<dots> = Some (a div b, a mod b)"
      using q long_division [OF p, of "unat (s_high a :: 64 word)" "2 ^ 64" "unat (s_low a :: 64 word)"]
      by (intro ti4_answer) (simp_all add: join128 b halves128 [of a] unat_div_distrib unat_mod_distrib)
    finally show ?thesis .
  qed
qed

lemma ti4_high:
  assumes le: "\<not> a < b" and h: "s_high b \<noteq> (0 :: 64 word)"
  shows "udivmodti4 a b = Some (a div b, a mod b)"
proof -
  define sh where "sh = builtin_clz (s_high b :: 64 word) - builtin_clz (s_high a :: 64 word)"
  have ba: "unat b \<le> unat a" using le by (simp add: word_le_nat_alt not_less)
  have bl: "bitlen (unat b) \<le> bitlen (unat a)" using bitlen_less [of "unat a" "unat b"] ba by linarith
  have b0: "0 < bitlen (unat (s_high b :: 64 word))" using h by (intro bitlen_pos) (simp add: unat_eq_zero)
  have eb: "bitlen (unat b) = 64 + bitlen (unat (s_high b :: 64 word))" using h bitlen_halves [where 'w = 128 and 'h = 64, of b] by simp
  have ha: "s_high a \<noteq> (0 :: 64 word)"
  proof
    assume "s_high a = (0 :: 64 word)"
    then have "bitlen (unat a) \<le> 64" using bitlen_halves [where 'w = 128 and 'h = 64, of a] bitlen_word [of "s_low a :: 64 word"] by simp
    then show False using bl eb b0 by simp
  qed
  have ea: "bitlen (unat a) = 64 + bitlen (unat (s_high a :: 64 word))" using ha bitlen_halves [where 'w = 128 and 'h = 64, of a] by simp
  have sh: "sh = bitlen (unat a) - bitlen (unat b)" "sh \<le> 63"
    using bl b0 bitlen_word [of "s_high a :: 64 word"] unfolding sh_def ea eb by (simp_all add: builtin_clz_eq)
  have e: "bitlen (unat b) + sh = bitlen (unat a)" using sh bl by simp
  have "unat b < 2 ^ bitlen (unat b)" using bitlen_le [of "unat b" "bitlen (unat b)"] by simp
  then have vlt: "unat b * 2 ^ sh < 2 ^ bitlen (unat a)" unfolding e [symmetric] power_add by simp
  also have "\<dots> \<le> 2 ^ LENGTH(128)" using bitlen_word [of a] by (intro power_increasing) simp_all
  finally have v: "unat (push_bit sh b) = unat b * 2 ^ sh" unfolding unat_push by simp
  have "\<not> unat b < 2 ^ (bitlen (unat b) - 1)" using bitlen_le [of "unat b" "bitlen (unat b) - 1"] b0 eb by simp
  then have "2 ^ (bitlen (unat b) - 1) * 2 ^ Suc sh \<le> unat b * 2 ^ Suc sh" by (intro mult_le_mono1) simp
  moreover have "bitlen (unat b) - 1 + Suc sh = bitlen (unat a)" using e eb b0 by simp
  ultimately have "2 ^ bitlen (unat a) \<le> unat b * 2 ^ Suc sh" by (metis power_add)
  moreover have "unat a < 2 ^ bitlen (unat a)" using bitlen_le [of "unat a" "bitlen (unat a)"] by simp
  ultimately have x: "unat a < unat b * 2 ^ Suc sh" by linarith
  have ok: "unat (push_bit sh b) \<le> 2 ^ 127 \<or> 2 ^ 127 \<le> unat a"
  proof (cases "bitlen (unat a) \<le> 127")
    case True
    then have "(2 :: nat) ^ bitlen (unat a) \<le> 2 ^ 127" by (intro power_increasing) simp_all
    then show ?thesis unfolding v using vlt by linarith
  qed (simp add: bitlen_le)
  obtain x' v' q' where l: "udivmodti4_loop (Suc sh) (a, push_bit sh b, 0) = (x', v', q')" by (metis surj_pair)
  have "unat a div unat b < 2 ^ Suc sh" using x by (simp add: less_mult_imp_div_less mult.commute)
  also have "\<dots> \<le> 2 ^ 64" using sh(2) by (intro power_increasing) simp_all
  finally have q: "unat q' = unat a div unat b" "unat x' = unat a mod unat b"
    using udivmodti4_loop_divides [OF v x ok l] by (simp_all only: unat_0 mult_zero_left add_0 mod_less)
  have "udivmodti4 a b = Some (s_all q' 0, x')"
    using le h l unfolding udivmodti4_def Let_def sh_def [symmetric] by (simp del: udivmodti4_loop.simps)
  also have "\<dots> = Some (a div b, a mod b)" using q by (intro ti4_answer) (simp_all add: join128)
  finally show ?thesis .
qed

lemma udivmodti4_eq: "udivmodti4 a b = (if b = 0 then None else Some (a div b, a mod b))"
proof (cases "b = 0")
  case True
  then show ?thesis by (simp add: udivmodti4_def Let_def s_low_def s_high_def)
next
  case False
  show ?thesis
  proof (cases "a < b")
    case True
    then have "udivmodti4 a b = Some (0, a)" by (simp add: udivmodti4_def Let_def)
    then show ?thesis using True False by (simp add: div_word_less mod_word_less)
  next
    case f: False
    show ?thesis using ti4_low [OF f _ False] ti4_high [OF f] False by (cases "s_high b = (0 :: 64 word)") simp_all
  qed
qed

end
