(* ===== verification/CRT_Signed.thy ===== *)
theory CRT_Signed
  imports CRT_Div128
begin

text \<open>Signed division: the quotient is truncated and the remainder has the sign of the dividend.\<close>

definition trunc_mod :: "int \<Rightarrow> int \<Rightarrow> int" where
  "trunc_mod x y = sgn x * (\<bar>x\<bar> mod \<bar>y\<bar>)"

lemma trunc_div_mod: "x - trunc_div x y * y = trunc_mod x y"
proof -
  have "trunc_div x y * y = sgn x * (\<bar>x\<bar> div \<bar>y\<bar> * (y * sgn y))" by (simp only: trunc_div_def ac_simps)
  also have "y * sgn y = \<bar>y\<bar>" by (rule abs_sgn [symmetric])
  finally have "trunc_div x y * y = sgn x * (\<bar>x\<bar> div \<bar>y\<bar> * \<bar>y\<bar>)" .
  moreover have "x = sgn x * \<bar>x\<bar>" by (rule sgn_mult_abs [symmetric])
  ultimately have "x - trunc_div x y * y = sgn x * (\<bar>x\<bar> - \<bar>x\<bar> div \<bar>y\<bar> * \<bar>y\<bar>)" by (metis right_diff_distrib)
  then show ?thesis by (simp only: trunc_mod_def minus_div_mult_eq_mod)
qed

definition mag :: "'a::len word \<Rightarrow> 'a word" where "mag a = (if sint a < 0 then - a else a)"

lemma uint_mag: "uint (mag a) = \<bar>sint (a :: 'a::len word)\<bar>"
proof -
  have b: "- (2 ^ (LENGTH('a) - 1)) \<le> sint a" "sint a < 2 ^ (LENGTH('a) - 1)" using sint_fits [of a] by (auto simp: fits_def)
  have "\<bar>sint a\<bar> \<le> 2 ^ (LENGTH('a) - 1)" using b by linarith
  also have "(2::int) ^ (LENGTH('a) - 1) < 2 ^ LENGTH('a)" by (intro power_strict_increasing) simp_all
  finally have lt: "\<bar>sint a\<bar> < 2 ^ LENGTH('a)" .
  have "mag a = word_of_int \<bar>sint a\<bar>" by (simp add: mag_def)
  moreover have "uint (word_of_int \<bar>sint a\<bar> :: 'a word) = \<bar>sint a\<bar> mod 2 ^ LENGTH('a)"
    by (simp only: uint_word_of_int take_bit_eq_mod)
  ultimately show ?thesis using lt by simp
qed

lemma mag_0: "mag b = 0 \<longleftrightarrow> b = 0"
  by (simp add: mag_def)

text \<open>Conditional negation by a xor of two signs.\<close>

lemma sign_xor:
  "(q XOR (sign_of a XOR sign_of b)) + - (sign_of a XOR sign_of b) = (if sint a < 0 \<longleftrightarrow> sint b < 0 then q else - q)"
  "(q XOR (sign_of a XOR sign_of b)) - (sign_of a XOR sign_of b) = (if sint a < 0 \<longleftrightarrow> sint b < 0 then q else - q)"
  for q a b :: "'a::len word"
  by (auto simp: sign_of_eq simp flip: minus_eq_not_plus_1)

lemma signed_quotient:
  fixes a b :: "'a::len word"
  assumes "b \<noteq> 0"
  shows "(if sint a < 0 \<longleftrightarrow> sint b < 0 then mag a div mag b else - (mag a div mag b)) = word_of_int (trunc_div (sint a) (sint b))"
proof -
  have "mag a div mag b = word_of_int (\<bar>sint a\<bar> div \<bar>sint b\<bar>)" by (simp add: word_div_def uint_mag)
  moreover have "sint b \<noteq> 0" using assms by (simp add: sint_eq_iff)
  ultimately show ?thesis by (cases "sint a" "0::int" rule: linorder_cases; cases "sint b" "0::int" rule: linorder_cases) (simp_all add: trunc_div_def)
qed

lemma signed_remainder:
  fixes a b :: "'a::len word"
  shows "(if sint a < 0 then - (mag a mod mag b) else mag a mod mag b) = word_of_int (trunc_mod (sint a) (sint b))"
proof -
  have "mag a mod mag b = word_of_int (\<bar>sint a\<bar> mod \<bar>sint b\<bar>)" by (simp add: word_mod_def uint_mag)
  then show ?thesis by (cases "sint a" "0::int" rule: linorder_cases) (simp_all add: trunc_mod_def)
qed

lemma divXi3_eq:
  assumes "\<And>x y. y \<noteq> 0 \<Longrightarrow> f x y = Some (x div y)" "\<And>x. f x 0 = None"
  shows "divXi3 f a b = (if b = 0 then None else Some (word_of_int (trunc_div (sint a) (sint (b :: 'a::len word)))))"
  using signed_quotient [of b a] mag_0 [of b] assms(1) [of "mag b" "mag a"] assms(2) [of "mag a"]
  by (cases "b = 0") (simp_all only: divXi3_def Let_def negate_if mag_def [symmetric] sign_xor if_True if_False option.map simp_thms)

lemma modXi3_eq:
  assumes "\<And>x y. y \<noteq> 0 \<Longrightarrow> f x y = Some (x mod y)" "\<And>x. f x 0 = None"
  shows "modXi3 f a b = (if b = 0 then None else Some (word_of_int (trunc_mod (sint a) (sint (b :: 'a::len word)))))"
  using signed_remainder [of a b] mag_0 [of b] assms(1) [of "mag b" "mag a"] assms(2) [of "mag a"]
  by (cases "b = 0") (simp_all only: modXi3_def Let_def negate_if mag_def [symmetric] if_True if_False option.map simp_thms)

lemma divmodXi4_eq:
  assumes "\<And>x y. y \<noteq> 0 \<Longrightarrow> f x y = Some (x div y, x mod y)" "b \<noteq> 0"
  shows "divmodXi4 f a b = Some (word_of_int (trunc_div (sint a) (sint b)), word_of_int (trunc_mod (sint a) (sint (b :: 'a::len word))))"
proof -
  have "f (mag a) (mag b) = Some (mag a div mag b, mag a mod mag b)" using assms mag_0 by blast
  moreover have "(sint b < 0) = (sint a < 0) \<longleftrightarrow> (sint a < 0) = (sint b < 0)" by blast
  ultimately show ?thesis using signed_quotient [OF assms(2), of a] signed_remainder [of a b]
    by (simp only: divmodXi4_def Let_def negate_if mag_def [symmetric] sign_xor option.map prod.case)
qed

section \<open>The routines\<close>

lemma divsi3_eq: "divsi3 a b = (if b = 0 then None else Some (word_of_int (trunc_div (sint a) (sint b))))"
  unfolding divsi3_def by (rule divXi3_eq) simp_all

lemma divdi3_eq: "divdi3 a b = (if b = 0 then None else Some (word_of_int (trunc_div (sint a) (sint b))))"
  unfolding divdi3_def by (rule divXi3_eq) (simp_all add: udivmoddi4_eq)

lemma divti3_eq: "divti3 a b = (if b = 0 then None else Some (word_of_int (trunc_div (sint a) (sint b))))"
  unfolding divti3_def by (rule divXi3_eq) (simp_all add: udivmodti4_eq)

lemma moddi3_eq: "moddi3 a b = (if b = 0 then None else Some (word_of_int (trunc_mod (sint a) (sint b))))"
  unfolding moddi3_def by (rule modXi3_eq) (simp_all add: udivmoddi4_eq)

lemma modti3_eq: "modti3 a b = (if b = 0 then None else Some (word_of_int (trunc_mod (sint a) (sint b))))"
  unfolding modti3_def by (rule modXi3_eq) (simp_all add: udivmodti4_eq)

lemma modsi3_eq: "modsi3 a b = (if b = 0 then None else Some (word_of_int (trunc_mod (sint a) (sint b))))"
  by (simp add: modsi3_def divsi3_eq flip: trunc_div_mod)

lemma udivsi3_eq: "b \<noteq> 0 \<Longrightarrow> udivsi3 a b = a div b" "b \<noteq> 0 \<Longrightarrow> umodsi3 a b = a mod b"
  using udivXi3_start [where 'a = 32, of b a] by (simp_all add: udivsi3_def umodsi3_def)

lemma udivdi3_eq: "b \<noteq> 0 \<Longrightarrow> udivdi3 a b = a div b" "b \<noteq> 0 \<Longrightarrow> umoddi3 a b = a mod b"
  using udivXi3_start [where 'a = 64, of b a] by (simp_all add: udivdi3_def umoddi3_def)

lemma udivti3_eq: "udivti3 a b = (if b = 0 then None else Some (a div b))" "umodti3 a b = (if b = 0 then None else Some (a mod b))"
  by (simp_all add: udivti3_def umodti3_def udivmodti4_eq)

lemma udivmodsi4_eq: "b \<noteq> 0 \<Longrightarrow> udivmodsi4 a b = (a div b, a mod b)"
  by (simp add: udivmodsi4_def Let_def udivsi3_eq minus_div_mult_eq_mod)

lemma divmodsi4_eq: "b \<noteq> 0 \<Longrightarrow> divmodsi4 a b = Some (word_of_int (trunc_div (sint a) (sint b)), word_of_int (trunc_mod (sint a) (sint b)))"
  unfolding divmodsi4_def by (rule divmodXi4_eq) (simp_all add: udivmodsi4_eq)

lemma divmoddi4_eq: "b \<noteq> 0 \<Longrightarrow> divmoddi4 a b = Some (word_of_int (trunc_div (sint a) (sint b)), word_of_int (trunc_mod (sint a) (sint b)))"
  unfolding divmoddi4_def by (rule divmodXi4_eq) (simp_all add: udivmoddi4_eq)

lemma divmodti4_eq: "b \<noteq> 0 \<Longrightarrow> divmodti4 a b = Some (word_of_int (trunc_div (sint a) (sint b)), word_of_int (trunc_mod (sint a) (sint b)))"
  unfolding divmodti4_def by (rule divmodXi4_eq) (simp_all add: udivmodti4_eq)

end
