(* ===== verification/CRT_Correct.thy ===== *)
theory CRT_Correct
  imports CRT_Pop CRT_Swap CRT_Signed
begin

text \<open>The properties of the compiler runtime.\<close>

text \<open>
  C18. Unsigned division: for every divisor other than zero the shift and subtract loops return,
  with the exact quotient and remainder, at 32, 64 and 128 bits; the routines built on a division
  instruction trap at a zero divisor and nowhere else.
\<close>

theorem crt_unsigned_division:
  assumes "b32 \<noteq> 0" and "b64 \<noteq> 0"
  shows "udivsi3 a32 b32 = a32 div b32 \<and> umodsi3 a32 b32 = a32 mod b32 \<and> udivmodsi4 a32 b32 = (a32 div b32, a32 mod b32)
    \<and> udivdi3 a64 b64 = a64 div b64 \<and> umoddi3 a64 b64 = a64 mod b64
    \<and> udivmoddi4 a64 d64 = (if d64 = 0 then None else Some (a64 div d64, a64 mod d64))
    \<and> udivmodti4 a b = (if b = 0 then None else Some (a div b, a mod b))
    \<and> udivti3 a b = (if b = 0 then None else Some (a div b)) \<and> umodti3 a b = (if b = 0 then None else Some (a mod b))"
  using assms by (simp add: udivsi3_eq udivdi3_eq udivmodsi4_eq udivmoddi4_eq udivmodti4_eq udivti3_eq)

theorem crt_unsigned_division_witness:
  "udivdi3 (2 ^ 63 + 5) (2 ^ 63 + 2) = 1 \<and> umodsi3 100 7 = 2 \<and> udivmoddi4 (2 ^ 40 + 3) (2 ^ 35) = Some (32, 3)"
proof -
  have "udivdi3 (2 ^ 63 + 5) (2 ^ 63 + 2) = (2 ^ 63 + 5) div (2 ^ 63 + 2) \<and> umodsi3 100 7 = 100 mod 7
      \<and> udivmoddi4 (2 ^ 40 + 3) (2 ^ 35) = Some ((2 ^ 40 + 3) div 2 ^ 35, (2 ^ 40 + 3) mod 2 ^ 35)"
    using crt_unsigned_division [of 7 "2 ^ 63 + 2" 100 "2 ^ 63 + 5"] crt_unsigned_division [of 7 7 100 "2 ^ 40 + 3" "2 ^ 35"] by simp
  then show ?thesis by simp
qed



text \<open>
  C20. Trapping arithmetic: absolute value, negation, sum, difference and product return the exact
  number when it fits the type and trap otherwise; the multiplications with a flag return the
  wrapped product and raise the flag exactly when the product does not fit.
\<close>

theorem crt_trapping:
  "traps (absvsi2 x) \<bar>sint x\<bar> \<and> traps (absvdi2 y) \<bar>sint y\<bar> \<and> traps (absvti2 z) \<bar>sint z\<bar>
   \<and> traps (negvsi2 x) (- sint x) \<and> traps (negvdi2 y) (- sint y) \<and> traps (negvti2 z) (- sint z)
   \<and> traps (addvsi3 x x') (sint x + sint x') \<and> traps (addvdi3 y y') (sint y + sint y') \<and> traps (addvti3 z z') (sint z + sint z')
   \<and> traps (subvsi3 x x') (sint x - sint x') \<and> traps (subvdi3 y y') (sint y - sint y') \<and> traps (subvti3 z z') (sint z - sint z')
   \<and> traps (mulvsi3 x x') (sint x * sint x') \<and> traps (mulvdi3 y y') (sint y * sint y') \<and> traps (mulvti3 z z') (sint z * sint z')
   \<and> mulosi4 x x' = (x * x', \<not> fits TYPE(32) (sint x * sint x'))
   \<and> mulodi4 y y' = (y * y', \<not> fits TYPE(64) (sint y * sint y'))
   \<and> muloti4 z z' = (z * z', \<not> fits TYPE(128) (sint z * sint z'))"
  unfolding negvsi2_def negvdi2_def negvti2_def addvsi3_def addvdi3_def addvti3_def subvsi3_def subvdi3_def subvti3_def
    mulvsi3_def mulvdi3_def mulvti3_def mulosi4_def mulodi4_def muloti4_def muloXi4_alt
  by (intro conjI absv_traps neg_traps add_traps sub_traps mulvXi3_traps) (simp_all add: mul_overflows_iff)

text \<open>
  Through the halves: shifts, wide products and comparisons that work on the two halves of a
  number agree with the operation on the whole number, for every shift count below the width.
\<close>

theorem crt_halves:
  assumes "i < 64" and "j < 128"
  shows "ashldi3 x i = push_bit i x \<and> lshrdi3 x i = drop_bit i x \<and> ashrdi3 x i = signed_drop_bit i x
    \<and> ashlti3 z j = push_bit j z \<and> lshrti3 z j = drop_bit j z \<and> ashrti3 z j = signed_drop_bit j z
    \<and> unat (muldsi3 p q) = unat p * unat q \<and> unat (mulddi3 x y) = unat x * unat y
    \<and> muldi3 x y = x * y \<and> multi3 z w = z * w
    \<and> cmpdi2 x y = three_way (sint x) (sint y) \<and> cmpti2 z w = three_way (sint z) (sint w)
    \<and> ucmpdi2 x y = three_way (uint x) (uint y) \<and> ucmpti2 z w = three_way (uint z) (uint w)"
  by (intro conjI ashldi3_eq lshrdi3_eq ashrdi3_eq ashlti3_eq lshrti3_eq ashrti3_eq assms
      unat_muldsi3 unat_mulddi3 muldi3_eq multi3_eq cmpdi2_eq cmpti2_eq ucmpdi2_eq ucmpti2_eq)

theorem crt_halves_witness: "ashldi3 3 40 = 3 * 2 ^ 40 \<and> cmpdi2 (-1) 1 = 0 \<and> ucmpdi2 7 1 = 2"
  using crt_halves [of 40 0 3] crt_halves [of 40 0 "-1" 0 0 0 1] crt_halves [of 40 0 7 0 0 0 1] by (simp add: three_way_def)

text \<open>
  Counting: leading zeros, trailing zeros, first set bit, parity and population count, each by
  a parallel or a halving method, agree with the counts of bits one at a time.
\<close>

theorem crt_counting:
  assumes "x \<noteq> 0" and "y \<noteq> 0" and "z \<noteq> 0"
  shows "clzsi2 u = 32 - bitlen (unat u) \<and> clzdi2 v = 64 - bitlen (unat v) \<and> clzti2 w = 128 - bitlen (unat w)
    \<and> ctzsi2 x = low_zeros (unat x) \<and> ctzdi2 y = low_zeros (unat y) \<and> ctzti2 z = low_zeros (unat z)
    \<and> ffssi2 u = (if u = 0 then 0 else Suc (low_zeros (unat u))) \<and> ffsdi2 v = (if v = 0 then 0 else Suc (low_zeros (unat v)))
    \<and> ffsti2 w = (if w = 0 then 0 else Suc (low_zeros (unat w)))
    \<and> paritysi2 u = card {i. i < 32 \<and> bit u i} mod 2 \<and> paritydi2 v = card {i. i < 64 \<and> bit v i} mod 2
    \<and> parityti2 w = card {i. i < 128 \<and> bit w i} mod 2
    \<and> unat (popcountsi2 u) = card {i. i < 32 \<and> bit u i} \<and> unat (popcountdi2 v) = card {i. i < 64 \<and> bit v i}
    \<and> unat (popcountti2 w) = card {i. i < 128 \<and> bit w i}"
  using ones_bits [of u] ones_bits [of v] ones_bits [of w]
  by (simp add: clzsi2_eq clzdi2_eq clzti2_eq ctzsi2_eq ctzdi2_eq ctzti2_eq ffssi2_eq ffsdi2_eq ffsti2_eq assms
      paritysi2_eq paritydi2_eq parityti2_eq popcountsi2_eq popcountdi2_eq popcountti2_eq)

theorem crt_counting_witness: "clzsi2 0 = 32 \<and> ctzsi2 1 = 0 \<and> ctzdi2 1 = 0 \<and> ffsti2 1 = 1 \<and> unat (popcountsi2 0) = 0"
  using crt_counting [of 1 1 1 0 0 1] by simp

text \<open>
  Byte order: byte \<open>i\<close> of the result is byte \<open>n - 1 - i\<close> of the argument, and reversing twice
  gives the argument back.
\<close>

theorem crt_byte_order:
  assumes "i < 4" and "j < 8"
  shows "byte_of (bswapsi2 u) i = byte_of u (3 - i) \<and> byte_of (bswapdi2 v) j = byte_of v (7 - j)
    \<and> bswapsi2 (bswapsi2 u) = u \<and> bswapdi2 (bswapdi2 v) = v"
  using assms by (simp add: bswapsi2_byte_of bswapdi2_byte_of bswapsi2_twice bswapdi2_twice)

theorem crt_byte_order_witness: "byte_of (bswapsi2 0x12345678) 0 = 0x12"
  using crt_byte_order [of 0 0 "0x12345678"] by (simp add: byte_of_def)

end
