(* ===== verification/RB_Tree.thy ===== *)
theory RB_Tree
  imports RB_Model
begin

text \<open>
  The abstraction of the pointer structure: a tree of colours and addresses, the store
  that represents it, and the representation of a tree with a focus, where the path
  from the focus to the root is a list of frames. Rotations act on the focus and leave the
  frames alone.
\<close>

named_theorems rb_fields \<open>fields after an assignment\<close>

datatype rtree = Lf | Nd rtree rb_color nat rtree

fun addrs :: "rtree \<Rightarrow> nat list" where
  "addrs Lf = []"
| "addrs (Nd l c a r) = addrs l @ a # addrs r"

fun rroot :: "rtree \<Rightarrow> nat" where
  "rroot Lf = 0"
| "rroot (Nd l c a r) = a"

fun tree_at :: "rb_heap \<Rightarrow> nat \<Rightarrow> rtree \<Rightarrow> bool" where
  "tree_at h par Lf = True"
| "tree_at h par (Nd l c a r) =
     (a \<noteq> 0 \<and> n_parent (h a) = par \<and> n_color (h a) = c \<and> n_left (h a) = rroot l \<and> n_right (h a) = rroot r
      \<and> tree_at h a l \<and> tree_at h a r)"

datatype frame = FL rb_color nat rtree | FR rtree rb_color nat

fun kpar :: "frame list \<Rightarrow> nat" where
  "kpar [] = 0"
| "kpar (FL c a r # k) = a"
| "kpar (FR l c a # k) = a"

fun kaddrs :: "frame list \<Rightarrow> nat list" where
  "kaddrs [] = []"
| "kaddrs (FL c a r # k) = a # addrs r @ kaddrs k"
| "kaddrs (FR l c a # k) = a # addrs l @ kaddrs k"

fun plug :: "frame list \<Rightarrow> rtree \<Rightarrow> rtree" where
  "plug [] t = t"
| "plug (FL c a r # k) t = plug k (Nd t c a r)"
| "plug (FR l c a # k) t = plug k (Nd l c a t)"

fun ctx_at :: "rb_heap \<Rightarrow> nat \<Rightarrow> nat \<Rightarrow> frame list \<Rightarrow> bool" where
  "ctx_at h root p [] = (root = p)"
| "ctx_at h root p (FL c a r # k) =
     (a \<noteq> 0 \<and> n_left (h a) = p \<and> n_right (h a) = rroot r \<and> n_color (h a) = c \<and> tree_at h a r
      \<and> n_parent (h a) = kpar k \<and> ctx_at h root a k)"
| "ctx_at h root p (FR l c a # k) =
     (a \<noteq> 0 \<and> n_right (h a) = p \<and> n_left (h a) = rroot l \<and> n_color (h a) = c \<and> tree_at h a l
      \<and> n_parent (h a) = kpar k \<and> ctx_at h root a k)"

definition focus :: "rb_links \<Rightarrow> frame list \<Rightarrow> rtree \<Rightarrow> bool" where
  "focus s k t \<longleftrightarrow> ctx_at (fst s) (snd s) (rroot t) k \<and> tree_at (fst s) (kpar k) t \<and> distinct (addrs t @ kaddrs k)"

lemma focus_FL: "focus s (FL c a r # k) t \<longleftrightarrow> focus s k (Nd t c a r)"
  by (auto simp: focus_def)

lemma focus_FR: "focus s (FR l c a # k) t \<longleftrightarrow> focus s k (Nd l c a t)"
  by (auto simp: focus_def)

lemma focus_plug: "focus s k t \<longleftrightarrow> focus s [] (plug k t)"
  by (induction k t rule: plug.induct) (simp_all add: focus_FL focus_FR)

lemma addrs_plug_set: "set (addrs (plug k t)) = set (addrs t) \<union> set (kaddrs k)"
  by (induction k t rule: plug.induct) auto

lemma rroot_in: "rroot t = 0 \<or> rroot t \<in> set (addrs t)"
  by (cases t) auto

lemma tree_at_nonzero: "tree_at h par t \<Longrightarrow> 0 \<notin> set (addrs t)"
  by (induction h par t rule: tree_at.induct) auto

lemma ctx_at_nonzero: "ctx_at h root p k \<Longrightarrow> 0 \<notin> set (kaddrs k)"
  by (induction h root p k rule: ctx_at.induct) (auto dest: tree_at_nonzero)

lemma rroot_zero: "tree_at h par t \<Longrightarrow> rroot t = 0 \<longleftrightarrow> t = Lf"
  by (cases t) auto

lemma kpar_in: "kpar k \<noteq> 0 \<Longrightarrow> kpar k \<in> set (kaddrs k)"
  by (cases k rule: kpar.cases) auto

lemma kpar_zero: "ctx_at h root p k \<Longrightarrow> kpar k = 0 \<longleftrightarrow> k = []"
  by (cases k rule: kpar.cases) auto

section \<open>Frame conditions\<close>

text \<open>Two nodes with the same links and colour.\<close>

definition same_links :: "rb_node \<Rightarrow> rb_node \<Rightarrow> bool" where
  "same_links m n \<longleftrightarrow> n_parent m = n_parent n \<and> n_left m = n_left n \<and> n_right m = n_right n \<and> n_color m = n_color n"

lemma same_links_refl [simp]: "same_links n n"
  by (simp add: same_links_def)

lemma tree_at_frame: "(\<And>a. a \<in> set (addrs t) \<Longrightarrow> same_links (h' a) (h a)) \<Longrightarrow> tree_at h' par t = tree_at h par t"
  by (induction t arbitrary: par) (auto simp: same_links_def)

lemma ctx_at_frame:
  "(\<And>a. a \<in> set (kaddrs k) \<Longrightarrow> same_links (h' a) (h a)) \<Longrightarrow> ctx_at h' root p k = ctx_at h root p k"
proof (induction h root p k rule: ctx_at.induct)
  case (2 h root p c a r k)
  then show ?case using tree_at_frame [of r h' h a] by (auto simp: same_links_def)
next
  case (3 h root p l c a k)
  then show ?case using tree_at_frame [of l h' h a] by (auto simp: same_links_def)
qed simp

lemma set_parent_fields [rb_fields]:
  "n_parent (set_parent a v h b) = (if b = a then v else n_parent (h b))" "n_left (set_parent a v h b) = n_left (h b)"
  "n_right (set_parent a v h b) = n_right (h b)" "n_color (set_parent a v h b) = n_color (h b)"
  by (simp_all add: set_parent_def)

lemma set_left_fields [rb_fields]:
  "n_left (set_left a v h b) = (if b = a then v else n_left (h b))" "n_parent (set_left a v h b) = n_parent (h b)"
  "n_right (set_left a v h b) = n_right (h b)" "n_color (set_left a v h b) = n_color (h b)"
  by (simp_all add: set_left_def)

lemma set_right_fields [rb_fields]:
  "n_right (set_right a v h b) = (if b = a then v else n_right (h b))" "n_parent (set_right a v h b) = n_parent (h b)"
  "n_left (set_right a v h b) = n_left (h b)" "n_color (set_right a v h b) = n_color (h b)"
  by (simp_all add: set_right_def)

lemma set_color_fields [rb_fields]:
  "n_color (set_color a v h b) = (if b = a then v else n_color (h b))" "n_parent (set_color a v h b) = n_parent (h b)"
  "n_left (set_color a v h b) = n_left (h b)" "n_right (set_color a v h b) = n_right (h b)"
  by (simp_all add: set_color_def)

text \<open>
  What a tree operation may touch: the links and colours of the nodes in \<open>A\<close>, nothing else.
\<close>

definition touches :: "nat set \<Rightarrow> rb_heap \<Rightarrow> rb_heap \<Rightarrow> bool" where
  "touches A h h' \<longleftrightarrow> (\<forall>a. (a \<notin> A \<longrightarrow> h' a = h a)
     \<and> n_flags (h' a) = n_flags (h a) \<and> access_time (h' a) = access_time (h a) \<and> access_count (h' a) = access_count (h a))"

lemma touches_refl [simp]: "touches A h h"
  by (simp add: touches_def)

lemma touches_trans: "touches A h h' \<Longrightarrow> touches A h' h'' \<Longrightarrow> touches A h h''"
  by (simp add: touches_def)

lemma touches_mono: "touches A h h' \<Longrightarrow> A \<subseteq> B \<Longrightarrow> touches B h h'"
  by (auto simp: touches_def)

lemma touches_set [simp]:
  "a \<in> A \<Longrightarrow> touches A h (set_parent a v h)" "a \<in> A \<Longrightarrow> touches A h (set_left a v h)"
  "a \<in> A \<Longrightarrow> touches A h (set_right a v h)" "a \<in> A \<Longrightarrow> touches A h (set_color a c h)"
  by (auto simp: touches_def set_parent_def set_left_def set_right_def set_color_def)

lemma touches_setI:
  "touches A h h' \<Longrightarrow> a \<in> A \<Longrightarrow> touches A h (set_parent a v h')"
  "touches A h h' \<Longrightarrow> a \<in> A \<Longrightarrow> touches A h (set_left a v h')"
  "touches A h h' \<Longrightarrow> a \<in> A \<Longrightarrow> touches A h (set_right a v h')"
  "touches A h h' \<Longrightarrow> a \<in> A \<Longrightarrow> touches A h (set_color a c h')"
  by (auto intro: touches_trans)

section \<open>Redirecting a child pointer\<close>

lemma not_rroot: "p \<noteq> 0 \<Longrightarrow> p \<notin> set (addrs t) \<Longrightarrow> p \<noteq> rroot t"
  using rroot_in [of t] by auto

lemma redirect_ctx:
  assumes "ctx_at h root p k" and "p \<noteq> 0" and "p \<notin> set (kaddrs k)" and "distinct (kaddrs k)"
  shows "ctx_at (fst (redirect (kpar k) p q (h, root))) (snd (redirect (kpar k) p q (h, root))) q k"
proof (cases k rule: kpar.cases)
  case (2 c a r k')
  have "ctx_at (set_left a q h) root a k' = ctx_at h root a k'" "tree_at (set_left a q h) a r = tree_at h a r"
    using assms(4) 2 by (intro ctx_at_frame tree_at_frame; force simp: same_links_def rb_fields)+
  then show ?thesis using assms 2 by (simp add: redirect_def rb_fields)
next
  case (3 l c a k')
  have "ctx_at (set_right a q h) root a k' = ctx_at h root a k'" "tree_at (set_right a q h) a l = tree_at h a l"
    using assms(4) 3 by (intro ctx_at_frame tree_at_frame; force simp: same_links_def rb_fields)+
  moreover have "p \<noteq> rroot l" using assms(2,3) 3 by (intro not_rroot) auto
  ultimately show ?thesis using assms 3 by (simp add: redirect_def rb_fields)
qed (use assms in \<open>simp add: redirect_def\<close>)

lemma redirect_fields [rb_fields]:
  "n_parent (fst (redirect par p q (h, root)) a) = n_parent (h a)"
  "n_color (fst (redirect par p q (h, root)) a) = n_color (h a)"
  "a \<noteq> par \<Longrightarrow> n_left (fst (redirect par p q (h, root)) a) = n_left (h a)"
  "a \<noteq> par \<Longrightarrow> n_right (fst (redirect par p q (h, root)) a) = n_right (h a)"
  by (simp_all add: redirect_def rb_fields)

lemma redirect_touches: "(par \<noteq> 0 \<Longrightarrow> par \<in> A) \<Longrightarrow> touches A h (fst (redirect par p q (h, root)))"
  by (simp add: redirect_def)

lemma redirect_right:
  assumes "ctx_at h root p k" and "p \<noteq> 0" and "p \<notin> set (kaddrs k)"
  shows "redirect' (kpar k) p q (h, root) = redirect (kpar k) p q (h, root)"
proof (cases k rule: kpar.cases)
  case (2 c a r k')
  moreover have "p \<noteq> rroot r" using assms(2,3) 2 by (intro not_rroot) auto
  ultimately show ?thesis using assms(1) by (simp add: redirect_def redirect'_def)
next
  case (3 l c a k')
  moreover have "p \<noteq> rroot l" using assms(2,3) 3 by (intro not_rroot) auto
  ultimately show ?thesis using assms(1) by (simp add: redirect_def redirect'_def)
qed (simp add: redirect_def redirect'_def)

lemma tree_at_reparent:
  assumes "tree_at h par t" and "distinct (addrs t)"
  shows "tree_at (if rroot t \<noteq> 0 then set_parent (rroot t) par' h else h) par' t"
proof (cases t)
  case (Nd l c a r)
  have "tree_at (set_parent a par' h) a l = tree_at h a l" "tree_at (set_parent a par' h) a r = tree_at h a r"
    using assms(2) Nd by (intro tree_at_frame; force simp: same_links_def rb_fields)+
  then show ?thesis using assms Nd by (simp add: rb_fields)
qed simp

section \<open>Rotations\<close>

text \<open>
  The steps of a rotation around the focus, for both directions: the inner subtree \<open>B\<close>
  moves from \<open>y\<close> to \<open>x\<close> and \<open>y\<close> takes the place of \<open>x\<close>.
\<close>

lemma rotate_left_focus:
  assumes "focus (h, root) k (Nd A c x (Nd B d y C))"
  shows "focus (rb_rotate_left x (h, root)) k (Nd (Nd A c x B) d y C)"
    and "touches (set (addrs (Nd A c x (Nd B d y C))) \<union> set (kaddrs k)) h (fst (rb_rotate_left x (h, root)))"
proof -
  note f = assms [unfolded focus_def, simplified]
  have nz: "x \<noteq> 0" "y \<noteq> 0" using f by auto
  have dist: "x \<noteq> y" "x \<notin> set (kaddrs k)" "y \<notin> set (kaddrs k)" "x \<notin> set (addrs A)" "x \<notin> set (addrs B)" "x \<notin> set (addrs C)"
    "y \<notin> set (addrs A)" "y \<notin> set (addrs B)" "y \<notin> set (addrs C)"
    "set (addrs A) \<inter> set (addrs B) = {}" "set (addrs A) \<inter> set (addrs C) = {}" "set (addrs B) \<inter> set (addrs C) = {}"
    "set (addrs A) \<inter> set (kaddrs k) = {}" "set (addrs B) \<inter> set (kaddrs k) = {}" "set (addrs C) \<inter> set (kaddrs k) = {}"
    "distinct (kaddrs k)" "distinct (addrs B)"
    using f by auto
  have kp: "x \<noteq> kpar k" "y \<noteq> kpar k" "kpar k \<notin> set (addrs A)" "kpar k \<notin> set (addrs B)" "kpar k \<notin> set (addrs C)"
    using dist nz kpar_in [of k] tree_at_nonzero f by (metis disjoint_iff)+
  have rB: "rroot B = 0 \<or> rroot B \<in> set (addrs B)" by (rule rroot_in)
  define h1 where "h1 = set_right x (rroot B) h"
  define h2 where "h2 = (if rroot B \<noteq> 0 then set_parent (rroot B) x h1 else h1)"
  define h3 where "h3 = set_parent y (kpar k) h2"
  define s4 where "s4 = redirect (kpar k) x y (h3, root)"
  define h6 where "h6 = set_parent x y (set_left y x (fst s4))"
  have f2: "n_left (h2 a) = n_left (h a)" "n_right (h2 a) = (if a = x then rroot B else n_right (h a))"
    "n_color (h2 a) = n_color (h a)" "n_parent (h2 a) = (if rroot B \<noteq> 0 \<and> a = rroot B then x else n_parent (h a))" for a
    by (simp_all add: h2_def h1_def rb_fields)
  have rot: "rb_rotate_left x (h, root) = (h6, snd s4)"
  proof -
    have e: "n_right (h x) = y" "n_left (h y) = rroot B" "n_left (h1 y) = rroot B" "n_parent (h2 x) = kpar k" "n_parent (h3 x) = kpar k"
      using f dist(1,5) rB by (auto simp: h3_def f2 h1_def rb_fields)
    show ?thesis
      by (simp only: rb_rotate_left_def Let_def case_prod_beta fst_conv snd_conv e h6_def
          h1_def [symmetric] h2_def [symmetric] h3_def [symmetric] s4_def [symmetric])
  qed
  have ctx3: "ctx_at h3 root x k"
  proof -
    have "ctx_at h3 root x k = ctx_at h root x k"
      using dist rB by (intro ctx_at_frame) (force simp: same_links_def h3_def f2 rb_fields)
    then show ?thesis using f by simp
  qed
  then have ctx4: "ctx_at (fst s4) (snd s4) y k"
    unfolding s4_def using redirect_ctx nz(1) dist by blast
  have "ctx_at h6 (snd s4) y k = ctx_at (fst s4) (snd s4) y k"
    using dist by (intro ctx_at_frame) (force simp: same_links_def h6_def rb_fields)
  with ctx4 have ctx6: "ctx_at h6 (snd s4) y k" by simp
  have f6: "n_parent (h6 a) = (if a = x then y else if a = y then kpar k else n_parent (h2 a))"
    "n_color (h6 a) = n_color (h a)"
    "a \<noteq> kpar k \<Longrightarrow> n_left (h6 a) = (if a = y then x else n_left (h a))"
    "a \<noteq> kpar k \<Longrightarrow> n_right (h6 a) = n_right (h2 a)" for a
    by (simp_all add: h6_def s4_def h3_def rb_fields f2)
  have AC: "tree_at h6 x A = tree_at h x A" "tree_at h6 y C = tree_at h y C"
  proof -
    have "a \<noteq> x \<and> a \<noteq> y" if "a \<in> set (addrs A) \<union> set (addrs C)" for a using that dist(4,6,7,9) by blast
    moreover have "a \<noteq> kpar k" if "a \<in> set (addrs A) \<union> set (addrs C)" for a using that kp(3,5) by blast
    moreover have "\<not> (rroot B \<noteq> 0 \<and> a = rroot B)" if "a \<in> set (addrs A) \<union> set (addrs C)" for a
      using that dist(10,12) rB by (metis UnE disjoint_iff)
    ultimately have "same_links (h6 a) (h a)" if "a \<in> set (addrs A) \<union> set (addrs C)" for a
      using that by (simp add: same_links_def f6 f2 del: de_Morgan_conj)
    then show "tree_at h6 x A = tree_at h x A" "tree_at h6 y C = tree_at h y C" by (simp_all add: tree_at_frame)
  qed
  have "tree_at h6 x B = tree_at (if rroot B \<noteq> 0 then set_parent (rroot B) x h else h) x B"
  proof (rule tree_at_frame)
    fix a assume "a \<in> set (addrs B)"
    then have "a \<noteq> x" "a \<noteq> y" "a \<noteq> kpar k" using dist(5,8) kp(4) by blast+
    then show "same_links (h6 a) ((if rroot B \<noteq> 0 then set_parent (rroot B) x h else h) a)"
      by (simp add: same_links_def f6 f2 rb_fields)
  qed
  moreover have "tree_at (if rroot B \<noteq> 0 then set_parent (rroot B) x h else h) x B"
    using f dist by (intro tree_at_reparent) auto
  ultimately have "tree_at h6 (kpar k) (Nd (Nd A c x B) d y C)"
    using f AC nz kp dist(1) rB dist(5,8) by (simp add: f6 f2)
  then show "focus (rb_rotate_left x (h, root)) k (Nd (Nd A c x B) d y C)"
    using ctx6 f unfolding rot focus_def by (auto simp: Int_Un_distrib2)
  let ?A = "set (addrs (Nd A c x (Nd B d y C))) \<union> set (kaddrs k)"
  have "touches ?A h h2" unfolding h2_def h1_def using rB by (auto intro: touches_setI)
  then have "touches ?A h h3" unfolding h3_def by (auto intro: touches_setI)
  moreover have "touches ?A h3 (fst s4)" unfolding s4_def using kpar_in [of k] by (intro redirect_touches) auto
  ultimately have "touches ?A h (fst s4)" by (rule touches_trans)
  then show "touches ?A h (fst (rb_rotate_left x (h, root)))" unfolding rot h6_def by (auto intro: touches_setI)
qed

lemma rotate_right_focus:
  assumes "focus (h, root) k (Nd (Nd C d y B) c x A)"
  shows "focus (rb_rotate_right x (h, root)) k (Nd C d y (Nd B c x A))"
    and "touches (set (addrs (Nd (Nd C d y B) c x A)) \<union> set (kaddrs k)) h (fst (rb_rotate_right x (h, root)))"
proof -
  note f = assms [unfolded focus_def, simplified]
  have nz: "x \<noteq> 0" "y \<noteq> 0" using f by auto
  have dist: "x \<noteq> y" "x \<notin> set (kaddrs k)" "y \<notin> set (kaddrs k)" "x \<notin> set (addrs A)" "x \<notin> set (addrs B)" "x \<notin> set (addrs C)"
    "y \<notin> set (addrs A)" "y \<notin> set (addrs B)" "y \<notin> set (addrs C)"
    "set (addrs A) \<inter> set (addrs B) = {}" "set (addrs A) \<inter> set (addrs C) = {}" "set (addrs B) \<inter> set (addrs C) = {}"
    "set (addrs A) \<inter> set (kaddrs k) = {}" "set (addrs B) \<inter> set (kaddrs k) = {}" "set (addrs C) \<inter> set (kaddrs k) = {}"
    "distinct (kaddrs k)" "distinct (addrs B)"
    using f by auto
  have kp: "x \<noteq> kpar k" "y \<noteq> kpar k" "kpar k \<notin> set (addrs A)" "kpar k \<notin> set (addrs B)" "kpar k \<notin> set (addrs C)"
    using dist nz kpar_in [of k] tree_at_nonzero f by (metis disjoint_iff)+
  have rB: "rroot B = 0 \<or> rroot B \<in> set (addrs B)" by (rule rroot_in)
  define h1 where "h1 = set_left x (rroot B) h"
  define h2 where "h2 = (if rroot B \<noteq> 0 then set_parent (rroot B) x h1 else h1)"
  define h3 where "h3 = set_parent y (kpar k) h2"
  define s4 where "s4 = redirect (kpar k) x y (h3, root)"
  define h6 where "h6 = set_parent x y (set_right y x (fst s4))"
  have f2: "n_right (h2 a) = n_right (h a)" "n_left (h2 a) = (if a = x then rroot B else n_left (h a))"
    "n_color (h2 a) = n_color (h a)" "n_parent (h2 a) = (if rroot B \<noteq> 0 \<and> a = rroot B then x else n_parent (h a))" for a
    by (simp_all add: h2_def h1_def rb_fields)
  have ctx3: "ctx_at h3 root x k"
  proof -
    have "ctx_at h3 root x k = ctx_at h root x k"
      using dist rB by (intro ctx_at_frame) (force simp: same_links_def h3_def f2 rb_fields)
    then show ?thesis using f by simp
  qed
  have rot: "rb_rotate_right x (h, root) = (h6, snd s4)"
  proof -
    have e: "n_left (h x) = y" "n_right (h y) = rroot B" "n_right (h1 y) = rroot B" "n_parent (h2 x) = kpar k" "n_parent (h3 x) = kpar k"
      using f dist(1,5) rB by (auto simp: h3_def f2 h1_def rb_fields)
    show ?thesis
      by (simp only: rb_rotate_right_def Let_def case_prod_beta fst_conv snd_conv e h6_def redirect_right [OF ctx3 nz(1) dist(2)]
          h1_def [symmetric] h2_def [symmetric] h3_def [symmetric] s4_def [symmetric])
  qed
  from ctx3 have ctx4: "ctx_at (fst s4) (snd s4) y k"
    unfolding s4_def using redirect_ctx nz(1) dist by blast
  have "ctx_at h6 (snd s4) y k = ctx_at (fst s4) (snd s4) y k"
    using dist by (intro ctx_at_frame) (force simp: same_links_def h6_def rb_fields)
  with ctx4 have ctx6: "ctx_at h6 (snd s4) y k" by simp
  have f6: "n_parent (h6 a) = (if a = x then y else if a = y then kpar k else n_parent (h2 a))"
    "n_color (h6 a) = n_color (h a)"
    "a \<noteq> kpar k \<Longrightarrow> n_right (h6 a) = (if a = y then x else n_right (h a))"
    "a \<noteq> kpar k \<Longrightarrow> n_left (h6 a) = n_left (h2 a)" for a
    by (simp_all add: h6_def s4_def h3_def rb_fields f2)
  have AC: "tree_at h6 x A = tree_at h x A" "tree_at h6 y C = tree_at h y C"
  proof -
    have "a \<noteq> x \<and> a \<noteq> y" if "a \<in> set (addrs A) \<union> set (addrs C)" for a using that dist(4,6,7,9) by blast
    moreover have "a \<noteq> kpar k" if "a \<in> set (addrs A) \<union> set (addrs C)" for a using that kp(3,5) by blast
    moreover have "\<not> (rroot B \<noteq> 0 \<and> a = rroot B)" if "a \<in> set (addrs A) \<union> set (addrs C)" for a
      using that dist(10,12) rB by (metis UnE disjoint_iff)
    ultimately have "same_links (h6 a) (h a)" if "a \<in> set (addrs A) \<union> set (addrs C)" for a
      using that by (simp add: same_links_def f6 f2 del: de_Morgan_conj)
    then show "tree_at h6 x A = tree_at h x A" "tree_at h6 y C = tree_at h y C" by (simp_all add: tree_at_frame)
  qed
  have "tree_at h6 x B = tree_at (if rroot B \<noteq> 0 then set_parent (rroot B) x h else h) x B"
  proof (rule tree_at_frame)
    fix a assume "a \<in> set (addrs B)"
    then have "a \<noteq> x" "a \<noteq> y" "a \<noteq> kpar k" using dist(5,8) kp(4) by blast+
    then show "same_links (h6 a) ((if rroot B \<noteq> 0 then set_parent (rroot B) x h else h) a)"
      by (simp add: same_links_def f6 f2 rb_fields)
  qed
  moreover have "tree_at (if rroot B \<noteq> 0 then set_parent (rroot B) x h else h) x B"
    using f dist by (intro tree_at_reparent) auto
  ultimately have "tree_at h6 (kpar k) (Nd C d y (Nd B c x A))"
    using f AC nz kp dist(1) rB dist(5,8) by (simp add: f6 f2)
  then show "focus (rb_rotate_right x (h, root)) k (Nd C d y (Nd B c x A))"
    using ctx6 f unfolding rot focus_def by (auto simp: Int_Un_distrib2)
  let ?A = "set (addrs (Nd (Nd C d y B) c x A)) \<union> set (kaddrs k)"
  have "touches ?A h h2" unfolding h2_def h1_def using rB by (auto intro: touches_setI)
  then have "touches ?A h h3" unfolding h3_def by (auto intro: touches_setI)
  moreover have "touches ?A h3 (fst s4)" unfolding s4_def using kpar_in [of k] by (intro redirect_touches) auto
  ultimately have "touches ?A h (fst s4)" by (rule touches_trans)
  then show "touches ?A h (fst (rb_rotate_right x (h, root)))" unfolding rot h6_def by (auto intro: touches_setI)
qed

section \<open>Colours\<close>

fun recolor :: "nat \<Rightarrow> rb_color \<Rightarrow> rtree \<Rightarrow> rtree" where
  "recolor a c' Lf = Lf"
| "recolor a c' (Nd l c b r) = Nd (recolor a c' l) (if b = a then c' else c) b (recolor a c' r)"

lemma recolor_id [simp]: "a \<notin> set (addrs t) \<Longrightarrow> recolor a c t = t"
  by (induction t) auto

lemma addrs_recolor [simp]: "addrs (recolor a c t) = addrs t"
  by (induction t) auto

lemma rroot_recolor [simp]: "rroot (recolor a c t) = rroot t"
  by (cases t) auto

lemma tree_at_recolor: "tree_at h par t \<Longrightarrow> tree_at (set_color a c h) par (recolor a c t)"
  by (induction t arbitrary: par) (auto simp: rb_fields)

lemma focus_recolor:
  assumes "focus (h, root) k t" and "a \<in> set (addrs t)"
  shows "focus (set_color a c h, root) k (recolor a c t)"
    and "touches (set (addrs t) \<union> set (kaddrs k)) h (set_color a c h)"
proof -
  have "a \<notin> set (kaddrs k)" using assms by (auto simp: focus_def)
  then have "ctx_at (set_color a c h) root (rroot t) k = ctx_at h root (rroot t) k"
    by (intro ctx_at_frame) (auto simp: same_links_def rb_fields)
  then show "focus (set_color a c h, root) k (recolor a c t)"
    using assms(1) tree_at_recolor by (simp add: focus_def)
qed (use assms in auto)

fun red_root :: "rtree \<Rightarrow> bool" where
  "red_root Lf = False"
| "red_root (Nd l c a r) = (c = RB_RED)"

fun paint :: "rb_color \<Rightarrow> rtree \<Rightarrow> rtree" where
  "paint c' Lf = Lf"
| "paint c' (Nd l c a r) = Nd l c' a r"

lemma addrs_paint [simp]: "addrs (paint c t) = addrs t"
  by (cases t) auto

lemma recolor_root [simp]: "distinct (addrs t) \<Longrightarrow> recolor (rroot t) c t = paint c t"
  by (cases t) auto

lemma red_root_paint [simp]: "red_root (paint RB_BLACK t) = False"
  by (cases t) auto

lemma is_red_root: "tree_at h par t \<Longrightarrow> is_red h (rroot t) = red_root t"
  by (cases t) (auto simp: is_red_def)

lemma is_black_root: "tree_at h par t \<Longrightarrow> is_black h (rroot t) = (\<not> red_root t)"
proof (cases t)
  case (Nd l c a r)
  assume "tree_at h par t"
  with Nd show ?thesis by (cases c) (auto simp: is_black_def)
qed (simp add: is_black_def)

end
