(* ===== verification/RB_Insert.thy ===== *)
theory RB_Insert
  imports RB_Tree
begin

text \<open>
  Insertion: the repair loop of \<open>rb_insert_raw\<close> follows the function \<open>ins_up\<close> on the frames
  above the new node, and \<open>ins_up\<close> restores the red-black invariant without changing the
  order of the nodes.
\<close>

section \<open>The repair on trees\<close>

fun ins_up :: "frame list \<Rightarrow> rtree \<Rightarrow> rtree" where
  "ins_up (FL RB_RED p B # FL cg g U # k) t =
     (if red_root U then ins_up k (Nd (Nd t RB_BLACK p B) RB_RED g (paint RB_BLACK U))
      else plug k (Nd t RB_BLACK p (Nd B RB_RED g U)))"
| "ins_up (FR A RB_RED p # FL cg g U # k) t =
     (if red_root U then ins_up k (Nd (Nd A RB_BLACK p t) RB_RED g (paint RB_BLACK U))
      else case t of Nd B c a C \<Rightarrow> plug k (Nd (Nd A RB_RED p B) RB_BLACK a (Nd C RB_RED g U)) | Lf \<Rightarrow> plug k Lf)"
| "ins_up (FR A RB_RED p # FR U cg g # k) t =
     (if red_root U then ins_up k (Nd (paint RB_BLACK U) RB_RED g (Nd A RB_BLACK p t))
      else plug k (Nd (Nd U RB_RED g A) RB_BLACK p t))"
| "ins_up (FL RB_RED p B # FR U cg g # k) t =
     (if red_root U then ins_up k (Nd (paint RB_BLACK U) RB_RED g (Nd t RB_BLACK p B))
      else case t of Nd A c a C \<Rightarrow> plug k (Nd (Nd U RB_RED g A) RB_BLACK a (Nd C RB_RED p B)) | Lf \<Rightarrow> plug k Lf)"
| "ins_up k t = plug k t"

fun kblack :: "frame list \<Rightarrow> bool" where
  "kblack [] = True"
| "kblack [FL c a r] = (c = RB_BLACK)"
| "kblack [FR l c a] = (c = RB_BLACK)"
| "kblack (f # k) = kblack k"

lemmas focus_defs = focus_def fst_conv snd_conv

lemma step_recolor:
  assumes "focus (h, root) k T" and "p \<in> set (addrs T)" "u \<in> set (addrs T)" "g \<in> set (addrs T)"
  shows "focus (ins_recolor p u g h, root) k (recolor g RB_RED (recolor u RB_BLACK (recolor p RB_BLACK T)))"
    and "touches (set (addrs T) \<union> set (kaddrs k)) h (ins_recolor p u g h)"
proof -
  note f1 = focus_recolor [OF assms(1,2), of RB_BLACK]
  note f2 = focus_recolor [OF f1(1), of u RB_BLACK]
  note f3 = focus_recolor [OF f2(1), of g RB_RED]
  show "focus (ins_recolor p u g h, root) k (recolor g RB_RED (recolor u RB_BLACK (recolor p RB_BLACK T)))"
    using f3(1) assms by (simp add: ins_recolor_def)
  show "touches (set (addrs T) \<union> set (kaddrs k)) h (ins_recolor p u g h)"
    using assms unfolding ins_recolor_def by (intro touches_setI touches_refl) auto
qed

text \<open>Uncle red, for the four positions of the node.\<close>

lemma ins_step_red_left:
  assumes f: "focus (h, root) k (Nd P cg g U)" and P: "P = Nd l RB_RED p r" and a: "a = rroot l \<or> a = rroot r" "a \<noteq> 0"
    and red: "red_root U"
  shows "fst (ins_step a (h, root)) = g"
    and "focus (snd (ins_step a (h, root))) k (Nd (paint RB_BLACK P) RB_RED g (paint RB_BLACK U))"
    and "touches (set (addrs (Nd P cg g U)) \<union> set (kaddrs k)) h (fst (snd (ins_step a (h, root))))"
proof -
  note ff = f [unfolded focus_def P, simplified]
  have par: "n_parent (h a) = p" using ff a by (cases l; cases r) auto
  have gp: "n_parent (h p) = g" "n_left (h g) = p" "n_right (h g) = rroot U" "is_red h (rroot U)"
    using ff red is_red_root by auto
  have step: "ins_step a (h, root) = (g, ins_recolor p (rroot U) g h, root)"
    by (simp add: ins_step_def par gp Let_def)
  have u: "rroot U \<in> set (addrs U)" using red by (cases U) auto
  note r = step_recolor [OF f, of p "rroot U" g]
  have d: "rroot U \<noteq> p" "rroot U \<noteq> g" "rroot U \<notin> set (addrs l)" "rroot U \<notin> set (addrs r)" "p \<noteq> g"
    "p \<notin> set (addrs l)" "p \<notin> set (addrs r)" "p \<notin> set (addrs U)" "g \<notin> set (addrs l)" "g \<notin> set (addrs r)" "g \<notin> set (addrs U)"
    "distinct (addrs U)" using ff u by auto
  have eq: "recolor g RB_RED (recolor (rroot U) RB_BLACK (recolor p RB_BLACK (Nd P cg g U)))
      = Nd (paint RB_BLACK P) RB_RED g (paint RB_BLACK U)"
    using d by (simp add: P)
  show "fst (ins_step a (h, root)) = g" by (simp add: step)
  show "focus (snd (ins_step a (h, root))) k (Nd (paint RB_BLACK P) RB_RED g (paint RB_BLACK U))"
    using r(1) u unfolding step eq by (simp add: P)
  show "touches (set (addrs (Nd P cg g U)) \<union> set (kaddrs k)) h (fst (snd (ins_step a (h, root))))"
    using r(2) u unfolding step by (simp add: P)
qed

lemma ins_step_red_right:
  assumes f: "focus (h, root) k (Nd U cg g P)" and P: "P = Nd l RB_RED p r" and a: "a = rroot l \<or> a = rroot r" "a \<noteq> 0"
    and red: "red_root U"
  shows "fst (ins_step a (h, root)) = g"
    and "focus (snd (ins_step a (h, root))) k (Nd (paint RB_BLACK U) RB_RED g (paint RB_BLACK P))"
    and "touches (set (addrs (Nd U cg g P)) \<union> set (kaddrs k)) h (fst (snd (ins_step a (h, root))))"
proof -
  note ff = f [unfolded focus_def P, simplified]
  have par: "n_parent (h a) = p" using ff a by (cases l; cases r) auto
  have u: "rroot U \<in> set (addrs U)" using red by (cases U) auto
  have gp: "n_parent (h p) = g" "n_right (h g) = p" "n_left (h g) = rroot U" "is_red h (rroot U)" "p \<noteq> rroot U"
    using ff red u is_red_root by auto
  have step: "ins_step a (h, root) = (g, ins_recolor p (rroot U) g h, root)"
    using gp(5) by (simp add: ins_step_def par gp Let_def)
  note r = step_recolor [OF f, of p "rroot U" g]
  have d: "rroot U \<noteq> p" "rroot U \<noteq> g" "rroot U \<notin> set (addrs l)" "rroot U \<notin> set (addrs r)" "p \<noteq> g"
    "p \<notin> set (addrs l)" "p \<notin> set (addrs r)" "p \<notin> set (addrs U)" "g \<notin> set (addrs l)" "g \<notin> set (addrs r)" "g \<notin> set (addrs U)"
    "distinct (addrs U)" using ff u by auto
  have eq: "recolor g RB_RED (recolor (rroot U) RB_BLACK (recolor p RB_BLACK (Nd U cg g P)))
      = Nd (paint RB_BLACK U) RB_RED g (paint RB_BLACK P)"
    using d by (simp add: P)
  show "fst (ins_step a (h, root)) = g" by (simp add: step)
  show "focus (snd (ins_step a (h, root))) k (Nd (paint RB_BLACK U) RB_RED g (paint RB_BLACK P))"
    using r(1) u unfolding step eq by (simp add: P)
  show "touches (set (addrs (Nd U cg g P)) \<union> set (kaddrs k)) h (fst (snd (ins_step a (h, root))))"
    using r(2) u unfolding step by (simp add: P)
qed

text \<open>Uncle black, the node on the outer side: one rotation.\<close>

lemma ins_step_outer_left:
  assumes f: "focus (h, root) k (Nd (Nd t RB_RED p B) cg g U)" and t: "t = Nd x ca a y" and blk: "\<not> red_root U"
  shows "fst (ins_step a (h, root)) = a"
    and "focus (snd (ins_step a (h, root))) k (Nd t RB_BLACK p (Nd B RB_RED g U))"
    and "touches (set (addrs (Nd (Nd t RB_RED p B) cg g U)) \<union> set (kaddrs k)) h (fst (snd (ins_step a (h, root))))"
proof -
  note ff = f [unfolded focus_def t, simplified]
  let ?T = "Nd (Nd t RB_RED p B) cg g U"
  have d: "a \<noteq> rroot B" using ff rroot_in [of B] by auto
  have n: "n_parent (h a) = p" "n_parent (h p) = g" "n_left (h g) = p" "n_right (h g) = rroot U" "n_right (h p) = rroot B"
    "\<not> is_red h (rroot U)" using ff blk is_red_root by auto
  have step: "ins_step a (h, root) = (a, rb_rotate_right g (set_color g RB_RED (set_color p RB_BLACK h), root))"
    using d by (simp add: ins_step_def n Let_def)
  have dd: "p \<noteq> g" "p \<notin> set (addrs t)" "p \<notin> set (addrs B)" "p \<notin> set (addrs U)" "g \<notin> set (addrs t)" "g \<notin> set (addrs B)" "g \<notin> set (addrs U)"
    using ff t by auto
  note r1 = focus_recolor [OF f, of p RB_BLACK]
  note r2 = focus_recolor [OF r1(1), of g RB_RED]
  have r3: "focus (set_color g RB_RED (set_color p RB_BLACK h), root) k (Nd (Nd t RB_BLACK p B) RB_RED g U)"
    using r2(1) dd by simp
  note rot = rotate_right_focus [OF r3]
  show "fst (ins_step a (h, root)) = a" by (simp add: step)
  show "focus (snd (ins_step a (h, root))) k (Nd t RB_BLACK p (Nd B RB_RED g U))" using rot(1) by (simp add: step)
  have "touches (set (addrs ?T) \<union> set (kaddrs k)) h (set_color g RB_RED (set_color p RB_BLACK h))"
    by (intro touches_setI touches_refl) auto
  then show "touches (set (addrs ?T) \<union> set (kaddrs k)) h (fst (snd (ins_step a (h, root))))"
    using rot(2) by (simp add: step) (erule touches_trans, simp)
qed

text \<open>Uncle black, the node on the inner side: two rotations.\<close>

lemma ins_step_inner_left:
  assumes f: "focus (h, root) k (Nd (Nd A RB_RED p (Nd B c a C)) cg g U)" and blk: "\<not> red_root U"
  shows "fst (ins_step a (h, root)) = p"
    and "focus (snd (ins_step a (h, root))) k (Nd (Nd A RB_RED p B) RB_BLACK a (Nd C RB_RED g U))"
    and "touches (set (addrs (Nd (Nd A RB_RED p (Nd B c a C)) cg g U)) \<union> set (kaddrs k)) h (fst (snd (ins_step a (h, root))))"
proof -
  note ff = f [unfolded focus_def, simplified]
  let ?T = "Nd (Nd A RB_RED p (Nd B c a C)) cg g U"
  let ?S = "set (addrs ?T) \<union> set (kaddrs k)"
  have n: "n_parent (h a) = p" "n_parent (h p) = g" "n_left (h g) = p" "n_right (h g) = rroot U" "n_right (h p) = a"
    "\<not> is_red h (rroot U)" using ff blk is_red_root by auto
  obtain h1 root1 where s1: "rb_rotate_left p (h, root) = (h1, root1)" by (cases "rb_rotate_left p (h, root)")
  have "focus (h, root) (FL cg g U # k) (Nd A RB_RED p (Nd B c a C))" using f by (simp add: focus_FL)
  note rot1 = rotate_left_focus [OF this, unfolded s1 fst_conv]
  have f1: "focus (h1, root1) k (Nd (Nd (Nd A RB_RED p B) c a C) cg g U)" using rot1(1) by (simp add: focus_FL)
  then have pa: "n_parent (h1 p) = a" by (simp add: focus_def)
  have step: "ins_step a (h, root) = (p, rb_rotate_right g (set_color g RB_RED (set_color a RB_BLACK h1), root1))"
    by (simp add: ins_step_def n Let_def s1 pa)
  have dd: "a \<noteq> g" "a \<noteq> p" "g \<noteq> p" "a \<notin> set (addrs A)" "a \<notin> set (addrs B)" "a \<notin> set (addrs C)" "a \<notin> set (addrs U)"
    "g \<notin> set (addrs A)" "g \<notin> set (addrs B)" "g \<notin> set (addrs C)" "g \<notin> set (addrs U)"
    using ff by auto
  note r1 = focus_recolor [OF f1, of a RB_BLACK]
  note r2 = focus_recolor [OF r1(1), of g RB_RED]
  have r3: "focus (set_color g RB_RED (set_color a RB_BLACK h1), root1) k (Nd (Nd (Nd A RB_RED p B) RB_BLACK a C) RB_RED g U)"
    using r2(1) dd by simp
  note rot = rotate_right_focus [OF r3]
  show "fst (ins_step a (h, root)) = p" by (simp add: step)
  show "focus (snd (ins_step a (h, root))) k (Nd (Nd A RB_RED p B) RB_BLACK a (Nd C RB_RED g U))" using rot(1) by (simp add: step)
  have t1: "touches ?S h h1" using rot1(2) by (rule touches_mono) auto
  have "touches ?S h (set_color g RB_RED (set_color a RB_BLACK h1))" by (intro touches_setI t1) auto
  moreover have "touches ?S (set_color g RB_RED (set_color a RB_BLACK h1)) (fst (snd (ins_step a (h, root))))"
    using rot(2) unfolding step snd_conv by (rule touches_mono) auto
  ultimately show "touches ?S h (fst (snd (ins_step a (h, root))))" by (rule touches_trans)
qed

lemma ins_step_outer_right:
  assumes f: "focus (h, root) k (Nd U cg g (Nd B RB_RED p t))" and t: "t = Nd y ca a x" and blk: "\<not> red_root U"
  shows "fst (ins_step a (h, root)) = a"
    and "focus (snd (ins_step a (h, root))) k (Nd (Nd U RB_RED g B) RB_BLACK p t)"
    and "touches (set (addrs (Nd U cg g (Nd B RB_RED p t))) \<union> set (kaddrs k)) h (fst (snd (ins_step a (h, root))))"
proof -
  note ff = f [unfolded focus_def t, simplified]
  let ?T = "Nd U cg g (Nd B RB_RED p t)"
  have d: "a \<noteq> rroot B" using ff rroot_in [of B] by auto
  have n: "n_parent (h a) = p" "n_parent (h p) = g" "n_right (h g) = p" "n_left (h g) = rroot U" "n_left (h p) = rroot B"
    "\<not> is_red h (rroot U)" using ff blk is_red_root by auto
  have pu: "p \<noteq> rroot U" using ff rroot_in [of U] by auto
  have step: "ins_step a (h, root) = (a, rb_rotate_left g (set_color g RB_RED (set_color p RB_BLACK h), root))"
    using d pu by (simp add: ins_step_def n Let_def)
  have dd: "p \<noteq> g" "p \<notin> set (addrs t)" "p \<notin> set (addrs B)" "p \<notin> set (addrs U)" "g \<notin> set (addrs t)" "g \<notin> set (addrs B)" "g \<notin> set (addrs U)"
    using ff t by auto
  note r1 = focus_recolor [OF f, of p RB_BLACK]
  note r2 = focus_recolor [OF r1(1), of g RB_RED]
  have r3: "focus (set_color g RB_RED (set_color p RB_BLACK h), root) k (Nd U RB_RED g (Nd B RB_BLACK p t))"
    using r2(1) dd by simp
  note rot = rotate_left_focus [OF r3]
  show "fst (ins_step a (h, root)) = a" by (simp add: step)
  show "focus (snd (ins_step a (h, root))) k (Nd (Nd U RB_RED g B) RB_BLACK p t)" using rot(1) by (simp add: step)
  have "touches (set (addrs ?T) \<union> set (kaddrs k)) h (set_color g RB_RED (set_color p RB_BLACK h))"
    by (intro touches_setI touches_refl) auto
  then show "touches (set (addrs ?T) \<union> set (kaddrs k)) h (fst (snd (ins_step a (h, root))))"
    using rot(2) by (simp add: step) (erule touches_trans, simp)
qed

lemma ins_step_inner_right:
  assumes f: "focus (h, root) k (Nd U cg g (Nd (Nd C c a B) RB_RED p A))" and blk: "\<not> red_root U"
  shows "fst (ins_step a (h, root)) = p"
    and "focus (snd (ins_step a (h, root))) k (Nd (Nd U RB_RED g C) RB_BLACK a (Nd B RB_RED p A))"
    and "touches (set (addrs (Nd U cg g (Nd (Nd C c a B) RB_RED p A))) \<union> set (kaddrs k)) h (fst (snd (ins_step a (h, root))))"
proof -
  note ff = f [unfolded focus_def, simplified]
  let ?T = "Nd U cg g (Nd (Nd C c a B) RB_RED p A)"
  let ?S = "set (addrs ?T) \<union> set (kaddrs k)"
  have n: "n_parent (h a) = p" "n_parent (h p) = g" "n_right (h g) = p" "n_left (h g) = rroot U" "n_left (h p) = a"
    "\<not> is_red h (rroot U)" using ff blk is_red_root by auto
  obtain h1 root1 where s1: "rb_rotate_right p (h, root) = (h1, root1)" by (cases "rb_rotate_right p (h, root)")
  have "focus (h, root) (FR U cg g # k) (Nd (Nd C c a B) RB_RED p A)" using f by (simp add: focus_FR)
  note rot1 = rotate_right_focus [OF this, unfolded s1 fst_conv]
  have f1: "focus (h1, root1) k (Nd U cg g (Nd C c a (Nd B RB_RED p A)))" using rot1(1) by (simp add: focus_FR)
  then have pa: "n_parent (h1 p) = a" by (simp add: focus_def)
  have pu: "p \<noteq> rroot U" using ff rroot_in [of U] by auto
  have step: "ins_step a (h, root) = (p, rb_rotate_left g (set_color g RB_RED (set_color a RB_BLACK h1), root1))"
    using pu by (simp add: ins_step_def n Let_def s1 pa)
  have dd: "a \<noteq> g" "a \<noteq> p" "g \<noteq> p" "a \<notin> set (addrs A)" "a \<notin> set (addrs B)" "a \<notin> set (addrs C)" "a \<notin> set (addrs U)"
    "g \<notin> set (addrs A)" "g \<notin> set (addrs B)" "g \<notin> set (addrs C)" "g \<notin> set (addrs U)"
    using ff by auto
  note r1 = focus_recolor [OF f1, of a RB_BLACK]
  note r2 = focus_recolor [OF r1(1), of g RB_RED]
  have r3: "focus (set_color g RB_RED (set_color a RB_BLACK h1), root1) k (Nd U RB_RED g (Nd C RB_BLACK a (Nd B RB_RED p A)))"
    using r2(1) dd by simp
  note rot = rotate_left_focus [OF r3]
  show "fst (ins_step a (h, root)) = p" by (simp add: step)
  show "focus (snd (ins_step a (h, root))) k (Nd (Nd U RB_RED g C) RB_BLACK a (Nd B RB_RED p A))" using rot(1) by (simp add: step)
  have t1: "touches ?S h h1" using rot1(2) by (rule touches_mono) auto
  have "touches ?S h (set_color g RB_RED (set_color a RB_BLACK h1))" by (intro touches_setI t1) auto
  moreover have "touches ?S (set_color g RB_RED (set_color a RB_BLACK h1)) (fst (snd (ins_step a (h, root))))"
    using rot(2) unfolding step snd_conv by (rule touches_mono) auto
  ultimately show "touches ?S h (fst (snd (ins_step a (h, root))))" by (rule touches_trans)
qed

section \<open>The repair loop\<close>

lemma addrs_plug_cong: "addrs t = addrs t' \<Longrightarrow> addrs (plug k t) = addrs (plug k t')"
proof (induction k arbitrary: t t')
  case (Cons f k)
  then show ?case by (cases f) auto
qed simp

lemma addrs_ins_up: "t \<noteq> Lf \<Longrightarrow> addrs (ins_up k t) = addrs (plug k t)"
  by (induction k t rule: ins_up.induct) (auto split: rtree.split intro!: addrs_plug_cong)

lemma ins_loop_stop: "a = snd s \<or> n_color (fst s (n_parent (fst s a))) = RB_BLACK \<Longrightarrow> ins_loop a s = Some s"
  by (subst ins_loop.simps) auto

lemma ins_loop_next:
  assumes "a \<noteq> snd s" and "n_color (fst s (n_parent (fst s a))) = RB_RED"
  shows "ins_loop a s = ins_loop (fst (ins_step a s)) (snd (ins_step a s))"
  using assms by (subst ins_loop.simps) simp

text \<open>What a pass needs to know: the node is not the root and its parent is red.\<close>

lemma ctx_root_in: "ctx_at h root p k \<Longrightarrow> k \<noteq> [] \<Longrightarrow> root \<in> set (kaddrs k)"
proof (induction k arbitrary: p)
  case (Cons f k)
  then show ?case by (cases f; cases "k = []") auto
qed simp

lemma focus_not_root:
  assumes "focus s k t" and "k \<noteq> []" and "t \<noteq> Lf"
  shows "rroot t \<noteq> snd s"
proof -
  have "snd s \<in> set (kaddrs k)" using assms(1,2) ctx_root_in unfolding focus_def by blast
  moreover have "rroot t \<in> set (addrs t)" using assms(3) by (cases t) auto
  ultimately show ?thesis using assms(1) by (auto simp: focus_def)
qed

lemma focus_parent_color:
  assumes "focus s (f # k) t" and "t \<noteq> Lf"
  shows "n_color (fst s (n_parent (fst s (rroot t)))) = (case f of FL c p r \<Rightarrow> c | FR l c p \<Rightarrow> c)"
  using assms by (cases f; cases t) (auto simp: focus_def)

lemma ins_loop_red:
  assumes "focus s (f # k) t" and "t \<noteq> Lf"
  shows "(case f of FL c p r \<Rightarrow> c | FR l c p \<Rightarrow> c) = RB_RED \<Longrightarrow>
    ins_loop (rroot t) s = ins_loop (fst (ins_step (rroot t) s)) (snd (ins_step (rroot t) s))"
  using ins_loop_next [OF focus_not_root [OF assms(1) _ assms(2)]] focus_parent_color [OF assms] by simp

lemma ins_loop_after:
  assumes "focus s k (Nd L RB_BLACK x R)" and "a = rroot L \<and> L \<noteq> Lf \<or> a = rroot R \<and> R \<noteq> Lf"
  shows "ins_loop a s = Some s"
proof -
  have "n_color (fst s (n_parent (fst s a))) = RB_BLACK"
    using assms focus_parent_color [of s "FL RB_BLACK x R" k L] focus_parent_color [of s "FR L RB_BLACK x" k R]
    by (auto simp: focus_FL focus_FR)
  then show ?thesis by (intro ins_loop_stop) simp
qed

fun fcolor :: "frame \<Rightarrow> rb_color" where
  "fcolor (FL c a r) = c"
| "fcolor (FR l c a) = c"

lemma ins_loop_base:
  assumes "focus s k t" and "t \<noteq> Lf" and "k = [] \<or> fcolor (hd k) = RB_BLACK"
  shows "\<exists>s'. ins_loop (rroot t) s = Some s' \<and> focus s' [] (plug k t) \<and> touches (set (addrs (plug k t))) (fst s) (fst s')"
proof -
  have "ins_loop (rroot t) s = Some s"
  proof (cases k)
    case Nil
    then show ?thesis using assms(1) by (intro ins_loop_stop) (simp add: focus_def)
  next
    case (Cons f k')
    then show ?thesis using assms focus_parent_color [of s f k' t] by (intro ins_loop_stop) (cases f; simp)
  qed
  then show ?thesis using assms(1) focus_plug by auto
qed

lemma kblack_single: "kblack [f] \<longleftrightarrow> fcolor f = RB_BLACK"
  by (cases f) simp_all

lemma ins_loop_spec:
  assumes "focus s k t" and "t \<noteq> Lf" and "kblack k"
  shows "\<exists>s'. ins_loop (rroot t) s = Some s' \<and> focus s' [] (ins_up k t) \<and> touches (set (addrs (plug k t))) (fst s) (fst s')"
  using assms
proof (induction k t arbitrary: s rule: ins_up.induct)
  case (1 p B cg g U k t s)
  obtain h root where s: "s = (h, root)" by (cases s)
  obtain x ca a y where t: "t = Nd x ca a y" using "1.prems" by (cases t) auto
  let ?T0 = "Nd (Nd t RB_RED p B) cg g U"
  have f: "focus (h, root) k (Nd (Nd t RB_RED p B) cg g U)" using "1.prems" s by (simp add: focus_FL focus_FR)
  have go: "ins_loop (rroot t) s = ins_loop (fst (ins_step a (h, root))) (snd (ins_step a (h, root)))"
    using ins_loop_red [OF "1.prems"(1,2)] t s by simp
  have S: "set (addrs (plug (FL RB_RED p B # FL cg g U # k) t)) = set (addrs (Nd (Nd t RB_RED p B) cg g U)) \<union> set (kaddrs k)"
    by (auto simp: addrs_plug_set)
  have kb: "kblack k" using "1.prems"(3) by (cases k rule: kblack.cases) auto
  show ?case
  proof (cases "red_root U")
    case True
    note st = ins_step_red_left [OF f refl _ _ True, of a]
    let ?T = "Nd (Nd t RB_BLACK p B) RB_RED g (paint RB_BLACK U)"
    have st': "fst (ins_step a (h, root)) = rroot ?T" "focus (snd (ins_step a (h, root))) k ?T"
      "touches (set (addrs (Nd (Nd t RB_RED p B) cg g U)) \<union> set (kaddrs k)) h (fst (snd (ins_step a (h, root))))"
      using st t f by (simp_all add: focus_def)
    from "1.IH" [OF True st'(2) _ kb] obtain s' where s': "ins_loop (rroot ?T) (snd (ins_step a (h, root))) = Some s'"
      "focus s' [] (ins_up k ?T)" "touches (set (addrs (plug k ?T))) (fst (snd (ins_step a (h, root)))) (fst s')" by auto
    have "set (addrs (plug k ?T)) = set (addrs (Nd (Nd t RB_RED p B) cg g U)) \<union> set (kaddrs k)" by (auto simp: addrs_plug_set)
    then have "touches (set (addrs ?T0) \<union> set (kaddrs k)) h (fst s')" using touches_trans [OF st'(3)] s'(3) by simp
    moreover have "ins_loop (rroot t) s = Some s'" using go st'(1) s'(1) by simp
    ultimately show ?thesis using s'(2) True unfolding S s fst_conv by (intro exI [of _ s']) simp
  next
    case False
    note st = ins_step_outer_left [OF f t False]
    have "ins_loop (fst (ins_step a (h, root))) (snd (ins_step a (h, root))) = Some (snd (ins_step a (h, root)))"
      using ins_loop_after [OF st(2)] st(1) t by simp
    then show ?thesis using go st(2,3) False s t unfolding S focus_plug [of _ k] by auto
  qed
next
  case (2 A p cg g U k t s)
  obtain h root where s: "s = (h, root)" by (cases s)
  obtain x ca a y where t: "t = Nd x ca a y" using "2.prems" by (cases t) auto
  let ?T0 = "Nd (Nd A RB_RED p t) cg g U"
  have f: "focus (h, root) k (Nd (Nd A RB_RED p t) cg g U)" using "2.prems" s by (simp add: focus_FL focus_FR)
  have go: "ins_loop (rroot t) s = ins_loop (fst (ins_step a (h, root))) (snd (ins_step a (h, root)))"
    using ins_loop_red [OF "2.prems"(1,2)] t s by simp
  have S: "set (addrs (plug (FR A RB_RED p # FL cg g U # k) t)) = set (addrs (Nd (Nd A RB_RED p t) cg g U)) \<union> set (kaddrs k)"
    by (auto simp: addrs_plug_set)
  have kb: "kblack k" using "2.prems"(3) by (cases k rule: kblack.cases) auto
  show ?case
  proof (cases "red_root U")
    case True
    note st = ins_step_red_left [OF f refl _ _ True, of a]
    let ?T = "Nd (Nd A RB_BLACK p t) RB_RED g (paint RB_BLACK U)"
    have st': "fst (ins_step a (h, root)) = rroot ?T" "focus (snd (ins_step a (h, root))) k ?T"
      "touches (set (addrs (Nd (Nd A RB_RED p t) cg g U)) \<union> set (kaddrs k)) h (fst (snd (ins_step a (h, root))))"
      using st t f by (simp_all add: focus_def)
    from "2.IH" [OF True st'(2) _ kb] obtain s' where s': "ins_loop (rroot ?T) (snd (ins_step a (h, root))) = Some s'"
      "focus s' [] (ins_up k ?T)" "touches (set (addrs (plug k ?T))) (fst (snd (ins_step a (h, root)))) (fst s')" by auto
    have "set (addrs (plug k ?T)) = set (addrs (Nd (Nd A RB_RED p t) cg g U)) \<union> set (kaddrs k)" by (auto simp: addrs_plug_set)
    then have "touches (set (addrs ?T0) \<union> set (kaddrs k)) h (fst s')" using touches_trans [OF st'(3)] s'(3) by simp
    moreover have "ins_loop (rroot t) s = Some s'" using go st'(1) s'(1) by simp
    ultimately show ?thesis using s'(2) True unfolding S s fst_conv by (intro exI [of _ s']) simp
  next
    case False
    note st = ins_step_inner_left [OF f [unfolded t] False]
    have "ins_loop (fst (ins_step a (h, root))) (snd (ins_step a (h, root))) = Some (snd (ins_step a (h, root)))"
      using ins_loop_after [OF st(2)] st(1) t by simp
    then show ?thesis using go st(2,3) False s t unfolding S focus_plug [of _ k] by auto
  qed
next
  case (3 A p U cg g k t s)
  obtain h root where s: "s = (h, root)" by (cases s)
  obtain x ca a y where t: "t = Nd x ca a y" using "3.prems" by (cases t) auto
  let ?T0 = "Nd U cg g (Nd A RB_RED p t)"
  have f: "focus (h, root) k (Nd U cg g (Nd A RB_RED p t))" using "3.prems" s by (simp add: focus_FL focus_FR)
  have go: "ins_loop (rroot t) s = ins_loop (fst (ins_step a (h, root))) (snd (ins_step a (h, root)))"
    using ins_loop_red [OF "3.prems"(1,2)] t s by simp
  have S: "set (addrs (plug (FR A RB_RED p # FR U cg g # k) t)) = set (addrs (Nd U cg g (Nd A RB_RED p t))) \<union> set (kaddrs k)"
    by (auto simp: addrs_plug_set)
  have kb: "kblack k" using "3.prems"(3) by (cases k rule: kblack.cases) auto
  show ?case
  proof (cases "red_root U")
    case True
    note st = ins_step_red_right [OF f refl _ _ True, of a]
    let ?T = "Nd (paint RB_BLACK U) RB_RED g (Nd A RB_BLACK p t)"
    have st': "fst (ins_step a (h, root)) = rroot ?T" "focus (snd (ins_step a (h, root))) k ?T"
      "touches (set (addrs (Nd U cg g (Nd A RB_RED p t))) \<union> set (kaddrs k)) h (fst (snd (ins_step a (h, root))))"
      using st t f by (simp_all add: focus_def)
    from "3.IH" [OF True st'(2) _ kb] obtain s' where s': "ins_loop (rroot ?T) (snd (ins_step a (h, root))) = Some s'"
      "focus s' [] (ins_up k ?T)" "touches (set (addrs (plug k ?T))) (fst (snd (ins_step a (h, root)))) (fst s')" by auto
    have "set (addrs (plug k ?T)) = set (addrs (Nd U cg g (Nd A RB_RED p t))) \<union> set (kaddrs k)" by (auto simp: addrs_plug_set)
    then have "touches (set (addrs ?T0) \<union> set (kaddrs k)) h (fst s')" using touches_trans [OF st'(3)] s'(3) by simp
    moreover have "ins_loop (rroot t) s = Some s'" using go st'(1) s'(1) by simp
    ultimately show ?thesis using s'(2) True unfolding S s fst_conv by (intro exI [of _ s']) simp
  next
    case False
    note st = ins_step_outer_right [OF f t False]
    have "ins_loop (fst (ins_step a (h, root))) (snd (ins_step a (h, root))) = Some (snd (ins_step a (h, root)))"
      using ins_loop_after [OF st(2)] st(1) t by simp
    then show ?thesis using go st(2,3) False s t unfolding S focus_plug [of _ k] by auto
  qed
next
  case (4 p B U cg g k t s)
  obtain h root where s: "s = (h, root)" by (cases s)
  obtain x ca a y where t: "t = Nd x ca a y" using "4.prems" by (cases t) auto
  let ?T0 = "Nd U cg g (Nd t RB_RED p B)"
  have f: "focus (h, root) k (Nd U cg g (Nd t RB_RED p B))" using "4.prems" s by (simp add: focus_FL focus_FR)
  have go: "ins_loop (rroot t) s = ins_loop (fst (ins_step a (h, root))) (snd (ins_step a (h, root)))"
    using ins_loop_red [OF "4.prems"(1,2)] t s by simp
  have S: "set (addrs (plug (FL RB_RED p B # FR U cg g # k) t)) = set (addrs (Nd U cg g (Nd t RB_RED p B))) \<union> set (kaddrs k)"
    by (auto simp: addrs_plug_set)
  have kb: "kblack k" using "4.prems"(3) by (cases k rule: kblack.cases) auto
  show ?case
  proof (cases "red_root U")
    case True
    note st = ins_step_red_right [OF f refl _ _ True, of a]
    let ?T = "Nd (paint RB_BLACK U) RB_RED g (Nd t RB_BLACK p B)"
    have st': "fst (ins_step a (h, root)) = rroot ?T" "focus (snd (ins_step a (h, root))) k ?T"
      "touches (set (addrs (Nd U cg g (Nd t RB_RED p B))) \<union> set (kaddrs k)) h (fst (snd (ins_step a (h, root))))"
      using st t f by (simp_all add: focus_def)
    from "4.IH" [OF True st'(2) _ kb] obtain s' where s': "ins_loop (rroot ?T) (snd (ins_step a (h, root))) = Some s'"
      "focus s' [] (ins_up k ?T)" "touches (set (addrs (plug k ?T))) (fst (snd (ins_step a (h, root)))) (fst s')" by auto
    have "set (addrs (plug k ?T)) = set (addrs (Nd U cg g (Nd t RB_RED p B))) \<union> set (kaddrs k)" by (auto simp: addrs_plug_set)
    then have "touches (set (addrs ?T0) \<union> set (kaddrs k)) h (fst s')" using touches_trans [OF st'(3)] s'(3) by simp
    moreover have "ins_loop (rroot t) s = Some s'" using go st'(1) s'(1) by simp
    ultimately show ?thesis using s'(2) True unfolding S s fst_conv by (intro exI [of _ s']) simp
  next
    case False
    note st = ins_step_inner_right [OF f [unfolded t] False]
    have "ins_loop (fst (ins_step a (h, root))) (snd (ins_step a (h, root))) = Some (snd (ins_step a (h, root)))"
      using ins_loop_after [OF st(2)] st(1) t by simp
    then show ?thesis using go st(2,3) False s t unfolding S focus_plug [of _ k] by auto
  qed
qed (frule (1) ins_loop_base, simp add: kblack_single, simp)+

section \<open>Red-black invariant\<close>

text \<open>
  The black height, \<open>None\<close> when two paths disagree, and the rule that a red node has no red
  child.
\<close>

fun bheight :: "rtree \<Rightarrow> nat option" where
  "bheight Lf = Some 0"
| "bheight (Nd l c a r) =
     (case (bheight l, bheight r) of
        (Some m, Some n) \<Rightarrow> if m = n then Some (if c = RB_BLACK then Suc m else m) else None
      | _ \<Rightarrow> None)"

fun no_red_red :: "rtree \<Rightarrow> bool" where
  "no_red_red Lf = True"
| "no_red_red (Nd l c a r) = (no_red_red l \<and> no_red_red r \<and> (c = RB_RED \<longrightarrow> \<not> red_root l \<and> \<not> red_root r))"

definition rb_inv :: "rtree \<Rightarrow> bool" where
  "rb_inv t \<longleftrightarrow> bheight t \<noteq> None \<and> no_red_red t \<and> \<not> red_root t"

text \<open>
  A context into which a tree of black height \<open>n\<close> fits; \<open>khole\<close> also wants a black root
  below a red frame.
\<close>

fun kfits :: "frame list \<Rightarrow> nat \<Rightarrow> bool" where
  "kfits [] n = True"
| "kfits (FL c a r # k) n =
     (bheight r = Some n \<and> no_red_red r \<and> (c = RB_RED \<longrightarrow> \<not> red_root r \<and> (k \<noteq> [] \<longrightarrow> fcolor (hd k) = RB_BLACK))
      \<and> kfits k (if c = RB_BLACK then Suc n else n))"
| "kfits (FR l c a # k) n =
     (bheight l = Some n \<and> no_red_red l \<and> (c = RB_RED \<longrightarrow> \<not> red_root l \<and> (k \<noteq> [] \<longrightarrow> fcolor (hd k) = RB_BLACK))
      \<and> kfits k (if c = RB_BLACK then Suc n else n))"

lemma plug_valid:
  assumes "kfits k n" and "bheight t = Some n" and "no_red_red t"
    and "red_root t \<longrightarrow> k \<noteq> [] \<longrightarrow> fcolor (hd k) = RB_BLACK"
  shows "bheight (plug k t) \<noteq> None \<and> no_red_red (plug k t)"
  using assms
proof (induction k arbitrary: t n)
  case (Cons f k)
  show ?case
  proof (cases f)
    case (FL c a r)
    then show ?thesis using Cons.prems Cons.IH [of "if c = RB_BLACK then Suc n else n" "Nd t c a r"] by auto
  next
    case (FR l c a)
    then show ?thesis using Cons.prems Cons.IH [of "if c = RB_BLACK then Suc n else n" "Nd l c a t"] by auto
  qed
qed simp

lemma plug_validD:
  assumes "bheight (plug k t) \<noteq> None" and "no_red_red (plug k t)"
  shows "\<exists>n. bheight t = Some n \<and> no_red_red t \<and> kfits k n \<and> (red_root t \<longrightarrow> k \<noteq> [] \<longrightarrow> fcolor (hd k) = RB_BLACK)"
  using assms
proof (induction k arbitrary: t)
  case (Cons f k)
  show ?case
  proof (cases f)
    case (FL c a r)
    then obtain n where n: "bheight (Nd t c a r) = Some n" "no_red_red (Nd t c a r)" "kfits k n"
      "red_root (Nd t c a r) \<longrightarrow> k \<noteq> [] \<longrightarrow> fcolor (hd k) = RB_BLACK" using Cons by fastforce
    then show ?thesis using FL by (cases c) (auto split: option.splits if_splits)
  next
    case (FR l c a)
    then obtain n where n: "bheight (Nd l c a t) = Some n" "no_red_red (Nd l c a t)" "kfits k n"
      "red_root (Nd l c a t) \<longrightarrow> k \<noteq> [] \<longrightarrow> fcolor (hd k) = RB_BLACK" using Cons by fastforce
    then show ?thesis using FR by (cases c) (auto split: option.splits if_splits)
  qed
qed simp

lemma bheight_paint_red: "red_root t \<Longrightarrow> bheight t = Some n \<Longrightarrow> bheight (paint RB_BLACK t) = Some (Suc n)"
  by (cases t) (auto split: option.splits if_splits)

lemma no_red_red_paint: "no_red_red t \<Longrightarrow> no_red_red (paint RB_BLACK t)"
  by (cases t) auto

lemma rb_inv_paint: "bheight t \<noteq> None \<Longrightarrow> no_red_red t \<Longrightarrow> rb_inv (paint RB_BLACK t)"
  by (cases t) (auto simp: rb_inv_def split: option.splits if_splits)

lemma plug_rb_inv:
  assumes "kfits k n" and "bheight t = Some n" and "no_red_red t"
    and "red_root t \<longrightarrow> k \<noteq> [] \<longrightarrow> fcolor (hd k) = RB_BLACK"
  shows "rb_inv (paint RB_BLACK (plug k t))"
  using plug_valid [OF assms] by (intro rb_inv_paint) simp_all

lemma ins_up_rb_inv:
  assumes "kfits k n" and "bheight t = Some n" and "no_red_red t" and "red_root t" and "kblack k"
  shows "rb_inv (paint RB_BLACK (ins_up k t))"
  using assms
proof (induction k t arbitrary: n rule: ins_up.induct)
  case (1 p B cg g U k t)
  have kb: "kblack k" using "1.prems"(5) by (cases k rule: kblack.cases) auto
  have cg: "cg = RB_BLACK" using "1.prems"(1) by simp
  show ?case
  proof (cases "red_root U")
    case True
    then show ?thesis using "1.IH" [of "Suc n"] "1.prems" cg kb by (simp add: bheight_paint_red no_red_red_paint)
  next
    case False
    then show ?thesis using "1.prems" cg by (auto intro!: plug_rb_inv [of k "Suc n"])
  qed
next
  case (2 A p cg g U k t)
  have kb: "kblack k" using "2.prems"(5) by (cases k rule: kblack.cases) auto
  have cg: "cg = RB_BLACK" using "2.prems"(1) by simp
  show ?case
  proof (cases "red_root U")
    case True
    then show ?thesis using "2.IH" [of "Suc n"] "2.prems" cg kb by (simp add: bheight_paint_red no_red_red_paint)
  next
    case False
    obtain B c a C where "t = Nd B c a C" using "2.prems" by (cases t) auto
    then show ?thesis using False "2.prems" cg
      by (auto intro!: plug_rb_inv [of k "Suc n"] split: option.splits if_splits)
  qed
next
  case (3 A p U cg g k t)
  have kb: "kblack k" using "3.prems"(5) by (cases k rule: kblack.cases) auto
  have cg: "cg = RB_BLACK" using "3.prems"(1) by simp
  show ?case
  proof (cases "red_root U")
    case True
    then show ?thesis using "3.IH" [of "Suc n"] "3.prems" cg kb by (simp add: bheight_paint_red no_red_red_paint)
  next
    case False
    then show ?thesis using "3.prems" cg by (auto intro!: plug_rb_inv [of k "Suc n"])
  qed
next
  case (4 p B U cg g k t)
  have kb: "kblack k" using "4.prems"(5) by (cases k rule: kblack.cases) auto
  have cg: "cg = RB_BLACK" using "4.prems"(1) by simp
  show ?case
  proof (cases "red_root U")
    case True
    then show ?thesis using "4.IH" [of "Suc n"] "4.prems" cg kb by (simp add: bheight_paint_red no_red_red_paint)
  next
    case False
    obtain A c a C where "t = Nd A c a C" using "4.prems" by (cases t) auto
    then show ?thesis using False "4.prems" cg
      by (auto intro!: plug_rb_inv [of k "Suc n"] split: option.splits if_splits)
  qed
qed (frule (2) plug_rb_inv, simp add: kblack_single, simp)+

end
