(* ===== verification/RB_Order.thy ===== *)
theory RB_Order
  imports RB_Insert
begin

text \<open>
  Insertion as a whole: the descent to a free place, the link, the repair. The order of
  the nodes is the list \<open>addrs\<close>; insertion puts the node before the first node that
  compares greater.
\<close>

section \<open>Descent\<close>

fun path :: "(nat \<Rightarrow> bool) \<Rightarrow> rtree \<Rightarrow> frame list \<Rightarrow> frame list" where
  "path f Lf k = k"
| "path f (Nd l c a r) k = (if f a then path f l (FL c a r # k) else path f r (FR l c a # k))"

fun is_FL :: "frame \<Rightarrow> bool" where
  "is_FL (FL c a r) = True"
| "is_FL (FR l c a) = False"

lemma plug_path: "plug (path f t k) Lf = plug k t"
  by (induction t arbitrary: k) auto

lemma path_Nil: "path f t k = [] \<longleftrightarrow> t = Lf \<and> k = []"
  by (induction t arbitrary: k) auto

lemma ins_descend_path:
  assumes "tree_at h (kpar k) t" and "f = (\<lambda>a. cmp node a < 0)"
  shows "\<exists>res'. ins_descend cmp node h (kpar k) res (rroot t) = Some (kpar (path f t k), res')
    \<and> (if t = Lf then res' = res else (res' < 0 \<longleftrightarrow> is_FL (hd (path f t k))))"
  using assms(1)
proof (induction t arbitrary: k res)
  case Lf
  then show ?case by (simp add: ins_descend.simps)
next
  case (Nd l c a r)
  show ?case
  proof (cases "f a")
    case True
    then have n: "ins_descend cmp node h (kpar k) res a = ins_descend cmp node h (kpar (FL c a r # k)) (cmp node a) (rroot l)"
      using Nd.prems by (subst ins_descend.simps) (simp add: Let_def assms(2))
    have "tree_at h (kpar (FL c a r # k)) l" using Nd.prems by simp
    from Nd.IH(1) [OF this, of "cmp node a"] n True show ?thesis
      by (cases l) (auto simp: assms(2) split: if_splits)
  next
    case False
    then have n: "ins_descend cmp node h (kpar k) res a = ins_descend cmp node h (kpar (FR l c a # k)) (cmp node a) (rroot r)"
      using Nd.prems by (subst ins_descend.simps) (simp add: Let_def assms(2))
    have "tree_at h (kpar (FR l c a # k)) r" using Nd.prems by simp
    from Nd.IH(2) [OF this, of "cmp node a"] n False show ?thesis
      by (cases r) (auto simp: assms(2) split: if_splits)
  qed
qed

section \<open>Order\<close>

fun kpre :: "frame list \<Rightarrow> nat list" where
  "kpre [] = []"
| "kpre (FL c a r # k) = kpre k"
| "kpre (FR l c a # k) = kpre k @ addrs l @ [a]"

fun kpost :: "frame list \<Rightarrow> nat list" where
  "kpost [] = []"
| "kpost (FL c a r # k) = a # addrs r @ kpost k"
| "kpost (FR l c a # k) = kpost k"

lemma addrs_plug: "addrs (plug k t) = kpre k @ addrs t @ kpost k"
  by (induction k t rule: plug.induct) auto

lemma path_order:
  assumes "sorted_wrt (\<lambda>a b. f a \<longrightarrow> f b) (addrs t)"
  shows "kpre (path f t k) = kpre k @ takeWhile (\<lambda>a. \<not> f a) (addrs t)
    \<and> kpost (path f t k) = dropWhile (\<lambda>a. \<not> f a) (addrs t) @ kpost k"
  using assms
proof (induction t arbitrary: k)
  case (Nd l c a r)
  have s: "sorted_wrt (\<lambda>a b. f a \<longrightarrow> f b) (addrs l)" "sorted_wrt (\<lambda>a b. f a \<longrightarrow> f b) (addrs r)"
    using Nd.prems unfolding addrs.simps sorted_wrt_append sorted_wrt.simps by blast+
  show ?case
  proof (cases "f a")
    case True
    then show ?thesis using Nd.IH(1) [OF s(1)] by (simp add: takeWhile_tail dropWhile_append3)
  next
    case False
    moreover have "\<And>b. b \<in> set (addrs l) \<Longrightarrow> f b \<Longrightarrow> f a"
      using Nd.prems unfolding addrs.simps sorted_wrt_append by (meson list.set_intros(1))
    ultimately have "\<And>b. b \<in> set (addrs l) \<Longrightarrow> \<not> f b" by blast
    then have "takeWhile (\<lambda>a. \<not> f a) (addrs l @ a # addrs r) = addrs l @ takeWhile (\<lambda>a. \<not> f a) (a # addrs r)"
      "dropWhile (\<lambda>a. \<not> f a) (addrs l @ a # addrs r) = dropWhile (\<lambda>a. \<not> f a) (a # addrs r)"
      by (auto intro: takeWhile_append2 dropWhile_append2)
    then show ?thesis using False Nd.IH(2) [OF s(2)] by simp
  qed
qed simp

section \<open>Linking a new node\<close>

lemma focus_link:
  assumes "focus (h, root) k Lf" and "node \<noteq> 0" and "node \<notin> set (kaddrs k)"
    and new: "n_parent (h node) = kpar k" "n_left (h node) = 0" "n_right (h node) = 0" "n_color (h node) = RB_RED"
  shows "focus (case k of [] \<Rightarrow> (h, node) | FL c a r # _ \<Rightarrow> (set_left a node h, root) | FR l c a # _ \<Rightarrow> (set_right a node h, root))
     k (Nd Lf RB_RED node Lf)"
proof (cases k rule: kpar.cases)
  case 1
  then show ?thesis using assms by (simp add: focus_def)
next
  case (2 c a r k')
  have d: "a \<notin> set (addrs r)" "a \<notin> set (kaddrs k')" "node \<noteq> a" using assms 2 by (auto simp: focus_def)
  have "ctx_at (set_left a node h) root a k' = ctx_at h root a k'" "tree_at (set_left a node h) a r = tree_at h a r"
    using d by (intro ctx_at_frame tree_at_frame; auto simp: same_links_def rb_fields)+
  then show ?thesis using assms 2 d by (auto simp: focus_def rb_fields)
next
  case (3 l c a k')
  have d: "a \<notin> set (addrs l)" "a \<notin> set (kaddrs k')" "node \<noteq> a" using assms 3 by (auto simp: focus_def)
  have "ctx_at (set_right a node h) root a k' = ctx_at h root a k'" "tree_at (set_right a node h) a l = tree_at h a l"
    using d by (intro ctx_at_frame tree_at_frame; auto simp: same_links_def rb_fields)+
  then show ?thesis using assms 3 d by (auto simp: focus_def rb_fields)
qed

lemma kblack_Cons: "k \<noteq> [] \<Longrightarrow> kblack (f # k) = kblack k"
  by (cases k; cases f) simp_all

lemma kblack_rb_inv: "\<not> red_root (plug k t) \<Longrightarrow> kblack k"
proof (induction k arbitrary: t)
  case (Cons f k)
  show ?case
  proof (cases "k = []")
    case True
    then show ?thesis using Cons.prems by (cases f) (auto intro: rb_color.exhaust)
  next
    case False
    then show ?thesis using Cons by (cases f) (auto simp: kblack_Cons)
  qed
qed simp

section \<open>Insertion\<close>

definition repr :: "rb \<Rightarrow> rtree \<Rightarrow> bool" where
  "repr s t \<longleftrightarrow> focus (fst s, r_node (snd s)) [] t"

text \<open>The access data of every node but \<open>node\<close> is as before, and \<open>node\<close> is a fresh cold node.\<close>

definition fresh_data :: "nat \<Rightarrow> nat \<Rightarrow> rb_heap \<Rightarrow> rb_heap \<Rightarrow> bool" where
  "fresh_data node clock h h' \<longleftrightarrow>
     n_flags (h' node) = RB_FLAG_COLD \<and> access_time (h' node) = clock \<and> access_count (h' node) = 0
     \<and> (\<forall>a. a \<noteq> node \<longrightarrow> n_flags (h' a) = n_flags (h a) \<and> access_time (h' a) = access_time (h a)
                        \<and> access_count (h' a) = access_count (h a))"

lemma stat_inc_fields [simp]:
  "r_node (rb_stat_inc f root) = r_node root" "r_hint (rb_stat_inc f root) = r_hint root"
  "r_cnt (rb_stat_inc f root) = r_cnt root" "r_clock (rb_stat_inc f root) = r_clock root"
  by (simp_all add: rb_stat_inc_def Let_def)

lemma rroot_paint [simp]: "rroot (paint c t) = rroot t"
  by (cases t) auto

lemma link_path:
  assumes foc: "focus (h, tp) k Lf" and node: "node \<noteq> 0" "node \<notin> set (kaddrs k)"
    and new: "n_left (h node) = 0" "n_right (h node) = 0" "n_color (h node) = RB_RED"
    and res: "k \<noteq> [] \<Longrightarrow> res < 0 \<longleftrightarrow> is_FL (hd k)"
  shows "focus (if kpar k = 0 then (set_parent node (kpar k) h, node)
      else (if res < (0::int) then set_left (kpar k) node (set_parent node (kpar k) h)
            else set_right (kpar k) node (set_parent node (kpar k) h), tp)) k (Nd Lf RB_RED node Lf)"
proof -
  let ?h = "set_parent node (kpar k) h"
  have "ctx_at ?h tp 0 k = ctx_at h tp 0 k" using node(2) by (intro ctx_at_frame) (auto simp: same_links_def rb_fields)
  then have f: "focus (?h, tp) k Lf" using foc by (simp add: focus_def)
  have nz: "k \<noteq> [] \<Longrightarrow> kpar k \<noteq> 0" using foc kpar_zero by (auto simp: focus_def)
  have "focus (case k of [] \<Rightarrow> (?h, node) | FL c a r # _ \<Rightarrow> (set_left a node ?h, tp) | FR l c a # _ \<Rightarrow> (set_right a node ?h, tp))
     k (Nd Lf RB_RED node Lf)"
    using focus_link [OF f node] new by (simp add: rb_fields)
  then show ?thesis using res nz by (cases k rule: kpar.cases) auto
qed

lemma rb_insert_raw_spec:
  assumes rep: "repr (h0, root) t" and inv: "rb_inv t" and node: "node \<noteq> 0" "node \<notin> set (addrs t)"
    and f: "f = (\<lambda>a. cmp node a < 0)"
  shows "\<exists>h' t'. rb_insert_raw cmp node (h0, root) = Some (h', (rb_stat_inc RB_FLAG_COLD root)\<lparr>r_node := rroot t'\<rparr>)
    \<and> focus (h', rroot t') [] t' \<and> rb_inv t' \<and> addrs t' = kpre (path f t []) @ node # kpost (path f t [])
    \<and> (\<forall>a. a \<noteq> node \<longrightarrow> a \<notin> set (addrs t) \<longrightarrow> h' a = h0 a) \<and> fresh_data node (r_clock root) h0 h'"
proof -
  define k where "k = path f t []"
  define h where "h = rb_init_node node h0"
  let ?N = "Nd Lf RB_RED node Lf"
  have tp: "r_node root = rroot t" "tree_at h0 0 t" "distinct (addrs t)" using rep by (simp_all add: repr_def focus_def)
  have hn: "h node = \<lparr>n_parent = 0, n_left = 0, n_right = 0, n_color = RB_RED, n_flags = 0, access_time = 0, access_count = 0\<rparr>"
    "\<And>a. a \<noteq> node \<Longrightarrow> h a = h0 a" using node(1) by (simp_all add: h_def rb_init_node_def)
  have th: "tree_at h 0 t" using tp(2) tree_at_frame [of t h h0 0] hn(2) node(2) by (metis same_links_refl)
  have ka: "set (kaddrs k) = set (addrs t)" using addrs_plug_set [of k Lf] plug_path [of f t "[]"] by (simp add: k_def)
  have foc: "focus (h, rroot t) k Lf" unfolding k_def focus_plug [of _ "path f t []"] plug_path using th tp by (simp add: focus_def)
  obtain res where d: "ins_descend cmp node h 0 0 (rroot t) = Some (kpar k, res)"
    and res: "k \<noteq> [] \<Longrightarrow> res < 0 \<longleftrightarrow> is_FL (hd k)"
    using ins_descend_path [of h "[]" t f cmp node 0] th f path_Nil [of f t "[]"] by (auto simp: k_def split: if_splits)
  define s2 where "s2 = (if kpar k = 0 then (set_parent node (kpar k) h, node)
      else (if res < (0::int) then set_left (kpar k) node (set_parent node (kpar k) h)
            else set_right (kpar k) node (set_parent node (kpar k) h), rroot t))"
  have f2: "focus s2 k ?N"
    unfolding s2_def using link_path [OF foc node(1)] node(2) ka hn(1) res by simp
  define h3 where "h3 = (fst s2)(node := (fst s2 node)\<lparr>access_time := r_clock root\<rparr>)"
  have f3: "focus (h3, snd s2) k ?N"
  proof -
    have l: "same_links (h3 a) (fst s2 a)" for a by (simp add: h3_def same_links_def)
    have "ctx_at h3 (snd s2) node k = ctx_at (fst s2) (snd s2) node k" "tree_at h3 (kpar k) ?N = tree_at (fst s2) (kpar k) ?N"
      by (intro ctx_at_frame tree_at_frame l)+
    then show ?thesis using f2 by (simp add: focus_def)
  qed
  have kb: "kblack k" using inv plug_path [of f t "[]"] kblack_rb_inv [of k Lf] by (simp add: k_def rb_inv_def)
  obtain s4 where s4: "ins_loop node (h3, snd s2) = Some s4" "focus s4 [] (ins_up k ?N)"
    "touches (set (addrs (plug k ?N))) h3 (fst s4)" using ins_loop_spec [OF f3 _ kb] by auto
  define T where "T = ins_up k ?N"
  have aT: "addrs T = kpre k @ node # kpost k" using addrs_ins_up [of ?N k] by (simp add: T_def addrs_plug)
  then have Tne: "T \<noteq> Lf" by (cases T) auto
  have sT: "set (addrs T) = insert node (set (addrs t))"
    using addrs_ins_up [of ?N k] addrs_plug_set [of k ?N] ka by (simp add: T_def)
  have tpT: "snd s4 = rroot T" using s4(2) by (simp add: focus_def T_def)
  let ?h' = "set_color (snd s4) RB_BLACK (fst s4)"
  have "focus (fst s4, snd s4) [] T" using s4(2) by (simp add: T_def)
  from focus_recolor(1) [OF this, of "rroot T" RB_BLACK]
  have "focus (?h', rroot T) [] (recolor (rroot T) RB_BLACK T)"
    using Tne rroot_in [of T] tpT by (cases T) auto
  moreover have "distinct (addrs T)" using \<open>focus (fst s4, snd s4) [] T\<close> by (simp add: focus_def)
  ultimately have rep': "focus (?h', rroot (paint RB_BLACK T)) [] (paint RB_BLACK T)"
    by (simp only: recolor_root rroot_paint)
  obtain n where n: "bheight Lf = Some n" "kfits k n"
    using plug_validD [of k Lf] inv plug_path [of f t "[]"] by (auto simp: k_def rb_inv_def)
  then have inv': "rb_inv (paint RB_BLACK T)" unfolding T_def by (intro ins_up_rb_inv [of k n] kb) auto
  have code: "rb_insert_raw cmp node (h0, root) = Some (?h', (rb_stat_inc RB_FLAG_COLD root)\<lparr>r_node := rroot (paint RB_BLACK T)\<rparr>)"
    using node(1) d s4(1) [unfolded h3_def s2_def] tpT
    by (cases "kpar k = 0"; cases "res < 0") (simp_all add: rb_insert_raw_def Let_def tp(1) split_beta flip: h_def)
  have t4: "touches (insert node (set (addrs t))) h3 ?h'"
  proof (rule touches_setI)
    show "touches (insert node (set (addrs t))) h3 (fst s4)" using s4(3) addrs_plug_set [of k ?N] ka by simp
    show "snd s4 \<in> insert node (set (addrs t))" using tpT Tne sT by (cases T) auto
  qed
  have kp: "kpar k \<noteq> 0 \<Longrightarrow> kpar k \<in> set (addrs t)" using kpar_in ka by blast
  have frame: "?h' a = h0 a" if "a \<noteq> node" "a \<notin> set (addrs t)" for a
  proof -
    have "?h' a = h3 a" using t4 that by (simp add: touches_def)
    also have "\<dots> = h a" using that kp by (auto simp: h3_def s2_def set_parent_def set_left_def set_right_def)
    finally show ?thesis using hn(2) that by simp
  qed
  have "fresh_data node (r_clock root) h0 ?h'"
  proof -
    have "n_flags (?h' a) = n_flags (h3 a) \<and> access_time (?h' a) = access_time (h3 a) \<and> access_count (?h' a) = access_count (h3 a)" for a
      using t4 by (simp add: touches_def)
    moreover have "n_flags (fst s2 a) = n_flags (h a) \<and> access_time (fst s2 a) = access_time (h a) \<and> access_count (fst s2 a) = access_count (h a)" for a
      by (simp add: s2_def set_parent_def set_left_def set_right_def)
    ultimately show ?thesis using hn by (simp add: fresh_data_def h3_def)
  qed
  then show ?thesis using code rep' inv' frame aT by (intro exI [of _ ?h'] exI [of _ "paint RB_BLACK T"]) (simp add: k_def)
qed

end
