(* ===== verification/RB_Erase.thy ===== *)
theory RB_Erase
  imports RB_Order
begin

text \<open>
  Removal: the repair loop of \<open>rb_erase_fixup\<close> climbs with a subtree that is one black node
  short, and ends with a red-black tree of the same nodes in the same order; the
  unlinking of \<open>rb_erase_raw\<close> removes exactly the given node.
\<close>

section \<open>One pass with a black sibling\<close>

lemma erase_black_left_recolor:
  assumes f: "focus (h, root) k (Nd t c p (Nd SL RB_BLACK s SR))" and blk: "\<not> red_root SL" "\<not> red_root SR"
  shows "erase_black_left node p s (h, root) = (True, p, kpar k, (set_color s RB_RED h, root))"
    and "focus (set_color s RB_RED h, root) k (Nd t c p (Nd SL RB_RED s SR))"
    and "touches (set (addrs (Nd t c p (Nd SL RB_BLACK s SR))) \<union> set (kaddrs k)) h (set_color s RB_RED h)"
proof -
  note ff = f [unfolded focus_def, simplified]
  have n: "n_left (h s) = rroot SL" "n_right (h s) = rroot SR" "n_parent (h p) = kpar k"
    "is_black h (rroot SL)" "is_black h (rroot SR)" using ff blk is_black_root by auto
  show "erase_black_left node p s (h, root) = (True, p, kpar k, (set_color s RB_RED h, root))"
    by (simp add: erase_black_left_def n Let_def rb_fields)
  have d: "s \<noteq> p" "s \<notin> set (addrs t)" "s \<notin> set (addrs SL)" "s \<notin> set (addrs SR)" using ff by auto
  note r = focus_recolor [OF f, of s RB_RED]
  show "focus (set_color s RB_RED h, root) k (Nd t c p (Nd SL RB_RED s SR))" using r(1) d by simp
  show "touches (set (addrs (Nd t c p (Nd SL RB_BLACK s SR))) \<union> set (kaddrs k)) h (set_color s RB_RED h)" using r(2) by simp
qed

lemma erase_black_left_outer:
  assumes f: "focus (h, root) k (Nd t c p (Nd SL RB_BLACK s SR))" and red: "red_root SR"
  shows "\<exists>s5. erase_black_left node p s (h, root) = (False, snd s5, p, s5)
    \<and> focus s5 k (Nd (Nd t RB_BLACK p SL) c s (paint RB_BLACK SR))
    \<and> touches (set (addrs (Nd t c p (Nd SL RB_BLACK s SR))) \<union> set (kaddrs k)) h (fst s5)"
proof -
  note ff = f [unfolded focus_def, simplified]
  let ?S = "set (addrs (Nd t c p (Nd SL RB_BLACK s SR))) \<union> set (kaddrs k)"
  have u: "rroot SR \<in> set (addrs SR)" "rroot SR \<noteq> 0" using red ff by (cases SR; auto)+
  have n: "n_right (h s) = rroot SR" "n_color (h p) = c" "\<not> is_black h (rroot SR)"
    using ff red is_black_root by auto
  have d: "s \<noteq> p" "s \<notin> set (addrs t)" "s \<notin> set (addrs SL)" "s \<notin> set (addrs SR)" "p \<notin> set (addrs t)" "p \<notin> set (addrs SL)"
    "p \<notin> set (addrs SR)" "rroot SR \<noteq> s" "rroot SR \<noteq> p" "rroot SR \<notin> set (addrs t)" "rroot SR \<notin> set (addrs SL)" "distinct (addrs SR)"
    using ff u by auto
  define h3 where "h3 = set_color p RB_BLACK (set_color s c h)"
  define h4 where "h4 = set_color (rroot SR) RB_BLACK h3"
  define s5 where "s5 = rb_rotate_left p (h4, root)"
  have code: "erase_black_left node p s (h, root) = (False, snd s5, p, s5)"
    using u(2) by (simp add: erase_black_left_def n Let_def s5_def h4_def h3_def rb_fields)
  note r1 = focus_recolor [OF f, of s c]
  note r2 = focus_recolor [OF r1(1), of p RB_BLACK]
  note r3 = focus_recolor [OF r2(1), of "rroot SR" RB_BLACK]
  have f4: "focus (h4, root) k (Nd t RB_BLACK p (Nd SL c s (paint RB_BLACK SR)))"
    using r3(1) d u(1) unfolding h4_def h3_def by simp
  note rot = rotate_left_focus [OF f4, folded s5_def]
  have "touches ?S h h4" unfolding h4_def h3_def using u(1) by (intro touches_setI touches_refl) auto
  moreover have "touches ?S h4 (fst s5)" using rot(2) by (rule touches_mono) auto
  ultimately show ?thesis using code rot(1) touches_trans by blast
qed

lemma erase_black_left_inner:
  assumes f: "focus (h, root) k (Nd t c p (Nd (Nd a RB_RED x b) RB_BLACK s SR))" and blk: "\<not> red_root SR"
  shows "\<exists>s5. erase_black_left node p s (h, root) = (False, snd s5, p, s5)
    \<and> focus s5 k (Nd (Nd t RB_BLACK p a) c x (Nd b RB_BLACK s SR))
    \<and> touches (set (addrs (Nd t c p (Nd (Nd a RB_RED x b) RB_BLACK s SR))) \<union> set (kaddrs k)) h (fst s5)"
proof -
  note ff = f [unfolded focus_def, simplified]
  let ?S = "set (addrs (Nd t c p (Nd (Nd a RB_RED x b) RB_BLACK s SR))) \<union> set (kaddrs k)"
  have n: "n_right (h s) = rroot SR" "n_left (h s) = x" "x \<noteq> 0" "n_color (h p) = c" "is_black h (rroot SR)" "\<not> is_black h x" "s \<noteq> 0"
    using ff blk is_black_root by (auto simp: is_black_def)
  have d: "s \<noteq> p" "x \<noteq> p" "x \<noteq> s" "s \<notin> set (addrs t)" "s \<notin> set (addrs a)" "s \<notin> set (addrs b)" "s \<notin> set (addrs SR)"
    "p \<notin> set (addrs t)" "p \<notin> set (addrs a)" "p \<notin> set (addrs b)" "p \<notin> set (addrs SR)"
    "x \<notin> set (addrs t)" "x \<notin> set (addrs a)" "x \<notin> set (addrs b)" "x \<notin> set (addrs SR)"
    using ff by auto
  define h2 where "h2 = set_color s RB_RED (set_color x RB_BLACK h)"
  note r1 = focus_recolor [OF f, of x RB_BLACK]
  note r2 = focus_recolor [OF r1(1), of s RB_RED]
  have f2: "focus (h2, root) (FR t c p # k) (Nd (Nd a RB_BLACK x b) RB_RED s SR)"
    using r2(1) d unfolding h2_def focus_FR by simp
  obtain h1 root1 where s1: "rb_rotate_right s (h2, root) = (h1, root1)" by (cases "rb_rotate_right s (h2, root)")
  note rot1 = rotate_right_focus [OF f2, unfolded s1 fst_conv focus_FR]
  have n1: "n_right (h1 p) = x" "n_right (h1 x) = s" "n_color (h1 p) = c" using rot1(1) by (simp_all add: focus_def)
  define h4 where "h4 = set_color s RB_BLACK (set_color p RB_BLACK (set_color x c h1))"
  define s5 where "s5 = rb_rotate_left p (h4, root1)"
  have code: "erase_black_left node p s (h, root) = (False, snd s5, p, s5)"
    using n(3,7) by (simp add: erase_black_left_def n Let_def s1 n1 s5_def h4_def rb_fields flip: h2_def)
  note q1 = focus_recolor [OF rot1(1), of x c]
  note q2 = focus_recolor [OF q1(1), of p RB_BLACK]
  note q3 = focus_recolor [OF q2(1), of s RB_BLACK]
  have f4: "focus (h4, root1) k (Nd t RB_BLACK p (Nd a c x (Nd b RB_BLACK s SR)))"
    using q3(1) d unfolding h4_def by simp
  note rot = rotate_left_focus [OF f4, folded s5_def]
  have "touches ?S h h2" unfolding h2_def by (intro touches_setI touches_refl) auto
  moreover have "touches ?S h2 h1" using rot1(2) by (rule touches_mono) auto
  ultimately have "touches ?S h h1" by (rule touches_trans)
  then have "touches ?S h h4" unfolding h4_def by (intro touches_setI) auto
  moreover have "touches ?S h4 (fst s5)" using rot(2) by (rule touches_mono) auto
  ultimately show ?thesis using code rot(1) touches_trans by blast
qed

text \<open>A red sibling is first rotated above the parent.\<close>

lemma erase_step_left_red:
  assumes f: "focus (h, root) k (Nd t c p (Nd S1 RB_RED s S2))" and S1: "S1 \<noteq> Lf"
  shows "\<exists>s1. erase_step_left node p (h, root) = erase_black_left node p (rroot S1) s1
    \<and> focus s1 (FL RB_BLACK s S2 # k) (Nd t RB_RED p S1)
    \<and> touches (set (addrs (Nd t c p (Nd S1 RB_RED s S2))) \<union> set (kaddrs k)) h (fst s1)"
proof -
  note ff = f [unfolded focus_def, simplified]
  let ?S = "set (addrs (Nd t c p (Nd S1 RB_RED s S2))) \<union> set (kaddrs k)"
  have n: "n_right (h p) = s" "s \<noteq> 0" "n_color (h s) = RB_RED" using ff by auto
  have d: "s \<noteq> p" "s \<notin> set (addrs t)" "s \<notin> set (addrs S1)" "s \<notin> set (addrs S2)" "p \<notin> set (addrs t)" "p \<notin> set (addrs S1)"
    "p \<notin> set (addrs S2)" using ff by auto
  define h2 where "h2 = set_color p RB_RED (set_color s RB_BLACK h)"
  define s1 where "s1 = rb_rotate_left p (h2, root)"
  note r1 = focus_recolor [OF f, of s RB_BLACK]
  note r2 = focus_recolor [OF r1(1), of p RB_RED]
  have f2: "focus (h2, root) k (Nd t RB_RED p (Nd S1 RB_BLACK s S2))" using r2(1) d unfolding h2_def by simp
  note rot = rotate_left_focus [OF f2, folded s1_def]
  have n1: "n_right (fst s1 p) = rroot S1" "rroot S1 \<noteq> 0" using rot(1) S1 by (simp_all add: focus_def) (cases S1; auto)
  have "erase_step_left node p (h, root) = erase_black_left node p (rroot S1) s1"
    using n(2) n1(2) by (simp add: erase_step_left_def n Let_def n1(1) flip: h2_def s1_def)
  moreover have "touches ?S h h2" unfolding h2_def by (intro touches_setI touches_refl) auto
  moreover have "touches ?S h2 (fst s1)" using rot(2) by (rule touches_mono) auto
  ultimately show ?thesis using rot(1) touches_trans unfolding focus_FL by blast
qed

lemma erase_step_left_black:
  assumes f: "focus (h, root) k (Nd t c p (Nd SL RB_BLACK s SR))"
  shows "erase_step_left node p (h, root) = erase_black_left node p s (h, root)"
proof -
  have "n_right (h p) = s" "s \<noteq> 0" "n_color (h s) = RB_BLACK" using f by (simp_all add: focus_def)
  then show ?thesis by (simp add: erase_step_left_def)
qed

lemma erase_step_is_left:
  assumes f: "focus (h, root) k (Nd t c p S)" and "S \<noteq> Lf"
  shows "erase_step (rroot t) p (h, root) = erase_step_left (rroot t) p (h, root)"
proof -
  have "n_left (h p) = rroot t" using f by (simp add: focus_def)
  then show ?thesis by (simp add: erase_step_def)
qed

lemma erase_black_right_recolor:
  assumes f: "focus (h, root) k (Nd (Nd SR RB_BLACK s SL) c p t)" and blk: "\<not> red_root SL" "\<not> red_root SR"
  shows "erase_black_right node p s (h, root) = (True, p, kpar k, (set_color s RB_RED h, root))"
    and "focus (set_color s RB_RED h, root) k (Nd (Nd SR RB_RED s SL) c p t)"
    and "touches (set (addrs (Nd (Nd SR RB_BLACK s SL) c p t)) \<union> set (kaddrs k)) h (set_color s RB_RED h)"
proof -
  note ff = f [unfolded focus_def, simplified]
  have n: "n_right (h s) = rroot SL" "n_left (h s) = rroot SR" "n_parent (h p) = kpar k"
    "is_black h (rroot SL)" "is_black h (rroot SR)" using ff blk is_black_root by auto
  show "erase_black_right node p s (h, root) = (True, p, kpar k, (set_color s RB_RED h, root))"
    by (simp add: erase_black_right_def n Let_def rb_fields)
  have d: "s \<noteq> p" "s \<notin> set (addrs t)" "s \<notin> set (addrs SL)" "s \<notin> set (addrs SR)" using ff by auto
  note r = focus_recolor [OF f, of s RB_RED]
  show "focus (set_color s RB_RED h, root) k (Nd (Nd SR RB_RED s SL) c p t)" using r(1) d by simp
  show "touches (set (addrs (Nd (Nd SR RB_BLACK s SL) c p t)) \<union> set (kaddrs k)) h (set_color s RB_RED h)" using r(2) by simp
qed

lemma erase_black_right_outer:
  assumes f: "focus (h, root) k (Nd (Nd SR RB_BLACK s SL) c p t)" and red: "red_root SR"
  shows "\<exists>s5. erase_black_right node p s (h, root) = (False, snd s5, p, s5)
    \<and> focus s5 k (Nd (paint RB_BLACK SR) c s (Nd SL RB_BLACK p t))
    \<and> touches (set (addrs (Nd (Nd SR RB_BLACK s SL) c p t)) \<union> set (kaddrs k)) h (fst s5)"
proof -
  note ff = f [unfolded focus_def, simplified]
  let ?S = "set (addrs (Nd (Nd SR RB_BLACK s SL) c p t)) \<union> set (kaddrs k)"
  have u: "rroot SR \<in> set (addrs SR)" "rroot SR \<noteq> 0" using red ff by (cases SR; auto)+
  have n: "n_left (h s) = rroot SR" "n_color (h p) = c" "\<not> is_black h (rroot SR)"
    using ff red is_black_root by auto
  have d: "s \<noteq> p" "s \<notin> set (addrs t)" "s \<notin> set (addrs SL)" "s \<notin> set (addrs SR)" "p \<notin> set (addrs t)" "p \<notin> set (addrs SL)"
    "p \<notin> set (addrs SR)" "rroot SR \<noteq> s" "rroot SR \<noteq> p" "rroot SR \<notin> set (addrs t)" "rroot SR \<notin> set (addrs SL)" "distinct (addrs SR)"
    using ff u by auto
  define h3 where "h3 = set_color p RB_BLACK (set_color s c h)"
  define h4 where "h4 = set_color (rroot SR) RB_BLACK h3"
  define s5 where "s5 = rb_rotate_right p (h4, root)"
  have code: "erase_black_right node p s (h, root) = (False, snd s5, p, s5)"
    using u(2) by (simp add: erase_black_right_def n Let_def s5_def h4_def h3_def rb_fields)
  note r1 = focus_recolor [OF f, of s c]
  note r2 = focus_recolor [OF r1(1), of p RB_BLACK]
  note r3 = focus_recolor [OF r2(1), of "rroot SR" RB_BLACK]
  have f4: "focus (h4, root) k (Nd (Nd (paint RB_BLACK SR) c s SL) RB_BLACK p t)"
    using r3(1) d u(1) unfolding h4_def h3_def by simp
  note rot = rotate_right_focus [OF f4, folded s5_def]
  have "touches ?S h h4" unfolding h4_def h3_def using u(1) by (intro touches_setI touches_refl) auto
  moreover have "touches ?S h4 (fst s5)" using rot(2) by (rule touches_mono) auto
  ultimately show ?thesis using code rot(1) touches_trans by blast
qed

lemma erase_black_right_inner:
  assumes f: "focus (h, root) k (Nd (Nd SR RB_BLACK s (Nd b RB_RED x a)) c p t)" and blk: "\<not> red_root SR"
  shows "\<exists>s5. erase_black_right node p s (h, root) = (False, snd s5, p, s5)
    \<and> focus s5 k (Nd (Nd SR RB_BLACK s b) c x (Nd a RB_BLACK p t))
    \<and> touches (set (addrs (Nd (Nd SR RB_BLACK s (Nd b RB_RED x a)) c p t)) \<union> set (kaddrs k)) h (fst s5)"
proof -
  note ff = f [unfolded focus_def, simplified]
  let ?S = "set (addrs (Nd (Nd SR RB_BLACK s (Nd b RB_RED x a)) c p t)) \<union> set (kaddrs k)"
  have n: "n_left (h s) = rroot SR" "n_right (h s) = x" "x \<noteq> 0" "n_color (h p) = c" "is_black h (rroot SR)" "\<not> is_black h x" "s \<noteq> 0"
    using ff blk is_black_root by (auto simp: is_black_def)
  have d: "s \<noteq> p" "x \<noteq> p" "x \<noteq> s" "s \<notin> set (addrs t)" "s \<notin> set (addrs a)" "s \<notin> set (addrs b)" "s \<notin> set (addrs SR)"
    "p \<notin> set (addrs t)" "p \<notin> set (addrs a)" "p \<notin> set (addrs b)" "p \<notin> set (addrs SR)"
    "x \<notin> set (addrs t)" "x \<notin> set (addrs a)" "x \<notin> set (addrs b)" "x \<notin> set (addrs SR)"
    using ff by auto
  define h2 where "h2 = set_color s RB_RED (set_color x RB_BLACK h)"
  note r1 = focus_recolor [OF f, of x RB_BLACK]
  note r2 = focus_recolor [OF r1(1), of s RB_RED]
  have f2: "focus (h2, root) (FL c p t # k) (Nd SR RB_RED s (Nd b RB_BLACK x a))"
    using r2(1) d unfolding h2_def focus_FL by simp
  obtain h1 root1 where s1: "rb_rotate_left s (h2, root) = (h1, root1)" by (cases "rb_rotate_left s (h2, root)")
  note rot1 = rotate_left_focus [OF f2, unfolded s1 fst_conv focus_FL]
  have n1: "n_left (h1 p) = x" "n_left (h1 x) = s" "n_color (h1 p) = c" using rot1(1) by (simp_all add: focus_def)
  define h4 where "h4 = set_color s RB_BLACK (set_color p RB_BLACK (set_color x c h1))"
  define s5 where "s5 = rb_rotate_right p (h4, root1)"
  have code: "erase_black_right node p s (h, root) = (False, snd s5, p, s5)"
    using n(3,7) by (simp add: erase_black_right_def n Let_def s1 n1 s5_def h4_def rb_fields flip: h2_def)
  note q1 = focus_recolor [OF rot1(1), of x c]
  note q2 = focus_recolor [OF q1(1), of p RB_BLACK]
  note q3 = focus_recolor [OF q2(1), of s RB_BLACK]
  have f4: "focus (h4, root1) k (Nd (Nd (Nd SR RB_BLACK s b) c x a) RB_BLACK p t)"
    using q3(1) d unfolding h4_def by simp
  note rot = rotate_right_focus [OF f4, folded s5_def]
  have "touches ?S h h2" unfolding h2_def by (intro touches_setI touches_refl) auto
  moreover have "touches ?S h2 h1" using rot1(2) by (rule touches_mono) auto
  ultimately have "touches ?S h h1" by (rule touches_trans)
  then have "touches ?S h h4" unfolding h4_def by (intro touches_setI) auto
  moreover have "touches ?S h4 (fst s5)" using rot(2) by (rule touches_mono) auto
  ultimately show ?thesis using code rot(1) touches_trans by blast
qed

lemma erase_step_right_red:
  assumes f: "focus (h, root) k (Nd (Nd S2 RB_RED s S1) c p t)" and S1: "S1 \<noteq> Lf"
  shows "\<exists>s1. erase_step_right node p (h, root) = erase_black_right node p (rroot S1) s1
    \<and> focus s1 (FR S2 RB_BLACK s # k) (Nd S1 RB_RED p t)
    \<and> touches (set (addrs (Nd (Nd S2 RB_RED s S1) c p t)) \<union> set (kaddrs k)) h (fst s1)"
proof -
  note ff = f [unfolded focus_def, simplified]
  let ?S = "set (addrs (Nd (Nd S2 RB_RED s S1) c p t)) \<union> set (kaddrs k)"
  have n: "n_left (h p) = s" "s \<noteq> 0" "n_color (h s) = RB_RED" using ff by auto
  have d: "s \<noteq> p" "s \<notin> set (addrs t)" "s \<notin> set (addrs S1)" "s \<notin> set (addrs S2)" "p \<notin> set (addrs t)" "p \<notin> set (addrs S1)"
    "p \<notin> set (addrs S2)" using ff by auto
  define h2 where "h2 = set_color p RB_RED (set_color s RB_BLACK h)"
  define s1 where "s1 = rb_rotate_right p (h2, root)"
  note r1 = focus_recolor [OF f, of s RB_BLACK]
  note r2 = focus_recolor [OF r1(1), of p RB_RED]
  have f2: "focus (h2, root) k (Nd (Nd S2 RB_BLACK s S1) RB_RED p t)" using r2(1) d unfolding h2_def by simp
  note rot = rotate_right_focus [OF f2, folded s1_def]
  have n1: "n_left (fst s1 p) = rroot S1" "rroot S1 \<noteq> 0" using rot(1) S1 by (simp_all add: focus_def) (cases S1; auto)
  have "erase_step_right node p (h, root) = erase_black_right node p (rroot S1) s1"
    using n(2) n1(2) by (simp add: erase_step_right_def n Let_def n1(1) flip: h2_def s1_def)
  moreover have "touches ?S h h2" unfolding h2_def by (intro touches_setI touches_refl) auto
  moreover have "touches ?S h2 (fst s1)" using rot(2) by (rule touches_mono) auto
  ultimately show ?thesis using rot(1) touches_trans unfolding focus_FR by blast
qed

lemma erase_step_right_black:
  assumes f: "focus (h, root) k (Nd (Nd SR RB_BLACK s SL) c p t)"
  shows "erase_step_right node p (h, root) = erase_black_right node p s (h, root)"
proof -
  have "n_left (h p) = s" "s \<noteq> 0" "n_color (h s) = RB_BLACK" using f by (simp_all add: focus_def)
  then show ?thesis by (simp add: erase_step_right_def)
qed

lemma erase_step_is_right:
  assumes f: "focus (h, root) k (Nd S c p t)" and "S \<noteq> Lf"
  shows "erase_step (rroot t) p (h, root) = erase_step_right (rroot t) p (h, root)"
proof -
  have "n_left (h p) = rroot S" "rroot t \<noteq> rroot S" using f assms(2) rroot_in [of t] by (cases S; auto simp: focus_def)+
  then show ?thesis by (simp add: erase_step_def)
qed

section \<open>The repair loop\<close>

lemma fixup_stop:
  assumes "node = snd s \<or> \<not> is_black (fst s) node"
  shows "rb_erase_fixup node par s = Some (if node \<noteq> 0 then set_color node RB_BLACK (fst s) else fst s, snd s)"
  using assms by (simp add: rb_erase_fixup_def erase_loop.simps [of node] split_beta)

lemma fixup_next:
  assumes "node \<noteq> snd s" and "is_black (fst s) node" and "erase_step node par s = (True, n', p', s')"
  shows "rb_erase_fixup node par s = rb_erase_fixup n' p' s'"
  using assms by (simp add: rb_erase_fixup_def erase_loop.simps [of node])

lemma fixup_done:
  assumes "node \<noteq> snd s" and "is_black (fst s) node" and "erase_step node par s = (False, n', p', s')"
  shows "rb_erase_fixup node par s = Some (if n' \<noteq> 0 then set_color n' RB_BLACK (fst s') else fst s', snd s')"
  using assms by (simp add: rb_erase_fixup_def erase_loop.simps [of node] split_beta)

text \<open>What the repair promises for a subtree \<open>t\<close> below the frames \<open>k\<close>.\<close>

definition repaired :: "rb_links \<Rightarrow> frame list \<Rightarrow> rtree \<Rightarrow> rb_links option \<Rightarrow> bool" where
  "repaired s k t r \<longleftrightarrow> (\<exists>s' T. r = Some s' \<and> focus s' [] T \<and> rb_inv T \<and> addrs T = addrs (plug k t)
     \<and> touches (set (addrs (plug k t))) (fst s) (fst s'))"

lemma repairedI:
  assumes "r = Some s'" and "focus s' [] T" and "rb_inv T" and "addrs T = addrs (plug k t)"
    and "touches (set (addrs (plug k t))) (fst s) (fst s')"
  shows "repaired s k t r"
  using assms by (auto simp: repaired_def)

lemma repaired_step:
  assumes "repaired s1 k1 t1 r" and "addrs (plug k1 t1) = addrs (plug k t)" and "touches (set (addrs (plug k t))) (fst s) (fst s1)"
  shows "repaired s k t r"
  using assms touches_trans unfolding repaired_def by metis

lemma kblack_root: "kblack k \<Longrightarrow> k \<noteq> [] \<Longrightarrow> \<not> red_root (plug k t)"
proof (induction k arbitrary: t)
  case (Cons f k)
  show ?case
  proof (cases "k = []")
    case True
    then show ?thesis using Cons.prems by (cases f) auto
  next
    case False
    then show ?thesis using Cons by (cases f) (auto simp: kblack_Cons)
  qed
qed simp

text \<open>The subtree has a red root, or is the whole tree: it is painted black.\<close>

lemma repaired_red:
  assumes f: "focus s k t" and bh: "bheight t = Some n" and nrr: "no_red_red (paint RB_BLACK t)"
    and k: "kfits k (Suc n)" "kblack k" and red: "red_root t \<or> k = []"
  shows "repaired s k t (rb_erase_fixup (rroot t) (kpar k) s)"
proof -
  obtain h root where s: "s = (h, root)" by (cases s)
  have stop: "rroot t = snd s \<or> \<not> is_black (fst s) (rroot t)"
    using red f is_black_root by (auto simp: focus_def)
  let ?h' = "if rroot t \<noteq> 0 then set_color (rroot t) RB_BLACK h else h"
  have code: "rb_erase_fixup (rroot t) (kpar k) s = Some (?h', root)" using fixup_stop [OF stop] s by simp
  have f': "focus (?h', root) k (paint RB_BLACK t)"
  proof (cases t)
    case (Nd l c a r)
    moreover have "distinct (addrs t)" using f by (simp add: focus_def)
    ultimately show ?thesis using focus_recolor(1) [of h root k t "rroot t" RB_BLACK] f s recolor_root [of t RB_BLACK]
      by (auto simp: focus_def)
  qed (use f s in simp)
  have inv: "rb_inv (plug k (paint RB_BLACK t))"
  proof (cases "k = []")
    case True
    have "bheight (paint RB_BLACK t) \<noteq> None" using bh by (cases t) (auto split: option.splits if_splits)
    then show ?thesis using True nrr by (simp add: rb_inv_def)
  next
    case False
    then have "bheight (paint RB_BLACK t) = Some (Suc n)" using red bh bheight_paint_red by blast
    then show ?thesis using plug_valid [OF k(1) _ nrr] kblack_root [OF k(2) False] by (simp add: rb_inv_def)
  qed
  have t: "touches (set (addrs (plug k t))) h ?h'" using rroot_in [of t] by (auto simp: addrs_plug_set)
  show ?thesis
  proof (rule repairedI [OF code _ inv])
    show "focus (?h', root) [] (plug k (paint RB_BLACK t))" using f' focus_plug by blast
    show "addrs (plug k (paint RB_BLACK t)) = addrs (plug k t)" by (rule addrs_plug_cong) simp
    show "touches (set (addrs (plug k t))) (fst s) (fst (?h', root))" using t s by simp
  qed
qed

text \<open>The last pass ends with a rotation and paints the root black.\<close>

lemma repaired_done:
  assumes f: "focus s5 k u" and u: "bheight u = Some n" "no_red_red u" "kfits k n" "kblack k"
    and red: "red_root u \<longrightarrow> k \<noteq> [] \<longrightarrow> fcolor (hd k) = RB_BLACK" and ne: "u \<noteq> Lf"
    and a: "addrs (plug k u) = addrs (plug k' t)" and t: "touches (set (addrs (plug k' t))) (fst s) (fst s5)"
    and r: "r = Some (if snd s5 \<noteq> 0 then set_color (snd s5) RB_BLACK (fst s5) else fst s5, snd s5)"
  shows "repaired s k' t r"
proof -
  let ?T = "plug k u"
  have fT: "focus s5 [] ?T" using f focus_plug by blast
  have Tne: "?T \<noteq> Lf"
  proof
    assume "?T = Lf"
    then have "set (addrs ?T) = {}" by simp
    then show False using ne addrs_plug_set [of k u] by (cases u) auto
  qed
  have root: "snd s5 = rroot ?T" "distinct (addrs ?T)" "rroot ?T \<noteq> 0" "rroot ?T \<in> set (addrs ?T)"
    using fT Tne rroot_zero rroot_in [of ?T] by (auto simp: focus_def)
  have "focus (set_color (rroot ?T) RB_BLACK (fst s5), snd s5) [] (recolor (rroot ?T) RB_BLACK ?T)"
    using focus_recolor(1) [of "fst s5" "snd s5" "[]" ?T "rroot ?T" RB_BLACK] fT root(4) by simp
  then have f': "focus (set_color (rroot ?T) RB_BLACK (fst s5), snd s5) [] (paint RB_BLACK ?T)"
    by (simp only: recolor_root [OF root(2)])
  have inv: "rb_inv (paint RB_BLACK ?T)" by (rule plug_rb_inv [OF u(3) u(1,2) red])
  have t': "touches (set (addrs (plug k' t))) (fst s) (set_color (rroot ?T) RB_BLACK (fst s5))"
    using t root(4) a by (intro touches_setI) simp_all
  have r': "r = Some (set_color (rroot ?T) RB_BLACK (fst s5), snd s5)" using r root(1,3) by simp
  show ?thesis by (rule repairedI [OF r' f' inv]) (use a t' in simp_all)
qed

lemma erase_black_left_repaired:
  assumes f: "focus s1 k (Nd t c p S)" and S: "S = Nd SL RB_BLACK x SR" "bheight S = Some (Suc n)" "no_red_red S"
    and t: "bheight t = Some n" "no_red_red t" "\<not> red_root t"
    and k: "kfits k (if c = RB_BLACK then Suc (Suc n) else Suc n)" "kblack k"
      "c = RB_RED \<longrightarrow> k \<noteq> [] \<longrightarrow> fcolor (hd k) = RB_BLACK"
    and step: "erase_step (rroot t) p s = erase_black_left (rroot t) p x s1"
    and node: "rroot t \<noteq> snd s" "is_black (fst s) (rroot t)"
    and a: "addrs (plug k (Nd t c p S)) = addrs (plug k' t')" and touch: "touches (set (addrs (plug k' t'))) (fst s) (fst s1)"
    and IH: "\<And>s u m. focus s k u \<Longrightarrow> bheight u = Some m \<Longrightarrow> no_red_red (paint RB_BLACK u) \<Longrightarrow> kfits k (Suc m) \<Longrightarrow>
       (c = RB_BLACK \<or> red_root u) \<Longrightarrow> repaired s k u (rb_erase_fixup (rroot u) (kpar k) s)"
  shows "repaired s k' t' (rb_erase_fixup (rroot t) p s)"
proof -
  obtain h root where s1: "s1 = (h, root)" by (cases s1)
  have f1: "focus (h, root) k (Nd t c p (Nd SL RB_BLACK x SR))" using f s1 S(1) by simp
  have tr: "touches (set (addrs (Nd t c p S)) \<union> set (kaddrs k)) h h' \<Longrightarrow> touches (set (addrs (plug k' t'))) (fst s) h'" for h'
    using touch s1 a addrs_plug_set [of k "Nd t c p S"] touches_trans [of _ "fst s" h h'] by simp
  have bh: "bheight SL = Some n" "bheight SR = Some n" "no_red_red SL" "no_red_red SR"
    using S by (auto split: option.splits if_splits)
  consider "\<not> red_root SL" "\<not> red_root SR" | "red_root SR" | "\<not> red_root SR" "red_root SL" by blast
  then show ?thesis
  proof cases
    case 1
    note r = erase_black_left_recolor(1) [OF f1 1, of "rroot t"] erase_black_left_recolor(2,3) [OF f1 1]
    let ?u = "Nd t c p (Nd SL RB_RED x SR)"
    have code: "rb_erase_fixup (rroot t) p s = rb_erase_fixup (rroot ?u) (kpar k) (set_color x RB_RED h, root)"
      using fixup_next [OF node, of p] step r(1) s1 by simp
    have "repaired (set_color x RB_RED h, root) k ?u (rb_erase_fixup (rroot ?u) (kpar k) (set_color x RB_RED h, root))"
      by (rule IH [OF r(2), of "if c = RB_BLACK then Suc n else n"]) (use t bh 1 k in \<open>cases c; simp\<close>)+
    then show ?thesis unfolding code
    proof (rule repaired_step)
      show "addrs (plug k ?u) = addrs (plug k' t')" using a S(1) addrs_plug_cong [of ?u "Nd t c p S" k] by simp
      show "touches (set (addrs (plug k' t'))) (fst s) (fst (set_color x RB_RED h, root))" using r(3) S(1) by (simp add: tr)
    qed
  next
    case 2
    obtain s5 where s5: "erase_black_left (rroot t) p x (h, root) = (False, snd s5, p, s5)"
      "focus s5 k (Nd (Nd t RB_BLACK p SL) c x (paint RB_BLACK SR))"
      "touches (set (addrs (Nd t c p S)) \<union> set (kaddrs k)) h (fst s5)"
      using erase_black_left_outer [OF f1 2] S(1) by blast
    note code = fixup_done [OF node, of p "snd s5" p s5]
    show ?thesis
      by (rule repaired_done [OF s5(2) _ _ k(1,2) _ _ _ _ code])
        (use t bh k 2 a S s5 step s1 addrs_plug_cong [of "Nd (Nd t RB_BLACK p SL) c x (paint RB_BLACK SR)" "Nd t c p S" k]
          in \<open>auto simp: bheight_paint_red no_red_red_paint tr\<close>)
  next
    case 3
    then obtain A y B where SL: "SL = Nd A RB_RED y B" by (cases SL) auto
    obtain s5 where s5: "erase_black_left (rroot t) p x (h, root) = (False, snd s5, p, s5)"
      "focus s5 k (Nd (Nd t RB_BLACK p A) c y (Nd B RB_BLACK x SR))"
      "touches (set (addrs (Nd t c p S)) \<union> set (kaddrs k)) h (fst s5)"
      using erase_black_left_inner [OF f1 [unfolded SL] 3(1)] S(1) SL by blast
    note code = fixup_done [OF node, of p "snd s5" p s5]
    have AB: "bheight A = Some n" "bheight B = Some n" "no_red_red A" "no_red_red B"
      using bh SL by (auto split: option.splits if_splits)
    show ?thesis
      by (rule repaired_done [OF s5(2) _ _ k(1,2) _ _ _ _ code])
        (use t bh k 3 AB a S SL s5 step s1 addrs_plug_cong [of "Nd (Nd t RB_BLACK p A) c y (Nd B RB_BLACK x SR)" "Nd t c p S" k]
          in \<open>auto simp: tr\<close>)
  qed
qed

lemma erase_black_right_repaired:
  assumes f: "focus s1 k (Nd S c p t)" and S: "S = Nd SR RB_BLACK x SL" "bheight S = Some (Suc n)" "no_red_red S"
    and t: "bheight t = Some n" "no_red_red t" "\<not> red_root t"
    and k: "kfits k (if c = RB_BLACK then Suc (Suc n) else Suc n)" "kblack k"
      "c = RB_RED \<longrightarrow> k \<noteq> [] \<longrightarrow> fcolor (hd k) = RB_BLACK"
    and step: "erase_step (rroot t) p s = erase_black_right (rroot t) p x s1"
    and node: "rroot t \<noteq> snd s" "is_black (fst s) (rroot t)"
    and a: "addrs (plug k (Nd S c p t)) = addrs (plug k' t')" and touch: "touches (set (addrs (plug k' t'))) (fst s) (fst s1)"
    and IH: "\<And>s u m. focus s k u \<Longrightarrow> bheight u = Some m \<Longrightarrow> no_red_red (paint RB_BLACK u) \<Longrightarrow> kfits k (Suc m) \<Longrightarrow>
       (c = RB_BLACK \<or> red_root u) \<Longrightarrow> repaired s k u (rb_erase_fixup (rroot u) (kpar k) s)"
  shows "repaired s k' t' (rb_erase_fixup (rroot t) p s)"
proof -
  obtain h root where s1: "s1 = (h, root)" by (cases s1)
  have f1: "focus (h, root) k (Nd (Nd SR RB_BLACK x SL) c p t)" using f s1 S(1) by simp
  have tr: "touches (set (addrs (Nd S c p t)) \<union> set (kaddrs k)) h h' \<Longrightarrow> touches (set (addrs (plug k' t'))) (fst s) h'" for h'
    using touch s1 a addrs_plug_set [of k "Nd S c p t"] touches_trans [of _ "fst s" h h'] by simp
  have bh: "bheight SL = Some n" "bheight SR = Some n" "no_red_red SL" "no_red_red SR"
    using S by (auto split: option.splits if_splits)
  consider "\<not> red_root SL" "\<not> red_root SR" | "red_root SR" | "\<not> red_root SR" "red_root SL" by blast
  then show ?thesis
  proof cases
    case 1
    note r = erase_black_right_recolor(1) [OF f1 1, of "rroot t"] erase_black_right_recolor(2,3) [OF f1 1]
    let ?u = "Nd (Nd SR RB_RED x SL) c p t"
    have code: "rb_erase_fixup (rroot t) p s = rb_erase_fixup (rroot ?u) (kpar k) (set_color x RB_RED h, root)"
      using fixup_next [OF node, of p] step r(1) s1 by simp
    have "repaired (set_color x RB_RED h, root) k ?u (rb_erase_fixup (rroot ?u) (kpar k) (set_color x RB_RED h, root))"
      by (rule IH [OF r(2), of "if c = RB_BLACK then Suc n else n"]) (use t bh 1 k in \<open>cases c; simp\<close>)+
    then show ?thesis unfolding code
    proof (rule repaired_step)
      show "addrs (plug k ?u) = addrs (plug k' t')" using a S(1) addrs_plug_cong [of ?u "Nd S c p t" k] by simp
      show "touches (set (addrs (plug k' t'))) (fst s) (fst (set_color x RB_RED h, root))" using r(3) S(1) by (simp add: tr)
    qed
  next
    case 2
    obtain s5 where s5: "erase_black_right (rroot t) p x (h, root) = (False, snd s5, p, s5)"
      "focus s5 k (Nd (paint RB_BLACK SR) c x (Nd SL RB_BLACK p t))"
      "touches (set (addrs (Nd S c p t)) \<union> set (kaddrs k)) h (fst s5)"
      using erase_black_right_outer [OF f1 2] S(1) by blast
    note code = fixup_done [OF node, of p "snd s5" p s5]
    show ?thesis
      by (rule repaired_done [OF s5(2) _ _ k(1,2) _ _ _ _ code])
        (use t bh k 2 a S s5 step s1 addrs_plug_cong [of "Nd (paint RB_BLACK SR) c x (Nd SL RB_BLACK p t)" "Nd S c p t" k]
          in \<open>auto simp: bheight_paint_red no_red_red_paint tr\<close>)
  next
    case 3
    then obtain A y B where SL: "SL = Nd B RB_RED y A" by (cases SL) auto
    obtain s5 where s5: "erase_black_right (rroot t) p x (h, root) = (False, snd s5, p, s5)"
      "focus s5 k (Nd (Nd SR RB_BLACK x B) c y (Nd A RB_BLACK p t))"
      "touches (set (addrs (Nd S c p t)) \<union> set (kaddrs k)) h (fst s5)"
      using erase_black_right_inner [OF f1 [unfolded SL] 3(1)] S(1) SL by blast
    note code = fixup_done [OF node, of p "snd s5" p s5]
    have AB: "bheight A = Some n" "bheight B = Some n" "no_red_red A" "no_red_red B"
      using bh SL by (auto split: option.splits if_splits)
    show ?thesis
      by (rule repaired_done [OF s5(2) _ _ k(1,2) _ _ _ _ code])
        (use t bh k 3 AB a S SL s5 step s1 addrs_plug_cong [of "Nd (Nd SR RB_BLACK x B) c y (Nd A RB_BLACK p t)" "Nd S c p t" k]
          in \<open>auto simp: tr\<close>)
  qed
qed

lemma paint_black_root: "\<not> red_root t \<Longrightarrow> paint RB_BLACK t = t"
proof (cases t)
  case (Nd l c a r)
  assume "\<not> red_root t"
  with Nd show ?thesis by (cases c) auto
qed simp

lemma black_root_cases:
  assumes "\<not> red_root t" and "t \<noteq> Lf"
  obtains l a r where "t = Nd l RB_BLACK a r"
proof (cases t)
  case (Nd l c a r)
  with assms that show ?thesis by (cases c) auto
qed (use assms in simp)

lemma erase_fixup_repaired:
  assumes "focus s k t" and "bheight t = Some n" and "no_red_red (paint RB_BLACK t)" and "kfits k (Suc n)" and "kblack k"
  shows "repaired s k t (rb_erase_fixup (rroot t) (kpar k) s)"
  using assms
proof (induction k arbitrary: s t n)
  case Nil
  then show ?case using repaired_red by blast
next
  case (Cons fr k)
  show ?case
  proof (cases "red_root t")
    case True
    then show ?thesis using repaired_red Cons.prems by blast
  next
    case False
    have tt: "no_red_red t" using Cons.prems(3) paint_black_root [OF False] by simp
    have kb: "kblack k" using Cons.prems(5) kblack_Cons by (cases "k = []") auto
    have tne: "t \<noteq> Lf \<or> rroot t = 0" by (cases t) auto
    have nroot: "rroot t \<noteq> snd s"
    proof -
      have "snd s \<in> set (kaddrs (fr # k))" "0 \<notin> set (kaddrs (fr # k))"
        using Cons.prems(1) ctx_root_in ctx_at_nonzero by (auto simp: focus_def)
      then show ?thesis using rroot_in [of t] Cons.prems(1) by (auto simp: focus_def)
    qed
    have nblk: "is_black (fst s) (rroot t)" using Cons.prems(1) False is_black_root by (auto simp: focus_def)
    obtain h root where s: "s = (h, root)" by (cases s)
    show ?thesis
    proof (cases fr)
      case (FL c p S)
      have S: "bheight S = Some (Suc n)" "no_red_red S" "S \<noteq> Lf" using Cons.prems(4) FL by auto
      have k: "kfits k (if c = RB_BLACK then Suc (Suc n) else Suc n)" "c = RB_RED \<longrightarrow> k \<noteq> [] \<longrightarrow> fcolor (hd k) = RB_BLACK"
        "c = RB_RED \<longrightarrow> \<not> red_root S" using Cons.prems(4) FL by auto
      have f: "focus (h, root) k (Nd t c p S)" using Cons.prems(1) FL s by (simp add: focus_FL)
      obtain S1 cs x S2 where Sx: "S = Nd S1 cs x S2" using S(3) by (cases S) auto
      note is_left = erase_step_is_left [OF f S(3)]
      show ?thesis
      proof (cases cs)
        case RB_BLACK
        have "repaired s (fr # k) t (rb_erase_fixup (rroot t) p s)"
        proof (rule erase_black_left_repaired [where ?s1.0 = s and k = k and c = c and S = S and n = n])
          show "erase_step (rroot t) p s = erase_black_left (rroot t) p x s"
            using is_left erase_step_left_black [of h root k t c p S1 x S2] f Sx RB_BLACK s by simp
        qed (use f s S Sx RB_BLACK Cons k kb tt False nroot nblk FL in auto)
        then show ?thesis using FL by simp
      next
        case RB_RED
        then have c: "c = RB_BLACK" using k(3) Sx by (cases c) auto
        have S1: "bheight S1 = Some (Suc n)" "no_red_red S1" "\<not> red_root S1" "S1 \<noteq> Lf"
          and S2: "bheight S2 = Some (Suc n)" "no_red_red S2" "\<not> red_root S2"
          using S Sx RB_RED by (auto split: option.splits if_splits)
        obtain s1 where s1: "erase_step_left (rroot t) p (h, root) = erase_black_left (rroot t) p (rroot S1) s1"
          "focus s1 (FL RB_BLACK x S2 # k) (Nd t RB_RED p S1)"
          "touches (set (addrs (Nd t c p S)) \<union> set (kaddrs k)) h (fst s1)"
          using erase_step_left_red [of h root k t c p S1 x S2] f Sx RB_RED S1(4) by blast
        obtain A y B where S1x: "S1 = Nd A RB_BLACK y B" using S1(3,4) by (rule black_root_cases)
        have kb': "kblack (FL RB_BLACK x S2 # k)" using kb kblack_Cons by (cases "k = []") auto
        have "repaired s (fr # k) t (rb_erase_fixup (rroot t) p s)"
        proof (rule erase_black_left_repaired [where ?s1.0 = s1 and k = "FL RB_BLACK x S2 # k" and c = RB_RED and S = S1 and n = n and x = y])
          show "erase_step (rroot t) p s = erase_black_left (rroot t) p y s1" using is_left s1(1) S1x s by simp
          show "addrs (plug (FL RB_BLACK x S2 # k) (Nd t RB_RED p S1)) = addrs (plug (fr # k) t)"
            using FL Sx by (simp add: addrs_plug)
          show "touches (set (addrs (plug (fr # k) t))) (fst s) (fst s1)" using s1(3) s FL by (simp add: addrs_plug_set)
          show "repaired s' (FL RB_BLACK x S2 # k) u (rb_erase_fixup (rroot u) (kpar (FL RB_BLACK x S2 # k)) s')"
            if "focus s' (FL RB_BLACK x S2 # k) u" "bheight u = Some m" "no_red_red (paint RB_BLACK u)"
              "kfits (FL RB_BLACK x S2 # k) (Suc m)" "RB_RED = RB_BLACK \<or> red_root u" for s' u m
            using repaired_red that kb' by blast
        qed (use s1(2) S1 S1x S2 k c Cons.prems(2) tt False nroot nblk kb' in auto)
        then show ?thesis using FL by simp
      qed
    next
      case (FR S c p)
      have S: "bheight S = Some (Suc n)" "no_red_red S" "S \<noteq> Lf" using Cons.prems(4) FR by auto
      have k: "kfits k (if c = RB_BLACK then Suc (Suc n) else Suc n)" "c = RB_RED \<longrightarrow> k \<noteq> [] \<longrightarrow> fcolor (hd k) = RB_BLACK"
        "c = RB_RED \<longrightarrow> \<not> red_root S" using Cons.prems(4) FR by auto
      have f: "focus (h, root) k (Nd S c p t)" using Cons.prems(1) FR s by (simp add: focus_FR)
      obtain S1 cs x S2 where Sx: "S = Nd S2 cs x S1" using S(3) by (cases S) auto
      note is_right = erase_step_is_right [OF f S(3)]
      show ?thesis
      proof (cases cs)
        case RB_BLACK
        have "repaired s (fr # k) t (rb_erase_fixup (rroot t) p s)"
        proof (rule erase_black_right_repaired [where ?s1.0 = s and k = k and c = c and S = S and n = n])
          show "erase_step (rroot t) p s = erase_black_right (rroot t) p x s"
            using is_right erase_step_right_black [of h root k S2 x S1 c p t] f Sx RB_BLACK s by simp
        qed (use f s S Sx RB_BLACK Cons k kb tt False nroot nblk FR in auto)
        then show ?thesis using FR by simp
      next
        case RB_RED
        then have c: "c = RB_BLACK" using k(3) Sx by (cases c) auto
        have S1: "bheight S1 = Some (Suc n)" "no_red_red S1" "\<not> red_root S1" "S1 \<noteq> Lf"
          and S2: "bheight S2 = Some (Suc n)" "no_red_red S2" "\<not> red_root S2"
          using S Sx RB_RED by (auto split: option.splits if_splits)
        obtain s1 where s1: "erase_step_right (rroot t) p (h, root) = erase_black_right (rroot t) p (rroot S1) s1"
          "focus s1 (FR S2 RB_BLACK x # k) (Nd S1 RB_RED p t)"
          "touches (set (addrs (Nd S c p t)) \<union> set (kaddrs k)) h (fst s1)"
          using erase_step_right_red [of h root k S2 x S1 c p t] f Sx RB_RED S1(4) by blast
        obtain B y A where S1x: "S1 = Nd B RB_BLACK y A" using S1(3,4) by (rule black_root_cases)
        have kb': "kblack (FR S2 RB_BLACK x # k)" using kb kblack_Cons by (cases "k = []") auto
        have "repaired s (fr # k) t (rb_erase_fixup (rroot t) p s)"
        proof (rule erase_black_right_repaired [where ?s1.0 = s1 and k = "FR S2 RB_BLACK x # k" and c = RB_RED and S = S1 and n = n and x = y])
          show "erase_step (rroot t) p s = erase_black_right (rroot t) p y s1" using is_right s1(1) S1x s by simp
          show "addrs (plug (FR S2 RB_BLACK x # k) (Nd S1 RB_RED p t)) = addrs (plug (fr # k) t)"
            using FR Sx by (simp add: addrs_plug)
          show "touches (set (addrs (plug (fr # k) t))) (fst s) (fst s1)" using s1(3) s FR by (simp add: addrs_plug_set)
          show "repaired s' (FR S2 RB_BLACK x # k) u (rb_erase_fixup (rroot u) (kpar (FR S2 RB_BLACK x # k)) s')"
            if "focus s' (FR S2 RB_BLACK x # k) u" "bheight u = Some m" "no_red_red (paint RB_BLACK u)"
              "kfits (FR S2 RB_BLACK x # k) (Suc m)" "RB_RED = RB_BLACK \<or> red_root u" for s' u m
            using repaired_red that kb' by blast
        qed (use s1(2) S1 S1x S2 k c Cons.prems(2) tt False nroot nblk kb' in auto)
        then show ?thesis using FR by simp
      qed
    qed
  qed
qed

end
