(* ===== verification/RB_Unlink.thy ===== *)
theory RB_Unlink
  imports RB_Erase
begin

text \<open>
  Unlinking a node: a node with at most one child is replaced by the child, a node with
  two children by its successor, and the repair loop restores the invariant.
\<close>

section \<open>Replacing a node by its only child\<close>

lemma focus_unlink:
  assumes f: "focus (h, tp) k (Nd l c node r)" and t: "l = Lf \<and> t = r \<or> r = Lf \<and> t = l"
  shows "focus (redirect (kpar k) node (rroot t) (if rroot t \<noteq> 0 then set_parent (rroot t) (kpar k) h else h, tp)) k t"
    and "touches (set (addrs (Nd l c node r)) \<union> set (kaddrs k)) h
           (fst (redirect (kpar k) node (rroot t) (if rroot t \<noteq> 0 then set_parent (rroot t) (kpar k) h else h, tp)))"
proof -
  note ff = f [unfolded focus_def, simplified]
  let ?h1 = "if rroot t \<noteq> 0 then set_parent (rroot t) (kpar k) h else h"
  have tr: "tree_at h node t" "distinct (addrs t)" "set (addrs t) \<inter> set (kaddrs k) = {}" "node \<notin> set (addrs t)"
    "node \<notin> set (kaddrs k)" "node \<noteq> 0" "distinct (kaddrs k)" using ff t by auto
  have in_t: "rroot t \<noteq> 0 \<Longrightarrow> rroot t \<in> set (addrs t)" using rroot_in [of t] by simp
  have "ctx_at ?h1 tp node k = ctx_at h tp node k"
    using in_t tr(3) by (intro ctx_at_frame) (auto simp: same_links_def rb_fields)
  then have c1: "ctx_at ?h1 tp node k" using ff by simp
  let ?s = "redirect (kpar k) node (rroot t) (?h1, tp)"
  have c2: "ctx_at (fst ?s) (snd ?s) (rroot t) k" by (rule redirect_ctx [OF c1 tr(6,5,7)])
  have "a \<noteq> kpar k" if "a \<in> set (addrs t)" for a
    using that tr(3) kpar_in [of k] tree_at_nonzero [OF tr(1)] by (cases "kpar k = 0") auto
  then have "tree_at (fst ?s) (kpar k) t = tree_at ?h1 (kpar k) t"
    by (intro tree_at_frame) (simp add: same_links_def redirect_fields)
  then have t2: "tree_at (fst ?s) (kpar k) t" using tree_at_reparent [OF tr(1,2)] by simp
  show "focus ?s k t" using c2 t2 tr by (simp add: focus_def)
  let ?S = "set (addrs (Nd l c node r)) \<union> set (kaddrs k)"
  have "touches ?S h ?h1" using in_t t by auto
  moreover have "touches ?S ?h1 (fst ?s)" using kpar_in [of k] by (intro redirect_touches) auto
  ultimately show "touches ?S h (fst ?s)" by (rule touches_trans)
qed

text \<open>After a node of colour \<open>c\<close> was taken out above \<open>t\<close>, the repair runs if \<open>c\<close> was black.\<close>

lemma repaired_after_unlink:
  assumes f: "focus s k t" and t: "bheight t = Some n" "no_red_red t" "c = RB_RED \<longrightarrow> \<not> red_root t \<and> k \<noteq> []"
    and k: "kfits k (if c = RB_BLACK then Suc n else n)" "kblack k"
  shows "repaired s k t (if c = RB_BLACK then rb_erase_fixup (rroot t) (kpar k) s else Some s)"
proof (cases c)
  case RB_BLACK
  then show ?thesis using erase_fixup_repaired [OF f t(1)] t k no_red_red_paint by simp
next
  case RB_RED
  then have "rb_inv (plug k t)"
    using plug_valid [of k n t] t k kblack_root [OF k(2)] by (simp add: rb_inv_def)
  then show ?thesis using RB_RED f focus_plug by (intro repairedI [of _ s]) auto
qed

text \<open>The links of the removed node itself are left alone.\<close>

lemma redirect_other: "a \<noteq> par \<Longrightarrow> fst (redirect par p q (h, root)) a = h a"
  by (simp add: redirect_def set_left_def set_right_def)

lemma erase_one_child_spec:
  assumes f: "focus (h, tp) k (Nd l c node r)" and t: "l = Lf \<and> t = r \<or> r = Lf \<and> t = l"
    and inv: "rb_inv (plug k (Nd l c node r))"
  shows "\<exists>s' T. erase_one_child node (rroot t) (h, tp) = Some s' \<and> focus s' [] T \<and> rb_inv T \<and> addrs T = kpre k @ addrs t @ kpost k
    \<and> touches (set (addrs (plug k (Nd l c node r)))) h (fst s') \<and> fst s' node = h node"
proof -
  define s2 where "s2 = redirect (kpar k) node (rroot t) (if rroot t \<noteq> 0 then set_parent (rroot t) (kpar k) h else h, tp)"
  note u = focus_unlink [OF f t, folded s2_def]
  have sub: "set (addrs (plug k t)) \<subseteq> set (addrs (plug k (Nd l c node r)))"
    "set (addrs (Nd l c node r)) \<union> set (kaddrs k) = set (addrs (plug k (Nd l c node r)))" using t by (auto simp: addrs_plug_set)
  have n: "n_parent (h node) = kpar k" "n_color (h node) = c" using f by (simp_all add: focus_def)
  obtain m where m: "bheight (Nd l c node r) = Some m" "no_red_red (Nd l c node r)" "kfits k m"
    "c = RB_RED \<longrightarrow> k \<noteq> [] \<longrightarrow> fcolor (hd k) = RB_BLACK"
    using plug_validD [of k "Nd l c node r"] inv by (auto simp: rb_inv_def)
  have kb: "kblack k" using inv kblack_rb_inv by (auto simp: rb_inv_def)
  have kne: "c = RB_RED \<longrightarrow> k \<noteq> []" using inv by (auto simp: rb_inv_def)
  obtain n' where "bheight t = Some n'" "m = (if c = RB_BLACK then Suc n' else n')" "no_red_red t" "c = RB_RED \<longrightarrow> \<not> red_root t"
    using m(1,2) t by (auto split: option.splits if_splits)
  then have "repaired s2 k t (if c = RB_BLACK then rb_erase_fixup (rroot t) (kpar k) s2 else Some s2)"
    using m(3) kb kne by (intro repaired_after_unlink [OF u(1)]) simp_all
  moreover have "erase_one_child node (rroot t) (h, tp) = (if c = RB_BLACK then rb_erase_fixup (rroot t) (kpar k) s2 else Some s2)"
    using n by (simp add: erase_one_child_def Let_def s2_def)
  ultimately obtain s' T where r: "erase_one_child node (rroot t) (h, tp) = Some s'" "focus s' [] T" "rb_inv T"
    "addrs T = addrs (plug k t)" "touches (set (addrs (plug k t))) (fst s2) (fst s')" unfolding repaired_def by auto
  have "touches (set (addrs (plug k (Nd l c node r)))) h (fst s')"
    using touches_trans [OF u(2) [unfolded sub(2)] touches_mono [OF r(5) sub(1)]] .
  moreover have "fst s' node = h node"
  proof -
    have nd: "node \<notin> set (addrs (plug k t))" "rroot t \<noteq> node" "kpar k \<noteq> node"
      using f t rroot_in [of t] kpar_in [of k] by (auto simp: focus_def addrs_plug_set)
    then have "fst s2 node = h node" unfolding s2_def by (simp add: redirect_other set_parent_def)
    then show ?thesis using r(5) nd(1) by (simp add: touches_def)
  qed
  ultimately show ?thesis using r by (intro exI [of _ s'] exI [of _ T]) (simp add: addrs_plug)
qed

section \<open>The successor\<close>

lemma plug_append: "plug (xs @ ys) t = plug ys (plug xs t)"
proof (induction xs arbitrary: t)
  case (Cons f xs)
  then show ?case by (cases f) auto
qed simp

lemma kaddrs_append [simp]: "kaddrs (xs @ ys) = kaddrs xs @ kaddrs ys"
proof (induction xs)
  case (Cons f xs)
  then show ?case by (cases f) auto
qed simp

lemma leftmost_spec:
  assumes "tree_at h par r" and "r \<noteq> Lf"
  shows "\<exists>kk cs succ ct. r = plug kk (Nd Lf cs succ ct) \<and> leftmost h (rroot r) = Some succ \<and> list_all is_FL kk"
  using assms
proof (induction r arbitrary: par)
  case (Nd l c a r)
  show ?case
  proof (cases "l = Lf")
    case True
    then have "leftmost h a = Some a" using Nd.prems by (subst leftmost.simps) simp
    then show ?thesis using True by (intro exI [of _ "[]"]) auto
  next
    case False
    then obtain kk cs succ ct where i: "l = plug kk (Nd Lf cs succ ct)" "leftmost h (rroot l) = Some succ" "list_all is_FL kk"
      using Nd.IH(1) [of a] Nd.prems by auto
    have "leftmost h a = leftmost h (rroot l)" using Nd.prems False rroot_zero by (subst leftmost.simps) auto
    then show ?thesis using i by (intro exI [of _ "kk @ [FL c a r]"] exI [of _ cs] exI [of _ succ] exI [of _ ct]) (simp add: plug_append)
  qed
qed simp

lemma focus_append: "focus s (xs @ ys) t \<longleftrightarrow> focus s ys (plug xs t)"
proof (induction xs arbitrary: t)
  case (Cons f xs)
  then show ?case by (cases f) (simp_all add: focus_FL focus_FR)
qed simp

section \<open>Replacing a node by its successor\<close>

lemma focus_take_place:
  assumes ctx: "ctx_at h tp node k" and l: "tree_at h node l" "l \<noteq> Lf" and r: "tree_at h succ r" "n_right (h succ) = rroot r"
    and n: "n_parent (h node) = kpar k" "n_left (h node) = rroot l" "n_color (h node) = c" "node \<noteq> 0" "succ \<noteq> 0"
    and d: "distinct (succ # node # addrs l @ addrs r @ kaddrs k)"
  shows "focus (take_place node succ (h, tp)) k (Nd l c succ r)"
    and "touches (insert succ (insert node (set (addrs l) \<union> set (addrs r) \<union> set (kaddrs k)))) h (fst (take_place node succ (h, tp)))"
proof -
  let ?S = "insert succ (insert node (set (addrs l) \<union> set (addrs r) \<union> set (kaddrs k)))"
  have u: "rroot l \<in> set (addrs l)" "rroot l \<noteq> 0" using l by (cases l; auto)+
  have dd: "succ \<noteq> node" "succ \<notin> set (addrs l)" "succ \<notin> set (addrs r)" "succ \<notin> set (kaddrs k)" "node \<notin> set (addrs l)"
    "node \<notin> set (addrs r)" "node \<notin> set (kaddrs k)" "set (addrs l) \<inter> set (addrs r) = {}" "set (addrs l) \<inter> set (kaddrs k) = {}"
    "set (addrs r) \<inter> set (kaddrs k) = {}" "distinct (kaddrs k)" "distinct (addrs l)" "distinct (addrs r)" using d by auto
  define h6 where "h6 = set_parent (rroot l) succ (set_left succ (rroot l) (set_color succ c h))"
  define s7 where "s7 = redirect (kpar k) node succ (h6, tp)"
  define h8 where "h8 = set_parent succ (kpar k) (fst s7)"
  have f6: "n_parent (h6 a) = (if a = rroot l then succ else n_parent (h a))" "n_left (h6 a) = (if a = succ then rroot l else n_left (h a))"
    "n_right (h6 a) = n_right (h a)" "n_color (h6 a) = (if a = succ then c else n_color (h a))" for a
    by (simp_all add: h6_def rb_fields)
  have code: "take_place node succ (h, tp) = (h8, snd s7)"
  proof -
    have "node \<noteq> rroot l" using u(1) dd(5) by auto
    then show ?thesis using n(1-3) dd(1)
      by (simp add: take_place_def Let_def split_beta rb_fields redirect_fields h8_def s7_def h6_def)
  qed
  have "ctx_at h6 tp node k = ctx_at h tp node k"
    using dd(4,9) u(1) by (intro ctx_at_frame) (auto simp: same_links_def f6)
  then have "ctx_at h6 tp node k" using ctx by simp
  from redirect_ctx [OF this n(4) dd(7,11)] have c7: "ctx_at (fst s7) (snd s7) succ k" by (simp add: s7_def)
  have "ctx_at h8 (snd s7) succ k = ctx_at (fst s7) (snd s7) succ k"
    using dd(4) by (intro ctx_at_frame) (auto simp: same_links_def h8_def rb_fields)
  with c7 have c8: "ctx_at h8 (snd s7) succ k" by simp
  have kp: "kpar k \<notin> set (addrs l)" "kpar k \<notin> set (addrs r)" "succ \<noteq> kpar k"
    using kpar_in [of k] dd(4,9,10) n(5) tree_at_nonzero [OF l(1)] tree_at_nonzero [OF r(1)] by (metis disjoint_iff)+
  have f8: "n_parent (h8 a) = (if a = succ then kpar k else n_parent (h6 a))" "n_color (h8 a) = n_color (h6 a)"
    "a \<noteq> kpar k \<Longrightarrow> n_left (h8 a) = n_left (h6 a)" "a \<noteq> kpar k \<Longrightarrow> n_right (h8 a) = n_right (h6 a)" for a
    by (simp_all add: h8_def s7_def rb_fields redirect_fields)
  have "tree_at h8 succ r = tree_at h succ r"
  proof (rule tree_at_frame)
    fix a assume "a \<in> set (addrs r)"
    then have "a \<noteq> succ" "a \<noteq> kpar k" "a \<noteq> rroot l" using dd(3,8) kp(2) u(1) by blast+
    then show "same_links (h8 a) (h a)" by (simp add: same_links_def f8 f6)
  qed
  moreover have "tree_at h8 succ l = tree_at (if rroot l \<noteq> 0 then set_parent (rroot l) succ h else h) succ l"
  proof (rule tree_at_frame)
    fix a assume "a \<in> set (addrs l)"
    then have "a \<noteq> succ" "a \<noteq> kpar k" using dd(2) kp(1) by blast+
    then show "same_links (h8 a) ((if rroot l \<noteq> 0 then set_parent (rroot l) succ h else h) a)"
      using u(2) by (simp add: same_links_def f8 f6 rb_fields)
  qed
  moreover have "tree_at (if rroot l \<noteq> 0 then set_parent (rroot l) succ h else h) succ l" by (rule tree_at_reparent [OF l(1) dd(12)])
  moreover have "succ \<noteq> rroot l" using u(1) dd(2) by auto
  ultimately have "tree_at h8 (kpar k) (Nd l c succ r)" using r n(5) kp(3) by (simp add: f8 f6)
  then show "focus (take_place node succ (h, tp)) k (Nd l c succ r)" unfolding code focus_def using c8 d by auto
  have "touches ?S h h6" unfolding h6_def using u(1) by (intro touches_setI touches_refl) auto
  moreover have "touches ?S h6 (fst s7)" unfolding s7_def using kpar_in [of k] by (intro redirect_touches) auto
  ultimately have "touches ?S h (fst s7)" by (rule touches_trans)
  then show "touches ?S h (fst (take_place node succ (h, tp)))" unfolding code h8_def by (auto intro: touches_setI)
qed

lemma take_place_node:
  assumes "succ \<noteq> node" "n_left (h node) \<noteq> node" "n_parent (h node) \<noteq> node"
  shows "fst (take_place node succ (h, tp)) node = h node"
proof -
  define h4 where "h4 = set_color succ (n_color (h node)) h"
  define h5 where "h5 = set_left succ (n_left (h4 node)) h4"
  define h6 where "h6 = set_parent (n_left (h5 node)) succ h5"
  have e: "h4 node = h node" "h5 node = h node" using assms(1) by (simp_all add: h4_def h5_def set_color_def set_left_def)
  then have e6: "h6 node = h node" using assms(2) by (simp add: h6_def set_parent_def)
  then have "fst (redirect (n_parent (h6 node)) node succ (h6, tp)) node = h node" using assms(3) by (simp add: redirect_other)
  moreover obtain h7 tp' where r: "redirect (n_parent (h6 node)) node succ (h6, tp) = (h7, tp')" by fastforce
  ultimately have "h7 node = h node" by simp
  moreover have "take_place node succ (h, tp) = (set_parent succ (n_parent (h7 node)) h7, tp')"
    unfolding take_place_def prod.case Let_def h4_def [symmetric] unfolding h5_def [symmetric] unfolding h6_def [symmetric] r by simp
  ultimately show ?thesis using assms(1) by (simp add: set_parent_def)
qed

lemma fcolor_hd_append: "fcolor (hd (xs @ FR l c a # k)) = fcolor (hd (xs @ FR l c b # k))"
  by (cases xs) simp_all

lemma kfits_addr: "kfits (xs @ FR l c a # k) m = kfits (xs @ FR l c b # k) m"
proof (induction xs arbitrary: m)
  case (Cons f xs)
  then show ?case using fcolor_hd_append [of xs l c a k b] by (cases f) simp_all
qed simp

lemma kblack_addr: "kblack (xs @ FR l c a # k) = kblack (xs @ FR l c b # k)"
proof (induction xs)
  case Nil
  then show ?case by (cases k) simp_all
next
  case (Cons f xs)
  then show ?case by (simp add: kblack_Cons)
qed

lemma kpar_append: "xs \<noteq> [] \<Longrightarrow> kpar (xs @ ys) = kpar xs"
  by (cases xs rule: kpar.cases) simp_all

lemma rroot_plug: "xs \<noteq> [] \<Longrightarrow> rroot (plug xs t) = rroot (plug xs t')"
proof (induction xs arbitrary: t t')
  case (Cons f xs)
  then show ?case by (cases f; cases "xs = []") auto
qed simp

lemma erase_two_children_spec:
  assumes f: "focus (h, tp) k (Nd l c node r)" and lr: "l \<noteq> Lf" "r \<noteq> Lf" and inv: "rb_inv (plug k (Nd l c node r))"
  shows "\<exists>s' T. erase_two_children node (h, tp) = Some s' \<and> focus s' [] T \<and> rb_inv T
    \<and> addrs T = kpre k @ addrs l @ addrs r @ kpost k \<and> touches (set (addrs (plug k (Nd l c node r)))) h (fst s')
    \<and> fst s' node = h node"
proof -
  note ff = f [unfolded focus_def, simplified]
  obtain kk cs succ ct where r: "r = plug kk (Nd Lf cs succ ct)" "leftmost h (rroot r) = Some succ" "list_all is_FL kk"
    using leftmost_spec [of h node r] ff lr by blast
  let ?K = "\<lambda>a. kk @ FR l c a # k"
  let ?S = "set (addrs (plug k (Nd l c node r)))"
  have fs: "focus (h, tp) (?K node) (Nd Lf cs succ ct)" using f r(1) by (simp add: focus_append focus_FR)
  note fss = fs [unfolded focus_def, simplified]
  have pl: "plug k (Nd l c node r) = plug (?K node) (Nd Lf cs succ ct)" using r(1) by (simp add: plug_append)
  have S: "?S = insert succ (insert node (set (addrs l) \<union> set (addrs ct) \<union> set (kaddrs kk) \<union> set (kaddrs k)))"
    using r(1) by (auto simp: addrs_plug_set)
  have first: "rb_first h (n_right (h node)) = Some succ"
    using ff r(2) lr(2) rroot_zero by (auto simp: rb_first_def)
  have n: "n_color (h succ) = cs" "n_right (h succ) = rroot ct" "n_parent (h succ) = kpar (?K node)" "succ \<noteq> 0" "node \<noteq> 0"
    using fss ff by auto
  have "\<exists>s8. focus s8 (?K succ) ct \<and> touches ?S h (fst s8) \<and> fst s8 node = h node \<and>
     erase_two_children node (h, tp) = (if cs = RB_BLACK then rb_erase_fixup (rroot ct) (kpar (?K succ)) s8 else Some s8)"
  proof (cases "kk = []")
    case True
    note tk = focus_take_place [of h tp node k l succ ct c]
    have pre: "ctx_at h tp node k" "tree_at h node l" "tree_at h succ ct" "n_parent (h node) = kpar k" "n_left (h node) = rroot l"
      "n_color (h node) = c" "distinct (succ # node # addrs l @ addrs ct @ kaddrs k)"
      using ff True r(1) by auto
    have "erase_two_children node (h, tp) =
        (if cs = RB_BLACK then rb_erase_fixup (rroot ct) succ (take_place node succ (h, tp)) else Some (take_place node succ (h, tp)))"
      using first n True by (simp add: erase_two_children_def Let_def)
    moreover have "focus (take_place node succ (h, tp)) (?K succ) ct" using tk(1) pre lr(1) n True by (simp add: focus_FR)
    moreover have "touches ?S h (fst (take_place node succ (h, tp)))" using tk(2) pre lr(1) n True unfolding S by (simp add: Un_assoc)
    moreover have "fst (take_place node succ (h, tp)) node = h node" using pre n(4,5) rroot_in [of l] kpar_in [of k] by (intro take_place_node) auto
    ultimately show ?thesis using True by (intro exI [of _ "take_place node succ (h, tp)"]) simp
  next
    case False
    let ?r' = "plug kk ct"
    have kp: "kpar (?K node) = kpar kk" "kpar (?K succ) = kpar kk" using kpar_append [OF False] by simp_all
    define hA where "hA = set_left (kpar kk) (rroot ct) (if rroot ct \<noteq> 0 then set_parent (rroot ct) (kpar kk) h else h)"
    obtain cc aa rr kk' where kk: "kk = FL cc aa rr # kk'" using False r(3) by (cases kk rule: kpar.cases) auto
    have pne: "kpar kk \<noteq> 0" "n_left (h (kpar kk)) = succ" "kpar kk \<noteq> node" using fss kk by auto
    have red: "redirect (kpar kk) succ (rroot ct) (if rroot ct \<noteq> 0 then set_parent (rroot ct) (kpar kk) h else h, tp) = (hA, tp)"
      using pne by (simp add: redirect_def hA_def rb_fields)
    note ul = focus_unlink [OF fs, of ct, unfolded kp red, simplified]
    have fA: "focus (hA, tp) k (Nd l c node ?r')" using ul(1) by (simp add: focus_append focus_FR)
    note ffA = fA [unfolded focus_def, simplified]
    have rr: "n_right (hA node) = rroot ?r'" using ffA by simp
    have r'ne: "?r' \<noteq> Lf" using False kk by (metis addrs.simps(1) addrs_plug_set empty_iff kaddrs.simps(2) list.set(1) list.set_intros(1) Un_iff)
    then have rr0: "rroot ?r' \<noteq> 0" "rroot ?r' \<in> set (addrs ?r')" using ffA rroot_zero rroot_in [of ?r'] by auto
    have sd: "succ \<notin> set (addrs l)" "succ \<notin> set (addrs ?r')" "succ \<notin> set (kaddrs k)" "succ \<noteq> node"
      using fss by (auto simp: addrs_plug_set)
    define h2 where "h2 = set_right succ (rroot ?r') hA"
    define h3 where "h3 = set_parent (rroot ?r') succ h2"
    have f3: "n_parent (h3 a) = (if a = rroot ?r' then succ else n_parent (hA a))" "n_left (h3 a) = n_left (hA a)"
      "n_right (h3 a) = (if a = succ then rroot ?r' else n_right (hA a))" "n_color (h3 a) = n_color (hA a)" for a
      by (simp_all add: h3_def h2_def rb_fields)
    have disj: "set (addrs ?r') \<inter> set (addrs l) = {}" "set (addrs ?r') \<inter> set (kaddrs k) = {}" "node \<notin> set (addrs ?r')" "distinct (addrs ?r')"
      using ffA by auto
    have "ctx_at h3 tp node k = ctx_at hA tp node k" "tree_at h3 node l = tree_at hA node l"
      using sd disj rr0(2) by (intro ctx_at_frame tree_at_frame; auto simp: same_links_def f3)+
    moreover have "tree_at h3 succ ?r'"
    proof -
      have "tree_at h3 succ ?r' = tree_at (if rroot ?r' \<noteq> 0 then set_parent (rroot ?r') succ hA else hA) succ ?r'"
        using sd(2) rr0(1) by (intro tree_at_frame) (auto simp: same_links_def f3 rb_fields)
      moreover have "tree_at hA node ?r'" using ffA by simp
      ultimately show ?thesis using tree_at_reparent [of hA node ?r' succ] disj(4) by simp
    qed
    moreover have "node \<noteq> rroot ?r'" using rr0(2) disj(3) by auto
    ultimately have tk: "focus (take_place node succ (h3, tp)) k (Nd l c succ ?r')"
      "touches (insert succ (insert node (set (addrs l) \<union> set (addrs ?r') \<union> set (kaddrs k)))) h3 (fst (take_place node succ (h3, tp)))"
      using focus_take_place [of h3 tp node k l succ ?r' c] ffA sd lr(1) n(4,5) by (auto simp: f3)
    have code: "erase_two_children node (h, tp) =
        (if cs = RB_BLACK then rb_erase_fixup (rroot ct) (kpar kk) (take_place node succ (h3, tp)) else Some (take_place node succ (h3, tp)))"
    proof -
      have "h3 = set_parent (n_right (set_right succ (n_right (hA node)) hA node)) succ (set_right succ (n_right (hA node)) hA)"
        using rr sd(4) by (simp add: h3_def h2_def rb_fields)
      then show ?thesis using first n(1-3) kp pne(3) by (simp add: erase_two_children_def Let_def hA_def)
    qed
    have "touches ?S h hA" using ul(2) unfolding S by (rule touches_mono) auto
    then have "touches ?S h h3" unfolding h3_def h2_def using rr0(2) unfolding S by (intro touches_setI) (auto simp: addrs_plug_set)
    moreover have "touches ?S h3 (fst (take_place node succ (h3, tp)))" using tk(2) unfolding S by (rule touches_mono) (auto simp: addrs_plug_set)
    ultimately have "touches ?S h (fst (take_place node succ (h3, tp)))" by (rule touches_trans)
    moreover have "fst (take_place node succ (h3, tp)) node = h node"
    proof -
      have "rroot ct \<noteq> node" using fss n(5) rroot_in [of ct] by auto
      then have e: "h3 node = h node" using pne(3) sd(4) rr0(2) disj(3)
        by (auto simp: h3_def h2_def hA_def set_parent_def set_right_def set_left_def)
      have "n_left (h node) \<noteq> node" "n_parent (h node) \<noteq> node" "succ \<noteq> node" using ff n(5) rroot_in [of l] kpar_in [of k] sd(4) by auto
      then have "fst (take_place node succ (h3, tp)) node = h3 node" by (intro take_place_node) (simp_all add: e)
      then show ?thesis using e by simp
    qed
    ultimately show ?thesis using code tk(1) kp by (intro exI [of _ "take_place node succ (h3, tp)"]) (simp add: focus_append focus_FR)
  qed
  then obtain s8 where s8: "focus s8 (?K succ) ct" "touches ?S h (fst s8)" "fst s8 node = h node"
    "erase_two_children node (h, tp) = (if cs = RB_BLACK then rb_erase_fixup (rroot ct) (kpar (?K succ)) s8 else Some s8)" by blast
  obtain m where m: "bheight (Nd Lf cs succ ct) = Some m" "no_red_red (Nd Lf cs succ ct)" "kfits (?K node) m"
    using plug_validD [of "?K node" "Nd Lf cs succ ct"] inv pl by (auto simp: rb_inv_def)
  have kb: "kblack (?K succ)" using inv pl kblack_rb_inv [of "?K node" "Nd Lf cs succ ct"] kblack_addr [of kk l c node k succ] by (simp add: rb_inv_def)
  have "repaired s8 (?K succ) ct (if cs = RB_BLACK then rb_erase_fixup (rroot ct) (kpar (?K succ)) s8 else Some s8)"
    using m kfits_addr [of kk l c node k _ succ] kb by (intro repaired_after_unlink [OF s8(1)]) (auto split: option.splits if_splits)
  then obtain s' T where T: "erase_two_children node (h, tp) = Some s'" "focus s' [] T" "rb_inv T" "addrs T = addrs (plug (?K succ) ct)"
    "touches (set (addrs (plug (?K succ) ct))) (fst s8) (fst s')" unfolding repaired_def s8(4) by auto
  have "set (addrs (plug (?K succ) ct)) \<subseteq> ?S" unfolding S by (auto simp: addrs_plug_set plug_append)
  from touches_trans [OF s8(2) touches_mono [OF T(5) this]] have "touches ?S h (fst s')" .
  moreover have "kpre kk = []" using r(3) by (induction kk rule: kpre.induct) simp_all
  then have "addrs T = kpre k @ addrs l @ addrs r @ kpost k" using T(4) r(1) by (simp add: plug_append addrs_plug)
  moreover have "node \<notin> set (addrs (plug (?K succ) ct))" using fss ff by (auto simp: addrs_plug_set)
  then have "fst s' node = h node" using T(5) s8(3) by (simp add: touches_def)
  ultimately show ?thesis using T(1-3) by blast
qed

end
