(* ===== verification/RB_Ops.thy ===== *)
theory RB_Ops
  imports RB_Unlink
begin

text \<open>
  The operations of the tree against its invariant: the links represent a red-black tree,
  the node count and the temperature statistics are those of its nodes, and the search
  hint is null or one of them. Insertion adds one node at its place in the order,
  removal takes one out, and the access bookkeeping leaves the tree as it is.
\<close>

section \<open>Removal\<close>

lemma zipper: "a \<in> set (addrs t) \<Longrightarrow> \<exists>k l c r. t = plug k (Nd l c a r)"
proof (induction t)
  case (Nd l c b r)
  consider "b = a" | "a \<in> set (addrs l)" | "a \<in> set (addrs r)" using Nd.prems by auto
  then show ?case
  proof cases
    case 1
    then show ?thesis by (intro exI [of _ "[]"]) simp
  next
    case 2
    then obtain k l' c' r' where "l = plug k (Nd l' c' a r')" using Nd.IH by blast
    then show ?thesis by (intro exI [of _ "k @ [FL c b r]"]) (auto simp: plug_append)
  next
    case 3
    then obtain k l' c' r' where "r = plug k (Nd l' c' a r')" using Nd.IH by blast
    then show ?thesis by (intro exI [of _ "k @ [FR l c b]"]) (auto simp: plug_append)
  qed
qed simp

lemma stat_dec_fields [simp]:
  "r_node (rb_stat_dec f root) = r_node root" "r_hint (rb_stat_dec f root) = r_hint root"
  "r_cnt (rb_stat_dec f root) = r_cnt root" "r_clock (rb_stat_dec f root) = r_clock root"
  by (simp_all add: rb_stat_dec_def Let_def)

text \<open>The links after a removal, on each of the three branches.\<close>

lemma erase_links:
  assumes f: "focus (h, tp) k (Nd l c node r)" and inv: "rb_inv (plug k (Nd l c node r))"
  shows "\<exists>s' T. (if n_left (h node) = 0 then erase_one_child node (n_right (h node)) (h, tp)
       else if n_right (h node) = 0 then erase_one_child node (n_left (h node)) (h, tp)
       else erase_two_children node (h, tp)) = Some s' \<and> focus s' [] T \<and> rb_inv T
    \<and> addrs T = kpre k @ addrs l @ addrs r @ kpost k \<and> touches (set (addrs (plug k (Nd l c node r)))) h (fst s') \<and> fst s' node = h node"
proof -
  have n: "n_left (h node) = rroot l" "n_right (h node) = rroot r" "tree_at h node l" "tree_at h node r"
    using f by (simp_all add: focus_def)
  have z: "rroot l = 0 \<longleftrightarrow> l = Lf" "rroot r = 0 \<longleftrightarrow> r = Lf" using rroot_zero [OF n(3)] rroot_zero [OF n(4)] by simp_all
  consider "l = Lf" | "l \<noteq> Lf" "r = Lf" | "l \<noteq> Lf" "r \<noteq> Lf" by blast
  then show ?thesis
  proof cases
    case 1
    then show ?thesis using erase_one_child_spec [OF f _ inv, of r] n z by simp
  next
    case 2
    then show ?thesis using erase_one_child_spec [OF f _ inv, of l] n z by simp
  next
    case 3
    then show ?thesis using erase_two_children_spec [OF f 3 inv] n z by simp
  qed
qed

text \<open>The access data of every node but \<open>node\<close> is as before, and that of \<open>node\<close> is reset.\<close>

definition reset_data :: "nat \<Rightarrow> rb_heap \<Rightarrow> rb_heap \<Rightarrow> bool" where
  "reset_data node h h' \<longleftrightarrow>
     n_flags (h' node) = RB_FLAG_COLD \<and> access_time (h' node) = 0 \<and> access_count (h' node) = 0
     \<and> (\<forall>a. a \<noteq> node \<longrightarrow> n_flags (h' a) = n_flags (h a) \<and> access_time (h' a) = access_time (h a)
                        \<and> access_count (h' a) = access_count (h a))"

lemma rb_erase_raw_spec:
  assumes rep: "repr (h, root) t" and inv: "rb_inv t" and node: "addrs t = xs @ node # ys"
  shows "\<exists>h' t'. rb_erase_raw node (h, root) = Some (h', (rb_stat_dec (n_flags (h node)) root)\<lparr>r_node := rroot t'\<rparr>)
    \<and> focus (h', rroot t') [] t' \<and> rb_inv t' \<and> addrs t' = xs @ ys
    \<and> (\<forall>a. a \<notin> set (addrs t) \<longrightarrow> h' a = h a) \<and> reset_data node h h' \<and> n_parent (h' node) = n_parent (h node)"
proof -
  obtain k l c r where t: "t = plug k (Nd l c node r)" using zipper [of node t] node by auto
  have f: "focus (h, r_node root) k (Nd l c node r)" using rep t by (simp add: repr_def focus_plug [of _ k])
  have d: "distinct (addrs t)" "tree_at h 0 t" "r_node root = rroot t" using rep by (simp_all add: repr_def focus_def)
  have nz: "node \<noteq> 0" "rroot t \<noteq> 0"
    using tree_at_nonzero [OF d(2)] rroot_zero [OF d(2)] node by auto
  have "xs @ node # ys = (kpre k @ addrs l) @ node # (addrs r @ kpost k)" using node t by (simp add: addrs_plug)
  moreover have "node \<notin> set xs" "node \<notin> set ys" using d(1) unfolding node by auto
  ultimately have xy: "xs = kpre k @ addrs l \<and> ys = addrs r @ kpost k"
    using append_Cons_eq_iff [of node xs ys "kpre k @ addrs l" "addrs r @ kpost k"] by auto
  obtain s' T where T: "(if n_left (h node) = 0 then erase_one_child node (n_right (h node)) (h, r_node root)
       else if n_right (h node) = 0 then erase_one_child node (n_left (h node)) (h, r_node root)
       else erase_two_children node (h, r_node root)) = Some s'" "focus s' [] T" "rb_inv T"
    "addrs T = kpre k @ addrs l @ addrs r @ kpost k" "touches (set (addrs t)) h (fst s')" "fst s' node = h node"
    using erase_links [OF f] inv t by blast
  let ?h' = "(fst s')(node := (fst s' node)\<lparr>n_flags := RB_FLAG_COLD, access_time := 0, access_count := 0\<rparr>)"
  have fl: "n_flags (fst s' node) = n_flags (h node)" using T(5) by (simp add: touches_def)
  have "snd s' = rroot T" "tree_at (fst s') 0 T" "distinct (addrs T)" using T(2) by (simp_all add: focus_def)
  moreover have "rb_erase_raw node (h, root) = Some (?h', (rb_stat_dec (n_flags (h node)) root)\<lparr>r_node := snd s'\<rparr>)"
    using nz d(3) T(1) fl
    by (cases s') (simp add: rb_erase_raw_def rb_erase_update_stats_def rb_stat_dec_def Let_def)
  moreover have "tree_at ?h' 0 T = tree_at (fst s') 0 T" by (rule tree_at_frame) (simp add: same_links_def)
  moreover have "\<forall>a. a \<notin> set (addrs t) \<longrightarrow> ?h' a = h a" using T(5) node by (auto simp: touches_def)
  moreover have "n_parent (?h' node) = n_parent (h node)" using T(6) by simp
  moreover have "reset_data node h ?h'" using T(5) by (auto simp: reset_data_def touches_def)
  ultimately show ?thesis using T(3,4) xy by (intro exI [of _ ?h'] exI [of _ T]) (simp add: focus_def)
qed

section \<open>Statistics\<close>

text \<open>The counters are those of the flags of the nodes, in any order.\<close>

definition stats_of :: "8 word list \<Rightarrow> rb_root \<Rightarrow> bool" where
  "stats_of fs root \<longleftrightarrow>
     stat_cold root = length (filter (\<lambda>f. f AND RB_FLAG_TEMP_MASK = RB_FLAG_COLD) fs)
     \<and> stat_warm root = length (filter (\<lambda>f. f AND RB_FLAG_TEMP_MASK = RB_FLAG_WARM) fs)
     \<and> stat_hot root = length (filter (\<lambda>f. f AND RB_FLAG_TEMP_MASK = RB_FLAG_HOT) fs)
     \<and> stat_pinned root = length (filter (\<lambda>f. f AND RB_FLAG_PINNED \<noteq> 0) fs)"

lemma count_bound: "length (xs @ ys) + 1 < U64 \<Longrightarrow> length (filter P xs) + length (filter P ys) + 1 < U64"
  using length_filter_le [of P xs] length_filter_le [of P ys] unfolding length_append by linarith

lemma stats_inc:
  assumes "stats_of (xs @ ys) root" "length (xs @ ys) + 1 < U64"
  shows "stats_of (xs @ f # ys) (rb_stat_inc f root)"
  using assms(1) count_bound [OF assms(2)] by (simp add: stats_of_def rb_stat_inc_def Let_def add64_id)

lemma stats_dec: "stats_of (xs @ f # ys) root \<Longrightarrow> stats_of (xs @ ys) (rb_stat_dec f root)"
  by (simp add: stats_of_def rb_stat_dec_def Let_def sub64_id)

lemma stats_of_node [simp]: "stats_of fs (root\<lparr>r_node := x\<rparr>) = stats_of fs root"
  "stats_of fs (root\<lparr>r_hint := x\<rparr>) = stats_of fs root" "stats_of fs (root\<lparr>r_cnt := x\<rparr>) = stats_of fs root"
  by (simp_all add: stats_of_def)

definition rb_wf :: "rb \<Rightarrow> rtree \<Rightarrow> bool" where
  "rb_wf s t \<longleftrightarrow> repr s t \<and> rb_inv t \<and> length (addrs t) < U64 \<and> r_cnt (snd s) = length (addrs t)
     \<and> (r_hint (snd s) = 0 \<or> r_hint (snd s) \<in> set (addrs t))
     \<and> stats_of (map (\<lambda>a. n_flags (fst s a)) (addrs t)) (snd s)"

lemma rb_wf_focus: "rb_wf s t \<Longrightarrow> focus (fst s, r_node (snd s)) [] t"
  by (simp add: rb_wf_def repr_def)

lemma rb_wf_distinct: "rb_wf s t \<Longrightarrow> distinct (addrs t)"
  by (simp add: rb_wf_def repr_def focus_def)

lemma rb_insert_wf:
  assumes wf: "rb_wf s t" and node: "node \<noteq> 0" "node \<notin> set (addrs t)" and room: "length (addrs t) + 1 < U64"
    and f: "f = (\<lambda>a. cmp node a < 0)"
  shows "\<exists>s' t'. rb_insert cmp node s = Some s' \<and> rb_wf s' t' \<and> addrs t' = kpre (path f t []) @ node # kpost (path f t [])
    \<and> r_clock (snd s') = r_clock (snd s) \<and> (\<forall>a. a \<noteq> node \<longrightarrow> a \<notin> set (addrs t) \<longrightarrow> fst s' a = fst s a)
    \<and> fresh_data node (r_clock (snd s)) (fst s) (fst s')"
proof -
  obtain h root where s: "s = (h, root)" by (cases s)
  let ?k = "path f t []"
  have xy: "addrs t = kpre ?k @ kpost ?k" using addrs_plug [of ?k Lf] plug_path [of f t "[]"] by simp
  obtain h' t' where r: "rb_insert_raw cmp node (h, root) = Some (h', (rb_stat_inc RB_FLAG_COLD root)\<lparr>r_node := rroot t'\<rparr>)"
    "focus (h', rroot t') [] t'" "rb_inv t'" "addrs t' = kpre ?k @ node # kpost ?k"
    "\<forall>a. a \<noteq> node \<longrightarrow> a \<notin> set (addrs t) \<longrightarrow> h' a = h a" "fresh_data node (r_clock root) h h'"
    using rb_insert_raw_spec [of h root t node f cmp] node f wf s by (auto simp: rb_wf_def)
  have fl: "n_flags (h' a) = n_flags (h a)" if "a \<in> set (addrs t)" for a
    using r(6) that node(2) by (auto simp: fresh_data_def)
  have st: "map (\<lambda>a. n_flags (h' a)) (addrs t') = map (\<lambda>a. n_flags (h a)) (kpre ?k) @ RB_FLAG_COLD # map (\<lambda>a. n_flags (h a)) (kpost ?k)"
    unfolding r(4) using fl r(6) xy by (auto simp: fresh_data_def)
  have "stats_of (map (\<lambda>a. n_flags (h' a)) (addrs t')) (rb_stat_inc RB_FLAG_COLD root)"
    unfolding st using wf s xy room by (intro stats_inc) (simp_all add: rb_wf_def)
  then have "rb_wf (h', (rb_stat_inc RB_FLAG_COLD root)\<lparr>r_node := rroot t', r_cnt := add64 (r_cnt root) 1\<rparr>) t'"
    using wf s xy room r(2-4) by (auto simp: rb_wf_def repr_def add64_id)
  then show ?thesis using r s node(1)
    by (intro exI [of _ "(h', (rb_stat_inc RB_FLAG_COLD root)\<lparr>r_node := rroot t', r_cnt := add64 (r_cnt root) 1\<rparr>)"] exI [of _ t'])
      (simp add: rb_insert_def)
qed

lemma rb_erase_wf:
  assumes wf: "rb_wf s t" and node: "addrs t = xs @ node # ys"
  shows "\<exists>s' t'. rb_erase node s = Some s' \<and> rb_wf s' t' \<and> addrs t' = xs @ ys \<and> r_clock (snd s') = r_clock (snd s)
    \<and> (\<forall>a. a \<notin> set (addrs t) \<longrightarrow> fst s' a = fst s a) \<and> reset_data node (fst s) (fst s')
    \<and> n_parent (fst s' node) = n_parent (fst s node)"
proof -
  obtain h root where s: "s = (h, root)" by (cases s)
  define rt where "rt = rb_clear_hint_if_match node root"
  have rt: "r_node rt = r_node root" "r_cnt rt = r_cnt root" "r_clock rt = r_clock root" "r_hint rt = (if r_hint root = node then 0 else r_hint root)"
    "stats_of fs rt = stats_of fs root" for fs by (simp_all add: rt_def rb_clear_hint_if_match_def)
  have d: "distinct (xs @ node # ys)" "node \<noteq> 0"
    using rb_wf_distinct [OF wf] wf tree_at_nonzero [of h 0 t] s node by (auto simp: rb_wf_def repr_def focus_def)
  obtain h' t' where r: "rb_erase_raw node (h, rt) = Some (h', (rb_stat_dec (n_flags (h node)) rt)\<lparr>r_node := rroot t'\<rparr>)"
    "focus (h', rroot t') [] t'" "rb_inv t'" "addrs t' = xs @ ys"
    "\<forall>a. a \<notin> set (addrs t) \<longrightarrow> h' a = h a" "reset_data node h h'" "n_parent (h' node) = n_parent (h node)"
    using rb_erase_raw_spec [OF _ _ node, of h rt] wf s rt by (auto simp: rb_wf_def repr_def)
  have st: "map (\<lambda>a. n_flags (h' a)) (addrs t') = map (\<lambda>a. n_flags (h a)) xs @ map (\<lambda>a. n_flags (h a)) ys"
    unfolding r(4) using r(6) d(1) by (auto simp: reset_data_def)
  let ?r = "(rb_stat_dec (n_flags (h node)) rt)\<lparr>r_node := rroot t', r_cnt := sub64 (r_cnt rt) 1\<rparr>"
  have "stats_of (map (\<lambda>a. n_flags (h' a)) (addrs t')) (rb_stat_dec (n_flags (h node)) rt)"
    unfolding st using wf s node rt(5) by (intro stats_dec) (simp add: rb_wf_def)
  then have "rb_wf (h', ?r) t'" using wf s node r(2-4) rt by (auto simp: rb_wf_def repr_def sub64_id)
  then show ?thesis using r s d(2) rt(3)
    by (intro exI [of _ "(h', ?r)"] exI [of _ t']) (simp add: rb_erase_def flip: rt_def)
qed

section \<open>Access bookkeeping\<close>

text \<open>A change of the access data of one node, with its counters moved along.\<close>

lemma rb_wf_reflag:
  assumes wf: "rb_wf (h, root) t" and a: "a \<in> set (addrs t)" and n: "same_links n (h a)"
  shows "rb_wf (h(a := n), rb_stat_inc (n_flags n) (rb_stat_dec (n_flags (h a)) root)) t"
proof -
  obtain xs ys where xy: "addrs t = xs @ a # ys" using a split_list by fastforce
  have d: "a \<notin> set xs" "a \<notin> set ys" using rb_wf_distinct [OF wf] xy by auto
  have tr: "tree_at (h(a := n)) 0 t = tree_at h 0 t" using n by (intro tree_at_frame) simp
  have "stats_of (map (\<lambda>b. n_flags (h b)) xs @ n_flags n # map (\<lambda>b. n_flags (h b)) ys)
      (rb_stat_inc (n_flags n) (rb_stat_dec (n_flags (h a)) root))"
    using wf xy by (intro stats_inc stats_dec) (simp_all add: rb_wf_def)
  moreover have "map (\<lambda>b. n_flags ((h(a := n)) b)) (addrs t) = map (\<lambda>b. n_flags (h b)) xs @ n_flags n # map (\<lambda>b. n_flags (h b)) ys"
    using xy d by auto
  ultimately show ?thesis using wf tr by (simp add: rb_wf_def repr_def focus_def)
qed

lemma rb_wf_same_flags:
  assumes wf: "rb_wf (h, root) t" and n: "same_links n (h a)" "n_flags n = n_flags (h a)"
  shows "rb_wf (h(a := n), root) t"
proof -
  have "tree_at (h(a := n)) 0 t = tree_at h 0 t" using n(1) by (intro tree_at_frame) simp
  moreover have "(\<lambda>b. n_flags ((h(a := n)) b)) = (\<lambda>b. n_flags (h b))" using n(2) by auto
  ultimately show ?thesis using wf by (simp add: rb_wf_def repr_def focus_def del: fun_upd_apply)
qed

lemma rb_touch_wf:
  assumes wf: "rb_wf s t" and a: "a \<in> set (addrs t)"
  shows "rb_wf (rb_touch a s) t"
proof -
  obtain h root where s: "s = (h, root)" by (cases s)
  define cnt where "cnt = add64 (access_count (h a)) 1"
  define el where "el = sub64 (r_clock root) (access_time (h a))"
  define n2 where "n2 = (let n1 = (h a)\<lparr>access_count := cnt\<rparr> in if el > 64 then n1\<lparr>access_time := r_clock root\<rparr> else n1)"
  have n2: "same_links n2 (h a)" "n_flags n2 = n_flags (h a)" by (simp_all add: n2_def Let_def same_links_def)
  obtain new decay where td: "touch_temp root el cnt (n_flags (h a) AND RB_FLAG_TEMP_MASK) = (new, decay)" by fastforce
  define fl where "fl = (n_flags (h a) AND NOT RB_FLAG_TEMP_MASK) OR new"
  define n3 where "n3 = (if decay then n2\<lparr>n_flags := fl, access_count := 1\<rparr> else n2\<lparr>n_flags := fl\<rparr>)"
  have n3: "same_links n3 (h a)" "n_flags n3 = fl" using n2(1) by (simp_all add: n3_def same_links_def)
  have "rb_touch a s = s \<or> rb_touch a s = (h(a := n2), root) \<or>
      rb_touch a s = (h(a := n3), rb_stat_inc fl (rb_stat_dec (n_flags (h a)) root))"
    using td n2(2) by (auto simp: s rb_touch_def Let_def n3_def fl_def n2_def cnt_def el_def)
  then show ?thesis
    using wf rb_wf_same_flags [OF wf [unfolded s] n2] rb_wf_reflag [OF wf [unfolded s] a n3(1)] n3(2) by auto
qed

lemma rb_touch_root [simp]: "r_node (snd (rb_touch a s)) = r_node (snd s)" "r_hint (snd (rb_touch a s)) = r_hint (snd s)"
  "r_clock (snd (rb_touch a s)) = r_clock (snd s)" "r_cnt (snd (rb_touch a s)) = r_cnt (snd s)"
  by (simp_all add: rb_touch_def Let_def split: prod.splits)

lemma rb_pin_wf:
  assumes "rb_wf s t" and "a \<in> set (addrs t)"
  shows "rb_wf (rb_pin_node a s) t" "rb_wf (rb_unpin_node a s) t"
  using assms rb_wf_reflag [of "fst s" "snd s" t a "(fst s a)\<lparr>n_flags := n_flags (fst s a) OR RB_FLAG_PINNED\<rparr>"]
    rb_wf_reflag [of "fst s" "snd s" t a "(fst s a)\<lparr>n_flags := n_flags (fst s a) AND NOT RB_FLAG_PINNED\<rparr>"]
  by (auto simp: rb_pin_node_def rb_unpin_node_def Let_def same_links_def split: prod.splits)

lemma rb_wf_init: "rb_wf (h, rb_root_init) Lf"
  by (simp add: rb_wf_def rb_root_init_def repr_def focus_def rb_inv_def stats_of_def U64_def)

end
