(* ===== verification/RB_Seek.thy ===== *)
theory RB_Seek
  imports RB_Ops
begin

text \<open>
  Walking the tree: first, last, successor and predecessor follow the in-order list of
  nodes. Over a comparator that is a total preorder, given by a key (the interface
  \<open>rb_order\<close>), insertion keeps the list sorted and puts a node behind those of equal key,
  a search finds a node of the key exactly if there is one, and the range operations
  take the nodes of the range in order.
\<close>

section \<open>Iteration\<close>

definition head0 :: "nat list \<Rightarrow> nat" where
  "head0 xs = (case xs of [] \<Rightarrow> 0 | x # _ \<Rightarrow> x)"

lemma head0_simps [simp]: "head0 [] = 0" "head0 (x # xs) = x"
  by (simp_all add: head0_def)

lemma head0_append: "xs \<noteq> [] \<Longrightarrow> head0 (xs @ ys) = head0 xs"
  by (cases xs) simp_all

lemma leftmost_head: "tree_at h p t \<Longrightarrow> t \<noteq> Lf \<Longrightarrow> leftmost h (rroot t) = Some (head0 (addrs t))"
proof (induction t arbitrary: p)
  case (Nd l c a r)
  show ?case
  proof (cases "l = Lf")
    case True
    then show ?thesis using Nd.prems by (subst leftmost.simps) simp
  next
    case False
    then have "addrs l \<noteq> []" by (cases l) simp_all
    with False show ?thesis using Nd.prems Nd.IH(1) [of a] rroot_zero [of h a l]
      by (subst leftmost.simps) (simp add: head0_append)
  qed
qed simp

lemma rightmost_last: "tree_at h p t \<Longrightarrow> t \<noteq> Lf \<Longrightarrow> rightmost h (rroot t) = Some (head0 (rev (addrs t)))"
proof (induction t arbitrary: p)
  case (Nd l c a r)
  show ?case
  proof (cases "r = Lf")
    case True
    then show ?thesis using Nd.prems by (subst rightmost.simps) simp
  next
    case False
    then have "addrs r \<noteq> []" by (cases r) simp_all
    with False show ?thesis using Nd.prems Nd.IH(2) [of a] rroot_zero [of h a r]
      by (subst rightmost.simps) (simp add: head0_append)
  qed
qed simp

lemma rb_first_spec: "tree_at h p t \<Longrightarrow> rb_first h (rroot t) = Some (head0 (addrs t))"
  using leftmost_head [of h p t] rroot_zero [of h p t] by (cases "t = Lf") (auto simp: rb_first_def)

lemma rb_last_spec: "tree_at h p t \<Longrightarrow> rb_last h (rroot t) = Some (head0 (rev (addrs t)))"
  using rightmost_last [of h p t] rroot_zero [of h p t] by (cases "t = Lf") (auto simp: rb_last_def)

lemma climb_right_spec:
  "focus (h, tp) k t \<Longrightarrow> t \<noteq> Lf \<Longrightarrow> climb_right h (rroot t) (kpar k) = Some (head0 (kpost k))"
proof (induction k arbitrary: t)
  case Nil
  then show ?case by (subst climb_right.simps) simp
next
  case (Cons f k)
  show ?case
  proof (cases f)
    case (FL c a r)
    then have "n_right (h a) = rroot r" "rroot t \<noteq> 0" "tree_at h a t" "distinct (addrs t @ addrs r)"
      using Cons.prems rroot_zero [of h a t] by (auto simp: focus_def)
    then have "rroot t \<noteq> n_right (h a)" using rroot_in [of t] rroot_in [of r] by auto
    then show ?thesis using FL by (subst climb_right.simps) simp
  next
    case (FR l c a)
    then have "n_right (h a) = rroot t" "a \<noteq> 0" "n_parent (h a) = kpar k" using Cons.prems by (auto simp: focus_def)
    moreover have "climb_right h a (kpar k) = Some (head0 (kpost k))"
      using Cons.IH [of "Nd l c a t"] Cons.prems FR by (simp add: focus_FR)
    ultimately show ?thesis using FR by (subst climb_right.simps) simp
  qed
qed

lemma climb_left_spec:
  "focus (h, tp) k t \<Longrightarrow> t \<noteq> Lf \<Longrightarrow> climb_left h (rroot t) (kpar k) = Some (head0 (rev (kpre k)))"
proof (induction k arbitrary: t)
  case Nil
  then show ?case by (subst climb_left.simps) simp
next
  case (Cons f k)
  show ?case
  proof (cases f)
    case (FR l c a)
    then have "n_left (h a) = rroot l" "rroot t \<noteq> 0" "tree_at h a t" "distinct (addrs t @ addrs l)"
      using Cons.prems rroot_zero [of h a t] by (auto simp: focus_def)
    then have "rroot t \<noteq> n_left (h a)" using rroot_in [of t] rroot_in [of l] by auto
    then show ?thesis using FR by (subst climb_left.simps) simp
  next
    case (FL c a r)
    then have "n_left (h a) = rroot t" "a \<noteq> 0" "n_parent (h a) = kpar k" using Cons.prems by (auto simp: focus_def)
    moreover have "climb_left h a (kpar k) = Some (head0 (rev (kpre k)))"
      using Cons.IH [of "Nd t c a r"] Cons.prems FL by (simp add: focus_FL)
    ultimately show ?thesis using FL by (subst climb_left.simps) simp
  qed
qed

lemma split_unique: "distinct (xs @ a # ys) \<Longrightarrow> xs @ a # ys = xs' @ a # ys' \<Longrightarrow> xs = xs' \<and> ys = ys'"
  by (metis append_Cons_eq_iff distinct.simps(2) distinct_append not_distinct_conv_prefix)

text \<open>The nodes as seen from one of them.\<close>

lemma focus_at:
  assumes "focus (h, tp) [] t" "addrs t = xs @ a # ys"
  shows "\<exists>k l c r. focus (h, tp) k (Nd l c a r) \<and> xs = kpre k @ addrs l \<and> ys = addrs r @ kpost k"
proof -
  obtain k l c r where t: "t = plug k (Nd l c a r)" using zipper [of a t] assms by auto
  have d: "distinct (addrs t)" using assms by (simp add: focus_def)
  have "xs @ a # ys = (kpre k @ addrs l) @ a # (addrs r @ kpost k)" using assms t by (simp add: addrs_plug)
  from split_unique [OF _ this] d assms(2) have "xs = kpre k @ addrs l \<and> ys = addrs r @ kpost k" by simp
  then show ?thesis using assms(1) focus_plug [of "(h, tp)" k "Nd l c a r"] t by blast
qed

lemma rb_next_spec:
  assumes "focus (h, tp) [] t" "addrs t = xs @ a # ys"
  shows "rb_next h a = Some (head0 ys)"
proof -
  obtain k l c r where k: "focus (h, tp) k (Nd l c a r)" "ys = addrs r @ kpost k" using focus_at [OF assms] by blast
  then have n: "a \<noteq> 0" "n_right (h a) = rroot r" "n_parent (h a) = kpar k" "tree_at h a r" by (auto simp: focus_def)
  show ?thesis
  proof (cases "r = Lf")
    case True
    then show ?thesis using n k(2) climb_right_spec [OF k(1)] by (simp add: rb_next_def)
  next
    case False
    then have "addrs r \<noteq> []" by (cases r) simp_all
    then show ?thesis using False n k(2) rb_first_spec [OF n(4)] rroot_zero [OF n(4)] by (simp add: rb_next_def head0_append)
  qed
qed

lemma rb_prev_spec:
  assumes "focus (h, tp) [] t" "addrs t = xs @ a # ys"
  shows "rb_prev h a = Some (head0 (rev xs))"
proof -
  obtain k l c r where k: "focus (h, tp) k (Nd l c a r)" "xs = kpre k @ addrs l" using focus_at [OF assms] by blast
  then have n: "a \<noteq> 0" "n_left (h a) = rroot l" "n_parent (h a) = kpar k" "tree_at h a l" by (auto simp: focus_def)
  show ?thesis
  proof (cases "l = Lf")
    case True
    then show ?thesis using n k(2) climb_left_spec [OF k(1)] by (simp add: rb_prev_def)
  next
    case False
    then have "addrs l \<noteq> []" by (cases l) simp_all
    then show ?thesis using False n k(2) rightmost_last [OF n(4)] rroot_zero [OF n(4)] by (simp add: rb_prev_def head0_append)
  qed
qed

lemma flag_loop_spec:
  assumes f: "focus (h, tp) [] t"
  shows "addrs t = xs @ ys \<Longrightarrow> flag_loop m exact h n out (head0 ys) =
     Some (out @ take (n - length out) (filter (\<lambda>a. flag_match m exact (n_flags (h a))) ys))"
proof (induction ys arbitrary: xs out)
  case Nil
  then show ?case by (subst flag_loop.simps) simp
next
  case (Cons y ys)
  let ?P = "\<lambda>a. flag_match m exact (n_flags (h a))"
  have y: "y \<noteq> 0" using f Cons.prems tree_at_nonzero [of h 0 t] by (auto simp: focus_def)
  have nx: "rb_next h y = Some (head0 ys)" using rb_next_spec [OF f Cons.prems] .
  show ?case
  proof (cases "length out < n")
    case True
    have "flag_loop m exact h n out (head0 (y # ys)) = flag_loop m exact h n (if ?P y then out @ [y] else out) (head0 ys)"
      using True y nx by (subst flag_loop.simps) simp
    also have "\<dots> = Some ((if ?P y then out @ [y] else out) @ take (n - length (if ?P y then out @ [y] else out)) (filter ?P ys))"
      using Cons.prems by (intro Cons.IH [of "xs @ [y]"]) simp
    finally show ?thesis using True by (simp add: take_Cons')
  qed (subst flag_loop.simps, simp)
qed

section \<open>Keys\<close>

text \<open>A tree whose nodes are in the order of their keys, and the nodes of a half-open range of
  keys; a null bound is no bound.\<close>

definition keyed :: "(nat \<Rightarrow> 'k::linorder) \<Rightarrow> rb \<Rightarrow> rtree \<Rightarrow> bool" where
  "keyed key s t \<longleftrightarrow> rb_wf s t \<and> sorted (map key (addrs t))"

definition in_range :: "(nat \<Rightarrow> 'k::linorder) \<Rightarrow> nat \<Rightarrow> nat \<Rightarrow> nat \<Rightarrow> bool" where
  "in_range key lo hi a \<longleftrightarrow> (lo = 0 \<or> key lo \<le> key a) \<and> (hi = 0 \<or> key a < key hi)"

locale rb_order =
  fixes cmp :: rb_compare and key :: "nat \<Rightarrow> 'k::linorder"
  assumes cmp_less: "cmp a b < 0 \<longleftrightarrow> key a < key b"
    and cmp_eq: "cmp a b = 0 \<longleftrightarrow> key a = key b"
begin

lemma cmp_greater: "cmp a b > 0 \<longleftrightarrow> key b < key a"
  using cmp_less [of a b] cmp_eq [of a b] by (cases "key a" "key b" rule: linorder_cases) auto

lemma cmp_ge: "cmp a b \<ge> 0 \<longleftrightarrow> key b \<le> key a"
  using cmp_less [of a b] by auto

lemma insert_sorted:
  "sorted (map key xs) \<Longrightarrow>
   sorted (map key (takeWhile (\<lambda>a. key a \<le> key node) xs @ node # dropWhile (\<lambda>a. key a \<le> key node) xs))"
proof (induction xs)
  case (Cons x xs)
  let ?P = "\<lambda>a. key a \<le> key node"
  have "set (takeWhile ?P xs @ node # dropWhile ?P xs) = insert node (set xs)"
    using set_append [of "takeWhile ?P xs" "dropWhile ?P xs"] by simp
  then have m: "sorted (map key (x # (takeWhile ?P xs @ node # dropWhile ?P xs)))" if "key x \<le> key node"
    using Cons that unfolding list.map sorted_simps set_map by simp
  show ?case
  proof (cases "key x \<le> key node")
    case True
    then show ?thesis using m by simp
  next
    case False
    then have "\<forall>y\<in>set (x # xs). key node \<le> key y" using Cons.prems by fastforce
    then show ?thesis using False Cons.prems by simp
  qed
qed simp

lemma search_descend_spec:
  "tree_at h p t \<Longrightarrow> sorted (map key (addrs t)) \<Longrightarrow>
   \<exists>r. search_descend cmp a h (rroot t) = Some r
     \<and> (r \<in> set (addrs t) \<and> key r = key a \<or> r = 0 \<and> (\<forall>b\<in>set (addrs t). key b \<noteq> key a))"
proof (induction t arbitrary: p)
  case Lf
  then show ?case by (subst search_descend.simps) simp
next
  case (Nd l c b r)
  have st: "sorted (map key (addrs l))" "sorted (map key (addrs r))" "\<forall>x\<in>set (addrs l). key x \<le> key b" "\<forall>x\<in>set (addrs r). key b \<le> key x"
    using Nd.prems(2) by (auto simp: sorted_append)
  have n: "b \<noteq> 0" "n_left (h b) = rroot l" "n_right (h b) = rroot r" "tree_at h b l" "tree_at h b r" using Nd.prems(1) by simp_all
  consider "key a < key b" | "key b < key a" | "key a = key b" by fastforce
  then show ?case
  proof cases
    case 1
    then have "search_descend cmp a h b = search_descend cmp a h (rroot l)"
      using n by (subst search_descend.simps) (simp add: cmp_less)
    moreover have "key x \<noteq> key a" if "x \<in> set (addrs r)" for x using st(4) 1 that by fastforce
    ultimately show ?thesis using Nd.IH(1) [OF n(4) st(1)] 1 by fastforce
  next
    case 2
    then have "search_descend cmp a h b = search_descend cmp a h (rroot r)"
      using n by (subst search_descend.simps) (auto simp: cmp_less cmp_greater)
    moreover have "key x \<noteq> key a" if "x \<in> set (addrs l)" for x using st(3) 2 that by fastforce
    ultimately show ?thesis using Nd.IH(2) [OF n(5) st(2)] 2 by fastforce
  next
    case 3
    then have "search_descend cmp a h b = Some b" using n by (subst search_descend.simps) (simp add: cmp_less cmp_greater)
    then show ?thesis using 3 by auto
  qed
qed

lemma rb_insert_keyed:
  assumes s: "keyed key s t" and node: "node \<noteq> 0" "node \<notin> set (addrs t)" and room: "length (addrs t) + 1 < U64"
  shows "\<exists>s' t'. rb_insert cmp node s = Some s' \<and> keyed key s' t'
    \<and> addrs t' = takeWhile (\<lambda>a. key a \<le> key node) (addrs t) @ node # dropWhile (\<lambda>a. key a \<le> key node) (addrs t)
    \<and> r_clock (snd s') = r_clock (snd s) \<and> (\<forall>a. a \<noteq> node \<longrightarrow> a \<notin> set (addrs t) \<longrightarrow> fst s' a = fst s a)
    \<and> fresh_data node (r_clock (snd s)) (fst s) (fst s')"
proof -
  define f where "f = (\<lambda>a. cmp node a < 0)"
  let ?k = "path f t []"
  have so: "sorted (map key (addrs t))" and wf: "rb_wf s t" using s by (simp_all add: keyed_def)
  have "sorted_wrt (\<lambda>a b. f a \<longrightarrow> f b) (addrs t)"
    using so unfolding sorted_map f_def cmp_less by (rule sorted_wrt_mono_rel [rotated]) auto
  from path_order [OF this, of "[]"]
  have k: "kpre ?k = takeWhile (\<lambda>a. key a \<le> key node) (addrs t)" "kpost ?k = dropWhile (\<lambda>a. key a \<le> key node) (addrs t)"
    by (simp_all add: f_def cmp_less not_less)
  obtain s' t' where r: "rb_insert cmp node s = Some s'" "rb_wf s' t'" "addrs t' = kpre ?k @ node # kpost ?k"
    "r_clock (snd s') = r_clock (snd s)" "\<forall>a. a \<noteq> node \<longrightarrow> a \<notin> set (addrs t) \<longrightarrow> fst s' a = fst s a"
    "fresh_data node (r_clock (snd s)) (fst s) (fst s')"
    using rb_insert_wf [OF wf node room, of f cmp] f_def by blast
  then have "keyed key s' t'" using insert_sorted [OF so, of node] k by (simp add: keyed_def)
  then show ?thesis using r k by auto
qed

lemma rb_erase_keyed:
  assumes s: "keyed key s t" and node: "addrs t = xs @ node # ys"
  shows "\<exists>s' t'. rb_erase node s = Some s' \<and> keyed key s' t' \<and> addrs t' = xs @ ys \<and> r_clock (snd s') = r_clock (snd s)
    \<and> (\<forall>a. a \<notin> set (addrs t) \<longrightarrow> fst s' a = fst s a) \<and> reset_data node (fst s) (fst s')
    \<and> n_parent (fst s' node) = n_parent (fst s node)"
  using rb_erase_wf [of s t xs node ys] assms by (force simp: keyed_def sorted_append)

text \<open>
  A search changes no link: it returns a node of the tree with the wanted key, or null when
  there is none, and keeps the tree.
\<close>

lemma rb_search_keyed:
  assumes s: "keyed key s t" and a: "a \<noteq> 0"
  shows "\<exists>r s'. rb_search cmp a s = Some (r, s') \<and> keyed key s' t
    \<and> (r \<in> set (addrs t) \<and> key r = key a \<or> r = 0 \<and> s' = s \<and> (\<forall>b\<in>set (addrs t). key b \<noteq> key a))"
proof -
  obtain h root where hr: "s = (h, root)" by (cases s)
  have t: "tree_at h 0 t" "r_node root = rroot t" "sorted (map key (addrs t))" "rb_wf s t"
    "r_hint root = 0 \<or> r_hint root \<in> set (addrs t)"
    using s hr by (auto simp: keyed_def rb_wf_def repr_def focus_def)
  obtain r where r: "(if r_hint root \<noteq> 0 \<and> cmp a (r_hint root) = 0 then Some (r_hint root) else search_descend cmp a h (r_node root)) = Some r"
    "r \<in> set (addrs t) \<and> key r = key a \<or> r = 0 \<and> (\<forall>b\<in>set (addrs t). key b \<noteq> key a)"
    using search_descend_spec [OF t(1,3), of a] t(2,5) by (cases "r_hint root \<noteq> 0 \<and> cmp a (r_hint root) = 0") (auto simp: cmp_eq)
  show ?thesis
  proof (cases "r = 0")
    case True
    then have "r \<notin> set (addrs t)" using tree_at_nonzero [OF t(1)] by auto
    then show ?thesis using True r s a hr by (simp add: rb_search_def rb_search_locked_only_def)
  next
    case False
    then have rin: "r \<in> set (addrs t)" "key r = key a" using r(2) by auto
    obtain h1 root1 where h1: "rb_touch r s = (h1, root1)" by fastforce
    define root2 where "root2 = (if r \<noteq> r_hint root \<and> r_clock root1 AND hint_mask root1 = 0 then root1\<lparr>r_hint := r\<rparr> else root1)"
    have "rb_wf (h1, root1) t" using rb_touch_wf [OF t(4) rin(1)] h1 by simp
    then have "keyed key (h1, root2) t" using rin t(3) by (auto simp: keyed_def rb_wf_def root2_def repr_def)
    moreover have "rb_search cmp a s = Some (r, (h1, root2))"
      using r(1) False a h1 hr unfolding root2_def rb_search_def rb_search_locked_only_def by (simp add: Let_def)
    ultimately show ?thesis using rin by blast
  qed
qed

section \<open>Ranges\<close>

lemma ge_descend_spec:
  "tree_at h p t \<Longrightarrow> sorted (map key (addrs t)) \<Longrightarrow>
   ge_descend cmp lo h start (rroot t) =
     Some (let zs = dropWhile (\<lambda>a. key a < key lo) (addrs t) in if zs = [] then start else head0 zs)"
proof (induction t arbitrary: p start)
  case Lf
  then show ?case by (subst ge_descend.simps) simp
next
  case (Nd l c b r)
  let ?P = "\<lambda>a. key a < key lo"
  have st: "sorted (map key (addrs l))" "sorted (map key (addrs r))" "\<forall>x\<in>set (addrs l). key x \<le> key b"
    using Nd.prems(2) by (auto simp: sorted_append)
  have n: "b \<noteq> 0" "n_left (h b) = rroot l" "n_right (h b) = rroot r" "tree_at h b l" "tree_at h b r" using Nd.prems(1) by simp_all
  show ?case
  proof (cases "key lo \<le> key b")
    case True
    have "dropWhile ?P (addrs l @ b # addrs r) = dropWhile ?P (addrs l) @ b # addrs r"
      using True by (auto simp: dropWhile_append)
    moreover have "ge_descend cmp lo h start b = ge_descend cmp lo h b (rroot l)"
      using True n by (subst ge_descend.simps) (simp add: cmp_ge)
    ultimately show ?thesis using Nd.IH(1) [OF n(4) st(1), of b] by (cases "dropWhile ?P (addrs l)") (auto simp: Let_def)
  next
    case False
    then have "dropWhile ?P (addrs l @ b # addrs r) = dropWhile ?P (addrs r)"
      using st(3) dropWhile_append2 [of "addrs l" ?P "b # addrs r"] by fastforce
    moreover have "ge_descend cmp lo h start b = ge_descend cmp lo h start (rroot r)"
      using False n by (subst ge_descend.simps) (simp add: cmp_ge)
    ultimately show ?thesis using Nd.IH(2) [OF n(5) st(2), of start] by simp
  qed
qed

lemma dropWhile_below: "sorted (map key xs) \<Longrightarrow> dropWhile (\<lambda>a. key a < k) xs = filter (\<lambda>a. k \<le> key a) xs"
proof (induction xs)
  case (Cons x xs)
  then have "key x < k \<or> (\<forall>y\<in>set (x # xs). k \<le> key y)" by fastforce
  then show ?case using Cons by (elim disjE) (simp_all add: filter_id_conv [THEN iffD2] not_less [THEN iffD2])
qed simp

lemma takeWhile_below: "sorted (map key xs) \<Longrightarrow> takeWhile (\<lambda>a. key a < k) xs = filter (\<lambda>a. key a < k) xs"
proof (induction xs)
  case (Cons x xs)
  then show ?case by (cases "key x < k") (fastforce simp: empty_filter_conv)+
qed simp

lemma rb_find_first_ge_spec:
  assumes "tree_at h p t" "sorted (map key (addrs t))"
  shows "rb_find_first_ge cmp lo h (rroot t) = Some (head0 (dropWhile (\<lambda>a. lo \<noteq> 0 \<and> key a < key lo) (addrs t)))"
proof (cases "lo = 0")
  case True
  then show ?thesis using rb_first_spec [OF assms(1)] by (auto simp: rb_find_first_ge_def rb_first_def)
next
  case False
  have "(if zs = [] then 0 else head0 zs) = head0 zs" for zs by simp
  then show ?thesis using ge_descend_spec [OF assms, of lo 0] rroot_zero [OF assms(1)] False
    by (cases "t = Lf") (simp_all only: rb_find_first_ge_def Let_def, simp_all)
qed

lemma range_split:
  assumes "sorted (map key as)"
  shows "takeWhile (\<lambda>a. hi = 0 \<or> key a < key hi) (dropWhile (\<lambda>a. lo \<noteq> 0 \<and> key a < key lo) as) = filter (in_range key lo hi) as"
proof -
  have d: "dropWhile (\<lambda>a. lo \<noteq> 0 \<and> key a < key lo) as = filter (\<lambda>a. lo = 0 \<or> key lo \<le> key a) as"
    using dropWhile_below [OF assms, of "key lo"] by (cases "lo = 0"; cases as) simp_all
  have "sorted (map key (filter (\<lambda>a. lo = 0 \<or> key lo \<le> key a) as))" using assms by (rule sorted_filter)
  from takeWhile_below [OF this, of "key hi"] show ?thesis unfolding d in_range_def by (cases "hi = 0") (simp_all add: conj_commute)
qed

lemma range_loop_spec:
  assumes f: "focus (h, tp) [] t"
  shows "addrs t = xs @ ys \<Longrightarrow> range_loop cmp hi h m out (head0 ys) =
     Some (out @ take (m - length out) (takeWhile (\<lambda>a. hi = 0 \<or> key a < key hi) ys))"
proof (induction ys arbitrary: xs out)
  case Nil
  then show ?case by (subst range_loop.simps) simp
next
  case (Cons y ys)
  have y: "y \<noteq> 0" using f Cons.prems tree_at_nonzero [of h 0 t] by (auto simp: focus_def)
  have nx: "rb_next h y = Some (head0 ys)" using rb_next_spec [OF f Cons.prems] .
  have ih: "range_loop cmp hi h m (out @ [y]) (head0 ys) =
      Some ((out @ [y]) @ take (m - length (out @ [y])) (takeWhile (\<lambda>a. hi = 0 \<or> key a < key hi) ys))"
    using Cons.prems by (intro Cons.IH [of "xs @ [y]"]) simp
  consider "m \<le> length out" | "length out < m" "hi \<noteq> 0" "key hi \<le> key y" | "length out < m" "hi = 0 \<or> key y < key hi"
    by fastforce
  then show ?case
  proof cases
    case 3
    then have "take (m - length out) (y # zs) = y # take (m - length (out @ [y])) zs" for zs :: "nat list"
      by (simp add: take_Cons')
    then show ?thesis using 3 y nx ih by (subst range_loop.simps) (auto simp: cmp_ge)
  qed (subst range_loop.simps, use y in \<open>auto simp: cmp_ge not_less\<close>)+
qed

lemma rb_snapshot_range_keyed:
  assumes "keyed key s t"
  shows "rb_snapshot_range cmp lo hi m s = Some (take m (filter (in_range key lo hi) (addrs t)))"
proof -
  have f: "focus (fst s, r_node (snd s)) [] t" "sorted (map key (addrs t))" using assms by (simp_all add: keyed_def rb_wf_focus)
  then have t: "tree_at (fst s) 0 t" "r_node (snd s) = rroot t" by (simp_all add: focus_def)
  let ?ys = "dropWhile (\<lambda>a. lo \<noteq> 0 \<and> key a < key lo) (addrs t)"
  have "range_loop cmp hi (fst s) m [] (head0 ?ys) = Some ([] @ take (m - length ([] :: nat list)) (takeWhile (\<lambda>a. hi = 0 \<or> key a < key hi) ?ys))"
    by (rule range_loop_spec [OF f(1), of "takeWhile (\<lambda>a. lo \<noteq> 0 \<and> key a < key lo) (addrs t)"]) simp
  then show ?thesis using rb_find_first_ge_spec [OF t(1) f(2), of lo] t(2) range_split [OF f(2), of hi lo]
    by (simp add: rb_snapshot_range_def)
qed

lemma erase_range_loop_spec:
  "keyed key s t \<Longrightarrow> addrs t = xs @ ys \<Longrightarrow>
   \<exists>s' t'. erase_range_loop cmp hi freed (head0 ys) s = Some (freed @ takeWhile (\<lambda>a. hi = 0 \<or> key a < key hi) ys, s')
     \<and> keyed key s' t' \<and> addrs t' = xs @ dropWhile (\<lambda>a. hi = 0 \<or> key a < key hi) ys"
proof (induction ys arbitrary: s t freed)
  case Nil
  then show ?case by (subst erase_range_loop.simps) auto
next
  case (Cons y ys)
  let ?Q = "\<lambda>a. hi = 0 \<or> key a < key hi"
  have f: "focus (fst s, r_node (snd s)) [] t" using Cons.prems(1) by (simp add: keyed_def rb_wf_focus)
  have y: "y \<noteq> 0" using f Cons.prems(2) tree_at_nonzero [of "fst s" 0 t] by (auto simp: focus_def)
  show ?case
  proof (cases "?Q y")
    case False
    then have "erase_range_loop cmp hi freed y s = Some (freed, s)" using y by (subst erase_range_loop.simps) (auto simp: cmp_ge)
    then show ?thesis using False Cons.prems by auto
  next
    case True
    obtain s1 t1 where e: "rb_erase y s = Some s1" "keyed key s1 t1" "addrs t1 = xs @ ys"
      using rb_erase_keyed [OF Cons.prems] by blast
    have "erase_range_loop cmp hi freed y s = erase_range_loop cmp hi (freed @ [y]) (head0 ys) s1"
      using True y e(1) rb_next_spec [OF f Cons.prems(2)] by (subst erase_range_loop.simps) (auto simp: cmp_ge)
    then show ?thesis using Cons.IH [OF e(2,3), of "freed @ [y]"] True by simp
  qed
qed

lemma filter_out_middle: "distinct (xs @ ys @ zs) \<Longrightarrow> filter (\<lambda>a. a \<notin> set ys) (xs @ ys @ zs) = xs @ zs"
proof -
  assume "distinct (xs @ ys @ zs)"
  then have "\<forall>a\<in>set xs. a \<notin> set ys" "\<forall>a\<in>set zs. a \<notin> set ys" by auto
  then have "filter (\<lambda>a. a \<notin> set ys) xs = xs" "filter (\<lambda>a. a \<notin> set ys) zs = zs" by (simp_all add: filter_id_conv)
  then show ?thesis by simp
qed

lemma rb_erase_range_keyed:
  assumes "keyed key s t"
  shows "\<exists>s' t'. rb_erase_range cmp lo hi s = Some (filter (in_range key lo hi) (addrs t), s')
    \<and> keyed key s' t' \<and> addrs t' = filter (\<lambda>a. \<not> in_range key lo hi a) (addrs t)"
proof -
  have f: "focus (fst s, r_node (snd s)) [] t" "sorted (map key (addrs t))" using assms by (simp_all add: keyed_def rb_wf_focus)
  then have t: "tree_at (fst s) 0 t" "r_node (snd s) = rroot t" "distinct (addrs t)" by (simp_all add: focus_def)
  let ?L = "\<lambda>a. lo \<noteq> 0 \<and> key a < key lo" and ?Q = "\<lambda>a. hi = 0 \<or> key a < key hi"
  let ?xs = "takeWhile ?L (addrs t)" and ?ys = "dropWhile ?L (addrs t)"
  obtain s' t' where r: "erase_range_loop cmp hi [] (head0 ?ys) s = Some ([] @ takeWhile ?Q ?ys, s')" "keyed key s' t'"
    "addrs t' = ?xs @ dropWhile ?Q ?ys" using erase_range_loop_spec [OF assms, of ?xs ?ys hi "[]"] by auto
  have in_r: "filter (in_range key lo hi) (addrs t) = takeWhile ?Q ?ys" using range_split [OF f(2)] by simp
  have "addrs t = ?xs @ takeWhile ?Q ?ys @ dropWhile ?Q ?ys" by simp
  then have d: "distinct (?xs @ takeWhile ?Q ?ys @ dropWhile ?Q ?ys)"
    using t(3) by simp
  moreover have "in_range key lo hi a \<longleftrightarrow> a \<in> set (takeWhile ?Q ?ys)" if "a \<in> set (addrs t)" for a
    using that unfolding in_r [symmetric] by simp
  ultimately have "filter (\<lambda>a. \<not> in_range key lo hi a) (addrs t) = filter (\<lambda>a. a \<notin> set (takeWhile ?Q ?ys)) (?xs @ takeWhile ?Q ?ys @ dropWhile ?Q ?ys)"
    by (simp cong: filter_cong)
  also have "\<dots> = ?xs @ dropWhile ?Q ?ys" using d by (rule filter_out_middle)
  finally have "filter (\<lambda>a. \<not> in_range key lo hi a) (addrs t) = ?xs @ dropWhile ?Q ?ys" .
  then show ?thesis using r in_r rb_find_first_ge_spec [OF t(1) f(2), of lo] t(2)
    by (intro exI [of _ s'] exI [of _ t']) (simp add: rb_erase_range_def)
qed

end

end
