(* ===== verification/RB_Check.thy ===== *)
theory RB_Check
  imports RB_Seek
begin

text \<open>
  The depth of a red-black tree is at most twice the logarithm of its size, so that the
  depth limit of the validator is never met; the validator accepts a tree exactly when it is
  a red-black tree in the order of its nodes.
\<close>

fun height :: "rtree \<Rightarrow> nat" where
  "height Lf = 0"
| "height (Nd l c a r) = Suc (max (height l) (height r))"

lemma bheight_size: "bheight t = Some n \<Longrightarrow> 2 ^ n \<le> length (addrs t) + 1"
proof (induction t arbitrary: n)
  case (Nd l c a r)
  then obtain m where m: "bheight l = Some m" "bheight r = Some m" "n = (if c = RB_BLACK then Suc m else m)"
    by (auto split: option.splits if_splits)
  then show ?case using Nd.IH(1) [OF m(1)] Nd.IH(2) [OF m(2)] by auto
qed simp

lemma height_bheight: "bheight t = Some n \<Longrightarrow> no_red_red t \<Longrightarrow> height t \<le> 2 * n + (if red_root t then 1 else 0)"
proof (induction t arbitrary: n)
  case (Nd l c a r)
  then obtain m where m: "bheight l = Some m" "bheight r = Some m" "n = (if c = RB_BLACK then Suc m else m)"
    by (auto split: option.splits if_splits)
  have "height l \<le> 2 * m + (if red_root l then 1 else 0)" "height r \<le> 2 * m + (if red_root r then 1 else 0)"
    using Nd m by auto
  then show ?case using Nd.prems(2) m(3) by (cases c) (auto split: if_splits)
qed simp

lemma height_bound:
  assumes "rb_inv t" "length (addrs t) + 1 < 2 ^ k"
  shows "height t < 2 * k"
proof -
  obtain n where n: "bheight t = Some n" using assms by (auto simp: rb_inv_def)
  have "(2::nat) ^ n < 2 ^ k" using bheight_size [OF n] assms(2) by linarith
  then have "n < k" by simp
  then show ?thesis using height_bheight [OF n] assms(1) by (simp add: rb_inv_def)
qed

text \<open>What the validator checks below a node: bounds, colours and black heights.\<close>

fun bounded :: "rb_compare \<Rightarrow> nat \<Rightarrow> nat \<Rightarrow> rtree \<Rightarrow> bool" where
  "bounded cmp lo hi Lf = True"
| "bounded cmp lo hi (Nd l c a r) =
     ((lo \<noteq> 0 \<longrightarrow> cmp a lo \<ge> 0) \<and> (hi \<noteq> 0 \<longrightarrow> cmp a hi < 0) \<and> bounded cmp lo a l \<and> bounded cmp a hi r)"

lemma is_red_red_root: "tree_at h p t \<Longrightarrow> is_red h (rroot t) = red_root t"
  by (cases t) (auto simp: is_red_def)

lemma helper_node:
  assumes "a \<noteq> 0" "d \<le> 4096" "n_color (h a) = c" "is_red h (n_left (h a)) = bl" "is_red h (n_right (h a)) = br"
    and "rb_validate_full_helper h (n_left (h a)) lo a cmp (d + 1) = lh" "lh \<ge> 0"
    and "rb_validate_full_helper h (n_right (h a)) a hi cmp (d + 1) = rh" "rh \<ge> 0"
  shows "rb_validate_full_helper h a lo hi cmp d =
    (if lo \<noteq> 0 \<and> cmp a lo < 0 \<or> hi \<noteq> 0 \<and> cmp a hi \<ge> 0 \<or> c = RB_RED \<and> (bl \<or> br) then 0
     else if lh = 0 \<or> rh = 0 \<or> lh \<noteq> rh then 0 else lh + (if c = RB_BLACK then 1 else 0))"
  unfolding rb_validate_full_helper.simps [of h a lo hi cmp d] Let_def assms(3-6,8) using assms(1,2,7,9) by auto

lemma helper_spec:
  "tree_at h p t \<Longrightarrow> height t + d \<le> 4097 \<Longrightarrow>
   rb_validate_full_helper h (rroot t) lo hi cmp d =
     (if bounded cmp lo hi t \<and> no_red_red t then (case bheight t of Some n \<Rightarrow> int n + 1 | None \<Rightarrow> 0) else 0)"
proof (induction t arbitrary: p d lo hi)
  case Lf
  then show ?case by (subst rb_validate_full_helper.simps) simp
next
  case (Nd l c a r)
  have n: "a \<noteq> 0" "n_left (h a) = rroot l" "n_right (h a) = rroot r" "n_color (h a) = c" "tree_at h a l" "tree_at h a r" "d \<le> 4096"
    using Nd.prems by auto
  have ih: "rb_validate_full_helper h (rroot l) lo a cmp (d + 1) =
      (if bounded cmp lo a l \<and> no_red_red l then (case bheight l of Some n \<Rightarrow> int n + 1 | None \<Rightarrow> 0) else 0)"
    "rb_validate_full_helper h (rroot r) a hi cmp (d + 1) =
      (if bounded cmp a hi r \<and> no_red_red r then (case bheight r of Some n \<Rightarrow> int n + 1 | None \<Rightarrow> 0) else 0)"
    using Nd.IH(1) [OF n(5), of "d + 1" lo a] Nd.IH(2) [OF n(6), of "d + 1" a hi] Nd.prems(2) by simp_all
  note red = is_red_red_root [OF n(5)] is_red_red_root [OF n(6)]
  let ?lh = "if bounded cmp lo a l \<and> no_red_red l then (case bheight l of Some n \<Rightarrow> int n + 1 | None \<Rightarrow> 0) else 0"
  let ?rh = "if bounded cmp a hi r \<and> no_red_red r then (case bheight r of Some n \<Rightarrow> int n + 1 | None \<Rightarrow> 0) else 0"
  have pos: "?lh \<ge> 0" "?rh \<ge> 0" by (simp_all split: option.splits)
  let ?bad = "lo \<noteq> 0 \<and> cmp a lo < 0 \<or> hi \<noteq> 0 \<and> cmp a hi \<ge> 0 \<or> c = RB_RED \<and> (red_root l \<or> red_root r)"
  have "rb_validate_full_helper h (rroot (Nd l c a r)) lo hi cmp d =
      (if ?bad then 0 else if ?lh = 0 \<or> ?rh = 0 \<or> ?lh \<noteq> ?rh then 0 else ?lh + (if c = RB_BLACK then 1 else 0))"
    unfolding rroot.simps using n red ih pos by (intro helper_node) simp_all
  also have "\<dots> = (if bounded cmp lo hi (Nd l c a r) \<and> no_red_red (Nd l c a r)
      then (case bheight (Nd l c a r) of Some n \<Rightarrow> int n + 1 | None \<Rightarrow> 0) else 0)"
  proof -
    consider "\<not> bounded cmp lo a l" | "\<not> no_red_red l" | "\<not> bounded cmp a hi r" | "\<not> no_red_red r" | "bheight l = None" | "bheight r = None"
      | m n where "bounded cmp lo a l" "no_red_red l" "bounded cmp a hi r" "no_red_red r" "bheight l = Some m" "bheight r = Some n"
      by fastforce
    then show ?thesis
      by cases (auto split: option.splits)
  qed
  finally show ?case .
qed

lemma rb_validate_iff:
  assumes "repr s t" "height t \<le> 4096"
  shows "rb_validate s cmp \<longleftrightarrow> rb_inv t \<and> bounded cmp 0 0 t"
proof -
  have t: "r_node (snd s) = rroot t" "tree_at (fst s) 0 t" using assms(1) by (simp_all add: repr_def focus_def)
  note v = helper_spec [OF t(2), of 0 0 0 cmp]
  show ?thesis
  proof (cases t)
    case Lf
    then show ?thesis using t(1) by (cases s) (simp add: rb_validate_def rb_inv_def)
  next
    case (Nd l c a r)
    then have "n_color (fst s a) = c" "a \<noteq> 0" using t(2) by simp_all
    then show ?thesis using v t(1) assms(2) Nd by (cases s; cases c) (auto simp: rb_validate_def rb_inv_def split: option.splits)
  qed
qed

context rb_order
begin

lemma bounded_sorted:
  "bounded cmp lo hi t \<Longrightarrow> 0 \<notin> set (addrs t) \<Longrightarrow>
   sorted (map key (addrs t)) \<and> (\<forall>a\<in>set (addrs t). (lo = 0 \<or> key lo \<le> key a) \<and> (hi = 0 \<or> key a < key hi))"
proof (induction t arbitrary: lo hi)
  case (Nd l c a r)
  have nz: "a \<noteq> 0" "0 \<notin> set (addrs l)" "0 \<notin> set (addrs r)" using Nd.prems by auto
  have b: "lo = 0 \<or> key lo \<le> key a" "hi = 0 \<or> key a < key hi" using Nd.prems by (auto simp: cmp_ge cmp_less)
  have l: "sorted (map key (addrs l))" "\<forall>b\<in>set (addrs l). (lo = 0 \<or> key lo \<le> key b) \<and> key b < key a"
    using Nd.IH(1) [of lo a] Nd.prems nz by auto
  have r: "sorted (map key (addrs r))" "\<forall>b\<in>set (addrs r). key a \<le> key b \<and> (hi = 0 \<or> key b < key hi)"
    using Nd.IH(2) [of a hi] Nd.prems nz by auto
  have "sorted (map key (addrs (Nd l c a r)))" using l r by (fastforce simp: sorted_append)
  moreover have "(lo = 0 \<or> key lo \<le> key b) \<and> (hi = 0 \<or> key b < key hi)" if "b \<in> set (addrs (Nd l c a r))" for b
    using that l(2) r(2) b by fastforce
  ultimately show ?case by blast
qed simp

lemma strict_bounded:
  "sorted_wrt (<) (map key (addrs t)) \<Longrightarrow>
   \<forall>a\<in>set (addrs t). (lo = 0 \<or> key lo \<le> key a) \<and> (hi = 0 \<or> key a < key hi) \<Longrightarrow> bounded cmp lo hi t"
proof (induction t arbitrary: lo hi)
  case (Nd l c a r)
  have "sorted_wrt (<) (map key (addrs l))" "sorted_wrt (<) (map key (addrs r))"
    "\<forall>b\<in>set (addrs l). key b < key a" "\<forall>b\<in>set (addrs r). key a < key b"
    using Nd.prems(1) by (auto simp: sorted_wrt_append)
  then have "bounded cmp lo a l" "bounded cmp a hi r" using Nd.prems(2) by (auto intro!: Nd.IH)
  then show ?case using Nd.prems(2) by (auto simp: cmp_ge cmp_less)
qed simp

lemma rb_validate_keyed:
  assumes "keyed key s t"
  shows "rb_validate s cmp \<longleftrightarrow> bounded cmp 0 0 t"
    "distinct (map key (addrs t)) \<Longrightarrow> rb_validate s cmp"
proof -
  have w: "repr s t" "rb_inv t" "length (addrs t) < U64" "sorted (map key (addrs t))" using assms by (auto simp: keyed_def rb_wf_def)
  then have "height t < 2 * 65" by (intro height_bound) (auto simp: U64_def)
  then show v: "rb_validate s cmp \<longleftrightarrow> bounded cmp 0 0 t" using rb_validate_iff [OF w(1)] w(2) by simp
  show "rb_validate s cmp" if "distinct (map key (addrs t))"
    unfolding v using w(4) that by (intro strict_bounded) (simp_all add: strict_sorted_iff)
qed

end

end
