(* ===== verification/RB_Clients.thy ===== *)
theory RB_Clients
  imports RB_Check Sched_Types "HOL-Library.Product_Lexorder"
begin

text \<open>
  The comparators of the kernel's trees. Each reads the objects around two nodes, given as
  a function from node addresses to objects or to the one field compared, and meets the
  interface \<open>rb_order\<close> with that field as the key.
  A session on a tree is a list of operations; \<open>rb_ops_spec\<close> is what it does to the
  sorted list of nodes.
\<close>

definition thread_rb_cmp :: "(nat \<Rightarrow> thread_t) \<Rightarrow> rb_compare" where
  "thread_rb_cmp T a b =
     (if deadline (T a) < deadline (T b) then -1
      else if deadline (T a) > deadline (T b) then 1
      else if t_id (T a) < t_id (T b) then -1
      else if t_id (T a) > t_id (T b) then 1 else 0)"

definition thread_key :: "(nat \<Rightarrow> thread_t) \<Rightarrow> nat \<Rightarrow> nat \<times> nat" where
  "thread_key T a = (deadline (T a), t_id (T a))"

definition rc_cmp :: "(nat \<Rightarrow> nat) \<Rightarrow> rb_compare" where
  "rc_cmp phys a b = (if phys a < phys b then -1 else if phys a > phys b then 1 else 0)"

definition usb_dev_cmp :: "(nat \<Rightarrow> nat) \<Rightarrow> rb_compare" where
  "usb_dev_cmp dkey a b = (if dkey a < dkey b then -1 else if dkey a > dkey b then 1 else 0)"

definition pending_cmd_cmp :: "(nat \<Rightarrow> nat) \<Rightarrow> rb_compare" where
  "pending_cmd_cmp trbPtr a b = (if trbPtr a < trbPtr b then -1 else if trbPtr a > trbPtr b then 1 else 0)"

definition pending_xfer_cmp :: "(nat \<Rightarrow> nat) \<Rightarrow> rb_compare" where
  "pending_xfer_cmp trbPtr a b = (if trbPtr a < trbPtr b then -1 else if trbPtr a > trbPtr b then 1 else 0)"

interpretation thread_order: rb_order "thread_rb_cmp T" "thread_key T" for T
  by unfold_locales (auto simp: thread_rb_cmp_def thread_key_def)

interpretation rc_order: rb_order "rc_cmp f" f for f
  by unfold_locales (auto simp: rc_cmp_def)

interpretation usb_order: rb_order "usb_dev_cmp f" f for f
  by unfold_locales (auto simp: usb_dev_cmp_def)

interpretation cmd_order: rb_order "pending_cmd_cmp f" f for f
  by unfold_locales (auto simp: pending_cmd_cmp_def)

interpretation xfer_order: rb_order "pending_xfer_cmp f" f for f
  by unfold_locales (auto simp: pending_xfer_cmp_def)

section \<open>Sessions\<close>

datatype rb_op =
    Insert nat
  | Erase nat
  | Search nat
  | Pin nat
  | Unpin nat
  | Tick
  | Erase_range nat nat

fun rb_exec :: "rb_compare \<Rightarrow> rb_op \<Rightarrow> rb \<Rightarrow> rb option" where
  "rb_exec cmp (Insert a) s = rb_insert cmp a s"
| "rb_exec cmp (Erase a) s = rb_erase a s"
| "rb_exec cmp (Search a) s = map_option snd (rb_search cmp a s)"
| "rb_exec cmp (Pin a) s = Some (rb_pin_node a s)"
| "rb_exec cmp (Unpin a) s = Some (rb_unpin_node a s)"
| "rb_exec cmp Tick s = Some (fst s, rb_tick (snd s))"
| "rb_exec cmp (Erase_range lo hi) s = map_option snd (rb_erase_range cmp lo hi s)"

fun rb_session :: "rb_compare \<Rightarrow> rb_op list \<Rightarrow> rb \<Rightarrow> rb option" where
  "rb_session cmp [] s = Some s"
| "rb_session cmp (op # ops) s = (case rb_exec cmp op s of None \<Rightarrow> None | Some s' \<Rightarrow> rb_session cmp ops s')"

text \<open>The abstract tree is the list of its nodes.\<close>

fun rb_op_spec :: "(nat \<Rightarrow> 'k::linorder) \<Rightarrow> rb_op \<Rightarrow> nat list \<Rightarrow> nat list" where
  "rb_op_spec key (Insert a) xs = takeWhile (\<lambda>b. key b \<le> key a) xs @ a # dropWhile (\<lambda>b. key b \<le> key a) xs"
| "rb_op_spec key (Erase a) xs = remove1 a xs"
| "rb_op_spec key (Erase_range lo hi) xs = filter (\<lambda>a. \<not> in_range key lo hi a) xs"
| "rb_op_spec key _ xs = xs"

text \<open>What the callers owe: a node is inserted when it is outside, and erased or pinned when
  it is inside.\<close>

fun rb_op_pre :: "rb_op \<Rightarrow> nat list \<Rightarrow> bool" where
  "rb_op_pre (Insert a) xs = (a \<noteq> 0 \<and> a \<notin> set xs \<and> length xs + 1 < U64)"
| "rb_op_pre (Erase a) xs = (a \<in> set xs)"
| "rb_op_pre (Search a) xs = (a \<noteq> 0)"
| "rb_op_pre (Pin a) xs = (a \<in> set xs)"
| "rb_op_pre (Unpin a) xs = (a \<in> set xs)"
| "rb_op_pre _ xs = True"

fun rb_ops_spec :: "(nat \<Rightarrow> 'k::linorder) \<Rightarrow> rb_op list \<Rightarrow> nat list \<Rightarrow> nat list" where
  "rb_ops_spec key [] xs = xs"
| "rb_ops_spec key (op # ops) xs = rb_ops_spec key ops (rb_op_spec key op xs)"

fun rb_ops_pre :: "(nat \<Rightarrow> 'k::linorder) \<Rightarrow> rb_op list \<Rightarrow> nat list \<Rightarrow> bool" where
  "rb_ops_pre key [] xs = True"
| "rb_ops_pre key (op # ops) xs = (rb_op_pre op xs \<and> rb_ops_pre key ops (rb_op_spec key op xs))"

context rb_order
begin

lemma rb_exec_refines:
  assumes s: "keyed key s t" and pre: "rb_op_pre op (addrs t)"
  shows "\<exists>s' t'. rb_exec cmp op s = Some s' \<and> keyed key s' t' \<and> addrs t' = rb_op_spec key op (addrs t)"
proof (cases op)
  case (Insert a)
  then show ?thesis using rb_insert_keyed [OF s, of a] pre by auto
next
  case (Erase a)
  then obtain xs ys where xy: "addrs t = xs @ a # ys" "a \<notin> set xs" using pre split_list_first [of a "addrs t"] by auto
  then show ?thesis using rb_erase_keyed [OF s xy(1)] Erase by (force simp: remove1_append)
next
  case (Search a)
  then show ?thesis using rb_search_keyed [OF s, of a] pre by auto
next
  case (Pin a)
  then show ?thesis using rb_pin_wf(1) [of s t a] s pre by (auto simp: keyed_def)
next
  case (Unpin a)
  then show ?thesis using rb_pin_wf(2) [of s t a] s pre by (auto simp: keyed_def)
next
  case Tick
  have "keyed key (fst s, rb_tick (snd s)) t" using s
    by (simp add: keyed_def rb_wf_def repr_def rb_tick_def stats_of_def)
  then show ?thesis using Tick by auto
next
  case (Erase_range lo hi)
  then show ?thesis using rb_erase_range_keyed [OF s, of lo hi] by auto
qed

lemma rb_session_refines:
  "keyed key s t \<Longrightarrow> rb_ops_pre key ops (addrs t) \<Longrightarrow>
   \<exists>s' t'. rb_session cmp ops s = Some s' \<and> keyed key s' t' \<and> addrs t' = rb_ops_spec key ops (addrs t)"
proof (induction ops arbitrary: s t)
  case (Cons op ops)
  obtain s1 t1 where 1: "rb_exec cmp op s = Some s1" "keyed key s1 t1" "addrs t1 = rb_op_spec key op (addrs t)"
    using rb_exec_refines [OF Cons.prems(1), of op] Cons.prems(2) by auto
  then show ?case using Cons.IH [OF 1(2)] Cons.prems(2) by simp
qed auto

end

end
