(* ===== verification/SQ_Model.thy ===== *)
theory SQ_Model
  imports RB_Clients RIP_Model
begin

text \<open>
  The fair layer of the scheduler (\<open>kernel/src/arch/x86_64/schedule/sched.cpp\<close>): the placement of
  a thread that enters a run queue, the queue operations and the choice of the next thread.

  The state of one processor's operations is a triple of the threads, the tree nodes and the
  processor. A function that walks the tree returns \<open>None\<close> when it does not return. Signed
  arithmetic on lags is on integers.
\<close>

type_synonym rq = "(nat \<Rightarrow> thread_t) \<times> rb_heap \<times> cpu_t"

section \<open>Placement\<close>

text \<open>The virtual time at which a thread with a saved lag resumes.\<close>

definition wake_target :: "thread_t \<Rightarrow> nat \<Rightarrow> nat \<Rightarrow> nat" where
  "wake_target t avg_vr virtual_slice =
     (let wake_lo = mul64 virtual_slice 4;
          wake_hi = mul64 wake_lo 2;
          w = (if t_weight t \<noteq> 0 then int (t_weight t) else 1024);
          lag_vr = (if vlag t \<ge> 0 then (vlag t + w div 2) div w else - ((- vlag t + w div 2) div w));
          target = (if lag_vr \<ge> 0 then (if nat lag_vr > avg_vr then 0 else avg_vr - nat lag_vr)
                    else add64 avg_vr (nat (- lag_vr)));
          lo = (if avg_vr > wake_lo then avg_vr - wake_lo else 0);
          hi = add64 avg_vr wake_hi;
          t1 = (if target < lo then lo else target)
      in if t1 > hi then hi else t1)"

definition place_vruntime :: "nat \<Rightarrow> nat \<Rightarrow> thread_t \<Rightarrow> thread_t" where
  "place_vruntime avg_vr virtual_slice t =
     (if vlag t \<noteq> 0
      then t\<lparr>vruntime := wake_target t avg_vr virtual_slice, vruntime_rem := 0, vlag := 0\<rparr>
      else
        let max_lag = virtual_slice;
            target_vr = (if avg_vr > max_lag then avg_vr - max_lag else 0);
            top_vr = add64 avg_vr (mul64 max_lag 2)
        in if vruntime t < target_vr then t\<lparr>vruntime := target_vr, vruntime_rem := 0\<rparr>
           else if vruntime t > top_vr then t\<lparr>vruntime := top_vr, vruntime_rem := 0\<rparr>
           else t)"

definition calibrate_and_set_deadline :: "cpu_t \<Rightarrow> thread_t \<Rightarrow> thread_t" where
  "calibrate_and_set_deadline cpu t0 =
     (let t = place_vruntime (avg_vruntime cpu) (base_quantum cpu) t0;
          t1 = (if deadline t \<noteq> 0 \<and> s64 (int (sub64 (vruntime t) (deadline t))) < 0 then t
                else t\<lparr>deadline := add64 (vruntime t) (base_quantum cpu)\<rparr>)
      in t1\<lparr>min_vruntime_subtree := vruntime t1\<rparr>)"

section \<open>The queue\<close>

definition subtree_min :: "(nat \<Rightarrow> thread_t) \<Rightarrow> rb_heap \<Rightarrow> nat \<Rightarrow> nat" where
  "subtree_min T h node =
     (let m0 = vruntime (T node);
          l = n_left (h node); r = n_right (h node);
          m1 = (if l \<noteq> 0 \<and> min_vruntime_subtree (T l) < m0 then min_vruntime_subtree (T l) else m0)
      in if r \<noteq> 0 \<and> min_vruntime_subtree (T r) < m1 then min_vruntime_subtree (T r) else m1)"

partial_function (option) update_min_vruntime_upward ::
    "rb_heap \<Rightarrow> nat \<Rightarrow> (nat \<Rightarrow> thread_t) \<Rightarrow> (nat \<Rightarrow> thread_t) option" where
  "update_min_vruntime_upward h node T =
     (if node = 0 then Some T
      else let min_vr = subtree_min T h node in
           if min_vruntime_subtree (T node) = min_vr then Some T
           else update_min_vruntime_upward h (n_parent (h node)) (T(node := (T node)\<lparr>min_vruntime_subtree := min_vr\<rparr>)))"

text \<open>The counters and flags of a processor when a thread leaves or enters its queue.\<close>

definition leave_rq :: "rb_root \<Rightarrow> nat \<Rightarrow> cpu_t \<Rightarrow> cpu_t" where
  "leave_rq root weight cpu =
     (let c1 = cpu\<lparr>runqueue_root := root, thread_count := sub64 (thread_count cpu) 1, total_weight := sub64 (total_weight cpu) weight\<rparr>;
          c2 = (if thread_count c1 = 1 then c1\<lparr>has_surplus := False\<rparr> else c1)
      in if thread_count c2 = 0 then c2\<lparr>has_runnable_thread := False\<rparr> else c2)"

definition enter_rq :: "rb_root \<Rightarrow> nat \<Rightarrow> cpu_t \<Rightarrow> cpu_t" where
  "enter_rq root weight cpu =
     (let c1 = cpu\<lparr>runqueue_root := root, thread_count := add64 (thread_count cpu) 1, total_weight := add64 (total_weight cpu) weight\<rparr>;
          c2 = (if thread_count c1 = 1 then c1\<lparr>has_runnable_thread := True\<rparr> else c1)
      in if thread_count c2 = 2 then c2\<lparr>has_surplus := True\<rparr> else c2)"

definition RemoveFromQueue :: "nat \<Rightarrow> rq \<Rightarrow> rq option" where
  "RemoveFromQueue thread s =
     (case s of (T, h, cpu) \<Rightarrow>
      if \<not> on_rq (T thread) then Some s
      else case rb_erase thread (h, runqueue_root cpu) of
        None \<Rightarrow> None
      | Some (h', root) \<Rightarrow>
          let T1 = T(thread := (T thread)\<lparr>on_rq := False\<rparr>)
          in map_option (\<lambda>T2. (T2, h', leave_rq root (t_weight (T thread)) cpu))
               (if n_parent (h' thread) \<noteq> 0 then update_min_vruntime_upward h' (n_parent (h' thread)) T1 else Some T1))"

definition InsertToQueue :: "nat \<Rightarrow> rq \<Rightarrow> rq option" where
  "InsertToQueue thread s =
     (case s of (T, h, cpu) \<Rightarrow>
      if on_rq (T thread) then Some s
      else
        let T1 = T(thread := calibrate_and_set_deadline cpu (T thread)) in
        case rb_insert (thread_rb_cmp T1) thread (h, runqueue_root cpu) of
          None \<Rightarrow> None
        | Some (h', root) \<Rightarrow>
            let T2 = T1(thread := (T1 thread)\<lparr>on_rq := True\<rparr>)
            in map_option (\<lambda>T3. (T3, h', enter_rq root (t_weight (T2 thread)) cpu)) (update_min_vruntime_upward h' thread T2))"

section \<open>The choice\<close>

partial_function (option) runnable_from :: "(nat \<Rightarrow> thread_t) \<Rightarrow> rb_heap \<Rightarrow> nat \<Rightarrow> nat option" where
  "runnable_from T h node =
     (if node = 0 then Some 0
      else case rb_next h node of
             None \<Rightarrow> None
           | Some nx \<Rightarrow> if t_state (T node) = THREAD_RUNNING then Some node else runnable_from T h nx)"

definition first_runnable :: "(nat \<Rightarrow> thread_t) \<Rightarrow> rb_heap \<Rightarrow> nat \<Rightarrow> nat option" where
  "first_runnable T h root = (case rb_first h root of None \<Rightarrow> None | Some node \<Rightarrow> runnable_from T h node)"

partial_function (option) pick_descend :: "(nat \<Rightarrow> thread_t) \<Rightarrow> rb_heap \<Rightarrow> nat \<Rightarrow> nat \<Rightarrow> nat option" where
  "pick_descend T h avg_vr node =
     (if node = 0 then Some 0
      else if n_left (h node) \<noteq> 0 \<and> min_vruntime_subtree (T (n_left (h node))) \<le> avg_vr
           then pick_descend T h avg_vr (n_left (h node))
      else if vruntime (T node) \<le> avg_vr \<and> t_state (T node) = THREAD_RUNNING then Some node
      else pick_descend T h avg_vr (n_right (h node)))"

definition pick_best :: "rq \<Rightarrow> nat option" where
  "pick_best s =
     (case s of (T, h, cpu) \<Rightarrow>
      let root = r_node (runqueue_root cpu) in
      if min_vruntime_subtree (T root) > avg_vruntime cpu then first_runnable T h root
      else case pick_descend T h (avg_vruntime cpu) root of
             None \<Rightarrow> None
           | Some best \<Rightarrow> if best = 0 then first_runnable T h root else Some best)"

definition Pick :: "rq \<Rightarrow> (nat \<times> rq) option" where
  "Pick s =
     (if r_node (runqueue_root (snd (snd s))) = 0 then Some (0, s)
      else case pick_best s of
             None \<Rightarrow> None
           | Some best \<Rightarrow> if best \<noteq> 0 then map_option (\<lambda>s'. (best, s')) (RemoveFromQueue best s) else Some (0, s))"

end
