(* ===== verification/SQ_Inv.thy ===== *)
theory SQ_Inv
  imports SQ_Model
begin

text \<open>
  The invariant of a run queue and the operations that insert and remove a thread. The walk that
  repairs the subtree minima changes nothing but these minima.
\<close>

section \<open>Changes of the minima only\<close>

definition only_min :: "nat set \<Rightarrow> (nat \<Rightarrow> thread_t) \<Rightarrow> (nat \<Rightarrow> thread_t) \<Rightarrow> bool" where
  "only_min A T T' \<longleftrightarrow> (\<forall>a. T' a = (T a)\<lparr>min_vruntime_subtree := min_vruntime_subtree (T' a)\<rparr> \<and> (a \<notin> A \<longrightarrow> T' a = T a))"

lemma only_min_refl [simp]: "only_min A T T"
  by (simp add: only_min_def)

lemma only_min_fields:
  assumes "only_min A T T'"
  shows "t_id (T' a) = t_id (T a)" "deadline (T' a) = deadline (T a)" "vruntime (T' a) = vruntime (T a)"
    "t_state (T' a) = t_state (T a)" "on_rq (T' a) = on_rq (T a)" "t_weight (T' a) = t_weight (T a)"
    "pinned (T' a) = pinned (T a)" "cpu_num (T' a) = cpu_num (T a)" "timer_bucket (T' a) = timer_bucket (T a)"
    "zombie_next (T' a) = zombie_next (T a)"
  by (subst assms [unfolded only_min_def, rule_format, THEN conjunct1]; simp)+

lemma only_min_other: "only_min A T T' \<Longrightarrow> a \<notin> A \<Longrightarrow> T' a = T a"
  by (simp add: only_min_def)

lemma only_min_key: "only_min A T T' \<Longrightarrow> thread_key T' = thread_key T"
  by (rule ext) (simp add: thread_key_def only_min_fields)

lemma only_min_step:
  assumes "only_min A (T(a := (T a)\<lparr>min_vruntime_subtree := m\<rparr>)) T'" "a \<in> A"
  shows "only_min A T T'"
  unfolding only_min_def
proof
  fix b
  have "T' b = ((T(a := (T a)\<lparr>min_vruntime_subtree := m\<rparr>)) b)\<lparr>min_vruntime_subtree := min_vruntime_subtree (T' b)\<rparr>"
    using assms(1) unfolding only_min_def by blast
  also have "\<dots> = (T b)\<lparr>min_vruntime_subtree := min_vruntime_subtree (T' b)\<rparr>" by simp
  finally show "T' b = (T b)\<lparr>min_vruntime_subtree := min_vruntime_subtree (T' b)\<rparr> \<and> (b \<notin> A \<longrightarrow> T' b = T b)"
    using only_min_other [OF assms(1), of b] assms(2) by auto
qed

text \<open>The values fit the widths of their fields.\<close>

definition thread_typed :: "thread_t \<Rightarrow> bool" where
  "thread_typed t \<longleftrightarrow> vruntime t < U64 \<and> deadline t < U64 \<and> min_vruntime_subtree t < U64 \<and> t_weight t < U32"

definition cpu_typed :: "cpu_t \<Rightarrow> bool" where
  "cpu_typed c \<longleftrightarrow> avg_vruntime c < U64 \<and> base_quantum c < U64 \<and> thread_count c < U64 \<and> total_weight c < U64"

lemma subtree_min_typed: "(\<forall>a. thread_typed (T a)) \<Longrightarrow> subtree_min T h p < U64"
  by (auto simp: subtree_min_def Let_def thread_typed_def)

lemma set_min_typed: "\<forall>a. thread_typed (T a) \<Longrightarrow> m < U64 \<Longrightarrow> \<forall>a. thread_typed ((T(p := (T p)\<lparr>min_vruntime_subtree := m\<rparr>)) a)"
  by (simp add: thread_typed_def)

lemma repair_typed: "(\<forall>a. thread_typed (T a)) \<longrightarrow> (\<forall>a. thread_typed ((T(p := (T p)\<lparr>min_vruntime_subtree := subtree_min T h p\<rparr>)) a))"
  by (intro impI set_min_typed subtree_min_typed)

text \<open>The walk ends at the root at the latest.\<close>

lemma update_min_ends:
  assumes "ctx_at h root p k" "p \<noteq> 0" "n_parent (h p) = kpar k" "insert p (set (kaddrs k)) \<subseteq> A"
  shows "\<exists>T'. update_min_vruntime_upward h p T = Some T' \<and> only_min A T T' \<and> ((\<forall>a. thread_typed (T a)) \<longrightarrow> (\<forall>a. thread_typed (T' a)))"
  using assms
proof (induction k arbitrary: p T)
  case Nil
  let ?T1 = "T(p := (T p)\<lparr>min_vruntime_subtree := subtree_min T h p\<rparr>)"
  have "update_min_vruntime_upward h 0 ?T1 = Some ?T1" by (subst update_min_vruntime_upward.simps) simp
  moreover have "only_min A T ?T1" using Nil only_min_step [of A T p _ ?T1, OF only_min_refl] by auto
  moreover have "(\<forall>a. thread_typed (T a)) \<longrightarrow> (\<forall>a. thread_typed (?T1 a))" by (rule repair_typed)
  ultimately show ?case using Nil.prems by (subst update_min_vruntime_upward.simps) (simp add: Let_def)
next
  case (Cons f k)
  let ?T1 = "T(p := (T p)\<lparr>min_vruntime_subtree := subtree_min T h p\<rparr>)"
  have "ctx_at h root (kpar (f # k)) k" "kpar (f # k) \<noteq> 0" "n_parent (h (kpar (f # k))) = kpar k" "insert (kpar (f # k)) (set (kaddrs k)) \<subseteq> A"
    using Cons.prems by (cases f; auto)+
  from Cons.IH [OF this] obtain T' where "update_min_vruntime_upward h (kpar (f # k)) ?T1 = Some T'" "only_min A ?T1 T'"
    "(\<forall>a. thread_typed (?T1 a)) \<longrightarrow> (\<forall>a. thread_typed (T' a))" by blast
  moreover have "only_min A T T'" using only_min_step [OF calculation(2)] Cons.prems by auto
  moreover have "(\<forall>a. thread_typed (T a)) \<longrightarrow> (\<forall>a. thread_typed (?T1 a))" by (rule repair_typed)
  ultimately show ?case using Cons.prems by (subst update_min_vruntime_upward.simps) (simp add: Let_def)
qed

lemma update_min_tree:
  assumes "focus (h, root) [] t" "p \<in> set (addrs t)"
  shows "\<exists>T'. update_min_vruntime_upward h p T = Some T' \<and> only_min (set (addrs t)) T T' \<and> ((\<forall>a. thread_typed (T a)) \<longrightarrow> (\<forall>a. thread_typed (T' a)))"
proof -
  obtain xs ys where "addrs t = xs @ p # ys" using assms(2) by (meson split_list)
  from focus_at [OF assms(1) this] obtain k l c r where f: "focus (h, root) k (Nd l c p r)" and xy: "xs = kpre k @ addrs l" "ys = addrs r @ kpost k" by blast
  have "set (kpre k) \<union> set (kpost k) = set (kaddrs k)" using addrs_plug_set [of k Lf] addrs_plug [of k Lf] by auto
  then have "insert p (set (kaddrs k)) \<subseteq> set (addrs t)" using \<open>addrs t = xs @ p # ys\<close> xy by auto
  then show ?thesis using f by (intro update_min_ends [of h root p k]) (auto simp: focus_def)
qed

section \<open>The invariant\<close>

definition weight_sum :: "(nat \<Rightarrow> thread_t) \<Rightarrow> nat list \<Rightarrow> nat" where
  "weight_sum T xs = sum_list (map (\<lambda>a. t_weight (T a)) xs)"

definition queued :: "rq \<Rightarrow> rtree \<Rightarrow> bool" where
  "queued s t = (case s of (T, h, c) \<Rightarrow>
     (\<forall>a. thread_typed (T a)) \<and> cpu_typed c
     \<and> keyed (thread_key T) (h, runqueue_root c) t \<and> (\<forall>a\<in>set (addrs t). on_rq (T a))
     \<and> thread_count c = length (addrs t) \<and> total_weight c = weight_sum T (addrs t) mod U64
     \<and> (has_runnable_thread c \<longleftrightarrow> addrs t \<noteq> []) \<and> (has_surplus c \<longleftrightarrow> 2 \<le> length (addrs t)))"

lemma keyed_cong: "(\<And>a. a \<in> set (addrs t) \<Longrightarrow> key a = key' a) \<Longrightarrow> keyed key s t = keyed key' s t"
proof -
  assume "\<And>a. a \<in> set (addrs t) \<Longrightarrow> key a = key' a"
  then have "map key (addrs t) = map key' (addrs t)" by simp
  then show ?thesis by (simp only: keyed_def)
qed

lemma keyed_facts:
  assumes "keyed key (h, root) t"
  shows "focus (h, r_node root) [] t" "distinct (addrs t)" "0 \<notin> set (addrs t)" "length (addrs t) < U64" "r_node root = rroot t" "tree_at h 0 t"
  using assms tree_at_nonzero [of h 0 t] by (auto simp: keyed_def rb_wf_def repr_def focus_def)

lemma cap_le: "(if x > hi then hi else x) \<le> (hi :: nat)" by simp

lemma wake_target_le: "wake_target t avg_vr s \<le> add64 avg_vr (mul64 (mul64 s 4) 2)"
  unfolding wake_target_def Let_def by (rule cap_le)

lemma wake_target_less: "wake_target t avg_vr s < U64"
  using wake_target_le add64_less by (rule le_less_trans)

lemma place_vruntime_typed: "vruntime t < U64 \<Longrightarrow> a < U64 \<Longrightarrow> vruntime (place_vruntime a s t) < U64"
  by (auto simp: place_vruntime_def Let_def wake_target_less add64_less)

lemma calibrate_typed:
  assumes "thread_typed t" "cpu_typed c"
  shows "thread_typed (calibrate_and_set_deadline c t)"
proof -
  have v: "vruntime (place_vruntime (avg_vruntime c) (base_quantum c) t) < U64"
    using assms by (intro place_vruntime_typed) (simp_all add: thread_typed_def cpu_typed_def)
  moreover have "t_weight (place_vruntime a b t) = t_weight t" "deadline (place_vruntime a b t) = deadline t" for a b
    by (simp_all add: place_vruntime_def Let_def)
  ultimately show ?thesis using assms add64_less by (simp add: calibrate_and_set_deadline_def Let_def thread_typed_def)
qed

end
