(* ===== verification/SQ_Queue.thy ===== *)
theory SQ_Queue
  imports SQ_Inv
begin

text \<open>
  Insertion into and removal from a run queue keep its invariant. Both return, change no other
  field of another thread than its subtree minimum, and touch only the tree nodes of the queue.
\<close>

section \<open>Removal\<close>

lemma weight_sum_append [simp]: "weight_sum T (xs @ ys) = weight_sum T xs + weight_sum T ys"
  and weight_sum_Cons [simp]: "weight_sum T (a # xs) = t_weight (T a) + weight_sum T xs"
  and weight_sum_Nil [simp]: "weight_sum T [] = 0"
  by (simp_all add: weight_sum_def)

lemma weight_sum_cong: "(\<And>a. a \<in> set xs \<Longrightarrow> t_weight (T a) = t_weight (T' a)) \<Longrightarrow> weight_sum T xs = weight_sum T' xs"
  unfolding weight_sum_def by (metis (mono_tags, lifting) map_eq_conv)

lemma sub_weight: "w < U64 \<Longrightarrow> sub64 ((x + w) mod U64) w = x mod U64"
  using add64_sub64_cancel [of "x mod U64" w] by (simp add: add64_def mod_add_left_eq U64_def)

lemma typed_weight: "thread_typed t \<Longrightarrow> t_weight t < U64"
  by (simp add: thread_typed_def U32_def U64_def)

text \<open>The counters follow the list of queued threads.\<close>

definition counted :: "(nat \<Rightarrow> thread_t) \<Rightarrow> nat list \<Rightarrow> cpu_t \<Rightarrow> bool" where
  "counted T xs c \<longleftrightarrow> thread_count c = length xs \<and> total_weight c = weight_sum T xs mod U64
     \<and> (has_runnable_thread c \<longleftrightarrow> xs \<noteq> []) \<and> (has_surplus c \<longleftrightarrow> 2 \<le> length xs)"

lemma queued_counted:
  "queued (T, h, c) t \<longleftrightarrow> (\<forall>a. thread_typed (T a)) \<and> cpu_typed c \<and> keyed (thread_key T) (h, runqueue_root c) t
     \<and> (\<forall>a\<in>set (addrs t). on_rq (T a)) \<and> counted T (addrs t) c"
  by (auto simp: queued_def counted_def)

lemma leave_counted:
  assumes "counted T (xs @ a # ys) c" "t_weight (T a) < U64"
  shows "counted T (xs @ ys) (leave_rq root (t_weight (T a)) c)"
proof -
  have "weight_sum T (xs @ a # ys) = weight_sum T (xs @ ys) + t_weight (T a)" by simp
  then have "sub64 (total_weight c) (t_weight (T a)) = weight_sum T (xs @ ys) mod U64"
    using assms sub_weight by (simp only: counted_def)
  moreover have "sub64 (thread_count c) 1 = length (xs @ ys)" using assms by (simp add: counted_def sub64_id)
  ultimately show ?thesis using assms(1) by (auto simp: counted_def leave_rq_def Let_def)
qed

lemma enter_counted:
  assumes "counted T (xs @ ys) c" "t_weight (T a) < U64" "length (xs @ ys) + 1 < U64"
  shows "counted T (xs @ a # ys) (enter_rq root (t_weight (T a)) c)"
proof -
  have "add64 (total_weight c) (t_weight (T a)) = weight_sum T (xs @ a # ys) mod U64"
    using assms(1) by (simp add: counted_def add64_def mod_add_left_eq ac_simps mod_add_right_eq)
  moreover have "add64 (thread_count c) 1 = length (xs @ a # ys)" using assms by (simp add: counted_def add64_id)
  ultimately show ?thesis using assms(1) by (auto simp: counted_def enter_rq_def Let_def simp flip: length_greater_0_conv)
qed

lemma leave_fields [simp]: "runqueue_root (leave_rq root w c) = root" "avg_vruntime (leave_rq root w c) = avg_vruntime c"
  "base_quantum (leave_rq root w c) = base_quantum c" "c_id (leave_rq root w c) = c_id c"
  "current_thread (leave_rq root w c) = current_thread c" "idle_thread (leave_rq root w c) = idle_thread c"
  by (simp_all add: leave_rq_def Let_def)

lemma enter_fields [simp]: "runqueue_root (enter_rq root w c) = root" "avg_vruntime (enter_rq root w c) = avg_vruntime c"
  "base_quantum (enter_rq root w c) = base_quantum c" "c_id (enter_rq root w c) = c_id c"
  "current_thread (enter_rq root w c) = current_thread c" "idle_thread (enter_rq root w c) = idle_thread c"
  by (simp_all add: enter_rq_def Let_def)

lemma leave_typed: "cpu_typed c \<Longrightarrow> w < U64 \<Longrightarrow> cpu_typed (leave_rq root w c)"
  by (auto simp: cpu_typed_def leave_rq_def Let_def intro!: sub64_less) (auto simp: U64_def)

lemma enter_typed: "cpu_typed c \<Longrightarrow> cpu_typed (enter_rq root w c)"
  by (auto simp: cpu_typed_def enter_rq_def Let_def add64_less) (auto simp: U64_def)

lemma old_parent:
  assumes "focus (h, root) [] t" "addrs t = xs @ a # ys"
  shows "n_parent (h a) = 0 \<or> n_parent (h a) \<in> set (xs @ ys)"
proof -
  from focus_at [OF assms] obtain k l c r where f: "focus (h, root) k (Nd l c a r)" and xy: "xs = kpre k @ addrs l" "ys = addrs r @ kpost k" by blast
  have "set (kpre k) \<union> set (kpost k) = set (kaddrs k)" using addrs_plug_set [of k Lf] addrs_plug [of k Lf] by auto
  moreover have "kpar k = 0 \<or> kpar k \<in> set (kaddrs k)" by (cases k rule: kpar.cases) auto
  moreover have "n_parent (h a) = kpar k" using f by (simp add: focus_def)
  ultimately show ?thesis using xy by auto
qed

lemma remove_spec:
  assumes q: "queued (T, h, c) t" and a: "addrs t = xs @ a # ys"
  shows "\<exists>T' h' root t'. RemoveFromQueue a (T, h, c) = Some (T', h', leave_rq root (t_weight (T a)) c)
    \<and> queued (T', h', leave_rq root (t_weight (T a)) c) t' \<and> addrs t' = xs @ ys
    \<and> only_min (set (xs @ ys)) (T(a := (T a)\<lparr>on_rq := False\<rparr>)) T' \<and> (\<forall>b. b \<notin> set (addrs t) \<longrightarrow> h' b = h b)"
proof -
  let ?T1 = "T(a := (T a)\<lparr>on_rq := False\<rparr>)"
  have ty: "\<forall>b. thread_typed (T b)" "cpu_typed c" and k: "keyed (thread_key T) (h, runqueue_root c) t" and rq: "\<forall>b\<in>set (addrs t). on_rq (T b)"
    and n: "counted T (xs @ a # ys) c"
    using q a by (auto simp: queued_counted)
  note kf = keyed_facts [OF k]
  have d: "a \<notin> set xs" "a \<notin> set ys" using kf(2) a by auto
  from thread_order.rb_erase_keyed [OF k a] obtain h' root t' where e: "rb_erase a (h, runqueue_root c) = Some (h', root)"
    "keyed (thread_key T) (h', root) t'" "addrs t' = xs @ ys" "\<forall>b. b \<notin> set (addrs t) \<longrightarrow> h' b = h b" "n_parent (h' a) = n_parent (h a)"
    by auto
  note kf' = keyed_facts [OF e(2)]
  have ty1: "\<forall>b. thread_typed (?T1 b)" using ty(1) by (simp add: thread_typed_def)
  have "\<exists>T'. (if n_parent (h' a) \<noteq> 0 then update_min_vruntime_upward h' (n_parent (h' a)) ?T1 else Some ?T1) = Some T'
      \<and> only_min (set (xs @ ys)) ?T1 T' \<and> (\<forall>b. thread_typed (T' b))"
    using update_min_tree [OF kf'(1), of "n_parent (h' a)" ?T1] old_parent [OF kf(1) a] e(3,5) ty1
    by (cases "n_parent (h' a) = 0") auto
  then obtain T' where u: "(if n_parent (h' a) \<noteq> 0 then update_min_vruntime_upward h' (n_parent (h' a)) ?T1 else Some ?T1) = Some T'"
    "only_min (set (xs @ ys)) ?T1 T'" "\<forall>b. thread_typed (T' b)" by blast
  have r: "RemoveFromQueue a (T, h, c) = Some (T', h', leave_rq root (t_weight (T a)) c)"
    using u(1) rq a e(1) unfolding RemoveFromQueue_def by (simp add: Let_def)
  have f: "weight_sum T' (xs @ ys) = weight_sum T (xs @ ys)" "\<forall>b\<in>set (xs @ ys). on_rq (T' b)" "thread_key T' = thread_key T"
    using d rq a by (auto intro!: weight_sum_cong simp: only_min_fields [OF u(2)] only_min_key [OF u(2)] thread_key_def simp del: weight_sum_append)
  have "counted T' (xs @ ys) (leave_rq root (t_weight (T a)) c)"
    using leave_counted [OF n typed_weight, of root] ty(1) f(1) unfolding counted_def by simp
  then have "queued (T', h', leave_rq root (t_weight (T a)) c) t'"
    using leave_typed [OF ty(2) typed_weight] ty(1) u(3) e(2,3) f(2,3) by (simp add: queued_counted)
  then show ?thesis using r e(3,4) u(2) by blast
qed

section \<open>Insertion\<close>

lemma calibrate_fields [simp]:
  "t_id (calibrate_and_set_deadline c t) = t_id t" "t_state (calibrate_and_set_deadline c t) = t_state t"
  "on_rq (calibrate_and_set_deadline c t) = on_rq t" "t_weight (calibrate_and_set_deadline c t) = t_weight t"
  "pinned (calibrate_and_set_deadline c t) = pinned t" "cpu_num (calibrate_and_set_deadline c t) = cpu_num t"
  "timer_bucket (calibrate_and_set_deadline c t) = timer_bucket t" "zombie_next (calibrate_and_set_deadline c t) = zombie_next t"
  by (simp_all add: calibrate_and_set_deadline_def place_vruntime_def Let_def)

definition entering :: "cpu_t \<Rightarrow> nat \<Rightarrow> (nat \<Rightarrow> thread_t) \<Rightarrow> nat \<Rightarrow> thread_t" where
  "entering c a T = T(a := (calibrate_and_set_deadline c (T a))\<lparr>on_rq := True\<rparr>)"

definition at_key :: "(nat \<Rightarrow> nat \<times> nat) \<Rightarrow> nat \<Rightarrow> nat list \<Rightarrow> nat list" where
  "at_key key a xs = takeWhile (\<lambda>b. key b \<le> key a) xs @ a # dropWhile (\<lambda>b. key b \<le> key a) xs"

lemma at_key_set [simp]: "set (at_key key a xs) = insert a (set xs)"
  using set_append [of "takeWhile (\<lambda>b. key b \<le> key a) xs" "dropWhile (\<lambda>b. key b \<le> key a) xs"] by (simp add: at_key_def)

lemma at_key_length [simp]: "length (at_key key a xs) = Suc (length xs)"
  using length_append [of "takeWhile (\<lambda>b. key b \<le> key a) xs" "dropWhile (\<lambda>b. key b \<le> key a) xs"] by (simp add: at_key_def)

lemma insert_spec:
  assumes q: "queued (T, h, c) t" and a: "a \<noteq> 0" "a \<notin> set (addrs t)" "\<not> on_rq (T a)" and room: "length (addrs t) + 1 < U64"
  shows "\<exists>T' h' root t'. InsertToQueue a (T, h, c) = Some (T', h', enter_rq root (t_weight (T a)) c)
    \<and> queued (T', h', enter_rq root (t_weight (T a)) c) t' \<and> addrs t' = at_key (thread_key T') a (addrs t)
    \<and> only_min (set (addrs t')) (entering c a T) T' \<and> (\<forall>b. b \<noteq> a \<longrightarrow> b \<notin> set (addrs t) \<longrightarrow> h' b = h b)"
proof -
  let ?T1 = "T(a := calibrate_and_set_deadline c (T a))"
  have ty: "\<forall>b. thread_typed (T b)" "cpu_typed c" and k: "keyed (thread_key T) (h, runqueue_root c) t" and rq: "\<forall>b\<in>set (addrs t). on_rq (T b)"
    and n: "counted T (addrs t) c"
    using q by (auto simp: queued_counted)
  have "keyed (thread_key ?T1) (h, runqueue_root c) t = keyed (thread_key T) (h, runqueue_root c) t"
    using a(2) by (intro keyed_cong) (auto simp: thread_key_def)
  with k have k1: "keyed (thread_key ?T1) (h, runqueue_root c) t" by simp
  from thread_order.rb_insert_keyed [OF k1 a(1,2) room] obtain h' root t' where e:
    "rb_insert (thread_rb_cmp ?T1) a (h, runqueue_root c) = Some (h', root)" "keyed (thread_key ?T1) (h', root) t'"
    "addrs t' = at_key (thread_key ?T1) a (addrs t)" "\<forall>b. b \<noteq> a \<longrightarrow> b \<notin> set (addrs t) \<longrightarrow> h' b = h b"
    unfolding at_key_def by auto
  have ty2: "\<forall>b. thread_typed (entering c a T b)"
    using ty calibrate_typed [OF _ ty(2), of "T a"] by (auto simp: entering_def thread_typed_def)
  have key: "thread_key (entering c a T) = thread_key ?T1" by (auto simp: entering_def thread_key_def)
  obtain T' where u: "update_min_vruntime_upward h' a (entering c a T) = Some T'" "only_min (set (addrs t')) (entering c a T) T'" "\<forall>b. thread_typed (T' b)"
    using update_min_tree [OF keyed_facts(1) [OF e(2)], of a "entering c a T"] e(3) ty2 by auto
  have r: "InsertToQueue a (T, h, c) = Some (T', h', enter_rq root (t_weight (T a)) c)"
    using u(1) a(3) e(1) unfolding InsertToQueue_def by (simp add: Let_def entering_def)
  note of = only_min_fields [OF u(2)]
  have k': "thread_key T' = thread_key ?T1" using only_min_key [OF u(2)] key by simp
  have f: "t_weight (T' b) = t_weight (T b)" "on_rq (T' b) = (b = a \<or> on_rq (T b))" for b
    by (simp_all add: of entering_def)
  have "weight_sum T' xs = weight_sum T xs" for xs using f(1) by (intro weight_sum_cong) simp
  moreover have "counted T (addrs t') (enter_rq root (t_weight (T a)) c)"
    unfolding e(3) at_key_def using n room ty(1) by (intro enter_counted) (simp_all add: typed_weight)
  ultimately have "counted T' (addrs t') (enter_rq root (t_weight (T a)) c)" by (simp add: counted_def)
  moreover have "\<forall>b\<in>set (addrs t'). on_rq (T' b)" using f(2) rq e(3) by simp
  ultimately have "queued (T', h', enter_rq root (t_weight (T a)) c) t'"
    using enter_typed [OF ty(2)] u(3) e(2) k' by (simp add: queued_counted)
  moreover have "addrs t' = at_key (thread_key T') a (addrs t)" using e(3) k' by simp
  ultimately show ?thesis using r e(4) u(2) by blast
qed

end
