(* ===== verification/SQ_Pick.thy ===== *)
theory SQ_Pick
  imports SQ_Queue
begin

text \<open>
  The choice of the next thread. Whatever the stored minima are, the choice returns a running
  thread of the queue exactly when there is one. When the minima are those of the subtrees and
  every queued thread is running, it is the eligible thread with the earliest deadline.
\<close>

abbreviation running :: "(nat \<Rightarrow> thread_t) \<Rightarrow> nat \<Rightarrow> bool" where
  "running T a \<equiv> t_state (T a) = THREAD_RUNNING"

lemma head0_filter: "head0 (filter P xs) = 0 \<or> head0 (filter P xs) \<in> set xs \<and> P (head0 (filter P xs))"
  by (induction xs) auto

lemma head0_zero: "0 \<notin> set xs \<Longrightarrow> head0 xs = 0 \<longleftrightarrow> xs = []"
  by (cases xs) auto

section \<open>Walk in deadline order\<close>

lemma runnable_from_spec:
  assumes f: "focus (h, tp) [] t"
  shows "addrs t = xs @ ys \<Longrightarrow> runnable_from T h (head0 ys) = Some (head0 (filter (running T) ys))"
proof (induction ys arbitrary: xs)
  case Nil
  then show ?case by (subst runnable_from.simps) simp
next
  case (Cons y ys)
  have y: "y \<noteq> 0" using f Cons.prems tree_at_nonzero [of h 0 t] by (auto simp: focus_def)
  have "runnable_from T h (head0 ys) = Some (head0 (filter (running T) ys))" using Cons.prems by (intro Cons.IH [of "xs @ [y]"]) simp
  then show ?case using y rb_next_spec [OF f Cons.prems] by (subst runnable_from.simps) simp
qed

lemma first_runnable_spec:
  assumes "focus (h, tp) [] t"
  shows "first_runnable T h (rroot t) = Some (head0 (filter (running T) (addrs t)))"
  using rb_first_spec [of h 0 t] runnable_from_spec [OF assms, of "[]" "addrs t"] assms by (simp add: first_runnable_def focus_def)

section \<open>Descent\<close>

lemma pick_descend_sound:
  "tree_at h p t \<Longrightarrow> \<exists>r. pick_descend T h avg (rroot t) = Some r \<and> (r = 0 \<or> r \<in> set (addrs t) \<and> vruntime (T r) \<le> avg \<and> running T r)"
proof (induction t arbitrary: p)
  case Lf
  then show ?case by (subst pick_descend.simps) simp
next
  case (Nd l c a r)
  have n: "a \<noteq> 0" "n_left (h a) = rroot l" "n_right (h a) = rroot r" "tree_at h a l" "tree_at h a r" using Nd.prems by simp_all
  show ?case using Nd.IH(1) [OF n(4)] Nd.IH(2) [OF n(5)] n(1-3) by (subst pick_descend.simps) auto
qed

text \<open>The minima stored in the threads are those of the subtrees.\<close>

fun min_ok :: "(nat \<Rightarrow> thread_t) \<Rightarrow> rtree \<Rightarrow> bool" where
  "min_ok T Lf = True"
| "min_ok T (Nd l c a r) = (min_ok T l \<and> min_ok T r
     \<and> min_vruntime_subtree (T a) = Min ((\<lambda>b. vruntime (T b)) ` set (addrs (Nd l c a r))))"

lemma min_ok_le:
  assumes "min_ok T t" "t \<noteq> Lf"
  shows "min_vruntime_subtree (T (rroot t)) \<le> avg \<longleftrightarrow> (\<exists>b\<in>set (addrs t). vruntime (T b) \<le> avg)"
proof (cases t)
  case (Nd l c a r)
  have fin: "finite ((\<lambda>b. vruntime (T b)) ` set (addrs t))" "(\<lambda>b. vruntime (T b)) ` set (addrs t) \<noteq> {}" using Nd by simp_all
  have "min_vruntime_subtree (T (rroot t)) = Min ((\<lambda>b. vruntime (T b)) ` set (addrs t))" using assms(1) unfolding Nd by simp
  then show ?thesis using Min_le_iff [OF fin] by simp
qed (use assms in simp)

lemma pick_descend_exact:
  assumes "tree_at h p t" "min_ok T t" "\<forall>a\<in>set (addrs t). running T a"
  shows "pick_descend T h avg (rroot t) = Some (head0 (filter (\<lambda>a. vruntime (T a) \<le> avg) (addrs t)))"
  using assms
proof (induction t arbitrary: p)
  case Lf
  then show ?case by (subst pick_descend.simps) simp
next
  case (Nd l c a r)
  have n: "a \<noteq> 0" "n_left (h a) = rroot l" "n_right (h a) = rroot r" "tree_at h a l" "tree_at h a r" using Nd.prems by simp_all
  have ih: "pick_descend T h avg (rroot l) = Some (head0 (filter (\<lambda>a. vruntime (T a) \<le> avg) (addrs l)))"
    "pick_descend T h avg (rroot r) = Some (head0 (filter (\<lambda>a. vruntime (T a) \<le> avg) (addrs r)))"
    using Nd.IH(1) [OF n(4)] Nd.IH(2) [OF n(5)] Nd.prems(2,3) by simp_all
  have "rroot l \<noteq> 0 \<and> min_vruntime_subtree (T (rroot l)) \<le> avg \<longleftrightarrow> filter (\<lambda>a. vruntime (T a) \<le> avg) (addrs l) \<noteq> []"
  proof (cases "l = Lf")
    case False
    then show ?thesis using min_ok_le [of T l avg] Nd.prems(2) rroot_zero [OF n(4)] by (auto simp: filter_empty_conv)
  qed simp
  then show ?case using ih n(1-3) Nd.prems(3) by (subst pick_descend.simps) (auto simp: head0_append)
qed

section \<open>The choice\<close>

lemma pick_best_spec:
  assumes "queued (T, h, c) t" "t \<noteq> Lf"
  shows "\<exists>r. pick_best (T, h, c) = Some r \<and> (if \<exists>a\<in>set (addrs t). running T a then r \<in> set (addrs t) \<and> running T r else r = 0)"
proof -
  have k: "keyed (thread_key T) (h, runqueue_root c) t" using assms by (simp add: queued_def)
  note kf = keyed_facts [OF k]
  have e: "filter (running T) (addrs t) = [] \<longleftrightarrow> \<not> (\<exists>a\<in>set (addrs t). running T a)" by (auto simp: filter_empty_conv)
  have fr: "head0 (filter (running T) (addrs t)) = 0 \<longleftrightarrow> \<not> (\<exists>a\<in>set (addrs t). running T a)"
    using head0_zero [of "filter (running T) (addrs t)"] kf(3) e by auto
  have f: "first_runnable T h (r_node (runqueue_root c)) = Some (head0 (filter (running T) (addrs t)))"
    using first_runnable_spec [OF kf(1)] kf(5) by simp
  obtain r where r: "pick_descend T h (avg_vruntime c) (r_node (runqueue_root c)) = Some r"
    "r = 0 \<or> r \<in> set (addrs t) \<and> running T r"
    using pick_descend_sound [OF kf(6), of T "avg_vruntime c"] kf(5) by auto
  have h0: "head0 (filter (running T) (addrs t)) = 0 \<or> head0 (filter (running T) (addrs t)) \<in> set (addrs t) \<and> running T (head0 (filter (running T) (addrs t)))"
    by (rule head0_filter)
  show ?thesis using r f h0 fr kf(3) by (cases "r = 0") (auto simp: pick_best_def Let_def)
qed

lemma pick_best_exact:
  assumes "queued (T, h, c) t" "t \<noteq> Lf" "min_ok T t" "\<forall>a\<in>set (addrs t). running T a"
  shows "pick_best (T, h, c) = Some (let e = filter (\<lambda>a. vruntime (T a) \<le> avg_vruntime c) (addrs t) in if e = [] then hd (addrs t) else hd e)"
proof -
  have k: "keyed (thread_key T) (h, runqueue_root c) t" using assms by (simp add: queued_def)
  note kf = keyed_facts [OF k]
  let ?e = "filter (\<lambda>a. vruntime (T a) \<le> avg_vruntime c) (addrs t)"
  have ne: "addrs t \<noteq> []" using assms(2) by (cases t) simp_all
  have f: "first_runnable T h (rroot t) = Some (hd (addrs t))"
    using first_runnable_spec [OF kf(1), of T] ne assms(4) by (cases "addrs t") simp_all
  have m: "min_vruntime_subtree (T (rroot t)) > avg_vruntime c \<longleftrightarrow> ?e = []"
    using min_ok_le [OF assms(3,2), of "avg_vruntime c"] by (auto simp: filter_empty_conv not_le)
  have "head0 ?e = hd ?e \<and> head0 ?e \<noteq> 0" if "?e \<noteq> []"
  proof -
    have "0 \<notin> set ?e" using kf(3) by simp
    then show ?thesis using that by (cases ?e) auto
  qed
  then show ?thesis
    using f m pick_descend_exact [OF kf(6) assms(3,4), of "avg_vruntime c"] kf(5) by (auto simp: pick_best_def Let_def)
qed

lemma pick_spec:
  assumes q: "queued (T, h, c) t"
  shows "if \<exists>a\<in>set (addrs t). running T a
    then \<exists>r xs ys T' h' root t'. Pick (T, h, c) = Some (r, T', h', leave_rq root (t_weight (T r)) c) \<and> addrs t = xs @ r # ys \<and> running T r
       \<and> queued (T', h', leave_rq root (t_weight (T r)) c) t' \<and> addrs t' = xs @ ys
       \<and> only_min (set (xs @ ys)) (T(r := (T r)\<lparr>on_rq := False\<rparr>)) T' \<and> (\<forall>b. b \<notin> set (addrs t) \<longrightarrow> h' b = h b)
    else Pick (T, h, c) = Some (0, T, h, c)"
proof (cases "t = Lf")
  case True
  have k: "keyed (thread_key T) (h, runqueue_root c) t" using q by (simp add: queued_def)
  show ?thesis using True keyed_facts(5) [OF k] by (simp add: Pick_def)
next
  case False
  have k: "keyed (thread_key T) (h, runqueue_root c) t" using q by (simp add: queued_def)
  note kf = keyed_facts [OF k]
  have root: "r_node (runqueue_root c) \<noteq> 0" using kf(5) rroot_zero [OF kf(6)] False by simp
  obtain r where r: "pick_best (T, h, c) = Some r" "if \<exists>a\<in>set (addrs t). running T a then r \<in> set (addrs t) \<and> running T r else r = 0"
    using pick_best_spec [OF q False] by blast
  show ?thesis
  proof (cases "\<exists>a\<in>set (addrs t). running T a")
    case True
    then have ri: "r \<in> set (addrs t)" "running T r" "r \<noteq> 0" using r(2) kf(3) by (cases "r = 0"; auto)+
    then obtain xs ys where xy: "addrs t = xs @ r # ys" by (meson split_list)
    obtain T' h' root' t' where e: "RemoveFromQueue r (T, h, c) = Some (T', h', leave_rq root' (t_weight (T r)) c)"
      "queued (T', h', leave_rq root' (t_weight (T r)) c) t'" "addrs t' = xs @ ys"
      "only_min (set (xs @ ys)) (T(r := (T r)\<lparr>on_rq := False\<rparr>)) T'" "\<forall>b. b \<notin> set (addrs t) \<longrightarrow> h' b = h b"
      using remove_spec [OF q xy] by blast
    have "Pick (T, h, c) = Some (r, T', h', leave_rq root' (t_weight (T r)) c)" using e(1) ri r(1) root by (simp add: Pick_def)
    then show ?thesis unfolding if_P [OF True] using e(2-5) xy ri(2) by blast
  next
    case None: False
    then show ?thesis using r root by (simp add: Pick_def)
  qed
qed

end
