(* ===== verification/SMP_Model.thy ===== *)
theory SMP_Model
  imports SQ_Model
begin

text \<open>
  The processors together (\<open>kernel/src/arch/x86_64/schedule/sched.cpp\<close>): the choice of the least
  loaded processor and the two directions of balancing, \<open>StealThread\<close> and \<open>TryPush\<close>.

  A processor is named by its place in \<open>smp_cpu_list\<close>, which start-up makes equal to its
  \<open>id\<close>. Each operation runs under the locks the source takes; whether a lock that is only
  tried is obtained is an argument. Interrupts sent to other processors and threads whose memory is
  given back are recorded in lists.
\<close>

record smp =
  threads :: "nat \<Rightarrow> thread_t"
  nodes :: rb_heap
  cpus :: "nat \<Rightarrow> cpu_t option"
  last_cpu :: nat
  steal_skip :: "nat \<Rightarrow> nat"
  steal_cursor :: "nat \<Rightarrow> nat"
  need_resched_flags :: "nat \<Rightarrow> bool"
  yield_request_flags :: "nat \<Rightarrow> bool"
  dyn_ctx :: "nat \<Rightarrow> dyn_adjust_ctx"
  rip_stats :: "nat \<Rightarrow> rip_stats_ctx"
  rip_fast_weight :: "nat \<Rightarrow> nat"
  tsc_per_ms :: int
  ipis :: "nat list"
  freed :: "nat list"

definition rq_of :: "nat \<Rightarrow> smp \<Rightarrow> rq" where
  "rq_of i s = (threads s, nodes s, the (cpus s i))"

definition put_rq :: "nat \<Rightarrow> rq \<Rightarrow> smp \<Rightarrow> smp" where
  "put_rq i r s = (case r of (T, h, c) \<Rightarrow> s\<lparr>threads := T, nodes := h, cpus := (cpus s)(i \<mapsto> c)\<rparr>)"

definition set_cpu :: "nat \<Rightarrow> (cpu_t \<Rightarrow> cpu_t) \<Rightarrow> smp \<Rightarrow> smp" where
  "set_cpu i f s = s\<lparr>cpus := (cpus s)(i \<mapsto> f (the (cpus s i)))\<rparr>"

definition set_thread :: "nat \<Rightarrow> (thread_t \<Rightarrow> thread_t) \<Rightarrow> smp \<Rightarrow> smp" where
  "set_thread a f s = s\<lparr>threads := (threads s)(a := f (threads s a))\<rparr>"

text \<open>The load of a processor: its queue and the thread it runs.\<close>

definition load :: "smp \<Rightarrow> cpu_t \<Rightarrow> nat" where
  "load s c = add64 (total_weight c) (if current_thread c \<noteq> 0 then t_weight (threads s (current_thread c)) else 0)"

section \<open>The least loaded processor\<close>

definition lw_step :: "smp \<Rightarrow> nat option \<Rightarrow> nat \<Rightarrow> nat option \<Rightarrow> nat option" where
  "lw_step s ref i lw =
     (case cpus s i of
        None \<Rightarrow> lw
      | Some c \<Rightarrow>
          if (case ref of None \<Rightarrow> False | Some r \<Rightarrow> simd_mask c \<noteq> simd_mask (the (cpus s r))) then lw
          else case lw of
                 None \<Rightarrow> Some i
               | Some j \<Rightarrow> if load s c < load s (the (cpus s j)) then Some i else lw)"

definition get_lw_cpu :: "nat \<Rightarrow> nat option \<Rightarrow> smp \<Rightarrow> nat" where
  "get_lw_cpu this ref s =
     (case fold (lw_step s ref) [0..<last_cpu s + 1] None of
        Some i \<Rightarrow> i
      | None \<Rightarrow> (case ref of Some r \<Rightarrow> r | None \<Rightarrow> this))"

section \<open>Pull\<close>

abbreviation (input) SCHED_STEAL_BATCH :: nat where "SCHED_STEAL_BATCH \<equiv> 8"
abbreviation (input) SCHED_STEAL_THROTTLE :: nat where "SCHED_STEAL_THROTTLE \<equiv> 8"

partial_function (option) steal_loop :: "nat \<Rightarrow> nat \<Rightarrow> nat \<Rightarrow> nat list \<Rightarrow> rq \<Rightarrow> (nat list \<times> rq) option" where
  "steal_loop victim_curr victim_idle node batch s =
     (if node = 0 \<or> length batch \<ge> SCHED_STEAL_BATCH \<or> thread_count (snd (snd s)) \<le> 1 then Some (batch, s)
      else case rb_prev (fst (snd s)) node of
             None \<Rightarrow> None
           | Some prev \<Rightarrow>
               if node = victim_curr \<or> node = victim_idle \<or> t_state (fst s node) \<noteq> THREAD_RUNNING \<or> timer_bucket (fst s node) \<noteq> None
               then steal_loop victim_curr victim_idle prev batch s
               else case RemoveFromQueue node s of
                      None \<Rightarrow> None
                    | Some s' \<Rightarrow> steal_loop victim_curr victim_idle prev (batch @ [node]) s')"

definition steal_batch :: "nat \<Rightarrow> smp \<Rightarrow> (nat list \<times> smp) option" where
  "steal_batch victim s =
     (let c = the (cpus s victim) in
      case rb_last (nodes s) (r_node (runqueue_root c)) of
        None \<Rightarrow> None
      | Some node \<Rightarrow>
          map_option (\<lambda>(batch, r). (batch, put_rq victim r s))
            (steal_loop (current_thread c) (idle_thread c) node [] (rq_of victim s)))"

fun take_in :: "nat \<Rightarrow> nat list \<Rightarrow> smp \<Rightarrow> smp option" where
  "take_in i [] s = Some s"
| "take_in i (a # as) s =
     (let s1 = set_thread a (\<lambda>t. t\<lparr>cpu_num := i, timer_cpu := i, t_state := THREAD_RUNNING\<rparr>) s in
      case InsertToQueue a (rq_of i s1) of
        None \<Rightarrow> None
      | Some r \<Rightarrow> take_in i as (put_rq i r s1))"

definition receive_batch :: "nat \<Rightarrow> nat list \<Rightarrow> smp \<Rightarrow> (nat \<times> smp) option" where
  "receive_batch i batch s =
     (let s1 = fold (\<lambda>a. set_thread a (\<lambda>t. t\<lparr>t_state := THREAD_TRANSFER\<rparr>)) batch s in
      case take_in i batch s1 of
        None \<Rightarrow> None
      | Some s2 \<Rightarrow>
          (case Pick (rq_of i s2) of
             None \<Rightarrow> None
           | Some (best, r) \<Rightarrow>
               let s3 = put_rq i r s2
               in Some (best, if best \<noteq> 0 then set_cpu i (\<lambda>c. c\<lparr>thread_steals := add64 (thread_steals c) (length batch)\<rparr>) s3 else s3)))"

text \<open>The processors in the order they are visited, each with the number of the pass.\<close>

fun steal_scan :: "(nat \<Rightarrow> nat \<Rightarrow> bool) \<Rightarrow> nat \<Rightarrow> (nat \<times> nat) list \<Rightarrow> smp \<Rightarrow> (nat \<times> smp) option" where
  "steal_scan lock i [] s = Some (0, s)"
| "steal_scan lock i ((pass, v) # rest) s =
     (case cpus s v of
        None \<Rightarrow> steal_scan lock i rest s
      | Some c \<Rightarrow>
          if v = i \<or> (pass = 0 \<and> simd_mask c \<noteq> simd_mask (the (cpus s i))) \<or> \<not> has_surplus c then steal_scan lock i rest s
          else
            let s1 = set_cpu i (\<lambda>c. c\<lparr>steal_attempts := add64 (steal_attempts c) 1\<rparr>) s in
            if \<not> lock pass v \<or> thread_count c \<le> 1 then steal_scan lock i rest s1
            else case steal_batch v s1 of
                   None \<Rightarrow> None
                 | Some (batch, s2) \<Rightarrow> if batch = [] then steal_scan lock i rest s2 else receive_batch i batch s2)"

definition StealThread :: "(nat \<Rightarrow> nat \<Rightarrow> bool) \<Rightarrow> nat \<Rightarrow> nat \<Rightarrow> nat \<Rightarrow> smp \<Rightarrow> (nat \<times> smp) option" where
  "StealThread lock sched_pid now i s =
     (let skip = add32 (steal_skip s i) 1 in
      if skip < SCHED_STEAL_THROTTLE then Some (0, s\<lparr>steal_skip := (steal_skip s)(i := skip)\<rparr>)
      else
        let ncpu = last_cpu s + 1;
            start_cpu = add64 (add64 sched_pid now) (steal_cursor s i) mod ncpu;
            s1 = s\<lparr>steal_skip := (steal_skip s)(i := 0), steal_cursor := (steal_cursor s)(i := add32 (steal_cursor s i) 1)\<rparr>
        in steal_scan lock i [(pass, (start_cpu + k) mod ncpu). pass \<leftarrow> [0, 1], k \<leftarrow> [0..<ncpu]] s1)"

section \<open>Push\<close>

text \<open>The lightest processor of the same mask and the lightest of another mask, each with its load.\<close>

abbreviation (input) UINT64_MAX :: nat where "UINT64_MAX \<equiv> 18446744073709551615"

definition push_step :: "nat \<Rightarrow> smp \<Rightarrow> nat \<Rightarrow> (nat option \<times> nat) \<times> (nat option \<times> nat) \<Rightarrow> (nat option \<times> nat) \<times> (nat option \<times> nat)" where
  "push_step i s k b =
     (case b of ((target, target_weight), (fallback, fallback_weight)) \<Rightarrow>
      case cpus s k of
        None \<Rightarrow> b
      | Some c \<Rightarrow>
          let ow = load s c in
          if k \<noteq> i \<and> ow < load s (the (cpus s i)) \<and> ow < target_weight
          then if simd_mask c = simd_mask (the (cpus s i)) then ((Some k, ow), (fallback, fallback_weight))
               else if ow < fallback_weight then ((target, target_weight), (Some k, ow)) else b
          else b)"

definition push_target :: "nat \<Rightarrow> smp \<Rightarrow> (nat \<times> nat \<times> bool) option" where
  "push_target i s =
     (case fold (push_step i s) [0..<last_cpu s + 1] ((None, UINT64_MAX), (None, UINT64_MAX)) of
        ((Some k, w), _) \<Rightarrow> Some (k, w, False)
      | ((None, _), (Some k, w)) \<Rightarrow> Some (k, w, True)
      | ((None, _), (None, _)) \<Rightarrow> None)"

definition migrate :: "nat \<Rightarrow> nat \<Rightarrow> nat \<Rightarrow> smp \<Rightarrow> smp option" where
  "migrate i k a s =
     (let s1 = set_thread a (\<lambda>t. t\<lparr>t_state := THREAD_TRANSFER\<rparr>) s in
      case RemoveFromQueue a (rq_of i s1) of
        None \<Rightarrow> None
      | Some r \<Rightarrow> take_in k [a] (put_rq i r s1))"

partial_function (option) push_loop :: "nat \<Rightarrow> nat \<Rightarrow> nat \<Rightarrow> nat \<Rightarrow> nat \<Rightarrow> nat \<Rightarrow> smp \<Rightarrow> (nat \<times> smp) option" where
  "push_loop i k my_curr my_idle node n s =
     (if node = 0 \<or> n \<ge> SCHED_STEAL_BATCH \<or> load s (the (cpus s k)) \<ge> load s (the (cpus s i)) then Some (n, s)
      else case rb_prev (nodes s) node of
             None \<Rightarrow> None
           | Some prev \<Rightarrow>
               if node = my_curr \<or> node = my_idle \<or> timer_bucket (threads s node) \<noteq> None \<or> pinned (threads s node)
               then push_loop i k my_curr my_idle prev n s
               else case migrate i k node s of
                      None \<Rightarrow> None
                    | Some s' \<Rightarrow> push_loop i k my_curr my_idle prev (n + 1) s')"

text \<open>The batch under the two locks, and the interrupt that wakes an idle target.\<close>

definition push_batch :: "nat \<Rightarrow> nat \<Rightarrow> smp \<Rightarrow> smp option" where
  "push_batch i k s =
     (let c = the (cpus s i) in
      case rb_last (nodes s) (r_node (runqueue_root c)) of
        None \<Rightarrow> None
      | Some node \<Rightarrow>
          (case push_loop i k (current_thread c) (idle_thread c) node 0 s of
             None \<Rightarrow> None
           | Some (n, s1) \<Rightarrow>
               let s2 = set_cpu i (\<lambda>c. (if thread_count c < 2 then c\<lparr>has_surplus := False\<rparr> else c)\<lparr>push_success := add64 (push_success c) n\<rparr>) s1;
                   t = the (cpus s2 k)
               in Some (if n > 0 \<and> current_thread t = idle_thread t then s2\<lparr>ipis := ipis s2 @ [k]\<rparr> else s2)))"

definition TryPush :: "bool \<Rightarrow> nat \<Rightarrow> smp \<Rightarrow> smp option" where
  "TryPush second_lock i s0 =
     (let s = set_cpu i (\<lambda>c. c\<lparr>try_pushes := add64 (try_pushes c) 1\<rparr>) s0;
          c = the (cpus s i)
      in if \<not> has_surplus c \<or> thread_count c < 2 then Some s
         else case push_target i s of
                None \<Rightarrow> Some s
              | Some (k, w, cross) \<Rightarrow>
                  if add64 w (w div 2 ^ (if cross then 1 else 2)) \<ge> load s c \<or> \<not> second_lock then Some s
                  else push_batch i k s)"

end
