(* ===== verification/SMP_Inv.thy ===== *)
theory SMP_Inv
  imports SQ_Pick SMP_Model
begin

text \<open>
  The invariant of the processors together: every queue is well formed, no thread is in two queues, a thread
  is marked as queued exactly when it is in one, and a queued thread names the processor it
  is queued on. The queue operations of one processor keep it.
\<close>

section \<open>Frames\<close>

lemma keyed_frame:
  assumes "keyed key (h, root) t" "\<And>b. b \<in> set (addrs t) \<Longrightarrow> h' b = h b"
  shows "keyed key (h', root) t"
proof -
  have "tree_at h' 0 t = tree_at h 0 t" using assms(2) by (intro tree_at_frame) (simp add: same_links_def)
  moreover have m: "map (\<lambda>a. n_flags (h' a)) (addrs t) = map (\<lambda>a. n_flags (h a)) (addrs t)" using assms(2) by simp
  ultimately show ?thesis using assms(1) by (simp add: keyed_def rb_wf_def repr_def focus_def m del: map_eq_conv)
qed

text \<open>A queue reads of a thread its place in the order, its weight and its mark.\<close>

definition same_queued :: "thread_t \<Rightarrow> thread_t \<Rightarrow> bool" where
  "same_queued t t' \<longleftrightarrow> t_id t' = t_id t \<and> deadline t' = deadline t \<and> on_rq t' = on_rq t \<and> t_weight t' = t_weight t"

lemma queued_frame:
  assumes "queued (T, h, c) t" "\<And>b. b \<in> set (addrs t) \<Longrightarrow> same_queued (T b) (T' b) \<and> h' b = h b" "\<forall>b. thread_typed (T' b)"
  shows "queued (T', h', c) t"
proof -
  have "keyed (thread_key T') (h, runqueue_root c) t = keyed (thread_key T) (h, runqueue_root c) t"
    using assms(2) by (intro keyed_cong) (simp add: thread_key_def same_queued_def)
  moreover have "weight_sum T' (addrs t) = weight_sum T (addrs t)" using assms(2) by (intro weight_sum_cong) (simp add: same_queued_def)
  ultimately show ?thesis
    using assms keyed_frame [of "thread_key T'" h "runqueue_root c" t h'] by (simp add: queued_counted counted_def same_queued_def)
qed

definition same_queue :: "cpu_t \<Rightarrow> cpu_t \<Rightarrow> bool" where
  "same_queue c c' \<longleftrightarrow> runqueue_root c' = runqueue_root c \<and> thread_count c' = thread_count c \<and> total_weight c' = total_weight c
     \<and> has_surplus c' = has_surplus c \<and> has_runnable_thread c' = has_runnable_thread c"

lemma queued_cpu: "queued (T, h, c) t \<Longrightarrow> same_queue c c' \<Longrightarrow> cpu_typed c' \<Longrightarrow> queued (T, h, c') t"
  by (simp add: queued_counted counted_def same_queue_def)

section \<open>The invariant\<close>

definition queued_set :: "(nat \<Rightarrow> rtree) \<Rightarrow> nat set" where
  "queued_set Q = (\<Union>i. set (addrs (Q i)))"

definition smp_ok :: "smp \<Rightarrow> (nat \<Rightarrow> rtree) \<Rightarrow> bool" where
  "smp_ok s Q \<longleftrightarrow>
     (\<forall>i c. cpus s i = Some c \<longrightarrow> c_id c = i \<and> queued (threads s, nodes s, c) (Q i)) \<and> (\<forall>i. cpus s i = None \<longrightarrow> Q i = Lf)
     \<and> (\<forall>i j. i \<noteq> j \<longrightarrow> set (addrs (Q i)) \<inter> set (addrs (Q j)) = {})
     \<and> (\<forall>a. on_rq (threads s a) \<longleftrightarrow> a \<in> queued_set Q) \<and> (\<forall>i. \<forall>a\<in>set (addrs (Q i)). cpu_num (threads s a) = i)
     \<and> (\<forall>a. thread_typed (threads s a)) \<and> finite (queued_set Q) \<and> card (queued_set Q) < U64"

lemma smp_okD:
  assumes "smp_ok s Q"
  shows "cpus s i = Some c \<Longrightarrow> c_id c = i" "cpus s i = Some c \<Longrightarrow> queued (threads s, nodes s, c) (Q i)"
    "i \<noteq> j \<Longrightarrow> set (addrs (Q i)) \<inter> set (addrs (Q j)) = {}" "on_rq (threads s a) \<longleftrightarrow> a \<in> queued_set Q"
    "a \<in> set (addrs (Q i)) \<Longrightarrow> cpu_num (threads s a) = i" "thread_typed (threads s a)" "finite (queued_set Q)" "card (queued_set Q) < U64"
    "cpus s i = None \<Longrightarrow> Q i = Lf"
  using assms unfolding smp_ok_def by blast+

lemma queued_set_mem: "a \<in> queued_set Q \<longleftrightarrow> (\<exists>i. a \<in> set (addrs (Q i)))"
  by (simp add: queued_set_def)

lemma queued_length:
  assumes "smp_ok s Q"
  shows "distinct (addrs (Q i))" "0 \<notin> set (addrs (Q i))" "length (addrs (Q i)) = card (set (addrs (Q i)))"
proof -
  have "distinct (addrs (Q i)) \<and> 0 \<notin> set (addrs (Q i))"
  proof (cases "cpus s i")
    case None
    then show ?thesis using smp_okD(9) [OF assms None] by simp
  next
    case (Some c)
    then show ?thesis using keyed_facts(2,3) [of "thread_key (threads s)" "nodes s" "runqueue_root c" "Q i"] smp_okD(2) [OF assms Some]
      by (auto simp: queued_counted)
  qed
  then show "distinct (addrs (Q i))" "0 \<notin> set (addrs (Q i))" "length (addrs (Q i)) = card (set (addrs (Q i)))"
    by (simp_all add: distinct_card)
qed

text \<open>Changes that no queue sees.\<close>

lemma smp_ok_threads:
  assumes ok: "smp_ok s Q" and T: "\<And>a. same_queued (threads s a) (T' a)" "\<And>a. a \<in> queued_set Q \<Longrightarrow> cpu_num (T' a) = cpu_num (threads s a)"
    "\<And>a. thread_typed (T' a)"
  shows "smp_ok (s\<lparr>threads := T'\<rparr>) Q"
proof -
  have "queued (T', nodes s, c) (Q i)" if "cpus s i = Some c" for i c
    using queued_frame [OF smp_okD(2) [OF ok that], of T' "nodes s"] T by blast
  moreover have "on_rq (T' a) = on_rq (threads s a)" for a using T(1) [of a] by (simp add: same_queued_def)
  moreover have "cpu_num (T' a) = i" if "a \<in> set (addrs (Q i))" for a i using T(2) [of a] smp_okD(5) [OF ok that] that queued_set_mem by force
  ultimately show ?thesis using ok T(3) by (simp add: smp_ok_def)
qed

lemma smp_ok_set_thread:
  assumes ok: "smp_ok s Q" and f: "same_queued (threads s a) (f (threads s a))" "thread_typed (f (threads s a))"
    "a \<in> queued_set Q \<Longrightarrow> cpu_num (f (threads s a)) = cpu_num (threads s a)"
  shows "smp_ok (set_thread a f s) Q"
proof -
  have "same_queued t t" for t by (simp add: same_queued_def)
  then show ?thesis unfolding set_thread_def using f smp_okD(6) [OF ok]
    by (intro smp_ok_threads [OF ok]) auto
qed

lemma smp_ok_set_cpu:
  assumes ok: "smp_ok s Q" and c: "cpus s i = Some c" and f: "same_queue c (f c)" "cpu_typed (f c)" "c_id (f c) = c_id c"
  shows "smp_ok (set_cpu i f s) Q"
  using ok queued_cpu [OF smp_okD(2) [OF ok c] f(1,2)] f(3) c smp_okD(1) [OF ok c] by (auto simp: smp_ok_def set_cpu_def)

lemma smp_ok_other: "smp_ok s Q \<Longrightarrow> threads s' = threads s \<Longrightarrow> nodes s' = nodes s \<Longrightarrow> cpus s' = cpus s \<Longrightarrow> smp_ok s' Q"
  by (simp add: smp_ok_def)

section \<open>Queue operations of one processor\<close>

lemma queued_set_upd: "queued_set (Q(i := t)) = set (addrs t) \<union> (\<Union>j\<in>- {i}. set (addrs (Q j)))"
  by (auto simp: queued_set_def split: if_splits)

text \<open>
  A queue operation of processor \<open>i\<close> that keeps its own queue well formed, in which the threads of the other
  queues and their nodes are as before, and whose marks follow the queue.
\<close>

lemma smp_ok_put:
  assumes ok: "smp_ok s Q" and c: "cpus s i = Some c" and q: "queued (T', h', c') t'" and id: "c_id c' = i"
    and other: "\<And>b j. j \<noteq> i \<Longrightarrow> b \<in> set (addrs (Q j)) \<Longrightarrow> T' b = threads s b \<and> h' b = nodes s b"
    and mine: "\<And>b. b \<in> set (addrs t') \<Longrightarrow> cpu_num (T' b) = i"
    and dis: "\<And>j. j \<noteq> i \<Longrightarrow> set (addrs t') \<inter> set (addrs (Q j)) = {}"
    and rq: "\<And>b. on_rq (T' b) \<longleftrightarrow> b \<in> queued_set (Q(i := t'))" and card: "card (queued_set (Q(i := t'))) < U64"
  shows "smp_ok (put_rq i (T', h', c') s) (Q(i := t'))"
proof -
  have ty: "\<forall>b. thread_typed (T' b)" using q by (simp add: queued_counted)
  have o: "queued (T', h', c2) (Q j)" if "cpus s j = Some c2" "j \<noteq> i" for j c2
    using other [OF that(2)] ty by (intro queued_frame [OF smp_okD(2) [OF ok that(1)]]) (auto simp: same_queued_def)
  have n: "cpu_num (T' b) = j" if "j \<noteq> i" "b \<in> set (addrs (Q j))" for j b using other [OF that] smp_okD(5) [OF ok that(2)] by simp
  have "(\<Union>j\<in>- {i}. set (addrs (Q j))) \<subseteq> queued_set Q" by (auto simp: queued_set_def)
  then have fin: "finite (queued_set (Q(i := t')))" using smp_okD(7) [OF ok] finite_subset by (auto simp: queued_set_upd)
  show ?thesis unfolding smp_ok_def put_rq_def prod.case
  proof (intro conjI allI impI ballI)
    fix j c2 assume "cpus (s\<lparr>threads := T', nodes := h', cpus := (cpus s)(i \<mapsto> c')\<rparr>) j = Some c2"
    then show "c_id c2 = j" "queued (threads (s\<lparr>threads := T', nodes := h', cpus := (cpus s)(i \<mapsto> c')\<rparr>), nodes (s\<lparr>threads := T', nodes := h', cpus := (cpus s)(i \<mapsto> c')\<rparr>), c2) ((Q(i := t')) j)"
      using o [of j c2] q id smp_okD(1) [OF ok, of j c2] by (auto split: if_splits)
  next
    fix j assume "cpus (s\<lparr>threads := T', nodes := h', cpus := (cpus s)(i \<mapsto> c')\<rparr>) j = None"
    then show "(Q(i := t')) j = Lf" using smp_okD(9) [OF ok, of j] by (auto split: if_splits)
  next
    fix j k :: nat assume "j \<noteq> k"
    then show "set (addrs ((Q(i := t')) j)) \<inter> set (addrs ((Q(i := t')) k)) = {}"
      using dis [of j] dis [of k] smp_okD(3) [OF ok, of j k] by (cases "j = i"; cases "k = i") auto
  next
    fix j b assume "b \<in> set (addrs ((Q(i := t')) j))"
    then show "cpu_num (threads (s\<lparr>threads := T', nodes := h', cpus := (cpus s)(i \<mapsto> c')\<rparr>) b) = j" using n [of j b] mine [of b] by (cases "j = i") auto
  qed (use rq ty fin card in simp_all)
qed

lemma smp_apart: "smp_ok s Q \<Longrightarrow> j \<noteq> i \<Longrightarrow> b \<in> set (addrs (Q j)) \<Longrightarrow> b \<notin> set (addrs (Q i))"
  using smp_okD(3) by blast

lemma smp_remove:
  assumes ok: "smp_ok s Q" and c: "cpus s i = Some c" and a: "addrs (Q i) = xs @ a # ys"
  shows "\<exists>T' h' root t'. RemoveFromQueue a (rq_of i s) = Some (T', h', leave_rq root (t_weight (threads s a)) c)
    \<and> smp_ok (put_rq i (T', h', leave_rq root (t_weight (threads s a)) c) s) (Q(i := t')) \<and> addrs t' = xs @ ys
    \<and> only_min UNIV ((threads s)(a := (threads s a)\<lparr>on_rq := False\<rparr>)) T'"
proof -
  obtain T' h' root t' where r: "RemoveFromQueue a (threads s, nodes s, c) = Some (T', h', leave_rq root (t_weight (threads s a)) c)"
    "queued (T', h', leave_rq root (t_weight (threads s a)) c) t'" "addrs t' = xs @ ys"
    "only_min (set (xs @ ys)) ((threads s)(a := (threads s a)\<lparr>on_rq := False\<rparr>)) T'" "\<forall>b. b \<notin> set (addrs (Q i)) \<longrightarrow> h' b = nodes s b"
    using remove_spec [OF smp_okD(2) [OF ok c] a] by blast
  note ql = queued_length [OF ok, of i]
  have ai: "a \<in> set (addrs (Q i))" "set (addrs (Q i)) = insert a (set (addrs t'))" "a \<notin> set (addrs t')" using a ql r(3) by auto
  have ao: "a \<notin> set (addrs (Q j))" if "j \<noteq> i" for j using smp_okD(3) [OF ok that] ai(1) by auto
  have qs: "queued_set (Q(i := t')) = queued_set Q - {a}"
  proof -
    have "queued_set Q = queued_set (Q(i := Q i))" by simp
    also have "\<dots> = insert a (queued_set (Q(i := t')))" unfolding queued_set_upd ai(2) by simp
    finally show ?thesis using ai(3) ao by (auto simp: queued_set_upd)
  qed
  have f: "on_rq (T' b) \<longleftrightarrow> b \<noteq> a \<and> on_rq (threads s b)" "cpu_num (T' b) = cpu_num (threads s b)" for b
    using only_min_fields(5,8) [OF r(4), of b] by auto
  have "smp_ok (put_rq i (T', h', leave_rq root (t_weight (threads s a)) c) s) (Q(i := t'))"
  proof (rule smp_ok_put [OF ok c r(2)])
    show "c_id (leave_rq root (t_weight (threads s a)) c) = i" using smp_okD(1) [OF ok c] by simp
    show "T' b = threads s b \<and> h' b = nodes s b" if "j \<noteq> i" "b \<in> set (addrs (Q j))" for b j
    proof -
      have ni: "b \<notin> set (addrs (Q i))" using smp_apart [OF ok that] .
      then have "b \<noteq> a" "b \<notin> set (xs @ ys)" using a by auto
      then show ?thesis using only_min_other [OF r(4), of b] r(5) ni by simp
    qed
    show "cpu_num (T' b) = i" if "b \<in> set (addrs t')" for b using smp_okD(5) [OF ok, of b i] that ai(2) f(2) by simp
    show "set (addrs t') \<inter> set (addrs (Q j)) = {}" if "j \<noteq> i" for j using smp_okD(3) [OF ok that] ai(2) by auto
    show "on_rq (T' b) \<longleftrightarrow> b \<in> queued_set (Q(i := t'))" for b using f(1) smp_okD(4) [OF ok] qs by auto
    show "card (queued_set (Q(i := t'))) < U64" unfolding qs using le_less_trans [OF card_Diff1_le smp_okD(8) [OF ok]] .
  qed
  moreover have "only_min UNIV ((threads s)(a := (threads s a)\<lparr>on_rq := False\<rparr>)) T'" using r(4) by (simp add: only_min_def)
  moreover have "rq_of i s = (threads s, nodes s, c)" using c by (simp add: rq_of_def)
  ultimately show ?thesis using r(1,3) by metis
qed

lemma smp_insert:
  assumes ok: "smp_ok s Q" and c: "cpus s i = Some c" and a: "a \<noteq> 0" "a \<notin> queued_set Q" "cpu_num (threads s a) = i" and room: "card (queued_set Q) + 1 < U64"
  shows "\<exists>T' h' root t'. InsertToQueue a (rq_of i s) = Some (T', h', enter_rq root (t_weight (threads s a)) c)
    \<and> smp_ok (put_rq i (T', h', enter_rq root (t_weight (threads s a)) c) s) (Q(i := t')) \<and> addrs t' = at_key (thread_key T') a (addrs (Q i))
    \<and> only_min UNIV (entering c a (threads s)) T'"
proof -
  have na: "a \<notin> set (addrs (Q j))" for j using a(2) by (auto simp: queued_set_def)
  have "card (set (addrs (Q i))) \<le> card (queued_set Q)" using smp_okD(7) [OF ok] by (intro card_mono) (auto simp: queued_set_def)
  then have len: "length (addrs (Q i)) + 1 < U64" using queued_length(3) [OF ok, of i] room by simp
  have nrq: "\<not> on_rq (threads s a)" using smp_okD(4) [OF ok] a(2) by simp
  obtain T' h' root t' where r: "InsertToQueue a (threads s, nodes s, c) = Some (T', h', enter_rq root (t_weight (threads s a)) c)"
    "queued (T', h', enter_rq root (t_weight (threads s a)) c) t'" "addrs t' = at_key (thread_key T') a (addrs (Q i))"
    "only_min (set (addrs t')) (entering c a (threads s)) T'" "\<forall>b. b \<noteq> a \<longrightarrow> b \<notin> set (addrs (Q i)) \<longrightarrow> h' b = nodes s b"
    using insert_spec [OF smp_okD(2) [OF ok c] a(1) na nrq len] by blast
  have at: "set (addrs t') = insert a (set (addrs (Q i)))" using r(3) by simp
  have qs: "queued_set (Q(i := t')) = insert a (queued_set Q)"
  proof -
    have "queued_set Q = queued_set (Q(i := Q i))" by simp
    then show ?thesis unfolding queued_set_upd at by auto
  qed
  have f: "on_rq (T' b) \<longleftrightarrow> b = a \<or> on_rq (threads s b)" "cpu_num (T' b) = cpu_num (threads s b)" for b
    using only_min_fields(5,8) [OF r(4), of b] by (auto simp: entering_def)
  have "smp_ok (put_rq i (T', h', enter_rq root (t_weight (threads s a)) c) s) (Q(i := t'))"
  proof (rule smp_ok_put [OF ok c r(2)])
    show "c_id (enter_rq root (t_weight (threads s a)) c) = i" using smp_okD(1) [OF ok c] by simp
    show "T' b = threads s b \<and> h' b = nodes s b" if "j \<noteq> i" "b \<in> set (addrs (Q j))" for b j
    proof -
      have ni: "b \<notin> set (addrs (Q i))" using smp_apart [OF ok that] .
      have "b \<noteq> a" using na [of j] that(2) by auto
      then show ?thesis using only_min_other [OF r(4), of b] r(5) ni at by (simp add: entering_def)
    qed
    show "cpu_num (T' b) = i" if "b \<in> set (addrs t')" for b using smp_okD(5) [OF ok, of b i] that at f(2) a(3) by auto
    show "set (addrs t') \<inter> set (addrs (Q j)) = {}" if "j \<noteq> i" for j using smp_okD(3) [OF ok that] at na [of j] by auto
    show "on_rq (T' b) \<longleftrightarrow> b \<in> queued_set (Q(i := t'))" for b using f(1) smp_okD(4) [OF ok] qs by auto
    show "card (queued_set (Q(i := t'))) < U64" unfolding qs using smp_okD(7) [OF ok] room a(2) by simp
  qed
  moreover have "only_min UNIV (entering c a (threads s)) T'" using r(4) by (simp add: only_min_def)
  moreover have "rq_of i s = (threads s, nodes s, c)" using c by (simp add: rq_of_def)
  ultimately show ?thesis using r(1,3) by metis
qed

end
