(* ===== verification/SMP_Steal.thy ===== *)
theory SMP_Steal
  imports SMP_Inv
begin

text \<open>
  Pulling threads from another processor: the batch leaves the victim's queue, is marked as in transfer and
  enters the queue of the processor that pulls; no thread is lost or duplicated.
\<close>

section \<open>What the operations leave alone\<close>

definition cpu_rest :: "cpu_t \<Rightarrow> cpu_t \<Rightarrow> bool" where
  "cpu_rest c c' \<longleftrightarrow> c_id c' = c_id c
     \<and> current_thread c' = current_thread c \<and> idle_thread c' = idle_thread c \<and> simd_mask c' = simd_mask c
     \<and> zombie_list c' = zombie_list c \<and> zombie_count c' = zombie_count c"

lemma cpu_rest_refl [simp]: "cpu_rest c c"
  by (simp add: cpu_rest_def)

lemma cpu_rest_trans: "cpu_rest c c' \<Longrightarrow> cpu_rest c' c'' \<Longrightarrow> cpu_rest c c''"
  by (simp add: cpu_rest_def)

lemma cpu_rest_leave [simp]: "cpu_rest c (leave_rq root w c)"
  by (simp add: cpu_rest_def leave_rq_def Let_def)

lemma cpu_rest_enter [simp]: "cpu_rest c (enter_rq root w c)"
  by (simp add: cpu_rest_def enter_rq_def Let_def)

definition same_id :: "thread_t \<Rightarrow> thread_t \<Rightarrow> bool" where
  "same_id t t' \<longleftrightarrow> t_id t' = t_id t \<and> t_weight t' = t_weight t \<and> pinned t' = pinned t \<and> timer_bucket t' = timer_bucket t \<and> zombie_next t' = zombie_next t"

lemma same_id_refl [simp]: "same_id t t"
  by (simp add: same_id_def)

lemma same_id_trans: "same_id t t' \<Longrightarrow> same_id t' t'' \<Longrightarrow> same_id t t''"
  by (simp add: same_id_def)

lemma put_rq_fields [simp]: "threads (put_rq i (T, h, c) s) = T" "nodes (put_rq i (T, h, c) s) = h" "cpus (put_rq i (T, h, c) s) = (cpus s)(i \<mapsto> c)"
  "rq_of i (put_rq i (T, h, c) s) = (T, h, c)" "put_rq i r (put_rq i r' s) = put_rq i r s"
  by (simp_all add: put_rq_def rq_of_def split: prod.split)

lemma put_rq_of: "cpus s i = Some c \<Longrightarrow> put_rq i (rq_of i s) s = s"
  by (simp add: put_rq_def rq_of_def fun_upd_idem)

lemma removed_fields:
  assumes "only_min A (T(a := (T a)\<lparr>on_rq := False\<rparr>)) T'"
  shows "same_id (T b) (T' b)" "t_state (T' b) = t_state (T b)" "cpu_num (T' b) = cpu_num (T b)"
  using only_min_fields [OF assms, of b] by (auto simp: same_id_def)

section \<open>The batch\<close>

definition movable :: "nat \<Rightarrow> nat \<Rightarrow> thread_t \<Rightarrow> nat \<Rightarrow> bool" where
  "movable cu idl t a \<longleftrightarrow> a \<noteq> cu \<and> a \<noteq> idl \<and> t_state t = THREAD_RUNNING \<and> timer_bucket t = None"

lemma smp_focus:
  assumes "smp_ok s Q" "cpus s i = Some c"
  shows "focus (nodes s, r_node (runqueue_root c)) [] (Q i)" "tree_at (nodes s) 0 (Q i)" "r_node (runqueue_root c) = rroot (Q i)"
  using keyed_facts [of "thread_key (threads s)" "nodes s" "runqueue_root c" "Q i"] smp_okD(2) [OF assms] by (simp_all add: queued_counted)

lemma steal_loop_spec:
  "smp_ok s Q \<Longrightarrow> cpus s v = Some c \<Longrightarrow> addrs (Q v) = xs @ ys \<Longrightarrow> length batch \<le> SCHED_STEAL_BATCH \<Longrightarrow>
   \<exists>out T' h' c' t'. steal_loop cu idl (head0 (rev xs)) batch (rq_of v s) = Some (batch @ out, T', h', c')
     \<and> smp_ok (put_rq v (T', h', c') s) (Q(v := t')) \<and> set (addrs t') = set (addrs (Q v)) - set out \<and> set out \<subseteq> set xs \<and> distinct out
     \<and> length batch + length out \<le> SCHED_STEAL_BATCH \<and> cpu_rest c c' \<and> (\<forall>a\<in>set out. movable cu idl (threads s a) a)
     \<and> (\<forall>a. same_id (threads s a) (T' a) \<and> t_state (T' a) = t_state (threads s a) \<and> cpu_num (T' a) = cpu_num (threads s a))"
proof (induction xs arbitrary: s Q c ys batch rule: rev_induct)
  case Nil
  have "steal_loop cu idl (head0 (rev [])) batch (rq_of v s) = Some (batch @ [], threads s, nodes s, c)"
    using Nil.prems(2) by (subst steal_loop.simps) (simp add: rq_of_def)
  moreover have "put_rq v (threads s, nodes s, c) s = s" using put_rq_of [OF Nil.prems(2)] Nil.prems(2) by (simp add: rq_of_def)
  ultimately show ?case using Nil.prems by (intro exI [of _ "[]"] exI [of _ "threads s"] exI [of _ "nodes s"] exI [of _ c] exI [of _ "Q v"]) simp
next
  case (snoc x xs)
  have a: "addrs (Q v) = xs @ x # ys" using snoc.prems(3) by simp
  have x0: "x \<noteq> 0" using queued_length(2) [OF snoc.prems(1), of v] a by (cases "x = 0") auto
  have pr: "rb_prev (nodes s) x = Some (head0 (rev xs))" using rb_prev_spec [OF smp_focus(1) [OF snoc.prems(1,2)] a] .
  have rq: "rq_of v s = (threads s, nodes s, c)" using snoc.prems(2) by (simp add: rq_of_def)
  have same: "put_rq v (threads s, nodes s, c) s = s" using put_rq_of [OF snoc.prems(2)] rq by simp
  consider (stop) "length batch \<ge> SCHED_STEAL_BATCH \<or> thread_count c \<le> 1"
    | (skip) "\<not> (length batch \<ge> SCHED_STEAL_BATCH \<or> thread_count c \<le> 1)" "\<not> movable cu idl (threads s x) x"
    | (move) "\<not> (length batch \<ge> SCHED_STEAL_BATCH \<or> thread_count c \<le> 1)" "movable cu idl (threads s x) x" by blast
  then show ?case
  proof cases
    case stop
    then have "steal_loop cu idl x batch (rq_of v s) = Some (batch @ [], threads s, nodes s, c)"
      using rq by (subst steal_loop.simps) auto
    then show ?thesis using snoc.prems same
      by (intro exI [of _ "[]"] exI [of _ "threads s"] exI [of _ "nodes s"] exI [of _ c] exI [of _ "Q v"]) simp
  next
    case skip
    then have "steal_loop cu idl x batch (rq_of v s) = steal_loop cu idl (head0 (rev xs)) batch (rq_of v s)"
      using rq x0 pr by (subst steal_loop.simps) (auto simp: movable_def)
    then show ?thesis using snoc.IH [OF snoc.prems(1,2) a snoc.prems(4)] by fastforce
  next
    case move
    obtain T1 h1 c1 t1 where r: "RemoveFromQueue x (rq_of v s) = Some (T1, h1, c1)" "smp_ok (put_rq v (T1, h1, c1) s) (Q(v := t1))"
      "addrs t1 = xs @ ys" "only_min UNIV ((threads s)(x := (threads s x)\<lparr>on_rq := False\<rparr>)) T1" "cpu_rest c c1"
      using smp_remove [OF snoc.prems(1,2) a] by auto
    let ?s1 = "put_rq v (T1, h1, c1) s"
    have st: "steal_loop cu idl x batch (rq_of v s) = steal_loop cu idl (head0 (rev xs)) (batch @ [x]) (rq_of v ?s1)"
      using move rq x0 pr r(1) by (subst steal_loop.simps) (auto simp: movable_def)
    have p: "cpus ?s1 v = Some c1" "addrs ((Q(v := t1)) v) = xs @ ys" "length (batch @ [x]) \<le> SCHED_STEAL_BATCH" using r(3) move(1) by simp_all
    obtain out T' h' c' t' where ih: "steal_loop cu idl (head0 (rev xs)) (batch @ [x]) (rq_of v ?s1) = Some ((batch @ [x]) @ out, T', h', c')"
      "smp_ok (put_rq v (T', h', c') ?s1) ((Q(v := t1))(v := t'))" "set (addrs t') = set (addrs ((Q(v := t1)) v)) - set out" "set out \<subseteq> set xs" "distinct out"
      "length (batch @ [x]) + length out \<le> SCHED_STEAL_BATCH" "cpu_rest c1 c'" "\<forall>a\<in>set out. movable cu idl (threads ?s1 a) a"
      "\<forall>a. same_id (threads ?s1 a) (T' a) \<and> t_state (T' a) = t_state (threads ?s1 a) \<and> cpu_num (T' a) = cpu_num (threads ?s1 a)"
      using snoc.IH [OF r(2) p] by blast
    note rf = removed_fields [OF r(4)]
    have xd: "x \<notin> set xs" "x \<notin> set ys" using queued_length(1) [OF snoc.prems(1), of v] a by auto
    have "\<forall>a\<in>set (x # out). movable cu idl (threads s a) a" using ih(8) move(2) rf by (auto simp: movable_def same_id_def)
    moreover have "\<forall>a. same_id (threads s a) (T' a) \<and> t_state (T' a) = t_state (threads s a) \<and> cpu_num (T' a) = cpu_num (threads s a)"
      using ih(9) rf same_id_trans by fastforce
    moreover have "set (addrs t') = set (addrs (Q v)) - set (x # out)" using ih(3) r(3) a xd by auto
    moreover have "distinct (x # out)" "set (x # out) \<subseteq> set (xs @ [x])" using ih(4,5) xd by auto
    moreover have "steal_loop cu idl (head0 (rev (xs @ [x]))) batch (rq_of v s) = Some (batch @ x # out, T', h', c')" using ih(1) st by simp
    moreover have "smp_ok (put_rq v (T', h', c') s) (Q(v := t'))" "length batch + length (x # out) \<le> SCHED_STEAL_BATCH" "cpu_rest c c'"
      using ih(2,6) cpu_rest_trans [OF r(5) ih(7)] by simp_all
    ultimately show ?thesis by blast
  qed
qed

lemma steal_batch_spec:
  assumes ok: "smp_ok s Q" and c: "cpus s v = Some c"
  shows "\<exists>out T' h' c' t'. steal_batch v s = Some (out, put_rq v (T', h', c') s)
     \<and> smp_ok (put_rq v (T', h', c') s) (Q(v := t')) \<and> set (addrs t') = set (addrs (Q v)) - set out \<and> set out \<subseteq> set (addrs (Q v)) \<and> distinct out
     \<and> length out \<le> SCHED_STEAL_BATCH \<and> cpu_rest c c' \<and> (\<forall>a\<in>set out. movable (current_thread c) (idle_thread c) (threads s a) a)
     \<and> (\<forall>a. same_id (threads s a) (T' a) \<and> t_state (T' a) = t_state (threads s a) \<and> cpu_num (T' a) = cpu_num (threads s a))"
proof -
  have "rb_last (nodes s) (r_node (runqueue_root c)) = Some (head0 (rev (addrs (Q v))))"
    using rb_last_spec [OF smp_focus(2) [OF ok c]] smp_focus(3) [OF ok c] by simp
  then have "steal_batch v s = map_option (\<lambda>(b, r). (b, put_rq v r s)) (steal_loop (current_thread c) (idle_thread c) (head0 (rev (addrs (Q v)))) [] (rq_of v s))"
    using c by (simp add: steal_batch_def)
  moreover obtain out T' h' c' t' where
    "steal_loop (current_thread c) (idle_thread c) (head0 (rev (addrs (Q v)))) [] (rq_of v s) = Some ([] @ out, T', h', c')"
    "smp_ok (put_rq v (T', h', c') s) (Q(v := t')) \<and> set (addrs t') = set (addrs (Q v)) - set out \<and> set out \<subseteq> set (addrs (Q v)) \<and> distinct out
     \<and> length ([] :: nat list) + length out \<le> SCHED_STEAL_BATCH \<and> cpu_rest c c' \<and> (\<forall>a\<in>set out. movable (current_thread c) (idle_thread c) (threads s a) a)
     \<and> (\<forall>a. same_id (threads s a) (T' a) \<and> t_state (T' a) = t_state (threads s a) \<and> cpu_num (T' a) = cpu_num (threads s a))"
    using steal_loop_spec [OF ok c, of "addrs (Q v)" "[]" "[]" "current_thread c" "idle_thread c"] by auto
  ultimately show ?thesis by (intro exI [of _ out] exI [of _ T'] exI [of _ h'] exI [of _ c'] exI [of _ t']) (simp add: fun_upd_def)
qed

section \<open>Taking threads in\<close>

lemma set_thread_fields [simp]: "cpus (set_thread a f s) = cpus s" "nodes (set_thread a f s) = nodes s" "threads (set_thread a f s) = (threads s)(a := f (threads s a))"
  by (simp_all add: set_thread_def)

lemma entered_fields:
  assumes "only_min A (entering c a T) T'"
  shows "same_id (T b) (T' b)" "t_state (T' b) = t_state (T b)" "cpu_num (T' b) = cpu_num (T b)"
  using only_min_fields [OF assms, of b] by (auto simp: same_id_def entering_def)

lemma take_in_spec:
  "smp_ok s Q \<Longrightarrow> cpus s i = Some c \<Longrightarrow> distinct as \<Longrightarrow> 0 \<notin> set as \<Longrightarrow> set as \<inter> queued_set Q = {} \<Longrightarrow> card (queued_set Q) + length as < U64 \<Longrightarrow>
   \<exists>s' c' t'. take_in i as s = Some s' \<and> smp_ok s' (Q(i := t')) \<and> set (addrs t') = set (addrs (Q i)) \<union> set as
     \<and> cpus s' = (cpus s)(i \<mapsto> c') \<and> cpu_rest c c' \<and> last_cpu s' = last_cpu s
     \<and> (\<forall>a. same_id (threads s a) (threads s' a) \<and> t_state (threads s' a) = (if a \<in> set as then THREAD_RUNNING else t_state (threads s a))
          \<and> cpu_num (threads s' a) = (if a \<in> set as then i else cpu_num (threads s a)))"
proof (induction as arbitrary: s Q c)
  case Nil
  then show ?case by (intro exI [of _ s] exI [of _ c] exI [of _ "Q i"]) (simp add: fun_upd_idem)
next
  case (Cons a as)
  let ?s1 = "set_thread a (\<lambda>t. t\<lparr>cpu_num := i, timer_cpu := i, t_state := THREAD_RUNNING\<rparr>) s"
  have an: "a \<notin> queued_set Q" "a \<noteq> 0" using Cons.prems(4,5) by auto
  have ok1: "smp_ok ?s1 Q" using smp_okD(6) [OF Cons.prems(1), of a] an by (intro smp_ok_set_thread [OF Cons.prems(1)]) (auto simp: same_queued_def thread_typed_def)
  obtain T' h' c1 t1 where r: "InsertToQueue a (rq_of i ?s1) = Some (T', h', c1)" "smp_ok (put_rq i (T', h', c1) ?s1) (Q(i := t1))"
    "addrs t1 = at_key (thread_key T') a (addrs (Q i))" "only_min UNIV (entering c a (threads ?s1)) T'" "cpu_rest c c1"
    using smp_insert [OF ok1, of i c a] Cons.prems(2,6) an by auto
  let ?s2 = "put_rq i (T', h', c1) ?s1"
  have at: "set (addrs t1) = insert a (set (addrs (Q i)))" using r(3) by simp
  have qs: "queued_set (Q(i := t1)) = insert a (queued_set Q)"
  proof -
    have "queued_set Q = queued_set (Q(i := Q i))" by simp
    then show ?thesis unfolding queued_set_upd at by auto
  qed
  have p: "cpus ?s2 i = Some c1" "distinct as" "0 \<notin> set as" "set as \<inter> queued_set (Q(i := t1)) = {}" "card (queued_set (Q(i := t1))) + length as < U64"
    unfolding qs using Cons.prems(3-6) an smp_okD(7) [OF Cons.prems(1)] by auto
  obtain s' c' t' where ih: "take_in i as ?s2 = Some s'" "smp_ok s' ((Q(i := t1))(i := t'))" "set (addrs t') = set (addrs ((Q(i := t1)) i)) \<union> set as"
    "cpus s' = (cpus ?s2)(i \<mapsto> c')" "cpu_rest c1 c'" "last_cpu s' = last_cpu ?s2"
    "\<forall>b. same_id (threads ?s2 b) (threads s' b) \<and> t_state (threads s' b) = (if b \<in> set as then THREAD_RUNNING else t_state (threads ?s2 b))
       \<and> cpu_num (threads s' b) = (if b \<in> set as then i else cpu_num (threads ?s2 b))"
    using Cons.IH [OF r(2) p] by blast
  note ef = entered_fields [OF r(4)]
  have "same_id (threads s b) (threads s' b)" for b
  proof -
    have "same_id (threads s b) (threads ?s1 b)" by (simp add: same_id_def)
    then show ?thesis using ef(1) [of b] ih(7) same_id_trans by (metis put_rq_fields(1))
  qed
  moreover have "t_state (threads s' b) = (if b \<in> set (a # as) then THREAD_RUNNING else t_state (threads s b))" for b
    using ih(7) ef(2) [of b] by auto
  moreover have "cpu_num (threads s' b) = (if b \<in> set (a # as) then i else cpu_num (threads s b))" for b
    using ih(7) ef(3) [of b] by auto
  moreover have "last_cpu s' = last_cpu s" using ih(6) by (simp add: put_rq_def set_thread_def)
  moreover have "take_in i (a # as) s = Some s'" using r(1) ih(1) by (simp add: Let_def)
  moreover have "set (addrs t') = set (addrs (Q i)) \<union> set (a # as)" using ih(3) at by auto
  moreover have "smp_ok s' (Q(i := t'))" "cpus s' = (cpus s)(i \<mapsto> c')" "cpu_rest c c'" using ih(2,4) cpu_rest_trans [OF r(5) ih(5)] by simp_all
  ultimately show ?case by blast
qed

section \<open>The choice of one processor\<close>

lemma smp_pick:
  assumes ok: "smp_ok s Q" and c: "cpus s i = Some c"
  shows "if \<exists>a\<in>set (addrs (Q i)). running (threads s) a
    then \<exists>r T' h' c' t'. Pick (rq_of i s) = Some (r, T', h', c') \<and> r \<in> set (addrs (Q i)) \<and> running (threads s) r \<and> cpu_rest c c'
       \<and> smp_ok (put_rq i (T', h', c') s) (Q(i := t')) \<and> set (addrs t') = set (addrs (Q i)) - {r}
       \<and> only_min UNIV ((threads s)(r := (threads s r)\<lparr>on_rq := False\<rparr>)) T'
    else Pick (rq_of i s) = Some (0, rq_of i s)"
proof -
  have rq: "rq_of i s = (threads s, nodes s, c)" using c by (simp add: rq_of_def)
  note q = smp_okD(2) [OF ok c]
  show ?thesis
  proof (cases "\<exists>a\<in>set (addrs (Q i)). running (threads s) a")
    case True
    then obtain r xs ys s' where p: "Pick (rq_of i s) = Some (r, s')" "addrs (Q i) = xs @ r # ys" "running (threads s) r"
      using pick_spec [OF q] rq by auto
    have r0: "r \<noteq> 0" using queued_length(2) [OF ok, of i] p(2) by (cases "r = 0") auto
    then have "RemoveFromQueue r (rq_of i s) = Some s'" using p(1) by (auto simp: Pick_def split: if_splits option.splits)
    moreover obtain T' h' c' t' where "RemoveFromQueue r (rq_of i s) = Some (T', h', c')" "smp_ok (put_rq i (T', h', c') s) (Q(i := t'))" "addrs t' = xs @ ys"
      "only_min UNIV ((threads s)(r := (threads s r)\<lparr>on_rq := False\<rparr>)) T'" "cpu_rest c c'"
      using smp_remove [OF ok c p(2)] by auto
    moreover have "set (xs @ ys) = set (addrs (Q i)) - {r}" using p(2) queued_length(1) [OF ok, of i] by auto
    ultimately have "Pick (rq_of i s) = Some (r, T', h', c')" "set (addrs t') = set (addrs (Q i)) - {r}" "smp_ok (put_rq i (T', h', c') s) (Q(i := t'))"
      "only_min UNIV ((threads s)(r := (threads s r)\<lparr>on_rq := False\<rparr>)) T'" "cpu_rest c c'" "r \<in> set (addrs (Q i))" using p(1,2) by simp_all
    then show ?thesis unfolding if_P [OF True] using p(3) by blast
  next
    case False
    then show ?thesis using pick_spec [OF q] rq by simp
  qed
qed

section \<open>Receiving the batch\<close>

lemma transfer_threads:
  "threads (fold (\<lambda>a. set_thread a (\<lambda>t. t\<lparr>t_state := THREAD_TRANSFER\<rparr>)) as s) b = (if b \<in> set as then (threads s b)\<lparr>t_state := THREAD_TRANSFER\<rparr> else threads s b)"
  "cpus (fold (\<lambda>a. set_thread a (\<lambda>t. t\<lparr>t_state := THREAD_TRANSFER\<rparr>)) as s) = cpus s"
  "nodes (fold (\<lambda>a. set_thread a (\<lambda>t. t\<lparr>t_state := THREAD_TRANSFER\<rparr>)) as s) = nodes s"
  "last_cpu (fold (\<lambda>a. set_thread a (\<lambda>t. t\<lparr>t_state := THREAD_TRANSFER\<rparr>)) as s) = last_cpu s"
  by (induction as arbitrary: s) (auto simp: set_thread_def)

lemma transfer_ok:
  assumes "smp_ok s Q"
  shows "smp_ok (fold (\<lambda>a. set_thread a (\<lambda>t. t\<lparr>t_state := THREAD_TRANSFER\<rparr>)) as s) Q"
proof (induction as rule: rev_induct)
  case Nil
  then show ?case using assms by simp
next
  case (snoc a as)
  let ?s = "fold (\<lambda>a. set_thread a (\<lambda>t. t\<lparr>t_state := THREAD_TRANSFER\<rparr>)) as s"
  have "smp_ok (set_thread a (\<lambda>t. t\<lparr>t_state := THREAD_TRANSFER\<rparr>) ?s) Q"
    using smp_okD(6) [OF snoc, of a] by (intro smp_ok_set_thread [OF snoc]) (auto simp: same_queued_def thread_typed_def)
  then show ?case by simp
qed

definition cpus_rest :: "smp \<Rightarrow> smp \<Rightarrow> bool" where
  "cpus_rest s s' \<longleftrightarrow> (\<forall>j. rel_option cpu_rest (cpus s j) (cpus s' j)) \<and> last_cpu s' = last_cpu s"

lemma cpus_rest_refl [simp]: "cpus_rest s s"
  by (simp add: cpus_rest_def option.rel_refl)

lemma cpus_rest_trans:
  assumes "cpus_rest s s'" "cpus_rest s' s''"
  shows "cpus_rest s s''"
  unfolding cpus_rest_def
proof (intro conjI allI)
  fix j
  have "rel_option cpu_rest (cpus s j) (cpus s' j)" "rel_option cpu_rest (cpus s' j) (cpus s'' j)" using assms by (simp_all add: cpus_rest_def)
  then show "rel_option cpu_rest (cpus s j) (cpus s'' j)"
    by (cases "cpus s j"; cases "cpus s' j"; cases "cpus s'' j") (auto elim: cpu_rest_trans)
qed (use assms in \<open>simp add: cpus_rest_def\<close>)

lemma cpus_rest_upd: "cpus s i = Some c \<Longrightarrow> cpus s' = (cpus s)(i \<mapsto> c') \<Longrightarrow> cpu_rest c c' \<Longrightarrow> last_cpu s' = last_cpu s \<Longrightarrow> cpus_rest s s'"
  by (auto simp: cpus_rest_def intro: option.rel_refl)

lemma receive_batch_spec:
  assumes ok: "smp_ok s Q" and c: "cpus s i = Some c" and b: "distinct as" "as \<noteq> []" "0 \<notin> set as" "set as \<inter> queued_set Q = {}"
    and room: "card (queued_set Q) + length as < U64"
  shows "\<exists>r s' t'. receive_batch i as s = Some (r, s') \<and> smp_ok s' (Q(i := t')) \<and> r \<in> set (addrs (Q i)) \<union> set as
     \<and> set (addrs t') = set (addrs (Q i)) \<union> set as - {r} \<and> cpus_rest s s' \<and> cpu_num (threads s' r) = i
     \<and> (\<forall>a. same_id (threads s a) (threads s' a) \<and> t_state (threads s' a) = (if a \<in> set as then THREAD_RUNNING else t_state (threads s a))
          \<and> cpu_num (threads s' a) = (if a \<in> set as then i else cpu_num (threads s a))) \<and> running (threads s') r"
proof -
  let ?s1 = "fold (\<lambda>a. set_thread a (\<lambda>t. t\<lparr>t_state := THREAD_TRANSFER\<rparr>)) as s"
  have ok1: "smp_ok ?s1 Q" "cpus ?s1 i = Some c" using transfer_ok [OF ok] c by (simp_all add: transfer_threads)
  obtain s2 c2 t2 where t: "take_in i as ?s1 = Some s2" "smp_ok s2 (Q(i := t2))" "set (addrs t2) = set (addrs (Q i)) \<union> set as"
    "cpus s2 = (cpus ?s1)(i \<mapsto> c2)" "cpu_rest c c2" "last_cpu s2 = last_cpu ?s1"
    "\<forall>a. same_id (threads ?s1 a) (threads s2 a) \<and> t_state (threads s2 a) = (if a \<in> set as then THREAD_RUNNING else t_state (threads ?s1 a))
       \<and> cpu_num (threads s2 a) = (if a \<in> set as then i else cpu_num (threads ?s1 a))"
    using take_in_spec [OF ok1 b(1,3,4) room] by blast
  have c2: "cpus s2 i = Some c2" using t(4) by simp
  have "\<exists>a\<in>set (addrs ((Q(i := t2)) i)). running (threads s2) a" using t(3,7) b(2) by (cases as) auto
  with smp_pick [OF t(2) c2] obtain r T' h' c' t' where p: "Pick (rq_of i s2) = Some (r, T', h', c')" "r \<in> set (addrs t2)" "running (threads s2) r" "cpu_rest c2 c'"
    "smp_ok (put_rq i (T', h', c') s2) (Q(i := t'))" "set (addrs t') = set (addrs t2) - {r}" "only_min UNIV ((threads s2)(r := (threads s2 r)\<lparr>on_rq := False\<rparr>)) T'"
    by auto
  let ?f = "\<lambda>c. c\<lparr>thread_steals := add64 (thread_steals c) (length as)\<rparr>"
  let ?s3 = "put_rq i (T', h', c') s2"
  have r0: "r \<noteq> 0" using p(2) queued_length(2) [OF t(2), of i] by (cases "r = 0") auto
  have "cpu_typed c'" using smp_okD(2) [OF p(5), of i c'] by (simp add: queued_counted)
  then have ok4: "smp_ok (set_cpu i ?f ?s3) (Q(i := t'))"
    by (intro smp_ok_set_cpu [OF p(5), of i c']) (auto simp: same_queue_def cpu_typed_def)
  note rf = removed_fields [OF p(7)]
  have st: "same_id (threads s a) (threads ?s3 a) \<and> t_state (threads ?s3 a) = (if a \<in> set as then THREAD_RUNNING else t_state (threads s a))
      \<and> cpu_num (threads ?s3 a) = (if a \<in> set as then i else cpu_num (threads s a))" for a
  proof -
    have "same_id (threads s a) (threads ?s1 a)" by (simp add: transfer_threads same_id_def)
    then have "same_id (threads s a) (threads ?s3 a)" using t(7) rf(1) [of a] same_id_trans by (metis put_rq_fields(1))
    then show ?thesis using t(7) rf(2,3) [of a] by (simp add: transfer_threads)
  qed
  define s4 where "s4 = set_cpu i ?f ?s3"
  have th: "threads s4 = T'" by (simp add: s4_def set_cpu_def)
  have "receive_batch i as s = Some (r, s4)" using t(1) p(1) r0 by (simp add: receive_batch_def Let_def s4_def)
  moreover have "cpus_rest s s4"
    using cpu_rest_trans [OF t(5) p(4)] t(4,6) unfolding s4_def
    by (intro cpus_rest_upd [OF c, of _ "?f c'"]) (simp_all add: set_cpu_def transfer_threads cpu_rest_def put_rq_def)
  moreover have "cpu_num (threads s4 r) = i" "running (threads s4) r" using rf(2,3) [of r] smp_okD(5) [OF t(2), of r i] p(2,3) by (simp_all add: th)
  moreover have "set (addrs t') = set (addrs (Q i)) \<union> set as - {r}" "r \<in> set (addrs (Q i)) \<union> set as" using p(2,6) t(3) by auto
  moreover have "\<forall>a. same_id (threads s a) (threads s4 a) \<and> t_state (threads s4 a) = (if a \<in> set as then THREAD_RUNNING else t_state (threads s a))
      \<and> cpu_num (threads s4 a) = (if a \<in> set as then i else cpu_num (threads s a))"
    using st by (simp add: th)
  ultimately show ?thesis using ok4 [folded s4_def] by blast
qed

section \<open>The whole operation\<close>

text \<open>
  A state with the same queued threads on every processor, and the result of a pull: the threads of a set \<open>B\<close> go from
  processor \<open>v\<close> to processor \<open>i\<close>, and one thread of that queue, \<open>r\<close>, is returned to run.
\<close>

definition same_threads :: "smp \<Rightarrow> (nat \<Rightarrow> rtree) \<Rightarrow> smp \<Rightarrow> bool" where
  "same_threads s Q s' \<longleftrightarrow> (\<forall>a. same_id (threads s a) (threads s' a) \<and> t_state (threads s' a) = t_state (threads s a)
     \<and> (a \<notin> queued_set Q \<longrightarrow> cpu_num (threads s' a) = cpu_num (threads s a)))"

definition quiet :: "smp \<Rightarrow> (nat \<Rightarrow> rtree) \<Rightarrow> smp \<Rightarrow> (nat \<Rightarrow> rtree) \<Rightarrow> bool" where
  "quiet s Q s' Q' \<longleftrightarrow> smp_ok s' Q' \<and> cpus_rest s s' \<and> (\<forall>j. set (addrs (Q' j)) = set (addrs (Q j))) \<and> same_threads s Q s'"

definition may_move :: "smp \<Rightarrow> nat \<Rightarrow> nat \<Rightarrow> bool" where
  "may_move s v a \<longleftrightarrow> movable (current_thread (the (cpus s v))) (idle_thread (the (cpus s v))) (threads s a) a"

definition moved :: "nat \<Rightarrow> nat \<Rightarrow> nat \<Rightarrow> nat set \<Rightarrow> (nat \<Rightarrow> rtree) \<Rightarrow> (nat \<Rightarrow> rtree) \<Rightarrow> bool" where
  "moved i r v B Q Q' \<longleftrightarrow> v \<noteq> i \<and> B \<noteq> {} \<and> card B \<le> SCHED_STEAL_BATCH \<and> B \<subseteq> set (addrs (Q v)) \<and> r \<in> set (addrs (Q i)) \<union> B
     \<and> set (addrs (Q' v)) = set (addrs (Q v)) - B \<and> set (addrs (Q' i)) = set (addrs (Q i)) \<union> B - {r}
     \<and> (\<forall>j. j \<noteq> v \<longrightarrow> j \<noteq> i \<longrightarrow> set (addrs (Q' j)) = set (addrs (Q j)))"

definition pulled :: "nat \<Rightarrow> nat \<Rightarrow> smp \<Rightarrow> (nat \<Rightarrow> rtree) \<Rightarrow> smp \<Rightarrow> (nat \<Rightarrow> rtree) \<Rightarrow> bool" where
  "pulled i r s Q s' Q' \<longleftrightarrow> smp_ok s' Q' \<and> cpus_rest s s' \<and> same_threads s Q s' \<and> running (threads s') r \<and> cpu_num (threads s' r) = i
     \<and> (\<exists>v B. moved i r v B Q Q' \<and> (\<forall>a\<in>B. may_move s v a))"

lemma same_threads_trans:
  assumes "same_threads s Q s1" "same_threads s1 Q1 s2" "queued_set Q1 = queued_set Q"
  shows "same_threads s Q s2"
  unfolding same_threads_def
proof
  fix a
  have "same_id (threads s a) (threads s1 a)" "same_id (threads s1 a) (threads s2 a)" "t_state (threads s1 a) = t_state (threads s a)" "t_state (threads s2 a) = t_state (threads s1 a)"
    "a \<notin> queued_set Q \<Longrightarrow> cpu_num (threads s1 a) = cpu_num (threads s a)" "a \<notin> queued_set Q \<Longrightarrow> cpu_num (threads s2 a) = cpu_num (threads s1 a)"
    using assms by (simp_all add: same_threads_def)
  then show "same_id (threads s a) (threads s2 a) \<and> t_state (threads s2 a) = t_state (threads s a) \<and> (a \<notin> queued_set Q \<longrightarrow> cpu_num (threads s2 a) = cpu_num (threads s a))"
    using same_id_trans by auto
qed

lemma same_threads_refl [simp]: "threads s' = threads s \<Longrightarrow> same_threads s Q s'"
  by (simp add: same_threads_def)

lemma quiet_queued_set: "quiet s Q s' Q' \<Longrightarrow> queued_set Q' = queued_set Q"
  by (auto simp: quiet_def queued_set_def)

lemma quiet_trans: "quiet s Q s1 Q1 \<Longrightarrow> quiet s1 Q1 s2 Q2 \<Longrightarrow> quiet s Q s2 Q2"
  using quiet_queued_set [of s Q s1 Q1] unfolding quiet_def using cpus_rest_trans same_threads_trans by (metis (no_types, lifting))

lemma moved_cong: "(\<And>j. set (addrs (Q1 j)) = set (addrs (Q j))) \<Longrightarrow> moved i r v B Q1 Q2 = moved i r v B Q Q2"
  by (simp add: moved_def)

lemma quiet_may_move:
  assumes "quiet s Q s1 Q1" "may_move s1 v a" "cpus s1 v = Some c"
  shows "may_move s v a"
proof -
  have "rel_option cpu_rest (cpus s v) (cpus s1 v)" using assms(1) by (simp add: quiet_def cpus_rest_def)
  then obtain c0 where "cpus s v = Some c0" "cpu_rest c0 c" using assms(3) by (cases "cpus s v") auto
  moreover have "same_id (threads s a) (threads s1 a)" "t_state (threads s1 a) = t_state (threads s a)" using assms(1) by (simp_all add: quiet_def same_threads_def)
  ultimately show ?thesis using assms(2,3) by (simp add: may_move_def movable_def cpu_rest_def same_id_def)
qed

lemma quiet_pulled:
  assumes q: "quiet s Q s1 Q1" and p: "pulled i r s1 Q1 s2 Q2"
  shows "pulled i r s Q s2 Q2"
proof -
  have ok: "smp_ok s1 Q1" and sets: "\<And>j. set (addrs (Q1 j)) = set (addrs (Q j))" using q by (simp_all add: quiet_def)
  obtain v B where v: "moved i r v B Q1 Q2" "\<forall>a\<in>B. may_move s1 v a" using p unfolding pulled_def by blast
  have "B \<noteq> {}" "B \<subseteq> set (addrs (Q1 v))" using v(1) by (simp_all add: moved_def)
  then have "cpus s1 v \<noteq> None" using smp_okD(9) [OF ok, of v] by auto
  then have mv: "\<forall>a\<in>B. may_move s v a" using quiet_may_move [OF q] v(2) by blast
  have m: "moved i r v B Q Q2" using v(1) moved_cong [of Q1 Q, OF sets] by simp
  have "cpus_rest s s2" "same_threads s Q s2"
    using q p cpus_rest_trans [of s s1 s2] same_threads_trans [of s Q s1 Q1 s2] quiet_queued_set [OF q] by (simp_all add: quiet_def pulled_def)
  then show ?thesis using p m mv unfolding pulled_def by blast
qed

lemma set_cpu_quiet:
  assumes ok: "smp_ok s Q" and c: "cpus s i = Some c" and f: "same_queue c (f c)" "cpu_typed (f c)" "cpu_rest c (f c)"
  shows "quiet s Q (set_cpu i f s) Q"
proof -
  have "smp_ok (set_cpu i f s) Q" using f by (intro smp_ok_set_cpu [OF ok c]) (simp_all add: cpu_rest_def)
  moreover have "cpus_rest s (set_cpu i f s)" using c f(3) by (intro cpus_rest_upd [OF c, of _ "f c"]) (simp_all add: set_cpu_def)
  ultimately show ?thesis by (simp add: quiet_def) (simp add: set_cpu_def)
qed

lemma smp_cpu_typed: "smp_ok s Q \<Longrightarrow> cpus s i = Some c \<Longrightarrow> cpu_typed c"
  using smp_okD(2) by (auto simp: queued_counted)

lemma pull_spec:
  assumes ok: "smp_ok s Q" and c: "cpus s i = Some c" "cpus s v = Some cv" "v \<noteq> i" and b: "steal_batch v s = Some (batch, s2)"
  shows "if batch = [] then \<exists>Q'. quiet s Q s2 Q' else \<exists>r s' Q'. receive_batch i batch s2 = Some (r, s') \<and> pulled i r s Q s' Q'"
proof -
  obtain T' h' c' t' where sb: "s2 = put_rq v (T', h', c') s" "smp_ok s2 (Q(v := t'))" "set (addrs t') = set (addrs (Q v)) - set batch"
    "set batch \<subseteq> set (addrs (Q v))" "distinct batch" "length batch \<le> SCHED_STEAL_BATCH" "cpu_rest cv c'" "\<forall>a\<in>set batch. movable (current_thread cv) (idle_thread cv) (threads s a) a"
    "\<forall>a. same_id (threads s a) (T' a) \<and> t_state (T' a) = t_state (threads s a) \<and> cpu_num (T' a) = cpu_num (threads s a)"
    using steal_batch_spec [OF ok c(2)] b by auto
  have cr: "cpus_rest s s2" using sb(1,7) by (intro cpus_rest_upd [OF c(2), of s2 c']) (simp_all add: put_rq_def)
  have th: "threads s2 = T'" "cpus s2 i = Some c" using sb(1) c by simp_all
  have vi: "set (addrs (Q v)) \<inter> set (addrs (Q j)) = {}" if "j \<noteq> v" for j using smp_okD(3) [OF ok] that by blast
  have qs: "queued_set (Q(v := t')) = queued_set Q - set batch"
  proof -
    have "queued_set Q = queued_set (Q(v := Q v))" by simp
    then show ?thesis unfolding queued_set_upd sb(3) using sb(4) vi by (auto simp: queued_set_def)
  qed
  have room: "card (queued_set (Q(v := t'))) + length batch < U64"
  proof -
    have "set batch \<subseteq> queued_set Q" using sb(4) by (auto simp: queued_set_def)
    then have "card (queued_set Q - set batch) + card (set batch) = card (queued_set Q)"
      using smp_okD(7) [OF ok] by (metis card_Diff_subset card_mono finite_set le_add_diff_inverse2)
    then show ?thesis using smp_okD(8) [OF ok] sb(5) unfolding qs by (simp add: distinct_card)
  qed
  show ?thesis
  proof (cases "batch = []")
    case True
    then have "set (addrs ((Q(v := t')) j)) = set (addrs (Q j))" for j using sb(3) by simp
    then have "quiet s Q s2 (Q(v := t'))" using sb(2,9) cr th by (simp add: quiet_def same_threads_def)
    then show ?thesis using True by auto
  next
    case False
    have z: "0 \<notin> set batch" using sb(4) queued_length(2) [OF ok, of v] by auto
    have dj: "set batch \<inter> queued_set (Q(v := t')) = {}" unfolding qs by auto
    obtain r s' t2 where p: "receive_batch i batch s2 = Some (r, s')" "smp_ok s' ((Q(v := t'))(i := t2))" "r \<in> set (addrs ((Q(v := t')) i)) \<union> set batch"
      "set (addrs t2) = set (addrs ((Q(v := t')) i)) \<union> set batch - {r}" "cpus_rest s2 s'" "cpu_num (threads s' r) = i"
      "\<forall>a. same_id (threads s2 a) (threads s' a) \<and> t_state (threads s' a) = (if a \<in> set batch then THREAD_RUNNING else t_state (threads s2 a))
         \<and> cpu_num (threads s' a) = (if a \<in> set batch then i else cpu_num (threads s2 a))" "running (threads s') r"
      using receive_batch_spec [OF sb(2) th(2) sb(5) False z dj room] by blast
    have st: "same_id (threads s a) (threads s' a) \<and> t_state (threads s' a) = t_state (threads s a)" for a
    proof -
      have "same_id (T' a) (threads s' a)" "t_state (threads s' a) = (if a \<in> set batch then THREAD_RUNNING else t_state (T' a))" using p(7) th(1) by simp_all
      moreover have "same_id (threads s a) (T' a)" "t_state (T' a) = t_state (threads s a)" using sb(9) by blast+
      moreover have "a \<in> set batch \<Longrightarrow> running (threads s) a" using sb(8) by (auto simp: movable_def)
      ultimately show ?thesis using same_id_trans by auto
    qed
    let ?Q = "(Q(v := t'))(i := t2)"
    have "moved i r v (set batch) Q ?Q" using c(3) False sb(3-6) p(3,4) by (simp add: moved_def distinct_card)
    moreover have "\<forall>a\<in>set batch. may_move s v a" using sb(8) c(2) by (simp add: may_move_def)
    moreover have "cpu_num (threads s' a) = cpu_num (threads s a)" if "a \<notin> queued_set Q" for a
    proof -
      have "a \<notin> set batch" using that sb(4) by (auto simp: queued_set_def)
      then show ?thesis using p(7) th(1) sb(9) by simp
    qed
    then have "same_threads s Q s'" using st by (simp add: same_threads_def)
    ultimately have "moved i r v (set batch) Q ?Q" "\<forall>a\<in>set batch. may_move s v a" "same_threads s Q s'" by blast+
    then have "pulled i r s Q s' ?Q"
      unfolding pulled_def using p(2,6,8) cpus_rest_trans [OF cr p(5)] by blast
    then show ?thesis using False p(1) by auto
  qed
qed

lemma quiet_refl: "smp_ok s Q \<Longrightarrow> quiet s Q s Q"
  by (simp add: quiet_def)

lemma pulled_nonzero:
  assumes "smp_ok s Q" "pulled i r s Q s' Q'"
  shows "r \<noteq> 0"
proof -
  obtain v B where "moved i r v B Q Q'" using assms(2) unfolding pulled_def by blast
  then have "r \<in> set (addrs (Q i)) \<or> r \<in> set (addrs (Q v))" by (auto simp: moved_def)
  then show ?thesis using queued_length(2) [OF assms(1), of i] queued_length(2) [OF assms(1), of v] by (cases "r = 0") auto
qed

lemma pulled_set:
  assumes ok: "smp_ok s Q" and m: "pulled i r s Q s' Q'"
  shows "r \<in> queued_set Q" "queued_set Q' = queued_set Q - {r}"
proof -
  obtain v B where b: "moved i r v B Q Q'" using m unfolding pulled_def by blast
  have q: "v \<noteq> i" "B \<subseteq> set (addrs (Q v))" "r \<in> set (addrs (Q i)) \<union> B" "set (addrs (Q' v)) = set (addrs (Q v)) - B" "set (addrs (Q' i)) = set (addrs (Q i)) \<union> B - {r}"
    "\<And>j. j \<noteq> v \<Longrightarrow> j \<noteq> i \<Longrightarrow> set (addrs (Q' j)) = set (addrs (Q j))" using b unfolding moved_def by blast+
  show r: "r \<in> queued_set Q" using q(2,3) unfolding queued_set_def by blast
  have d: "r \<notin> set (addrs (Q j))" if "j \<noteq> v" "j \<noteq> i" for j using smp_okD(3) [OF ok, of j] that q(2,3) by blast
  have dv: "r \<notin> set (addrs (Q v)) - B" using q(1-3) smp_okD(3) [OF ok, of i v] by blast
  have "a \<in> set (addrs (Q' j)) \<Longrightarrow> a \<in> queued_set Q \<and> a \<noteq> r" for a j
    using q(1-5) q(6) [of j] d [of j] dv by (cases "j = i"; cases "j = v") (auto simp: queued_set_def)
  moreover have "a \<in> set (addrs (Q j)) \<Longrightarrow> a \<noteq> r \<Longrightarrow> a \<in> queued_set Q'" for a j
  proof -
    assume a: "a \<in> set (addrs (Q j))" "a \<noteq> r"
    have "a \<in> set (addrs (Q' i)) \<or> a \<in> set (addrs (Q' v)) \<or> a \<in> set (addrs (Q' j))" using a q(4,5) q(6) [of j] by (cases "j = i"; cases "j = v") auto
    then show ?thesis unfolding queued_set_def by blast
  qed
  ultimately show "queued_set Q' = queued_set Q - {r}" by (fastforce simp: queued_set_def [of Q'] queued_set_def [of Q])
qed

definition steal_result :: "nat \<Rightarrow> smp \<Rightarrow> (nat \<Rightarrow> rtree) \<Rightarrow> (nat \<times> smp) option \<Rightarrow> bool" where
  "steal_result i s Q x \<longleftrightarrow> (\<exists>r s' Q'. x = Some (r, s') \<and> (if r = 0 then quiet s Q s' Q' else pulled i r s Q s' Q'))"

lemma steal_result_quiet:
  assumes "quiet s Q s1 Q1" "steal_result i s1 Q1 x"
  shows "steal_result i s Q x"
proof -
  obtain r s' Q' where x: "x = Some (r, s')" "if r = 0 then quiet s1 Q1 s' Q' else pulled i r s1 Q1 s' Q'" using assms(2) unfolding steal_result_def by blast
  then have "if r = 0 then quiet s Q s' Q' else pulled i r s Q s' Q'" using quiet_trans [OF assms(1)] quiet_pulled [OF assms(1)] by (cases "r = 0") auto
  then show ?thesis using x(1) unfolding steal_result_def by blast
qed

lemma quiet_cpu: "quiet s Q s1 Q1 \<Longrightarrow> cpus s i = Some c \<Longrightarrow> \<exists>c1. cpus s1 i = Some c1"
proof -
  assume "quiet s Q s1 Q1" "cpus s i = Some c"
  then have "rel_option cpu_rest (Some c) (cpus s1 i)" unfolding quiet_def cpus_rest_def by metis
  then show ?thesis by (cases "cpus s1 i") simp_all
qed

lemma steal_scan_spec: "smp_ok s Q \<Longrightarrow> cpus s i = Some c \<Longrightarrow> steal_result i s Q (steal_scan lock i vs s)"
proof (induction vs arbitrary: s Q c)
  case Nil
  then show ?case using quiet_refl by (fastforce simp: steal_result_def)
next
  case (Cons pv vs)
  obtain pass v where pv: "pv = (pass, v)" by (cases pv)
  note go = Cons.IH [OF Cons.prems]
  show ?case
  proof (cases "cpus s v")
    case None
    then show ?thesis using go pv by simp
  next
    case (Some cv)
    show ?thesis
    proof (cases "v = i \<or> (pass = 0 \<and> simd_mask cv \<noteq> simd_mask (the (cpus s i))) \<or> \<not> has_surplus cv")
      case True
      then show ?thesis using go pv Some by simp
    next
      case attempt: False
      let ?f = "\<lambda>c. c\<lparr>steal_attempts := add64 (steal_attempts c) 1\<rparr>"
      let ?s1 = "set_cpu i ?f s"
      have q1: "quiet s Q ?s1 Q" using smp_cpu_typed [OF Cons.prems]
        by (intro set_cpu_quiet [OF Cons.prems]) (auto simp: same_queue_def cpu_typed_def cpu_rest_def)
      have ok1: "smp_ok ?s1 Q" "cpus ?s1 i = Some (?f c)" "cpus ?s1 v = Some cv" using q1 Cons.prems(2) attempt Some by (auto simp: quiet_def set_cpu_def)
      note go1 = steal_result_quiet [OF q1 Cons.IH [OF ok1(1,2)]]
      show ?thesis
      proof (cases "\<not> lock pass v \<or> thread_count cv \<le> 1")
        case True
        then show ?thesis using go1 pv Some attempt by (auto simp: Let_def)
      next
        case False
        obtain batch s2 where b: "steal_batch v ?s1 = Some (batch, s2)" using steal_batch_spec [OF ok1(1,3)] by blast
        have vi: "v \<noteq> i" using attempt by simp
        have step: "steal_scan lock i (pv # vs) s = (if batch = [] then steal_scan lock i vs s2 else receive_batch i batch s2)"
          using False b pv Some attempt by (auto simp: Let_def)
        note ps = pull_spec [OF ok1(1,2,3) vi b]
        show ?thesis
        proof (cases "batch = []")
          case True
          then obtain Q2 where q2: "quiet ?s1 Q s2 Q2" using ps by auto
          obtain c2 where c2: "cpus s2 i = Some c2" using quiet_cpu [OF q2 ok1(2)] by blast
          have "smp_ok s2 Q2" using q2 by (simp add: quiet_def)
          then show ?thesis using steal_result_quiet [OF q1 steal_result_quiet [OF q2 Cons.IH [OF _ c2]]] True step by simp
        next
          case False
          then obtain r s' Q' where p: "receive_batch i batch s2 = Some (r, s')" "pulled i r ?s1 Q s' Q'" using ps by auto
          then have "steal_result i ?s1 Q (Some (r, s'))" using pulled_nonzero [OF ok1(1) p(2)] by (auto simp: steal_result_def)
          then show ?thesis using steal_result_quiet [OF q1] p(1) step False by simp
        qed
      qed
    qed
  qed
qed

lemma steal_spec:
  assumes ok: "smp_ok s Q" and c: "cpus s i = Some c"
  shows "steal_result i s Q (StealThread lock pid now i s)"
proof -
  have q: "quiet s Q s' Q" if "threads s' = threads s" "nodes s' = nodes s" "cpus s' = cpus s" "last_cpu s' = last_cpu s" for s'
    using smp_ok_other [OF ok that(1-3)] that by (simp add: quiet_def cpus_rest_def option.rel_refl)
  show ?thesis
  proof (cases "add32 (steal_skip s i) 1 < SCHED_STEAL_THROTTLE")
    case True
    then show ?thesis using q [of "s\<lparr>steal_skip := (steal_skip s)(i := add32 (steal_skip s i) 1)\<rparr>"]
      by (auto simp: StealThread_def Let_def steal_result_def)
  next
    case False
    let ?s1 = "s\<lparr>steal_skip := (steal_skip s)(i := 0), steal_cursor := (steal_cursor s)(i := add32 (steal_cursor s i) 1)\<rparr>"
    have "quiet s Q ?s1 Q" by (rule q) simp_all
    moreover have "smp_ok ?s1 Q" "cpus ?s1 i = Some c" using smp_ok_other [OF ok, of ?s1] c by simp_all
    ultimately show ?thesis using False steal_result_quiet steal_scan_spec unfolding StealThread_def Let_def by auto
  qed
qed

end
