(* ===== verification/SMP_Push.thy ===== *)
theory SMP_Push
  imports SMP_Steal
begin

text \<open>
  Pushing threads to a lighter processor: each thread of the batch is marked, removed, renamed and inserted under
  both locks. The threads that move are neither pinned nor bound to a timer nor the
  running or the idle thread of the processor.
\<close>

definition pushable :: "nat \<Rightarrow> nat \<Rightarrow> thread_t \<Rightarrow> nat \<Rightarrow> bool" where
  "pushable cu idl t a \<longleftrightarrow> a \<noteq> cu \<and> a \<noteq> idl \<and> timer_bucket t = None \<and> \<not> pinned t"

text \<open>The threads of \<open>B\<close> went from processor \<open>i\<close> to processor \<open>k\<close>.\<close>

definition pushed :: "nat \<Rightarrow> nat \<Rightarrow> nat set \<Rightarrow> smp \<Rightarrow> (nat \<Rightarrow> rtree) \<Rightarrow> smp \<Rightarrow> (nat \<Rightarrow> rtree) \<Rightarrow> bool" where
  "pushed i k B s Q s' Q' \<longleftrightarrow> smp_ok s' Q' \<and> cpus_rest s s' \<and> B \<subseteq> set (addrs (Q i))
     \<and> set (addrs (Q' i)) = set (addrs (Q i)) - B \<and> set (addrs (Q' k)) = set (addrs (Q k)) \<union> B
     \<and> (\<forall>j. j \<noteq> i \<longrightarrow> j \<noteq> k \<longrightarrow> Q' j = Q j)
     \<and> (\<forall>a. same_id (threads s a) (threads s' a) \<and> t_state (threads s' a) = (if a \<in> B then THREAD_RUNNING else t_state (threads s a))
          \<and> cpu_num (threads s' a) = (if a \<in> B then k else cpu_num (threads s a)))"

lemma pushed_none: "smp_ok s Q \<Longrightarrow> pushed i k {} s Q s Q"
  by (simp add: pushed_def)

lemma pushed_trans:
  assumes "pushed i k B s Q s1 Q1" "pushed i k C s1 Q1 s2 Q2" "i \<noteq> k"
  shows "pushed i k (B \<union> C) s Q s2 Q2"
proof -
  have "same_id (threads s a) (threads s2 a) \<and> t_state (threads s2 a) = (if a \<in> B \<union> C then THREAD_RUNNING else t_state (threads s a))
      \<and> cpu_num (threads s2 a) = (if a \<in> B \<union> C then k else cpu_num (threads s a))" for a
  proof -
    have "same_id (threads s a) (threads s1 a)" "same_id (threads s1 a) (threads s2 a)" "t_state (threads s1 a) = (if a \<in> B then THREAD_RUNNING else t_state (threads s a))"
      "t_state (threads s2 a) = (if a \<in> C then THREAD_RUNNING else t_state (threads s1 a))" "cpu_num (threads s1 a) = (if a \<in> B then k else cpu_num (threads s a))"
      "cpu_num (threads s2 a) = (if a \<in> C then k else cpu_num (threads s1 a))" using assms(1,2) by (simp_all add: pushed_def)
    then show ?thesis using same_id_trans by auto
  qed
  moreover have "cpus_rest s s2" using assms(1,2) cpus_rest_trans by (auto simp: pushed_def)
  ultimately show ?thesis using assms by (auto simp: pushed_def)
qed

lemma migrate_spec:
  assumes ok: "smp_ok s Q" and c: "cpus s i = Some ci" "cpus s k = Some ck" "i \<noteq> k" and a: "addrs (Q i) = xs @ a # ys"
  shows "\<exists>s' Q'. migrate i k a s = Some s' \<and> pushed i k {a} s Q s' Q' \<and> addrs (Q' i) = xs @ ys"
proof -
  let ?s1 = "set_thread a (\<lambda>t. t\<lparr>t_state := THREAD_TRANSFER\<rparr>) s"
  have ok1: "smp_ok ?s1 Q" using smp_okD(6) [OF ok, of a] by (intro smp_ok_set_thread [OF ok]) (auto simp: same_queued_def thread_typed_def)
  have c1: "cpus ?s1 i = Some ci" using c(1) by simp
  obtain T' h' c1 t1 where r: "RemoveFromQueue a (rq_of i ?s1) = Some (T', h', c1)" "smp_ok (put_rq i (T', h', c1) ?s1) (Q(i := t1))" "addrs t1 = xs @ ys"
    "only_min UNIV ((threads ?s1)(a := (threads ?s1 a)\<lparr>on_rq := False\<rparr>)) T'" "cpu_rest ci c1"
    using smp_remove [OF ok1 c1 a] cpu_rest_leave by blast
  let ?s2 = "put_rq i (T', h', c1) ?s1"
  note ql = queued_length [OF ok, of i]
  have ain: "a \<in> set (addrs (Q i))" "a \<noteq> 0" "set (addrs t1) = set (addrs (Q i)) - {a}" using a ql(1,2) r(3) by (auto intro: ccontr)
  have na: "a \<notin> queued_set (Q(i := t1))" using ain(1,3) smp_apart [OF ok, of _ i a] unfolding queued_set_upd by auto
  have room: "card (queued_set (Q(i := t1))) + length [a] < U64"
  proof -
    have "insert a (queued_set (Q(i := t1))) = queued_set Q"
    proof -
      have "queued_set Q = queued_set (Q(i := Q i))" by simp
      then show ?thesis unfolding queued_set_upd ain(3) using ain(1) by auto
    qed
    then have "card (queued_set Q) = card (queued_set (Q(i := t1))) + 1" using na smp_okD(7) [OF r(2)] card_insert_disjoint by fastforce
    then show ?thesis using smp_okD(8) [OF ok] by simp
  qed
  have ck: "cpus ?s2 k = Some ck" using c(2,3) by simp
  obtain s' c' t' where t: "take_in k [a] ?s2 = Some s'" "smp_ok s' ((Q(i := t1))(k := t'))" "set (addrs t') = set (addrs ((Q(i := t1)) k)) \<union> set [a]"
    "cpus s' = (cpus ?s2)(k \<mapsto> c')" "cpu_rest ck c'" "last_cpu s' = last_cpu ?s2"
    "\<forall>b. same_id (threads ?s2 b) (threads s' b) \<and> t_state (threads s' b) = (if b \<in> set [a] then THREAD_RUNNING else t_state (threads ?s2 b))
       \<and> cpu_num (threads s' b) = (if b \<in> set [a] then k else cpu_num (threads ?s2 b))"
    using take_in_spec [OF r(2) ck, of "[a]"] na ain(2) room by auto
  have "migrate i k a s = Some s'" using r(1) t(1) by (simp add: migrate_def Let_def)
  moreover have "pushed i k {a} s Q s' ((Q(i := t1))(k := t'))"
  proof -
    have "same_id (threads s b) (threads s' b) \<and> t_state (threads s' b) = (if b \<in> {a} then THREAD_RUNNING else t_state (threads s b))
        \<and> cpu_num (threads s' b) = (if b \<in> {a} then k else cpu_num (threads s b))" for b
    proof -
      have "same_id (threads s b) (threads ?s1 b)" by (simp add: same_id_def)
      then have "same_id (threads s b) T2 " if "same_id (T' b) T2" for T2 using removed_fields(1) [OF r(4), of b] that same_id_trans by blast
      then show ?thesis using t(7) removed_fields(2,3) [OF r(4), of b] by auto
    qed
    moreover have "cpus_rest s s'"
    proof -
      have "cpus_rest s ?s2" using r(5) by (intro cpus_rest_upd [OF c(1), of _ c1]) (simp_all add: put_rq_def set_thread_def)
      moreover have "cpus_rest ?s2 s'" using t(5,6) by (intro cpus_rest_upd [OF ck t(4)]) simp_all
      ultimately show ?thesis by (rule cpus_rest_trans)
    qed
    ultimately show ?thesis using t(2,3) ain(1,3) c(3) by (simp add: pushed_def)
  qed
  moreover have "addrs (((Q(i := t1))(k := t')) i) = xs @ ys" using c(3) r(3) by simp
  ultimately show ?thesis by blast
qed

section \<open>The batch\<close>

lemma cpus_rest_cpu: "cpus_rest s s1 \<Longrightarrow> cpus s i = Some c \<Longrightarrow> \<exists>c1. cpus s1 i = Some c1 \<and> cpu_rest c c1"
proof -
  assume "cpus_rest s s1" "cpus s i = Some c"
  then have "rel_option cpu_rest (Some c) (cpus s1 i)" unfolding cpus_rest_def by metis
  then show ?thesis by (cases "cpus s1 i") simp_all
qed

lemma push_loop_spec:
  "smp_ok s Q \<Longrightarrow> cpus s i = Some ci \<Longrightarrow> cpus s k = Some ck \<Longrightarrow> i \<noteq> k \<Longrightarrow> addrs (Q i) = xs @ ys \<Longrightarrow> n \<le> SCHED_STEAL_BATCH \<Longrightarrow>
   \<exists>B s' Q'. push_loop i k cu idl (head0 (rev xs)) n s = Some (n + card B, s') \<and> pushed i k B s Q s' Q' \<and> B \<subseteq> set xs \<and> n + card B \<le> SCHED_STEAL_BATCH
     \<and> (\<forall>a\<in>B. pushable cu idl (threads s a) a)"
proof (induction xs arbitrary: s Q ci ck ys n rule: rev_induct)
  case Nil
  have "push_loop i k cu idl (head0 (rev [])) n s = Some (n, s)" by (subst push_loop.simps) simp
  then show ?case using pushed_none [OF Nil.prems(1)] Nil.prems(6) by (intro exI [of _ "{}"] exI [of _ s] exI [of _ Q]) simp
next
  case (snoc x xs)
  have a: "addrs (Q i) = xs @ x # ys" using snoc.prems(5) by simp
  have x0: "x \<noteq> 0" using queued_length(2) [OF snoc.prems(1), of i] a by (cases "x = 0") auto
  have pr: "rb_prev (nodes s) x = Some (head0 (rev xs))" using rb_prev_spec [OF smp_focus(1) [OF snoc.prems(1,2)] a] .
  let ?stop = "n \<ge> SCHED_STEAL_BATCH \<or> load s (the (cpus s k)) \<ge> load s (the (cpus s i))"
  consider (stop) "?stop" | (skip) "\<not> ?stop" "\<not> pushable cu idl (threads s x) x" | (move) "\<not> ?stop" "pushable cu idl (threads s x) x" by blast
  then show ?case
  proof cases
    case stop
    then have "push_loop i k cu idl x n s = Some (n, s)" by (subst push_loop.simps) auto
    then show ?thesis using pushed_none [OF snoc.prems(1)] snoc.prems(6) by (intro exI [of _ "{}"] exI [of _ s] exI [of _ Q]) simp
  next
    case skip
    then have "push_loop i k cu idl x n s = push_loop i k cu idl (head0 (rev xs)) n s"
      using x0 pr by (subst push_loop.simps) (auto simp: pushable_def)
    then show ?thesis using snoc.IH [OF snoc.prems(1-4) a snoc.prems(6)] by fastforce
  next
    case move
    obtain s1 Q1 where m: "migrate i k x s = Some s1" "pushed i k {x} s Q s1 Q1" "addrs (Q1 i) = xs @ ys" using migrate_spec [OF snoc.prems(1-4) a] by blast
    have ok1: "smp_ok s1 Q1" "cpus_rest s s1" using m(2) by (simp_all add: pushed_def)
    obtain ci1 ck1 where c1: "cpus s1 i = Some ci1" "cpus s1 k = Some ck1" using cpus_rest_cpu [OF ok1(2)] snoc.prems(2,3) by meson
    have step: "push_loop i k cu idl x n s = push_loop i k cu idl (head0 (rev xs)) (n + 1) s1"
      using move x0 pr m(1) by (subst push_loop.simps) (auto simp: pushable_def)
    have n1: "n + 1 \<le> SCHED_STEAL_BATCH" using move(1) by simp
    obtain B s' Q' where ih: "push_loop i k cu idl (head0 (rev xs)) (n + 1) s1 = Some (n + 1 + card B, s')" "pushed i k B s1 Q1 s' Q'" "B \<subseteq> set xs"
      "n + 1 + card B \<le> SCHED_STEAL_BATCH" "\<forall>a\<in>B. pushable cu idl (threads s1 a) a"
      using snoc.IH [OF ok1(1) c1 snoc.prems(4) m(3) n1] by blast
    have fin: "finite B" using ih(3) finite_subset by blast
    have xB: "x \<notin> B" using ih(3) a queued_length(1) [OF snoc.prems(1), of i] by auto
    have "pushable cu idl (threads s b) b" if "b \<in> B" for b using ih(5) that m(2) by (auto simp: pushable_def pushed_def same_id_def)
    moreover have "n + 1 + card B = n + card ({x} \<union> B)" using fin xB by simp
    ultimately show ?thesis using step ih(1,3,4) pushed_trans [OF m(2) ih(2) snoc.prems(4)] move(2)
      by (intro exI [of _ "{x} \<union> B"] exI [of _ s'] exI [of _ Q']) auto
  qed
qed

text \<open>A push moves no more than a batch of pushable threads, or leaves the queues as they are.\<close>

definition push_result :: "nat \<Rightarrow> smp \<Rightarrow> (nat \<Rightarrow> rtree) \<Rightarrow> smp option \<Rightarrow> bool" where
  "push_result i s Q x \<longleftrightarrow> (\<exists>k B s' Q'. x = Some s' \<and> k \<noteq> i \<and> pushed i k B s Q s' Q' \<and> card B \<le> SCHED_STEAL_BATCH
     \<and> (\<forall>a\<in>B. pushable (current_thread (the (cpus s i))) (idle_thread (the (cpus s i))) (threads s a) a))"

lemma pushed_other:
  assumes "pushed i k B s Q s1 Q1" "cpus_rest s1 s2" "smp_ok s2 Q1" "threads s2 = threads s1"
  shows "pushed i k B s Q s2 Q1"
  using assms cpus_rest_trans by (auto simp: pushed_def)

lemma push_batch_spec:
  assumes ok: "smp_ok s Q" and c: "cpus s i = Some ci" "cpus s k = Some ck" "i \<noteq> k"
  shows "push_result i s Q (push_batch i k s)"
proof -
  have l: "rb_last (nodes s) (r_node (runqueue_root ci)) = Some (head0 (rev (addrs (Q i))))"
    using rb_last_spec [OF smp_focus(2) [OF ok c(1)]] smp_focus(3) [OF ok c(1)] by simp
  obtain B s1 Q1 where p: "push_loop i k (current_thread ci) (idle_thread ci) (head0 (rev (addrs (Q i)))) 0 s = Some (0 + card B, s1)" "pushed i k B s Q s1 Q1"
    "0 + card B \<le> SCHED_STEAL_BATCH" "\<forall>a\<in>B. pushable (current_thread ci) (idle_thread ci) (threads s a) a"
    using push_loop_spec [OF ok c, of "addrs (Q i)" "[]" 0 "current_thread ci" "idle_thread ci"] by auto
  have ok1: "smp_ok s1 Q1" "cpus_rest s s1" using p(2) by (simp_all add: pushed_def)
  obtain c1 where c1: "cpus s1 i = Some c1" "cpu_rest ci c1" using cpus_rest_cpu [OF ok1(2) c(1)] by blast
  let ?f = "\<lambda>c. (if thread_count c < 2 then c\<lparr>has_surplus := False\<rparr> else c)\<lparr>push_success := add64 (push_success c) (card B)\<rparr>"
  let ?s2 = "set_cpu i ?f s1"
  have "\<not> has_surplus c1" if "thread_count c1 < 2" using smp_okD(2) [OF ok1(1) c1(1)] that by (simp add: queued_counted counted_def)
  then have q2: "quiet s1 Q1 ?s2 Q1" using smp_cpu_typed [OF ok1(1) c1(1)]
    by (intro set_cpu_quiet [OF ok1(1) c1(1)]) (auto simp: same_queue_def cpu_typed_def cpu_rest_def)
  define s3 where "s3 = (if card B > 0 \<and> current_thread (the (cpus ?s2 k)) = idle_thread (the (cpus ?s2 k)) then ?s2\<lparr>ipis := ipis ?s2 @ [k]\<rparr> else ?s2)"
  have s3: "threads s3 = threads ?s2" "cpus s3 = cpus ?s2" "nodes s3 = nodes ?s2" "last_cpu s3 = last_cpu ?s2" by (simp_all add: s3_def)
  have "push_batch i k s = Some s3" using l p(1) c(1) by (simp add: push_batch_def Let_def s3_def)
  moreover have "smp_ok s3 Q1" using smp_ok_other [of ?s2 Q1 s3] q2 s3 by (simp add: quiet_def)
  moreover have "cpus_rest s1 s3" using q2 s3 by (simp add: quiet_def cpus_rest_def)
  moreover have "threads s3 = threads s1" using s3(1) by (simp add: set_cpu_def)
  ultimately show ?thesis using pushed_other [OF p(2), of s3] p(3,4) c(1,3) unfolding push_result_def
    by (intro exI [of _ k] exI [of _ B] exI [of _ s3] exI [of _ Q1]) auto
qed

section \<open>The target\<close>

definition lighter :: "nat \<Rightarrow> smp \<Rightarrow> nat option \<times> nat \<Rightarrow> bool" where
  "lighter i s x \<longleftrightarrow> (case x of (None, _) \<Rightarrow> True | (Some k, w) \<Rightarrow> k \<noteq> i \<and> (\<exists>c. cpus s k = Some c \<and> w = load s c \<and> w < load s (the (cpus s i))))"

lemma push_step_lighter: "lighter i s (fst b) \<and> lighter i s (snd b) \<Longrightarrow> lighter i s (fst (push_step i s k b)) \<and> lighter i s (snd (push_step i s k b))"
proof -
  have new: "lighter i s (Some k, load s c)" if "cpus s k = Some c" "k \<noteq> i" "load s c < load s (the (cpus s i))" for c
    using that by (simp add: lighter_def)
  assume "lighter i s (fst b) \<and> lighter i s (snd b)"
  then show ?thesis by (cases b; cases "fst b"; cases "snd b"; cases "cpus s k") (simp_all add: push_step_def Let_def new)
qed

lemma push_fold_lighter: "lighter i s (fst b) \<and> lighter i s (snd b) \<Longrightarrow> lighter i s (fst (fold (push_step i s) ks b)) \<and> lighter i s (snd (fold (push_step i s) ks b))"
  by (induction ks arbitrary: b) (simp_all add: push_step_lighter)

lemma push_target_spec:
  assumes "push_target i s = Some (k, w, cross)"
  shows "k \<noteq> i \<and> (\<exists>c. cpus s k = Some c \<and> w = load s c \<and> w < load s (the (cpus s i)))"
proof -
  obtain t f where tf: "fold (push_step i s) [0..<last_cpu s + 1] ((None, UINT64_MAX), (None, UINT64_MAX)) = (t, f)" by (metis prod.collapse)
  have "lighter i s t \<and> lighter i s f" using push_fold_lighter [of i s "((None, UINT64_MAX), (None, UINT64_MAX))" "[0..<last_cpu s + 1]"] tf by (simp add: lighter_def)
  then show ?thesis using assms tf by (auto simp: push_target_def lighter_def split: prod.splits option.splits)
qed

lemma push_spec:
  assumes ok: "smp_ok s Q" and c: "cpus s i = Some c"
  shows "push_result i s Q (TryPush second_lock i s)"
proof -
  let ?s1 = "set_cpu i (\<lambda>c. c\<lparr>try_pushes := add64 (try_pushes c) 1\<rparr>) s"
  let ?c1 = "c\<lparr>try_pushes := add64 (try_pushes c) 1\<rparr>"
  have q: "quiet s Q ?s1 Q" using smp_cpu_typed [OF ok c] by (intro set_cpu_quiet [OF ok c]) (auto simp: same_queue_def cpu_typed_def cpu_rest_def)
  have ok1: "smp_ok ?s1 Q" "cpus_rest s ?s1" "cpus ?s1 i = Some ?c1" "threads ?s1 = threads s" using q c by (simp_all add: quiet_def set_cpu_def)
  have none: "push_result i s Q (Some ?s1)"
    using pushed_other [OF pushed_none [OF ok] ok1(2,1,4), of i "i + 1"] unfolding push_result_def by (intro exI [of _ "i + 1"] exI [of _ "{}"] exI [of _ ?s1] exI [of _ Q]) simp
  show ?thesis
  proof (cases "\<not> has_surplus ?c1 \<or> thread_count ?c1 < 2")
    case True
    then show ?thesis using none ok1(3) by (simp add: TryPush_def Let_def)
  next
    case go: False
    show ?thesis
    proof (cases "push_target i ?s1")
      case None
      then show ?thesis using none ok1(3) go by (simp add: TryPush_def Let_def)
    next
      case (Some kwc)
      obtain k w cross where kwc: "kwc = (k, w, cross)" by (cases kwc)
      show ?thesis
      proof (cases "add64 w (w div 2 ^ (if cross then 1 else 2)) \<ge> load ?s1 ?c1 \<or> \<not> second_lock")
        case True
        then show ?thesis using none ok1(3) go Some kwc by (auto simp: TryPush_def Let_def)
      next
        case False
        obtain ck where k: "k \<noteq> i" "cpus ?s1 k = Some ck" using push_target_spec [of i ?s1 k w cross] Some kwc by blast
        have "TryPush second_lock i s = push_batch i k ?s1" using False ok1(3) go Some kwc by (auto simp: TryPush_def Let_def)
        moreover obtain k' B s' Q' where p: "push_batch i k ?s1 = Some s'" "k' \<noteq> i" "pushed i k' B ?s1 Q s' Q'" "card B \<le> SCHED_STEAL_BATCH"
          "\<forall>a\<in>B. pushable (current_thread ?c1) (idle_thread ?c1) (threads ?s1 a) a"
          using push_batch_spec [OF ok1(1,3) k(2)] k(1) ok1(3) unfolding push_result_def by auto
        moreover have "pushed i k' B s Q s' Q'"
          using p(3) cpus_rest_trans [OF ok1(2)] unfolding pushed_def ok1(4) by blast
        ultimately show ?thesis unfolding push_result_def using c ok1(4)
          by (intro exI [of _ k'] exI [of _ B] exI [of _ s'] exI [of _ Q']) simp
      qed
    qed
  qed
qed

section \<open>The least loaded processor\<close>

definition admissible :: "nat option \<Rightarrow> smp \<Rightarrow> nat \<Rightarrow> bool" where
  "admissible ref s i \<longleftrightarrow> cpus s i \<noteq> None \<and> (case ref of None \<Rightarrow> True | Some r \<Rightarrow> simd_mask (the (cpus s i)) = simd_mask (the (cpus s r)))"

lemma lw_fold:
  "case fold (lw_step s ref) ks lw of
     None \<Rightarrow> lw = None \<and> (\<forall>i\<in>set ks. \<not> admissible ref s i)
   | Some j \<Rightarrow> (j \<in> set ks \<and> admissible ref s j \<or> lw = Some j)
       \<and> (\<forall>i. i \<in> set ks \<and> admissible ref s i \<or> lw = Some i \<longrightarrow> load s (the (cpus s j)) \<le> load s (the (cpus s i)))"
proof (induction ks arbitrary: lw)
  case Nil
  then show ?case by (cases lw) simp_all
next
  case (Cons k ks)
  have a: "lw_step s ref k lw = (if admissible ref s k then (case lw of None \<Rightarrow> Some k | Some j \<Rightarrow> if load s (the (cpus s k)) < load s (the (cpus s j)) then Some k else lw) else lw)"
    by (auto simp: lw_step_def admissible_def split: option.splits)
  consider (no) "\<not> admissible ref s k" | (new) "admissible ref s k" "lw_step s ref k lw = Some k" "\<forall>j. lw = Some j \<longrightarrow> load s (the (cpus s k)) \<le> load s (the (cpus s j))"
    | (old) j where "admissible ref s k" "lw = Some j" "lw_step s ref k lw = lw" "load s (the (cpus s j)) \<le> load s (the (cpus s k))"
    using a by (cases lw) (auto split: if_splits)
  then show ?case
  proof cases
    case no
    then show ?thesis using Cons.IH [of lw] a by (cases "fold (lw_step s ref) ks lw") auto
  next
    case new
    then show ?thesis using Cons.IH [of "Some k"] by (cases "fold (lw_step s ref) ks (Some k)") (auto intro: le_trans)
  next
    case old
    then show ?thesis using Cons.IH [of lw] by (cases "fold (lw_step s ref) ks lw") (auto intro: le_trans)
  qed
qed

lemma get_lw_cpu_spec:
  assumes "i \<le> last_cpu s" "admissible ref s i"
  shows "admissible ref s (get_lw_cpu this ref s) \<and> get_lw_cpu this ref s \<le> last_cpu s
    \<and> load s (the (cpus s (get_lw_cpu this ref s))) \<le> load s (the (cpus s i))"
  using lw_fold [where s = s and ref = ref and ks = "[0..<last_cpu s + 1]" and lw = None] assms
  by (cases "fold (lw_step s ref) [0..<last_cpu s + 1] None") (auto simp: get_lw_cpu_def simp del: upt_Suc)

end
