(* ===== verification/Switch_Model.thy ===== *)
theory Switch_Model
  imports SMP_Model
begin

text \<open>
  The scheduling interrupt (\<open>Switch\<close> in \<open>kernel/src/arch/x86_64/schedule/sched.cpp\<close>) and the requests for it. The clocks,
  the interrupted registers, the calibration hook and the outcomes of tried locks are arguments.
  Of the hardware the model keeps the value written to the one-shot timer and the interrupts
  sent; the floating point area, the FS base, the task state segment and the page table base
  are not part of the state.
\<close>

record switch_in =
  i_now :: nat
  i_tsc :: nat
  i_rip :: nat
  i_cs :: nat
  i_hook :: nat
  i_pid :: nat
  i_steal_lock :: "nat \<Rightarrow> nat \<Rightarrow> bool"
  i_push_lock :: bool

section \<open>Accounting\<close>

abbreviation (input) KERNEL_BASE :: nat where "KERNEL_BASE \<equiv> 18446603336221196288"

definition safe_get_current_thread :: "cpu_t \<Rightarrow> nat \<times> bool" where
  "safe_get_current_thread c = (if current_thread c < KERNEL_BASE then (idle_thread c, True) else (current_thread c, False))"

definition slice_ms :: "nat \<Rightarrow> thread_t \<Rightarrow> nat" where
  "slice_ms now t =
     (let delta = (if last_run_time t \<noteq> 0 then sub64 now (last_run_time t) else 0)
      in if delta = 0 then 1 else delta)"

definition charge_thread :: "nat \<Rightarrow> thread_t \<Rightarrow> thread_t" where
  "charge_thread now t =
     (let w = (if t_weight t \<noteq> 0 then t_weight t else 1024);
          vruntime_total = add64 (mul64 (slice_ms now t) 1024) (vruntime_rem t)
      in t\<lparr>last_run_time := now, vruntime_rem := vruntime_total mod w, vruntime := add64 (vruntime t) (vruntime_total div w)\<rparr>)"

definition advance_clock :: "nat \<Rightarrow> nat \<Rightarrow> cpu_t \<Rightarrow> cpu_t" where
  "advance_clock delta weight c =
     (let avg_total = add64 (mul64 delta 1024) (avg_vruntime_rem c)
      in c\<lparr>avg_vruntime_rem := avg_total mod weight, avg_vruntime := add64 (avg_vruntime c) (avg_total div weight)\<rparr>)"

text \<open>The time of the slice that ended is charged to the thread and to the clock of the processor.\<close>

definition account :: "nat \<Rightarrow> nat \<Rightarrow> nat \<Rightarrow> smp \<Rightarrow> nat \<times> smp" where
  "account i now curr_thread s =
     (let c = the (cpus s i); t = threads s curr_thread in
      if curr_thread \<noteq> 0 \<and> curr_thread \<noteq> idle_thread c
      then let delta = slice_ms now t;
               w = (if t_weight t \<noteq> 0 then t_weight t else 1024)
           in (delta, set_cpu i (advance_clock delta (add64 (total_weight c) w)) (set_thread curr_thread (charge_thread now) s))
      else if curr_thread = idle_thread c
      then let delta = sub64 now (last_run_time t);
               s1 = set_thread curr_thread (\<lambda>t. t\<lparr>last_run_time := now\<rparr>) s
           in (0, if delta > 0 then set_cpu i (advance_clock delta 1024) s1 else s1)
      else (0, s))"

definition adjust :: "nat \<Rightarrow> switch_in \<Rightarrow> nat \<Rightarrow> smp \<Rightarrow> smp" where
  "adjust i inp curr_thread s =
     (let c = the (cpus s i);
          (c', dc) = dynamic_adjust_quantum (curr_thread = idle_thread c) (i_now inp) (i_tsc inp) (c, dyn_ctx s i)
      in s\<lparr>cpus := (cpus s)(i \<mapsto> c'), dyn_ctx := (dyn_ctx s)(i := dc)\<rparr>)"

definition sample :: "nat \<Rightarrow> switch_in \<Rightarrow> nat \<Rightarrow> nat \<Rightarrow> smp \<Rightarrow> smp" where
  "sample i inp curr_thread last_slice_ms s =
     (let c = the (cpus s i);
          e = riprate_update (i_hook inp) (curr_thread = 0 \<or> curr_thread = idle_thread c) (i_rip inp) (i_cs inp) last_slice_ms (i_tsc inp) (i_now inp)
                \<lparr>e_thr = threads s curr_thread, e_cpu = c, e_st = rip_stats s i, fast_w = rip_fast_weight s i, tsc_per_ms_cache = tsc_per_ms s\<rparr>
      in s\<lparr>threads := (threads s)(curr_thread := e_thr e), cpus := (cpus s)(i \<mapsto> e_cpu e), rip_stats := (rip_stats s)(i := e_st e),
           rip_fast_weight := (rip_fast_weight s)(i := fast_w e), tsc_per_ms := tsc_per_ms_cache e\<rparr>)"

section \<open>Zombies\<close>

abbreviation (input) ZOMBIE_RECLAIM_THRESHOLD :: nat where "ZOMBIE_RECLAIM_THRESHOLD \<equiv> 8"
abbreviation (input) ZOMBIE_RECLAIM_BATCH :: nat where "ZOMBIE_RECLAIM_BATCH \<equiv> 16"

text \<open>The loop that takes zombies off the list: the rest of the list, the list taken, and their number.\<close>

fun take_zombies :: "nat \<Rightarrow> nat \<Rightarrow> nat \<Rightarrow> (nat \<Rightarrow> thread_t) \<Rightarrow> nat \<times> nat \<times> nat \<times> (nat \<Rightarrow> thread_t)" where
  "take_zombies 0 z zombie_to_free T = (z, zombie_to_free, 0, T)"
| "take_zombies (Suc n) z zombie_to_free T =
     (if z = 0 then (z, zombie_to_free, 0, T)
      else case take_zombies n (zombie_next (T z)) z (T(z := (T z)\<lparr>zombie_next := zombie_to_free\<rparr>)) of
             (z', f, moved, T') \<Rightarrow> (z', f, moved + 1, T'))"

definition collect_zombies :: "nat \<Rightarrow> smp \<Rightarrow> nat \<times> smp" where
  "collect_zombies i s =
     (let c = the (cpus s i) in
      if zombie_count c \<ge> ZOMBIE_RECLAIM_THRESHOLD
      then case take_zombies ZOMBIE_RECLAIM_BATCH (zombie_list c) 0 (threads s) of
             (z, f, moved, T) \<Rightarrow>
               (f, if f \<noteq> 0 then (set_cpu i (\<lambda>c. c\<lparr>zombie_list := z, zombie_count := sub64 (zombie_count c) moved\<rparr>) s)\<lparr>threads := T\<rparr>
                   else s\<lparr>threads := T\<rparr>)
      else (0, s))"

partial_function (option) reclaim_zombie_list :: "nat \<Rightarrow> nat \<Rightarrow> smp \<Rightarrow> smp option" where
  "reclaim_zombie_list i z s =
     (if z = 0 then Some s
      else reclaim_zombie_list i (zombie_next (threads s z))
             (set_cpu i (\<lambda>c. c\<lparr>zombie_reclaims := add64 (zombie_reclaims c) 1\<rparr>) (s\<lparr>freed := freed s @ [z]\<rparr>)))"

text \<open>The pass of the idle thread over its list: everything on it is freed.\<close>

definition idle_reclaim :: "nat \<Rightarrow> smp \<Rightarrow> smp option" where
  "idle_reclaim i s =
     (let z = zombie_list (the (cpus s i)) in
      reclaim_zombie_list i z (if z \<noteq> 0 then set_cpu i (\<lambda>c. c\<lparr>zombie_list := 0, zombie_count := 0\<rparr>) s else s))"

section \<open>The switch\<close>

definition need_lock :: "bool \<Rightarrow> cpu_t \<Rightarrow> nat \<Rightarrow> thread_t \<Rightarrow> bool" where
  "need_lock yield_req c curr_thread t =
     (if curr_thread \<noteq> 0 \<and> curr_thread \<noteq> idle_thread c \<and> \<not> yield_req \<and> t_state t = THREAD_RUNNING then thread_count c \<noteq> 0
      else \<not> (curr_thread = idle_thread c \<and> thread_count c = 0))"

text \<open>What becomes of the current thread: a zombie joins the list, a running thread the queue.\<close>

definition retire :: "nat \<Rightarrow> nat \<Rightarrow> smp \<Rightarrow> (nat \<times> smp) option" where
  "retire i curr_thread s =
     (let c = the (cpus s i); st = t_state (threads s curr_thread) in
      if curr_thread \<noteq> 0 \<and> st = THREAD_ZOMBIE \<and> curr_thread \<noteq> idle_thread c
      then Some (0, set_cpu i (\<lambda>c. c\<lparr>zombie_list := curr_thread, zombie_count := add64 (zombie_count c) 1\<rparr>)
                      (set_thread curr_thread (\<lambda>t. t\<lparr>zombie_next := zombie_list c\<rparr>) s))
      else if curr_thread \<noteq> 0 \<and> st = THREAD_RUNNING \<and> curr_thread \<noteq> idle_thread c
      then map_option (\<lambda>r. (curr_thread, put_rq i r s)) (InsertToQueue curr_thread (rq_of i s))
      else Some (curr_thread, s))"

text \<open>The part under the lock of the processor: the next thread, the current thread and the zombies to free.\<close>

definition switch_locked :: "nat \<Rightarrow> nat \<Rightarrow> bool \<Rightarrow> smp \<Rightarrow> (nat \<times> nat \<times> nat \<times> smp) option" where
  "switch_locked i curr_thread curr_invalid s =
     (let s1 = (if curr_invalid then set_cpu i (\<lambda>c. c\<lparr>current_thread := curr_thread\<rparr>) s else s);
          (zombie_to_free, s2) = collect_zombies i s1
      in case retire i curr_thread s2 of
           None \<Rightarrow> None
         | Some (cur, s3) \<Rightarrow> map_option (\<lambda>(nxt, r). (nxt, cur, zombie_to_free, put_rq i r s3)) (Pick (rq_of i s3)))"

definition armed :: "nat \<Rightarrow> nat \<Rightarrow> smp \<Rightarrow> nat" where
  "armed i quantum s = mul64 quantum (lapic_ticks (the (cpus s i)))"

definition quantum_of :: "nat \<Rightarrow> nat \<Rightarrow> smp \<Rightarrow> nat \<times> smp" where
  "quantum_of i nxt s =
     (let c = the (cpus s i) in
      if nxt \<noteq> idle_thread c
      then let (q, st) = eligibility_capped_quantum c (threads s nxt) False (rip_fast_weight s i) (rip_stats s i)
           in (q, s\<lparr>rip_stats := (rip_stats s)(i := st)\<rparr>)
      else (base_quantum c, s))"

definition dispatch :: "nat \<Rightarrow> switch_in \<Rightarrow> nat \<Rightarrow> smp \<Rightarrow> smp" where
  "dispatch i inp nxt s =
     set_thread nxt (\<lambda>t. t\<lparr>last_run_time := i_now inp, dispatch_count := add64 (dispatch_count t) 1, dispatch_rip := ctx_rip t,
                          rip_signal_tag := pagemap t XOR (ctx_cs t mod 4), rip_last_tsc := i_tsc inp\<rparr>)
       (set_cpu i (\<lambda>c. c\<lparr>current_thread := nxt, context_switches := add64 (context_switches c) 1\<rparr>) s)"

definition finish_switch :: "nat \<Rightarrow> switch_in \<Rightarrow> nat \<Rightarrow> nat \<Rightarrow> smp \<Rightarrow> nat \<times> smp" where
  "finish_switch i inp curr_thread nxt s =
     (let s1 = (if nxt \<noteq> curr_thread then dispatch i inp nxt s else s);
          (q, s2) = quantum_of i nxt s1
      in (armed i q s2, s2))"

text \<open>Balancing after the lock is released: every 256 ticks a push, and a pull when nothing was found to run.\<close>

definition balance :: "nat \<Rightarrow> switch_in \<Rightarrow> nat \<Rightarrow> smp \<Rightarrow> (nat \<times> smp) option" where
  "balance i inp nxt s =
     (let c = the (cpus s i) in
      case (if tick_count c mod 256 = 0 \<and> thread_count c > 2 then TryPush (i_push_lock inp) i s else Some s) of
        None \<Rightarrow> None
      | Some s1 \<Rightarrow>
          if nxt \<noteq> 0 then Some (nxt, s1)
          else map_option (\<lambda>(r, s2). (if r = 0 then idle_thread (the (cpus s2 i)) else r, s2))
                 (StealThread (i_steal_lock inp) (i_pid inp) (i_now inp) i s1))"

definition save_context :: "nat \<Rightarrow> switch_in \<Rightarrow> nat \<Rightarrow> smp \<Rightarrow> smp" where
  "save_context i inp curr_thread s =
     (if curr_thread \<noteq> 0 \<and> curr_thread \<noteq> idle_thread (the (cpus s i))
      then set_thread curr_thread (\<lambda>t. t\<lparr>ctx_rip := i_rip inp, ctx_cs := i_cs inp\<rparr>) s else s)"

text \<open>From the consumed requests to the sample of the rate feedback, all outside the lock.\<close>

definition settle :: "nat \<Rightarrow> switch_in \<Rightarrow> nat \<Rightarrow> smp \<Rightarrow> smp" where
  "settle i inp curr_thread s =
     (let s1 = adjust i inp curr_thread (save_context i inp curr_thread s);
          (last_slice_ms, s2) = account i (i_now inp) curr_thread s1
      in sample i inp curr_thread last_slice_ms s2)"

definition Switch :: "nat \<Rightarrow> switch_in \<Rightarrow> smp \<Rightarrow> (nat option \<times> smp) option" where
  "Switch i inp s =
     (case cpus s i of
        None \<Rightarrow> Some (None, s)
      | Some c \<Rightarrow>
          if idle_thread c = 0 \<or> current_thread c = 0
          then Some (Some (armed i (base_quantum c) s), if idle_thread c \<noteq> 0 then set_cpu i (\<lambda>c. c\<lparr>current_thread := idle_thread c\<rparr>) s else s)
          else if preempt_count c > 1
          then let (q, st) = get_dynamic_quantum c (if current_thread c = idle_thread c then None else Some (threads s (current_thread c))) (rip_fast_weight s i) (rip_stats s i)
               in Some (Some (armed i q s), s\<lparr>rip_stats := (rip_stats s)(i := st)\<rparr>)
          else
            let yield_req = yield_request_flags s i;
                s1 = set_cpu i (\<lambda>c. c\<lparr>tick_count := add64 (tick_count c) 1\<rparr>)
                       (s\<lparr>need_resched_flags := (need_resched_flags s)(i := False), yield_request_flags := (yield_request_flags s)(i := False)\<rparr>);
                (curr_thread, curr_invalid) = safe_get_current_thread c;
                s2 = settle i inp curr_thread s1
            in case (if need_lock yield_req (the (cpus s2 i)) curr_thread (threads s2 curr_thread)
                     then switch_locked i curr_thread curr_invalid s2 else Some (curr_thread, curr_thread, 0, s2)) of
                 None \<Rightarrow> None
               | Some (nxt, cur, zombie_to_free, s3) \<Rightarrow>
                   (case reclaim_zombie_list i zombie_to_free s3 of
                      None \<Rightarrow> None
                    | Some s4 \<Rightarrow>
                        map_option (\<lambda>(nxt', s5). case finish_switch i inp cur nxt' s5 of (q, s6) \<Rightarrow> (Some q, s6)) (balance i inp nxt s4)))"

section \<open>Requests\<close>

definition CheckPreempt :: "nat \<Rightarrow> smp \<Rightarrow> bool" where
  "CheckPreempt i s = (case cpus s i of None \<Rightarrow> False | Some c \<Rightarrow> need_resched_flags s i \<and> preempt_count c = 0)"

definition TriggerPreempt :: "nat \<Rightarrow> nat \<Rightarrow> smp \<Rightarrow> smp" where
  "TriggerPreempt this woked_thread s =
     (let t = threads s woked_thread in
      if woked_thread = 0 \<or> cpu_num t \<ge> 128 then s
      else case cpus s (cpu_num t) of
             None \<Rightarrow> s
           | Some c \<Rightarrow>
               let cu = threads s (current_thread c) in
               if current_thread c = 0 \<or> current_thread c = idle_thread c then s\<lparr>ipis := ipis s @ [cpu_num t]\<rparr>
               else if vruntime t \<le> avg_vruntime c \<and> deadline t < deadline cu
               then let remaining_vr = (if deadline cu > vruntime cu then deadline cu - vruntime cu else 0)
                    in if remaining_vr < add64 (base_quantum c) 3 div 4 then s
                       else if cpu_num t \<noteq> this then s\<lparr>ipis := ipis s @ [cpu_num t]\<rparr>
                       else s\<lparr>need_resched_flags := (need_resched_flags s)(cpu_num t := True)\<rparr>
               else s)"

definition Yield :: "nat \<Rightarrow> smp \<Rightarrow> smp" where
  "Yield i s = (if cpus s i \<noteq> None then s\<lparr>yield_request_flags := (yield_request_flags s)(i := True)\<rparr> else s)"

definition Resume :: "nat \<Rightarrow> smp \<Rightarrow> smp" where
  "Resume i s =
     (if cpus s i = None then s
      else s\<lparr>ipis := ipis s @ [k \<leftarrow> [0..<last_cpu s + 1]. cpus s k \<noteq> None \<and> k \<noteq> i] @ [i]\<rparr>)"

end
