(* ===== verification/Switch_Inv.thy ===== *)
theory Switch_Inv
  imports SMP_Push Switch_Model
begin

text \<open>
  What the part of the scheduling interrupt outside the lock leaves alone: the rate feedback writes only the rate
  fields of the current thread and the observed rate of the processor, and no step before
  the lock changes a queue.
\<close>

section \<open>The rate feedback\<close>

definition rip_frame :: "rip_env \<Rightarrow> rip_env \<Rightarrow> bool" where
  "rip_frame e e' \<longleftrightarrow> rip_fields.more (e_thr e') = rip_fields.more (e_thr e) \<and> (\<exists>r. e_cpu e' = (e_cpu e)\<lparr>rip_avg_rate := r\<rparr>)"

lemma rip_frame_refl [simp]: "rip_frame e e"
  unfolding rip_frame_def by (intro conjI exI [of _ "rip_avg_rate (e_cpu e)"]) simp_all

lemma rip_frame_trans: "rip_frame e e1 \<Longrightarrow> rip_frame e1 e2 \<Longrightarrow> rip_frame e e2"
  unfolding rip_frame_def by auto

lemma rip_frame_thr: "rip_fields.more (f (e_thr e)) = rip_fields.more (e_thr e) \<Longrightarrow> rip_frame e (upd_thr f e)"
  unfolding rip_frame_def upd_thr_def by (intro conjI exI [of _ "rip_avg_rate (e_cpu e)"]) simp_all

lemma rip_frame_st: "rip_frame e e' \<Longrightarrow> rip_frame e (upd_st f e')"
  by (simp add: rip_frame_def upd_st_def)

lemma decays_more: "rip_fields.more ((decay_step ^^ n) t) = rip_fields.more t"
  by (induction n) (simp_all add: decay_step_def)

lemma rip_age_more: "rip_fields.more (rip_age now t) = rip_fields.more t"
  by (simp add: rip_age_def Let_def decays_more)

lemma rip_frame_tag: "case rip_tag r cs tsc now e of Return e' \<Rightarrow> rip_frame e e' | Go e' \<Rightarrow> rip_frame e e'"
  by (simp add: rip_tag_def Let_def rip_frame_st rip_frame_thr)

lemma rip_frame_elapsed: "rip_frame e (snd (rip_elapsed h w d e))"
proof -
  have "rip_frame e (e\<lparr>tsc_per_ms_cache := x\<rparr>)" for x
    unfolding rip_frame_def by (intro conjI exI [of _ "rip_avg_rate (e_cpu e)"]) simp_all
  then show ?thesis by (simp add: rip_elapsed_def Let_def rip_frame_st)
qed

lemma rip_frame_accumulate: "case rip_accumulate r w el e of Return e' \<Rightarrow> rip_frame e e' | Go e' \<Rightarrow> rip_frame e e'"
proof -
  have n: "rip_fields.more (note_slice x t) = rip_fields.more t" for x t by (simp add: note_slice_def Let_def)
  have cpu: "\<exists>r. c = c\<lparr>rip_avg_rate := r\<rparr>" for c :: cpu_t by (intro exI [of _ "rip_avg_rate c"]) simp
  show ?thesis by (auto simp: rip_accumulate_def Let_def rip_frame_def upd_thr_def upd_st_def n cpu)
qed

lemma rip_frame_feedback: "rip_frame e (rip_feedback obs e)"
proof -
  have cpu: "\<exists>r. c = c\<lparr>rip_avg_rate := r\<rparr>" for c :: cpu_t by (intro exI [of _ "rip_avg_rate c"]) simp
  have o: "case rip_observe obs b e of Return e1 \<Rightarrow> rip_frame e e1 | Go p \<Rightarrow> rip_frame e (snd p)" for b
    by (auto simp: rip_observe_def Let_def rip_frame_def upd_thr_def upd_st_def cpu)
  have b: "rip_frame e1 (rip_baselines x y e1)" for x y e1 by (auto simp: rip_baselines_def Let_def rip_frame_def upd_thr_def)
  have c: "rip_frame e1 (rip_control m e1)" for m e1 unfolding rip_control_def by (rule rip_frame_thr) simp
  have s: "rip_frame e1 (rip_statistics d e1)" for d e1 by (simp add: rip_statistics_def Let_def rip_frame_def cpu)
  have k: "rip_frame e1 (rip_correct d e1)" for d e1 by (simp add: rip_correct_def Let_def rip_frame_def upd_thr_def upd_st_def cpu)
  show ?thesis
  proof (cases "rip_observe obs (rip_base_self (e_thr e)) e")
    case (Return e1)
    then show ?thesis using o [of "rip_base_self (e_thr e)"] by (simp add: rip_feedback_def)
  next
    case (Go p)
    obtain m e1 where p: "p = (m, e1)" by (cases p)
    have "rip_frame e e1" using o [of "rip_base_self (e_thr e)"] Go p by simp
    then show ?thesis using Go p b c s k rip_frame_trans by (simp add: rip_feedback_def Let_def) meson
  qed
qed

lemma rip_frame_update: "rip_frame e (riprate_update hook idl r cs wall tsc now e)"
proof (cases idl)
  case False
  have d: "rip_frame e (rip_defend e)" unfolding rip_defend_def by (rule rip_frame_thr) simp
  show ?thesis
  proof (cases "rip_tag r cs tsc now (rip_defend e)")
    case (Return e1)
    then show ?thesis using False d rip_frame_tag [where r = r and cs = cs and tsc = tsc and now = now and e = "rip_defend e"] rip_frame_trans by (auto simp: riprate_update_def)
  next
    case (Go e1)
    let ?e2 = "upd_thr (rip_age now) e1"
    let ?e3 = "upd_thr (\<lambda>t. t\<lparr>rip_last_tsc := tsc\<rparr>) ?e2"
    obtain el e4 where el: "rip_elapsed hook wall (sub64 tsc (rip_last_tsc (e_thr ?e2))) ?e3 = (el, e4)" by fastforce
    have "rip_frame (rip_defend e) e1" using rip_frame_tag [where r = r and cs = cs and tsc = tsc and now = now and e = "rip_defend e"] Go by simp
    moreover have "rip_frame e1 ?e2" by (rule rip_frame_thr) (rule rip_age_more)
    moreover have "rip_frame ?e2 ?e3" by (rule rip_frame_thr) simp
    ultimately have f3: "rip_frame e ?e3" using d rip_frame_trans by meson
    then have f4: "rip_frame e e4" using rip_frame_elapsed [of ?e3 hook wall "sub64 tsc (rip_last_tsc (e_thr ?e2))"] el rip_frame_trans by (metis snd_conv)
    show ?thesis
    proof (cases "rip_accumulate r wall el e4")
      case (Return e5)
      then have "rip_frame e e5" using f4 rip_frame_accumulate [where r = r and w = wall and el = el and e = e4] rip_frame_trans by auto
      then show ?thesis using False Go el Return f3 by (simp add: riprate_update_def Let_def)
    next
      case (Go e5)
      let ?e6 = "upd_thr (\<lambda>t. t\<lparr>rip_acc_progress := 0, rip_acc_ms := 0\<rparr>) e5"
      have "rip_frame e e5" using f4 Go rip_frame_accumulate [where r = r and w = wall and el = el and e = e4] rip_frame_trans by auto
      moreover have "rip_frame e5 ?e6" by (rule rip_frame_thr) simp
      ultimately have f6: "rip_frame e ?e6" using rip_frame_trans by blast
      have "rip_frame e (upd_thr (\<lambda>t. t\<lparr>rip_base_self := x\<rparr>) ?e6)" for x
        using rip_frame_trans [OF f6] rip_frame_thr [of "\<lambda>t. t\<lparr>rip_base_self := x\<rparr>" ?e6] by simp
      then show ?thesis using False \<open>rip_tag r cs tsc now (rip_defend e) = Go e1\<close> el Go f3 rip_frame_trans [OF f6 rip_frame_feedback]
        by (simp add: riprate_update_def Let_def)
    qed
  qed
qed (simp add: riprate_update_def)

lemma more_fields:
  assumes "rip_fields.more t' = rip_fields.more (t :: thread_t)"
  shows "t_id t' = t_id t" "cpu_num t' = cpu_num t" "t_state t' = t_state t" "pinned t' = pinned t" "timer_bucket t' = timer_bucket t" "vruntime t' = vruntime t"
    "deadline t' = deadline t" "t_weight t' = t_weight t" "on_rq t' = on_rq t" "min_vruntime_subtree t' = min_vruntime_subtree t" "zombie_next t' = zombie_next t"
  using assms by (cases t; cases t'; simp)+

section \<open>The steps before the lock\<close>

lemma last_cpu_set_thread [simp]: "last_cpu (set_thread a f s) = last_cpu s"
  by (simp add: set_thread_def)

lemma quiet_ok: "quiet s Q s' Q' \<Longrightarrow> smp_ok s' Q'"
  by (simp add: quiet_def)

lemma quiet_set_thread:
  assumes ok: "smp_ok s Q" and f: "same_queued (threads s a) (f (threads s a))" "thread_typed (f (threads s a))" "cpu_num (f (threads s a)) = cpu_num (threads s a)"
    "same_id (threads s a) (f (threads s a))" "t_state (f (threads s a)) = t_state (threads s a)"
  shows "quiet s Q (set_thread a f s) Q"
proof -
  have "smp_ok (set_thread a f s) Q" using f(1-3) by (rule smp_ok_set_thread [OF ok])
  moreover have "cpus_rest s (set_thread a f s)" by (simp add: cpus_rest_def option.rel_refl set_thread_def)
  moreover have "same_threads s Q (set_thread a f s)" using f(3-5) by (simp add: same_threads_def)
  ultimately show ?thesis by (simp add: quiet_def)
qed

lemma quiet_other:
  assumes "smp_ok s Q" "threads s' = threads s" "nodes s' = nodes s" "cpus s' = cpus s" "last_cpu s' = last_cpu s"
  shows "quiet s Q s' Q"
  using assms smp_ok_other [OF assms(1-4)] by (simp add: quiet_def cpus_rest_def option.rel_refl)

lemma save_context_quiet: "smp_ok s Q \<Longrightarrow> quiet s Q (save_context i inp cur s) Q"
  using smp_okD(6) [of s Q cur] quiet_refl [of s Q] unfolding save_context_def
  by (auto intro!: quiet_set_thread simp: same_queued_def same_id_def thread_typed_def)

lemma adjust_cpu: "\<exists>b dc'. dynamic_adjust_quantum idl now tsc (c, dc) = (c\<lparr>base_quantum := b\<rparr>, dc') \<and> b \<le> 15"
proof -
  have st: "step_base x y q \<le> 15" if "q \<le> 15" for x y q using that by (auto simp: step_base_def)
  have cl: "clamp_base q \<le> 15" for q by (simp add: clamp_base_def Let_def)
  let ?b = "clamp_base (base_quantum c)"
  let ?dc = "account_tsc idl tsc dc"
  show ?thesis
  proof (cases "sub64 now (last_adjust_ms ?dc) > 100 \<and> total_tsc ?dc > 0")
    case True
    then show ?thesis using st [OF cl] by (auto simp: dynamic_adjust_quantum_def Let_def)
  next
    case False
    then show ?thesis using cl by (auto simp: dynamic_adjust_quantum_def Let_def)
  qed
qed

lemma quiet_set_cpu_other:
  assumes ok: "smp_ok s Q" and c: "cpus s i = Some c" and c': "same_queue c c'" "cpu_typed c'" "cpu_rest c c'"
    and s': "threads s' = threads s" "nodes s' = nodes s" "cpus s' = (cpus s)(i \<mapsto> c')" "last_cpu s' = last_cpu s"
  shows "quiet s Q s' Q"
proof -
  have q: "quiet s Q (set_cpu i (\<lambda>_. c') s) Q" using c' by (intro set_cpu_quiet [OF ok c]) simp_all
  have "quiet (set_cpu i (\<lambda>_. c') s) Q s' Q" using s' by (intro quiet_other [OF quiet_ok [OF q]]) (simp_all add: set_cpu_def)
  then show ?thesis using quiet_trans [OF q] by blast
qed

lemma adjust_quiet:
  assumes "smp_ok s Q" "cpus s i = Some c"
  shows "quiet s Q (adjust i inp cur s) Q"
proof -
  obtain b dc where d: "dynamic_adjust_quantum (cur = idle_thread c) (i_now inp) (i_tsc inp) (c, dyn_ctx s i) = (c\<lparr>base_quantum := b\<rparr>, dc)" "b \<le> 15"
    using adjust_cpu by blast
  have "cpu_typed (c\<lparr>base_quantum := b\<rparr>)" using smp_cpu_typed [OF assms] d(2) by (simp add: cpu_typed_def U64_def)
  then show ?thesis using assms(2) d(1)
    by (intro quiet_set_cpu_other [OF assms, of "c\<lparr>base_quantum := b\<rparr>"]) (simp_all add: adjust_def same_queue_def cpu_rest_def)
qed

lemma charge_fields:
  "t_id (charge_thread now t) = t_id t" "deadline (charge_thread now t) = deadline t" "on_rq (charge_thread now t) = on_rq t" "t_weight (charge_thread now t) = t_weight t"
  "cpu_num (charge_thread now t) = cpu_num t" "t_state (charge_thread now t) = t_state t" "pinned (charge_thread now t) = pinned t" "timer_bucket (charge_thread now t) = timer_bucket t"
  "zombie_next (charge_thread now t) = zombie_next t" "min_vruntime_subtree (charge_thread now t) = min_vruntime_subtree t" "vruntime (charge_thread now t) < U64"
  by (simp_all add: charge_thread_def Let_def add64_less)

lemma account_quiet:
  assumes ok: "smp_ok s Q" and c: "cpus s i = Some c"
  shows "quiet s Q (snd (account i now cur s)) Q"
proof -
  have adv: "quiet s1 Q (set_cpu i (advance_clock d w) s1) Q" if "smp_ok s1 Q" "cpus s1 i = Some c" for s1 d w
    using smp_cpu_typed [OF that] by (intro set_cpu_quiet [OF that]) (simp_all add: same_queue_def cpu_typed_def cpu_rest_def advance_clock_def Let_def add64_less)
  have ty: "thread_typed (threads s cur)" using smp_okD(6) [OF ok] .
  have ch: "quiet s Q (set_thread cur (charge_thread now) s) Q"
    using ty by (intro quiet_set_thread [OF ok]) (simp_all add: same_queued_def same_id_def charge_fields thread_typed_def)
  have la: "quiet s Q (set_thread cur (\<lambda>t. t\<lparr>last_run_time := now\<rparr>) s) Q"
    using ty by (intro quiet_set_thread [OF ok]) (simp_all add: same_queued_def same_id_def thread_typed_def)
  note q1 = quiet_trans [OF ch adv [OF quiet_ok [OF ch]]] quiet_trans [OF la adv [OF quiet_ok [OF la]]]
  show ?thesis using q1 la quiet_refl [OF ok] c by (auto simp: account_def Let_def)
qed

lemma sample_quiet:
  assumes ok: "smp_ok s Q" and c: "cpus s i = Some c"
  shows "quiet s Q (sample i inp cur ms s) Q"
proof -
  let ?e = "\<lparr>e_thr = threads s cur, e_cpu = c, e_st = rip_stats s i, fast_w = rip_fast_weight s i, tsc_per_ms_cache = tsc_per_ms s\<rparr>"
  define e where "e = riprate_update (i_hook inp) (cur = 0 \<or> cur = idle_thread c) (i_rip inp) (i_cs inp) ms (i_tsc inp) (i_now inp) ?e"
  have fr: "rip_frame ?e e" unfolding e_def by (rule rip_frame_update)
  then have more: "rip_fields.more (e_thr e) = rip_fields.more (threads s cur)" by (simp add: rip_frame_def)
  obtain r where r: "e_cpu e = c\<lparr>rip_avg_rate := r\<rparr>" using fr by (auto simp: rip_frame_def)
  note mf = more_fields [OF more]
  let ?s1 = "set_thread cur (\<lambda>_. e_thr e) s"
  have q1: "quiet s Q ?s1 Q" using smp_okD(6) [OF ok, of cur]
    by (intro quiet_set_thread [OF ok]) (simp_all add: same_queued_def same_id_def thread_typed_def mf)
  have "cpu_typed (c\<lparr>rip_avg_rate := r\<rparr>)" using smp_cpu_typed [OF ok c] by (simp add: cpu_typed_def)
  then have "quiet ?s1 Q (sample i inp cur ms s) Q" using c r
    by (intro quiet_set_cpu_other [OF quiet_ok [OF q1], of i c "c\<lparr>rip_avg_rate := r\<rparr>"]) (simp_all add: same_queue_def cpu_rest_def sample_def Let_def e_def [symmetric])
  then show ?thesis using quiet_trans [OF q1] by blast
qed

lemma settle_quiet:
  assumes ok: "smp_ok s Q" and c: "cpus s i = Some c"
  shows "quiet s Q (settle i inp cur s) Q"
proof -
  note q1 = save_context_quiet [OF ok, of i inp cur]
  obtain c1 where c1: "cpus (save_context i inp cur s) i = Some c1" using quiet_cpu [OF q1 c] by blast
  note q2 = quiet_trans [OF q1 adjust_quiet [OF quiet_ok [OF q1] c1, of inp cur]]
  obtain c2 where c2: "cpus (adjust i inp cur (save_context i inp cur s)) i = Some c2" using quiet_cpu [OF q2 c] by blast
  obtain ms s2 where a: "account i (i_now inp) cur (adjust i inp cur (save_context i inp cur s)) = (ms, s2)" by fastforce
  have q3: "quiet s Q s2 Q" using quiet_trans [OF q2 account_quiet [OF quiet_ok [OF q2] c2, of "i_now inp" cur]] a by simp
  obtain c3 where c3: "cpus s2 i = Some c3" using quiet_cpu [OF q3 c] by blast
  show ?thesis using quiet_trans [OF q3 sample_quiet [OF quiet_ok [OF q3] c3, of inp cur ms]] a by (simp add: settle_def)
qed

end
