(* ===== verification/Switch_Zombie.thy ===== *)
theory Switch_Zombie
  imports Switch_Inv
begin

text \<open>
  The lists of dead threads: a list threaded through the threads themselves, the loop that takes up to a batch off it,
  and the walk that frees a list.
\<close>

fun zchain :: "(nat \<Rightarrow> thread_t) \<Rightarrow> nat \<Rightarrow> nat list \<Rightarrow> bool" where
  "zchain T z [] = (z = 0)"
| "zchain T z (a # as) = (z = a \<and> a \<noteq> 0 \<and> zchain T (zombie_next (T a)) as)"

lemma zchain_cong: "(\<And>a. a \<in> set zs \<Longrightarrow> zombie_next (T' a) = zombie_next (T a)) \<Longrightarrow> zchain T' z zs = zchain T z zs"
  by (induction zs arbitrary: z) auto

lemma zchain_head: "zchain T z zs \<Longrightarrow> z = 0 \<longleftrightarrow> zs = []"
  by (cases zs) auto

lemma take_zombies_spec:
  "zchain T z zs \<Longrightarrow> zchain T f fs \<Longrightarrow> distinct (zs @ fs) \<Longrightarrow>
   \<exists>z' f' T'. take_zombies n z f T = (z', f', min n (length zs), T') \<and> zchain T' z' (drop n zs) \<and> zchain T' f' (rev (take n zs) @ fs)
     \<and> (\<forall>a. T' a = (T a)\<lparr>zombie_next := zombie_next (T' a)\<rparr>) \<and> (\<forall>a. a \<notin> set (take n zs) \<longrightarrow> T' a = T a)"
proof (induction n arbitrary: z f T zs fs)
  case 0
  then show ?case by simp
next
  case (Suc n)
  show ?case
  proof (cases zs)
    case Nil
    then show ?thesis using Suc.prems by simp
  next
    case (Cons a as)
    let ?T1 = "T(a := (T a)\<lparr>zombie_next := f\<rparr>)"
    have a: "z = a" "a \<noteq> 0" "zchain T (zombie_next (T a)) as" "a \<notin> set as" "a \<notin> set fs" using Suc.prems Cons by auto
    have keep: "zchain ?T1 y xs = zchain T y xs" if "a \<notin> set xs" for y xs using that by (intro zchain_cong) auto
    have p: "zchain ?T1 (zombie_next (T a)) as" "zchain ?T1 a (a # fs)" "distinct (as @ a # fs)"
      using a Suc.prems(2,3) Cons keep by auto
    obtain z' f' T' where ih: "take_zombies n (zombie_next (T a)) a ?T1 = (z', f', min n (length as), T')" "zchain T' z' (drop n as)" "zchain T' f' (rev (take n as) @ a # fs)"
      "\<forall>b. T' b = (?T1 b)\<lparr>zombie_next := zombie_next (T' b)\<rparr>" "\<forall>b. b \<notin> set (take n as) \<longrightarrow> T' b = ?T1 b"
      using Suc.IH [OF p] by blast
    have "T' b = (T b)\<lparr>zombie_next := zombie_next (T' b)\<rparr>" for b using ih(4) [rule_format, of b] by (cases "b = a") simp_all
    moreover have "T' b = T b" if "b \<notin> set (take (Suc n) zs)" for b using ih(5) that Cons by simp
    ultimately show ?thesis using ih(1-3) a(1,2) Cons by simp
  qed
qed

lemma reclaim_spec:
  "zchain (threads s) z zs \<Longrightarrow> cpus s i = Some c \<Longrightarrow>
   \<exists>s' n. reclaim_zombie_list i z s = Some s' \<and> threads s' = threads s \<and> nodes s' = nodes s \<and> last_cpu s' = last_cpu s \<and> freed s' = freed s @ zs
     \<and> cpus s' = (cpus s)(i \<mapsto> c\<lparr>zombie_reclaims := n\<rparr>)"
proof (induction zs arbitrary: z s c)
  case Nil
  then show ?case by (subst reclaim_zombie_list.simps) (auto intro!: exI [of _ "zombie_reclaims c"] simp: fun_upd_idem)
next
  case (Cons a as)
  let ?c1 = "c\<lparr>zombie_reclaims := add64 (zombie_reclaims c) 1\<rparr>"
  let ?s1 = "set_cpu i (\<lambda>c. c\<lparr>zombie_reclaims := add64 (zombie_reclaims c) 1\<rparr>) (s\<lparr>freed := freed s @ [a]\<rparr>)"
  have s1: "threads ?s1 = threads s" "nodes ?s1 = nodes s" "last_cpu ?s1 = last_cpu s" "freed ?s1 = freed s @ [a]" "cpus ?s1 = (cpus s)(i \<mapsto> ?c1)"
    using Cons.prems(2) by (simp_all add: set_cpu_def)
  have p: "zchain (threads ?s1) (zombie_next (threads s a)) as" "cpus ?s1 i = Some ?c1" using Cons.prems(1) s1 by simp_all
  have "reclaim_zombie_list i z s = reclaim_zombie_list i (zombie_next (threads s a)) ?s1" using Cons.prems(1) by (subst reclaim_zombie_list.simps) simp
  moreover obtain s' n where "reclaim_zombie_list i (zombie_next (threads s a)) ?s1 = Some s'" "threads s' = threads ?s1" "nodes s' = nodes ?s1" "last_cpu s' = last_cpu ?s1"
    "freed s' = freed ?s1 @ as" "cpus s' = (cpus ?s1)(i \<mapsto> ?c1\<lparr>zombie_reclaims := n\<rparr>)"
    using Cons.IH [OF p] by blast
  ultimately show ?case using s1 by (intro exI [of _ s'] exI [of _ n]) simp
qed

end
