(* ===== verification/Switch_Freed.thy ===== *)
theory Switch_Freed
  imports Switch_Zombie
begin

text \<open>Balancing frees no thread.\<close>

lemma freed_fields [simp]: "freed (set_thread a f s) = freed s" "freed (set_cpu i g s) = freed s" "freed (put_rq i r s) = freed s"
  by (simp_all add: set_thread_def set_cpu_def put_rq_def split: prod.splits option.splits)

lemma take_in_freed: "take_in i as s = Some s' \<Longrightarrow> freed s' = freed s"
  by (induction as arbitrary: s) (auto simp: Let_def split: option.splits)

lemma receive_batch_freed: "receive_batch i batch s = Some (r, s') \<Longrightarrow> freed s' = freed s"
proof -
  have "freed (fold (\<lambda>a. set_thread a (\<lambda>t. t\<lparr>t_state := THREAD_TRANSFER\<rparr>)) as u) = freed u" for as u by (induction as arbitrary: u) simp_all
  then show "receive_batch i batch s = Some (r, s') \<Longrightarrow> freed s' = freed s"
    by (auto simp: receive_batch_def Let_def take_in_freed split: option.splits if_splits)
qed

lemma steal_batch_freed: "steal_batch v s = Some (batch, s') \<Longrightarrow> freed s' = freed s"
  by (auto simp: steal_batch_def Let_def split: option.splits)

lemma steal_scan_freed: "steal_scan lock i vs s = Some (r, s') \<Longrightarrow> freed s' = freed s"
proof (induction lock i vs s rule: steal_scan.induct)
  case (2 lock i pass v rest s)
  let ?s1 = "set_cpu i (\<lambda>c. c\<lparr>steal_attempts := add64 (steal_attempts c) 1\<rparr>) s"
  show ?case
  proof (cases "cpus s v")
    case None
    then show ?thesis using 2 by simp
  next
    case (Some c)
    show ?thesis
    proof (cases "v = i \<or> (pass = 0 \<and> simd_mask c \<noteq> simd_mask (the (cpus s i))) \<or> \<not> has_surplus c")
      case True
      then have "steal_scan lock i rest s = Some (r, s')" using 2(5) Some by simp
      then show ?thesis using 2(2) [OF Some True] by blast
    next
      case out: False
      show ?thesis
      proof (cases "\<not> lock pass v \<or> thread_count c \<le> 1")
        case True
        then have "steal_scan lock i rest ?s1 = Some (r, s')" using 2(5) Some out by (auto simp: Let_def)
        then show ?thesis using 2(3) [OF Some out refl True] by simp
      next
        case False
        then obtain batch s2 where b: "steal_batch v ?s1 = Some (batch, s2)" "(if batch = [] then steal_scan lock i rest s2 else receive_batch i batch s2) = Some (r, s')"
          using 2(5) Some out by (auto simp: Let_def split: option.splits)
        show ?thesis
        proof (cases "batch = []")
          case True
          then show ?thesis using 2(4) [OF Some out refl False b(1) refl True] b steal_batch_freed [OF b(1)] by simp
        next
          case nonempty: False
          then show ?thesis using b receive_batch_freed steal_batch_freed [OF b(1)] by simp
        qed
      qed
    qed
  qed
qed simp

lemma StealThread_freed: "StealThread lock pid now i s = Some (r, s') \<Longrightarrow> freed s' = freed s"
  using steal_scan_freed by (fastforce simp: StealThread_def Let_def split: if_splits)

lemma migrate_freed: "migrate i k a s = Some s' \<Longrightarrow> freed s' = freed s"
  using take_in_freed [of k "[a]"] by (fastforce simp: migrate_def Let_def simp del: take_in.simps split: option.splits)

lemma push_loop_freed': "push_loop i k cu idl node n s = Some x \<Longrightarrow> freed (snd x) = freed s"
proof (rule push_loop.raw_induct [of "\<lambda>i k cu idl node n s x. freed (snd x) = freed s"], goal_cases)
  case (1 f i k cu idl node n s x)
  show ?case
  proof (cases "rb_prev (nodes s) node")
    case None
    then show ?thesis using 1(3) by (auto split: if_splits)
  next
    case (Some prev)
    show ?thesis
    proof (cases "migrate i k node s")
      case None
      then show ?thesis using 1(2,3) Some by (auto split: if_splits)
    next
      case m: (Some s')
      then show ?thesis using 1(2) [of i k cu idl prev n s x] 1(2) [of i k cu idl prev "n + 1" s' x] 1(3) Some migrate_freed [OF m] by (auto split: if_splits)
    qed
  qed
qed

lemma push_loop_freed: "push_loop i k cu idl node n s = Some (m, s') \<Longrightarrow> freed s' = freed s"
  using push_loop_freed' [of i k cu idl node n s "(m, s')"] by simp

lemma TryPush_freed: "TryPush l i s = Some s' \<Longrightarrow> freed s' = freed s"
  by (auto simp: TryPush_def push_batch_def Let_def push_loop_freed split: if_splits option.splits prod.splits)

end
