(* ===== verification/Switch_Safe.thy ===== *)
theory Switch_Safe
  imports Switch_Freed
begin

text \<open>
  The whole scheduling interrupt. The invariant says where each thread is: in one queue, in one list of dead
  threads, or running on one processor, and never in two of these places.
\<close>

section \<open>The invariant\<close>

definition zset :: "(nat \<Rightarrow> nat list) \<Rightarrow> nat set" where
  "zset Z = (\<Union>i. set (Z i))"

definition zombies_ok :: "smp \<Rightarrow> (nat \<Rightarrow> nat list) \<Rightarrow> bool" where
  "zombies_ok s Z \<longleftrightarrow> (\<forall>i c. cpus s i = Some c \<longrightarrow> zchain (threads s) (zombie_list c) (Z i) \<and> zombie_count c = length (Z i))
     \<and> (\<forall>i. distinct (Z i)) \<and> (\<forall>i j. i \<noteq> j \<longrightarrow> set (Z i) \<inter> set (Z j) = {})"

text \<open>\<open>P\<close> are the processors whose current thread is neither queued nor dead.\<close>

definition placed :: "smp \<Rightarrow> (nat \<Rightarrow> rtree) \<Rightarrow> (nat \<Rightarrow> nat list) \<Rightarrow> nat set \<Rightarrow> bool" where
  "placed s Q Z P \<longleftrightarrow> smp_ok s Q \<and> zombies_ok s Z \<and> zset Z \<inter> queued_set Q = {} \<and> (\<forall>a\<in>queued_set Q. KERNEL_BASE \<le> a)
     \<and> (\<forall>j c. cpus s j = Some c \<longrightarrow> KERNEL_BASE \<le> idle_thread c \<and> KERNEL_BASE \<le> current_thread c \<and> idle_thread c \<notin> queued_set Q \<union> zset Z
          \<and> cpu_num (threads s (idle_thread c)) = j)
     \<and> (\<forall>j c. j \<in> P \<longrightarrow> cpus s j = Some c \<longrightarrow> current_thread c \<notin> queued_set Q \<union> zset Z \<and> cpu_num (threads s (current_thread c)) = j)
     \<and> (\<forall>j k cj ck. j \<noteq> k \<longrightarrow> cpus s j = Some cj \<longrightarrow> cpus s k = Some ck \<longrightarrow>
          idle_thread cj \<noteq> idle_thread ck \<and> current_thread cj \<noteq> current_thread ck \<and> current_thread cj \<noteq> idle_thread ck)"

definition sched_ok :: "smp \<Rightarrow> (nat \<Rightarrow> rtree) \<Rightarrow> (nat \<Rightarrow> nat list) \<Rightarrow> bool" where
  "sched_ok s Q Z \<longleftrightarrow> placed s Q Z UNIV"

lemma placedD:
  assumes "placed s Q Z P"
  shows "smp_ok s Q" "zombies_ok s Z" "zset Z \<inter> queued_set Q = {}" "a \<in> queued_set Q \<Longrightarrow> KERNEL_BASE \<le> a"
    "cpus s j = Some c \<Longrightarrow> KERNEL_BASE \<le> idle_thread c \<and> KERNEL_BASE \<le> current_thread c \<and> idle_thread c \<notin> queued_set Q \<union> zset Z
       \<and> cpu_num (threads s (idle_thread c)) = j"
    "j \<in> P \<Longrightarrow> cpus s j = Some c \<Longrightarrow> current_thread c \<notin> queued_set Q \<union> zset Z \<and> cpu_num (threads s (current_thread c)) = j"
    "j \<noteq> k \<Longrightarrow> cpus s j = Some cj \<Longrightarrow> cpus s k = Some ck \<Longrightarrow> idle_thread cj \<noteq> idle_thread ck \<and> current_thread cj \<noteq> current_thread ck \<and> current_thread cj \<noteq> idle_thread ck"
  using assms unfolding placed_def by blast+

lemma zombiesD:
  assumes "zombies_ok s Z"
  shows "cpus s i = Some c \<Longrightarrow> zchain (threads s) (zombie_list c) (Z i)" "cpus s i = Some c \<Longrightarrow> zombie_count c = length (Z i)" "distinct (Z i)"
    "i \<noteq> j \<Longrightarrow> set (Z i) \<inter> set (Z j) = {}"
  using assms unfolding zombies_ok_def by blast+

lemma cpus_rest_back: "cpus_rest s s' \<Longrightarrow> cpus s' j = Some c' \<Longrightarrow> \<exists>c. cpus s j = Some c \<and> cpu_rest c c'"
proof -
  assume "cpus_rest s s'" "cpus s' j = Some c'"
  then have "rel_option cpu_rest (cpus s j) (Some c')" unfolding cpus_rest_def by metis
  then show ?thesis by (cases "cpus s j") simp_all
qed

lemma zombies_kept:
  assumes z: "zombies_ok s Z" and cr: "cpus_rest s s'" and id: "\<And>a. same_id (threads s a) (threads s' a)"
  shows "zombies_ok s' Z"
  unfolding zombies_ok_def
proof (intro conjI allI impI)
  fix j c' assume "cpus s' j = Some c'"
  then obtain c where c: "cpus s j = Some c" "cpu_rest c c'" using cpus_rest_back [OF cr] by blast
  have "zchain (threads s') z zs = zchain (threads s) z zs" for z zs using id by (intro zchain_cong) (simp add: same_id_def)
  then show "zchain (threads s') (zombie_list c') (Z j)" "zombie_count c' = length (Z j)"
    using zombiesD(1,2) [OF z c(1)] c(2) by (simp_all add: cpu_rest_def)
qed (use zombiesD(3,4) [OF z] in blast)+

text \<open>Steps that only take threads out of the queues.\<close>

lemma placed_mono:
  assumes p: "placed s Q Z P" and ok: "smp_ok s' Q'" and cr: "cpus_rest s s'" and id: "\<And>a. same_id (threads s a) (threads s' a)" and sub: "queued_set Q' \<subseteq> queued_set Q"
    and num: "\<And>a. a \<notin> queued_set Q \<Longrightarrow> cpu_num (threads s' a) = cpu_num (threads s a)"
  shows "placed s' Q' Z P"
proof -
  have z: "zombies_ok s' Z" using zombies_kept [OF placedD(2) [OF p] cr] id by blast
  show ?thesis unfolding placed_def
  proof (intro conjI allI impI)
    show "zset Z \<inter> queued_set Q' = {}" using placedD(3) [OF p] sub by blast
    show "\<forall>a\<in>queued_set Q'. KERNEL_BASE \<le> a" using placedD(4) [OF p] sub by blast
  next
    fix j c' assume "cpus s' j = Some c'"
    then obtain c where c: "cpus s j = Some c" "cpu_rest c c'" using cpus_rest_back [OF cr] by blast
    have "cpu_num (threads s' (idle_thread c)) = cpu_num (threads s (idle_thread c))" using num placedD(5) [OF p c(1)] by blast
    then show "KERNEL_BASE \<le> idle_thread c'" "KERNEL_BASE \<le> current_thread c'" "idle_thread c' \<notin> queued_set Q' \<union> zset Z"
      "cpu_num (threads s' (idle_thread c')) = j"
      using placedD(5) [OF p c(1)] c(2) sub by (auto simp: cpu_rest_def)
  next
    fix j c' assume "j \<in> P" "cpus s' j = Some c'"
    then obtain c where c: "cpus s j = Some c" "cpu_rest c c'" using cpus_rest_back [OF cr] by blast
    have "cpu_num (threads s' (current_thread c)) = cpu_num (threads s (current_thread c))" using num placedD(6) [OF p \<open>j \<in> P\<close> c(1)] by blast
    then show "current_thread c' \<notin> queued_set Q' \<union> zset Z" "cpu_num (threads s' (current_thread c')) = j"
      using placedD(6) [OF p \<open>j \<in> P\<close> c(1)] c(2) sub by (auto simp: cpu_rest_def)
  next
    fix j k cj' ck' assume jk: "j \<noteq> k" "cpus s' j = Some cj'" "cpus s' k = Some ck'"
    then obtain cj ck where c: "cpus s j = Some cj" "cpu_rest cj cj'" "cpus s k = Some ck" "cpu_rest ck ck'" using cpus_rest_back [OF cr] by blast
    show "idle_thread cj' \<noteq> idle_thread ck'" "current_thread cj' \<noteq> current_thread ck'" "current_thread cj' \<noteq> idle_thread ck'"
      using placedD(7) [OF p jk(1) c(1,3)] c(2,4) by (simp_all add: cpu_rest_def)
  qed (rule ok z)+
qed

lemma placed_weaken: "placed s Q Z P \<Longrightarrow> P' \<subseteq> P \<Longrightarrow> placed s Q Z P'"
  unfolding placed_def by blast

lemma placed_quiet: "placed s Q Z P \<Longrightarrow> quiet s Q s' Q' \<Longrightarrow> placed s' Q' Z P"
  using placed_mono [of s Q Z P s' Q'] quiet_queued_set [of s Q s' Q'] by (simp add: quiet_def same_threads_def)

section \<open>Dead threads\<close>

lemma zset_upd: "zset (Z(i := zs)) = set zs \<union> (\<Union>j\<in>- {i}. set (Z j))"
  by (auto simp: zset_def split: if_splits)

lemma placed_zombie_upd:
  assumes p: "placed s Q Z P" and c: "cpus s i = Some c" and T: "\<And>a. T' a = (threads s a)\<lparr>zombie_next := zombie_next (T' a)\<rparr>"
    "\<And>a j. j \<noteq> i \<Longrightarrow> a \<in> set (Z j) \<Longrightarrow> T' a = threads s a"
    and s': "threads s' = T'" "nodes s' = nodes s" "cpus s' = (cpus s)(i \<mapsto> c\<lparr>zombie_list := z, zombie_count := length zs\<rparr>)"
    and zs: "zchain T' z zs" "distinct zs" "\<And>j. j \<noteq> i \<Longrightarrow> set zs \<inter> set (Z j) = {}" "set zs \<inter> queued_set Q = {}"
    "\<And>j d. cpus s j = Some d \<Longrightarrow> idle_thread d \<notin> set zs" "\<And>j d. j \<in> P' \<Longrightarrow> cpus s j = Some d \<Longrightarrow> current_thread d \<notin> set zs" and P': "P' \<subseteq> P"
  shows "placed s' Q (Z(i := zs)) P'"
proof -
  let ?c' = "c\<lparr>zombie_list := z, zombie_count := length zs\<rparr>"
  note ok = placedD(1) [OF p] and zo = placedD(2) [OF p]
  have f: "t_id (T' a) = t_id (threads s a)" "deadline (T' a) = deadline (threads s a)" "on_rq (T' a) = on_rq (threads s a)" "t_weight (T' a) = t_weight (threads s a)"
    "cpu_num (T' a) = cpu_num (threads s a)" "thread_typed (T' a) = thread_typed (threads s a)" for a by (subst T(1), simp add: thread_typed_def)+
  have ok1: "smp_ok (s\<lparr>threads := T'\<rparr>) Q" using smp_okD(6) [OF ok] by (intro smp_ok_threads [OF ok]) (simp_all add: same_queued_def f)
  have "smp_ok (set_cpu i (\<lambda>_. ?c') (s\<lparr>threads := T'\<rparr>)) Q" using c smp_cpu_typed [OF ok c]
    by (intro smp_ok_set_cpu [OF ok1, of i c]) (simp_all add: same_queue_def cpu_typed_def)
  then have ok': "smp_ok s' Q" using s' by (elim smp_ok_other) (simp_all add: set_cpu_def)
  have cj: "\<exists>d. cpus s j = Some d \<and> idle_thread d' = idle_thread d \<and> current_thread d' = current_thread d \<and> (j \<noteq> i \<longrightarrow> d' = d) \<and> (j = i \<longrightarrow> d' = ?c')" if "cpus s' j = Some d'" for j d'
    using that s'(3) c by (cases "j = i") auto
  have sub: "x \<notin> zset (Z(i := zs))" if "x \<notin> zset Z" "x \<notin> set zs" for x using that unfolding zset_upd by (auto simp: zset_def)
  show ?thesis unfolding placed_def
  proof (intro conjI allI impI)
    show "zombies_ok s' (Z(i := zs))" unfolding zombies_ok_def
    proof (intro conjI allI impI)
      fix j d' assume d': "cpus s' j = Some d'"
      have keep: "zchain T' y (Z j) = zchain (threads s) y (Z j)" if "j \<noteq> i" for y using T(2) [OF that] by (intro zchain_cong) simp
      show "zchain (threads s') (zombie_list d') ((Z(i := zs)) j)" "zombie_count d' = length ((Z(i := zs)) j)"
        using cj [OF d'] zs(1) s'(1) keep zombiesD(1,2) [OF zo, of j] by (cases "j = i"; auto)+
    next
      show "distinct ((Z(i := zs)) j)" for j using zs(2) zombiesD(3) [OF zo] by simp
      show "set ((Z(i := zs)) j) \<inter> set ((Z(i := zs)) k) = {}" if "j \<noteq> k" for j k
        using zs(3) [of j] zs(3) [of k] zombiesD(4) [OF zo that] that by (cases "j = i"; cases "k = i") auto
    qed
    show "zset (Z(i := zs)) \<inter> queued_set Q = {}" using sub placedD(3) [OF p] zs(4) by blast
    show "\<forall>a\<in>queued_set Q. KERNEL_BASE \<le> a" using placedD(4) [OF p] by blast
  next
    fix j d' assume "cpus s' j = Some d'"
    from cj [OF this] obtain d where d: "cpus s j = Some d" "idle_thread d' = idle_thread d" "current_thread d' = current_thread d" by blast
    show "KERNEL_BASE \<le> idle_thread d'" "KERNEL_BASE \<le> current_thread d'" "idle_thread d' \<notin> queued_set Q \<union> zset (Z(i := zs))" "cpu_num (threads s' (idle_thread d')) = j"
      using placedD(5) [OF p d(1)] d zs(5) [OF d(1)] sub s'(1) f(5) by auto
  next
    fix j d' assume jP: "j \<in> P'" and "cpus s' j = Some d'"
    from cj [OF this(2)] obtain d where d: "cpus s j = Some d" "current_thread d' = current_thread d" by blast
    have "j \<in> P" using jP P' by blast
    show "current_thread d' \<notin> queued_set Q \<union> zset (Z(i := zs))" "cpu_num (threads s' (current_thread d')) = j"
      using placedD(6) [OF p \<open>j \<in> P\<close> d(1)] d zs(6) [OF jP d(1)] sub s'(1) f(5) by auto
  next
    fix j k dj' dk' assume jk: "j \<noteq> k" "cpus s' j = Some dj'" "cpus s' k = Some dk'"
    from cj [OF jk(2)] cj [OF jk(3)] obtain dj dk where d: "cpus s j = Some dj" "idle_thread dj' = idle_thread dj" "current_thread dj' = current_thread dj"
      "cpus s k = Some dk" "idle_thread dk' = idle_thread dk" "current_thread dk' = current_thread dk" by blast
    show "idle_thread dj' \<noteq> idle_thread dk'" "current_thread dj' \<noteq> current_thread dk'" "current_thread dj' \<noteq> idle_thread dk'"
      using placedD(7) [OF p jk(1) d(1,4)] d by simp_all
  qed (rule ok')
qed

text \<open>What a thread keeps when only its link in the list of the dead changes, or its place in a queue.\<close>

lemma collect_spec:
  assumes p: "placed s Q Z UNIV" and c: "cpus s i = Some c" and len: "length (Z i) < U64"
  shows "\<exists>f fs s' zs c'. collect_zombies i s = (f, s') \<and> placed s' Q (Z(i := zs)) UNIV \<and> zchain (threads s') f fs \<and> distinct (zs @ fs) \<and> set zs \<union> set fs = set (Z i)
    \<and> cpus s' = (cpus s)(i \<mapsto> c') \<and> same_queue c c' \<and> current_thread c' = current_thread c \<and> idle_thread c' = idle_thread c
    \<and> (\<forall>a. t_state (threads s' a) = t_state (threads s a)) \<and> freed s' = freed s \<and> last_cpu s' = last_cpu s"
proof (cases "zombie_count c \<ge> ZOMBIE_RECLAIM_THRESHOLD")
  case False
  have "collect_zombies i s = (0, s)" using False c by (simp add: collect_zombies_def)
  then show ?thesis using p c zombiesD(3) [OF placedD(2) [OF p], of i]
    by (intro exI [of _ 0] exI [of _ "[]"] exI [of _ s] exI [of _ "Z i"] exI [of _ c]) (auto simp: same_queue_def)
next
  case True
  note zo = placedD(2) [OF p]
  let ?n = "ZOMBIE_RECLAIM_BATCH"
  have ch: "zchain (threads s) (zombie_list c) (Z i)" "zombie_count c = length (Z i)" "distinct (Z i)" using zombiesD(1,2) [OF zo c] zombiesD(3) [OF zo] by blast+
  obtain z f T' where t: "take_zombies ?n (zombie_list c) 0 (threads s) = (z, f, min ?n (length (Z i)), T')" "zchain T' z (drop ?n (Z i))" "zchain T' f (rev (take ?n (Z i)) @ [])"
    "\<forall>a. T' a = (threads s a)\<lparr>zombie_next := zombie_next (T' a)\<rparr>" "\<forall>a. a \<notin> set (take ?n (Z i)) \<longrightarrow> T' a = threads s a"
    using take_zombies_spec [OF ch(1), of 0 "[]" ?n] ch(3) by auto
  have "rev (take ?n (Z i)) \<noteq> []" using True ch(2) by auto
  then have f0: "f \<noteq> 0" using zchain_head [OF t(3)] by simp
  let ?c' = "c\<lparr>zombie_list := z, zombie_count := length (drop ?n (Z i))\<rparr>"
  have cnt: "sub64 (zombie_count c) (min ?n (length (Z i))) = length (drop ?n (Z i))" using ch(2) by (simp add: sub64_id min_def)
  define s' where "s' = (set_cpu i (\<lambda>c. c\<lparr>zombie_list := z, zombie_count := sub64 (zombie_count c) (min ?n (length (Z i)))\<rparr>) s)\<lparr>threads := T'\<rparr>"
  have col: "collect_zombies i s = (f, s')" using True c t(1) f0 by (simp add: collect_zombies_def s'_def)
  have s': "threads s' = T'" "nodes s' = nodes s" "cpus s' = (cpus s)(i \<mapsto> ?c')" "freed s' = freed s" "last_cpu s' = last_cpu s"
    using c cnt by (simp_all add: s'_def set_cpu_def)
  have dz: "set (drop ?n (Z i)) \<subseteq> set (Z i)" "set (take ?n (Z i)) \<subseteq> set (Z i)" by (rule set_drop_subset, rule set_take_subset)
  have zi: "set (Z i) \<subseteq> zset Z" by (auto simp: zset_def)
  have "placed s' Q (Z(i := drop ?n (Z i))) UNIV"
  proof (rule placed_zombie_upd [OF p c _ _ s'(1-3) t(2)])
    show "T' a = threads s a" if "j \<noteq> i" "a \<in> set (Z j)" for a j using t(5) zombiesD(4) [OF zo that(1)] that(2) dz(2) by blast
    show "distinct (drop ?n (Z i))" using ch(3) by simp
    show "set (drop ?n (Z i)) \<inter> set (Z j) = {}" if "j \<noteq> i" for j using zombiesD(4) [OF zo that] dz(1) by blast
    show "set (drop ?n (Z i)) \<inter> queued_set Q = {}" using placedD(3) [OF p] dz(1) zi by blast
    show "idle_thread d \<notin> set (drop ?n (Z i))" if "cpus s j = Some d" for j d using placedD(5) [OF p that] dz(1) zi by blast
    show "current_thread d \<notin> set (drop ?n (Z i))" if "cpus s j = Some d" for j d using placedD(6) [OF p _ that] dz(1) zi by blast
  qed (use t(4) in blast, simp)
  moreover have "distinct (drop ?n (Z i) @ rev (take ?n (Z i)))" using ch(3) set_take_disj_set_drop_if_distinct [of "Z i" ?n ?n] by auto
  moreover have "set (drop ?n (Z i)) \<union> set (rev (take ?n (Z i))) = set (Z i)" using append_take_drop_id [of ?n "Z i"] set_append [of "take ?n (Z i)" "drop ?n (Z i)"] by auto
  moreover have "t_state (threads s' a) = t_state (threads s a)" for a unfolding s'(1) by (subst t(4) [rule_format]) simp
  ultimately show ?thesis using col s' t(3)
    by (intro exI [of _ f] exI [of _ "rev (take ?n (Z i))"] exI [of _ s'] exI [of _ "drop ?n (Z i)"] exI [of _ ?c']) (simp add: same_queue_def)
qed

section \<open>The current thread\<close>

lemma placed_grow:
  assumes p: "placed s Q Z P" and ok: "smp_ok s' Q'" and cr: "cpus_rest s s'" and id: "\<And>b. same_id (threads s b) (threads s' b)"
    and num: "\<And>b. cpu_num (threads s' b) = cpu_num (threads s b)" and q: "queued_set Q' = insert a (queued_set Q)" and a: "KERNEL_BASE \<le> a" "a \<notin> zset Z"
    "\<And>j c. cpus s j = Some c \<Longrightarrow> idle_thread c \<noteq> a" "\<And>j c. j \<in> P' \<Longrightarrow> cpus s j = Some c \<Longrightarrow> current_thread c \<noteq> a" and P': "P' \<subseteq> P"
  shows "placed s' Q' Z P'"
proof -
  have z: "zombies_ok s' Z" using zombies_kept [OF placedD(2) [OF p] cr] id by blast
  show ?thesis unfolding placed_def
  proof (intro conjI allI impI)
    show "zset Z \<inter> queued_set Q' = {}" unfolding q using placedD(3) [OF p] a(2) by blast
    show "\<forall>b\<in>queued_set Q'. KERNEL_BASE \<le> b" unfolding q using placedD(4) [OF p] a(1) by blast
  next
    fix j c' assume "cpus s' j = Some c'"
    then obtain c where c: "cpus s j = Some c" "cpu_rest c c'" using cpus_rest_back [OF cr] by blast
    show "KERNEL_BASE \<le> idle_thread c'" "KERNEL_BASE \<le> current_thread c'" "idle_thread c' \<notin> queued_set Q' \<union> zset Z" "cpu_num (threads s' (idle_thread c')) = j"
      using placedD(5) [OF p c(1)] c(2) q a(3) [OF c(1)] num by (auto simp: cpu_rest_def)
  next
    fix j c' assume jP: "j \<in> P'" and "cpus s' j = Some c'"
    then obtain c where c: "cpus s j = Some c" "cpu_rest c c'" using cpus_rest_back [OF cr] by blast
    have "j \<in> P" using jP P' by blast
    show "current_thread c' \<notin> queued_set Q' \<union> zset Z" "cpu_num (threads s' (current_thread c')) = j"
      using placedD(6) [OF p \<open>j \<in> P\<close> c(1)] c(2) q a(4) [OF jP c(1)] num by (auto simp: cpu_rest_def)
  next
    fix j k cj' ck' assume jk: "j \<noteq> k" "cpus s' j = Some cj'" "cpus s' k = Some ck'"
    then obtain cj ck where c: "cpus s j = Some cj" "cpu_rest cj cj'" "cpus s k = Some ck" "cpu_rest ck ck'" using cpus_rest_back [OF cr] by blast
    show "idle_thread cj' \<noteq> idle_thread ck'" "current_thread cj' \<noteq> current_thread ck'" "current_thread cj' \<noteq> idle_thread ck'"
      using placedD(7) [OF p jk(1) c(1,3)] c(2,4) by (simp_all add: cpu_rest_def)
  qed (rule ok z)+
qed

text \<open>The current thread is to be freed, or goes back to the queue.\<close>

definition dead :: "smp \<Rightarrow> cpu_t \<Rightarrow> bool" where
  "dead s c \<longleftrightarrow> t_state (threads s (current_thread c)) = THREAD_ZOMBIE \<and> current_thread c \<noteq> idle_thread c"

definition requeued :: "smp \<Rightarrow> cpu_t \<Rightarrow> bool" where
  "requeued s c \<longleftrightarrow> running (threads s) (current_thread c) \<and> current_thread c \<noteq> idle_thread c"

definition with_current :: "smp \<Rightarrow> cpu_t \<Rightarrow> nat set \<Rightarrow> nat set" where
  "with_current s c A = (if requeued s c then insert (current_thread c) A else A)"

lemma retire_spec:
  assumes p: "placed s Q Z UNIV" and c: "cpus s i = Some c" and room: "card (queued_set Q) + 1 < U64" "length (Z i) + 1 < U64"
  shows "\<exists>s' Q' c'. retire i (current_thread c) s = Some (if dead s c then 0 else current_thread c, s')
    \<and> placed s' Q' (Z(i := (if dead s c then current_thread c # Z i else Z i))) (- {i}) \<and> queued_set Q' = with_current s c (queued_set Q)
    \<and> set (addrs (Q' i)) = with_current s c (set (addrs (Q i))) \<and> cpus s' i = Some c' \<and> current_thread c' = current_thread c \<and> idle_thread c' = idle_thread c
    \<and> (\<forall>j. j \<noteq> i \<longrightarrow> cpus s' j = cpus s j)
    \<and> (\<forall>a. t_state (threads s' a) = t_state (threads s a)) \<and> (\<forall>a. a \<noteq> current_thread c \<longrightarrow> zombie_next (threads s' a) = zombie_next (threads s a)) \<and> freed s' = freed s"
proof -
  let ?cur = "current_thread c"
  have cur: "?cur \<noteq> 0" "?cur \<notin> queued_set Q" "?cur \<notin> zset Z" "cpu_num (threads s ?cur) = i" "KERNEL_BASE \<le> ?cur" using placedD(5,6) [OF p, of i c] c by auto
  have other: "idle_thread d \<noteq> ?cur" if "?cur \<noteq> idle_thread c" "cpus s j = Some d" for j d
    using placedD(7) [OF p, of i j c d] c that by (cases "j = i") auto
  have otherc: "current_thread d \<noteq> ?cur" if "j \<in> - {i}" "cpus s j = Some d" for j d using placedD(7) [OF p, of i j c d] c that by auto
  consider (dead) "dead s c" "\<not> requeued s c" | (goes) "requeued s c" "\<not> dead s c" | (none) "\<not> dead s c" "\<not> requeued s c" by (auto simp: dead_def requeued_def)
  then show ?thesis
  proof cases
    case dead
    let ?T' = "(threads s)(?cur := (threads s ?cur)\<lparr>zombie_next := zombie_list c\<rparr>)"
    let ?s' = "set_cpu i (\<lambda>c. c\<lparr>zombie_list := ?cur, zombie_count := add64 (zombie_count c) 1\<rparr>) (set_thread ?cur (\<lambda>t. t\<lparr>zombie_next := zombie_list c\<rparr>) s)"
    have ch: "zchain (threads s) (zombie_list c) (Z i)" "zombie_count c = length (Z i)" "distinct (Z i)"
      using zombiesD(1,2) [OF placedD(2) [OF p] c] zombiesD(3) [OF placedD(2) [OF p]] by blast+
    have "add64 (zombie_count c) 1 = length (?cur # Z i)" using ch(2) room(2) by (simp add: add64_id)
    then have s': "threads ?s' = ?T'" "nodes ?s' = nodes s" "cpus ?s' = (cpus s)(i \<mapsto> c\<lparr>zombie_list := ?cur, zombie_count := length (?cur # Z i)\<rparr>)"
      using c by (simp_all add: set_cpu_def)
    have ni: "?cur \<notin> set (Z j)" for j using cur(3) by (auto simp: zset_def)
    have "zchain ?T' (zombie_list c) (Z i) = zchain (threads s) (zombie_list c) (Z i)" using ni by (intro zchain_cong) auto
    then have zc: "zchain ?T' ?cur (?cur # Z i)" using ch(1) cur(1) by simp
    have zi: "set (Z i) \<subseteq> zset Z" by (auto simp: zset_def)
    have "placed ?s' Q (Z(i := ?cur # Z i)) (- {i})"
    proof (rule placed_zombie_upd [OF p c _ _ s' zc])
      show "?T' a = (threads s a)\<lparr>zombie_next := zombie_next (?T' a)\<rparr>" for a by simp
      show "?T' a = threads s a" if "j \<noteq> i" "a \<in> set (Z j)" for a j using ni [of j] that by auto
      show "distinct (?cur # Z i)" using ch(3) ni by simp
      show "set (?cur # Z i) \<inter> set (Z j) = {}" if "j \<noteq> i" for j using zombiesD(4) [OF placedD(2) [OF p] that] ni [of j] by auto
      show "set (?cur # Z i) \<inter> queued_set Q = {}" using placedD(3) [OF p] cur(2) zi by auto
      show "idle_thread d \<notin> set (?cur # Z i)" if "cpus s j = Some d" for j d using placedD(5) [OF p that] other [OF _ that] dead(1) zi by (auto simp: dead_def)
      show "current_thread d \<notin> set (?cur # Z i)" if "j \<in> - {i}" "cpus s j = Some d" for j d using placedD(6) [OF p _ that(2)] otherc [OF that] zi by auto
    qed simp
    moreover have "retire i ?cur s = Some (0, ?s')" using dead(1) cur(1) c by (simp add: retire_def Let_def dead_def)
    moreover have "freed ?s' = freed s" by (simp add: set_cpu_def set_thread_def)
    moreover have "cpus ?s' i = Some (c\<lparr>zombie_list := ?cur, zombie_count := length (?cur # Z i)\<rparr>)" "\<forall>j. j \<noteq> i \<longrightarrow> cpus ?s' j = cpus s j"
      "\<forall>a. t_state (threads ?s' a) = t_state (threads s a)" "\<forall>a. a \<noteq> ?cur \<longrightarrow> zombie_next (threads ?s' a) = zombie_next (threads s a)" using s' by simp_all
    ultimately show ?thesis using dead
      by (intro exI [of _ ?s'] exI [of _ Q] exI [of _ "c\<lparr>zombie_list := ?cur, zombie_count := length (?cur # Z i)\<rparr>"]) (simp add: with_current_def del: fun_upd_apply)
  next
    case goes
    obtain T' h' c' t' where r: "InsertToQueue ?cur (rq_of i s) = Some (T', h', c')" "smp_ok (put_rq i (T', h', c') s) (Q(i := t'))"
      "addrs t' = at_key (thread_key T') ?cur (addrs (Q i))" "only_min UNIV (entering c ?cur (threads s)) T'" "cpu_rest c c'"
      using smp_insert [OF placedD(1) [OF p] c cur(1,2,4) room(1)] cpu_rest_enter by blast
    let ?s' = "put_rq i (T', h', c') s"
    note ef = entered_fields [OF r(4)]
    have qi: "set (addrs t') = insert ?cur (set (addrs (Q i)))" using r(3) by simp
    have qs: "queued_set (Q(i := t')) = insert ?cur (queued_set Q)"
    proof -
      have "queued_set Q = queued_set (Q(i := Q i))" by simp
      then show ?thesis unfolding queued_set_upd qi by auto
    qed
    have cr: "cpus_rest s ?s'" using r(5) by (intro cpus_rest_upd [OF c, of _ c']) (simp_all add: put_rq_def)
    have "placed ?s' (Q(i := t')) Z (- {i})"
      using ef cur(3,5) other otherc goes(1) by (intro placed_grow [OF p r(2) cr _ _ qs]) (auto simp: requeued_def)
    moreover have "retire i ?cur s = Some (?cur, ?s')" using goes cur(1) c r(1) by (simp add: retire_def Let_def requeued_def)
    moreover have "zombie_next (threads ?s' a) = zombie_next (threads s a)" "t_state (threads ?s' a) = t_state (threads s a)" for a using ef(1,2) [of a] by (simp_all add: same_id_def)
    ultimately show ?thesis using goes qi qs r(5)
      by (intro exI [of _ ?s'] exI [of _ "Q(i := t')"] exI [of _ c']) (simp add: with_current_def cpu_rest_def put_rq_def)
  next
    case none
    have "retire i ?cur s = Some (?cur, s)" using none c by (auto simp: retire_def Let_def dead_def requeued_def)
    then show ?thesis using none p c placed_weaken [OF p, of "- {i}"] by (intro exI [of _ s] exI [of _ Q] exI [of _ c]) (simp add: with_current_def)
  qed
qed

section \<open>The next thread\<close>

text \<open>\<open>n\<close> belongs to processor \<open>i\<close> alone and to no queue.\<close>

definition held :: "nat \<Rightarrow> nat \<Rightarrow> smp \<Rightarrow> (nat \<Rightarrow> rtree) \<Rightarrow> (nat \<Rightarrow> nat list) \<Rightarrow> bool" where
  "held i n s Q Z \<longleftrightarrow> KERNEL_BASE \<le> n \<and> n \<notin> queued_set Q \<union> zset Z \<and> cpu_num (threads s n) = i
     \<and> (\<forall>j c. j \<noteq> i \<longrightarrow> cpus s j = Some c \<longrightarrow> current_thread c \<noteq> n \<and> idle_thread c \<noteq> n)"

lemma held_idle: "placed s Q Z P \<Longrightarrow> cpus s i = Some c \<Longrightarrow> held i (idle_thread c) s Q Z"
  unfolding held_def using placedD(5) [of s Q Z P i c] placedD(7) [of s Q Z P _ i _ c] by blast

lemma held_current:
  assumes p: "placed s Q Z UNIV" and c: "cpus s i = Some c"
  shows "held i (current_thread c) s Q Z"
  unfolding held_def
proof (intro conjI allI impI)
  show "KERNEL_BASE \<le> current_thread c" "current_thread c \<notin> queued_set Q \<union> zset Z" "cpu_num (threads s (current_thread c)) = i"
    using placedD(5) [OF p c] placedD(6) [OF p UNIV_I c] by blast+
  fix j d assume j: "j \<noteq> i" "cpus s j = Some d"
  show "current_thread d \<noteq> current_thread c" "idle_thread d \<noteq> current_thread c" using placedD(7) [OF p j(1) [symmetric] c j(2)] by auto
qed

text \<open>A thread taken out of the queue of the processor is held by it.\<close>

lemma held_taken:
  assumes p: "placed s Q Z (- {i})" and n: "n \<in> queued_set Q" "n \<notin> queued_set Q'" and cr: "cpus_rest s s'" and num: "cpu_num (threads s' n) = i"
  shows "held i n s' Q' Z"
  unfolding held_def
proof (intro conjI allI impI)
  show "KERNEL_BASE \<le> n" using placedD(4) [OF p n(1)] .
  show "n \<notin> queued_set Q' \<union> zset Z" using n placedD(3) [OF p] by blast
  fix j c' assume j: "j \<noteq> i" "cpus s' j = Some c'"
  then obtain c where c: "cpus s j = Some c" "cpu_rest c c'" using cpus_rest_back [OF cr] by blast
  have "current_thread c \<noteq> n" "idle_thread c \<noteq> n" using placedD(5) [OF p c(1)] placedD(6) [OF p _ c(1)] j(1) n(1) by auto
  then show "current_thread c' \<noteq> n" "idle_thread c' \<noteq> n" using c(2) by (simp_all add: cpu_rest_def)
qed (rule num)

lemma held_keep:
  assumes h: "held i n s Q Z" and cr: "cpus_rest s s'" and q: "queued_set Q' \<subseteq> queued_set Q" and num: "cpu_num (threads s' n) = cpu_num (threads s n)"
  shows "held i n s' Q' Z"
  unfolding held_def
proof (intro conjI allI impI)
  show "KERNEL_BASE \<le> n" "n \<notin> queued_set Q' \<union> zset Z" "cpu_num (threads s' n) = i" using h q num by (auto simp: held_def)
  fix j c' assume j: "j \<noteq> i" "cpus s' j = Some c'"
  then obtain c where c: "cpus s j = Some c" "cpu_rest c c'" using cpus_rest_back [OF cr] by blast
  have "current_thread c \<noteq> n" "idle_thread c \<noteq> n" using h j(1) c(1) by (auto simp: held_def)
  then show "current_thread c' \<noteq> n" "idle_thread c' \<noteq> n" using c(2) by (simp_all add: cpu_rest_def)
qed

text \<open>The thread picked from the queue of the processor.\<close>

lemma pick_held:
  assumes p: "placed s Q Z (- {i})" and c: "cpus s i = Some c"
  shows "\<exists>n r Q'. Pick (rq_of i s) = Some (n, r) \<and> placed (put_rq i r s) Q' Z (- {i}) \<and> queued_set Q' = queued_set Q - {n} \<and> cpus_rest s (put_rq i r s)
    \<and> (\<forall>a. same_id (threads s a) (threads (put_rq i r s) a) \<and> t_state (threads (put_rq i r s) a) = t_state (threads s a))
    \<and> (if n = 0 then \<not> (\<exists>a\<in>set (addrs (Q i)). running (threads s) a) else n \<in> set (addrs (Q i)) \<and> running (threads s) n \<and> held i n (put_rq i r s) Q' Z)"
proof (cases "\<exists>a\<in>set (addrs (Q i)). running (threads s) a")
  case True
  obtain n T' h' c' t' where r: "Pick (rq_of i s) = Some (n, T', h', c')" "n \<in> set (addrs (Q i))" "running (threads s) n" "cpu_rest c c'"
    "smp_ok (put_rq i (T', h', c') s) (Q(i := t'))" "set (addrs t') = set (addrs (Q i)) - {n}" "only_min UNIV ((threads s)(n := (threads s n)\<lparr>on_rq := False\<rparr>)) T'"
    using smp_pick [OF placedD(1) [OF p] c] True by (auto simp: if_P)
  let ?s' = "put_rq i (T', h', c') s"
  have qn: "n \<in> queued_set Q" using r(2) by (auto simp: queued_set_def)
  have qs: "queued_set (Q(i := t')) = queued_set Q - {n}"
  proof -
    have "n \<notin> set (addrs (Q j))" if "j \<noteq> i" for j using smp_okD(3) [OF placedD(1) [OF p], of i j] r(2) that by blast
    moreover have "queued_set Q = queued_set (Q(i := Q i))" by simp
    ultimately show ?thesis unfolding queued_set_upd r(6) by auto
  qed
  have cr: "cpus_rest s ?s'" using r(4) by (intro cpus_rest_upd [OF c, of _ c']) (simp_all add: put_rq_def)
  have f: "same_id (threads s a) (threads ?s' a)" "t_state (threads ?s' a) = t_state (threads s a)" "cpu_num (threads ?s' a) = cpu_num (threads s a)" for a
    using only_min_fields [OF r(7), of a] by (auto simp: same_id_def put_rq_def)
  have "placed ?s' (Q(i := t')) Z (- {i})" using f(1,3) qs by (intro placed_mono [OF p r(5) cr]) auto
  moreover have "held i n ?s' (Q(i := t')) Z"
    using smp_okD(5) [OF placedD(1) [OF p] r(2)] qs f(3) [of n] by (intro held_taken [OF p qn _ cr]) simp_all
  moreover have "n \<noteq> 0" using placedD(4) [OF p qn] by simp
  ultimately show ?thesis using r(1-3) qs cr f(1,2)
    by (intro exI [of _ n] exI [of _ "(T', h', c')"] exI [of _ "Q(i := t')"]) simp
next
  case False
  then have r: "Pick (rq_of i s) = Some (0, rq_of i s)" using smp_pick [OF placedD(1) [OF p] c] by (simp add: if_not_P)
  have e: "put_rq i (rq_of i s) s = s" using c by (simp add: put_rq_def rq_of_def fun_upd_idem)
  have "0 \<notin> queued_set Q" using placedD(4) [OF p, of 0] by auto
  then show ?thesis using r p False e by (intro exI [of _ 0] exI [of _ "rq_of i s"] exI [of _ Q]) (simp add: cpus_rest_def option.rel_refl same_id_def)
qed

text \<open>The outcome of the choice of the next thread \<open>n\<close>; \<open>fs\<close> are the dead threads to free.\<close>

definition chosen :: "nat \<Rightarrow> nat \<Rightarrow> nat list \<Rightarrow> smp \<Rightarrow> (nat \<Rightarrow> rtree) \<Rightarrow> (nat \<Rightarrow> nat list) \<Rightarrow> smp \<Rightarrow> (nat \<Rightarrow> rtree) \<Rightarrow> (nat \<Rightarrow> nat list) \<Rightarrow> bool" where
  "chosen i n fs s Q Z s' Q' Z' \<longleftrightarrow> placed s' Q' Z' (- {i}) \<and> queued_set Q' = with_current s (the (cpus s i)) (queued_set Q) - {n}
     \<and> (if n = 0 then \<not> requeued s (the (cpus s i)) \<and> \<not> (\<exists>a\<in>set (addrs (Q i)). running (threads s) a)
        else held i n s' Q' Z' \<and> n \<in> insert (idle_thread (the (cpus s i))) (with_current s (the (cpus s i)) (set (addrs (Q i))))
          \<and> (n = idle_thread (the (cpus s i)) \<longrightarrow> \<not> requeued s (the (cpus s i)) \<and> \<not> (\<exists>a\<in>set (addrs (Q i)). running (threads s) a))
          \<and> (n \<noteq> idle_thread (the (cpus s i)) \<longrightarrow> running (threads s) n))
     \<and> distinct fs \<and> set fs \<subseteq> set (Z i) \<and> zset Z' = zset Z - set fs \<union> (if dead s (the (cpus s i)) then {current_thread (the (cpus s i))} else {})
     \<and> (\<forall>j. rel_option (\<lambda>c c'. current_thread c' = current_thread c \<and> idle_thread c' = idle_thread c) (cpus s j) (cpus s' j))
     \<and> (\<forall>a. t_state (threads s' a) = t_state (threads s a)) \<and> freed s' = freed s"

lemma switch_locked_spec:
  assumes p: "placed s Q Z UNIV" and c: "cpus s i = Some c" and room: "card (queued_set Q) + 1 < U64" "length (Z i) + 1 < U64"
  shows "\<exists>n f fs s' Q' Z'. switch_locked i (current_thread c) False s = Some (n, if dead s c then 0 else current_thread c, f, s')
    \<and> zchain (threads s') f fs \<and> chosen i n fs s Q Z s' Q' Z'"
proof -
  let ?cur = "current_thread c"
  have len: "length (Z i) < U64" using room(2) by simp
  obtain f fs s1 zs c1 where k: "collect_zombies i s = (f, s1)" "placed s1 Q (Z(i := zs)) UNIV" "zchain (threads s1) f fs" "distinct (zs @ fs)" "set zs \<union> set fs = set (Z i)"
    "cpus s1 = (cpus s)(i \<mapsto> c1)" "current_thread c1 = ?cur" "idle_thread c1 = idle_thread c" "\<forall>a. t_state (threads s1 a) = t_state (threads s a)" "freed s1 = freed s"
    using collect_spec [OF p c len] by blast
  have c1: "cpus s1 i = Some c1" using k(6) by simp
  have d1: "dead s1 c1 = dead s c" "requeued s1 c1 = requeued s c" "with_current s1 c1 = with_current s c"
    using k(7-9) by (auto simp: dead_def requeued_def with_current_def fun_eq_iff)
  have "length zs \<le> length (Z i)"
  proof -
    have "distinct zs" "set zs \<subseteq> set (Z i)" using k(4,5) by auto
    then show ?thesis using card_mono [of "set (Z i)" "set zs"] distinct_card [of zs] card_length [of "Z i"] by simp
  qed
  then have lz: "length ((Z(i := zs)) i) + 1 < U64" using room(2) by simp
  obtain s2 Q2 c2 where r: "retire i ?cur s1 = Some (if dead s c then 0 else ?cur, s2)" "placed s2 Q2 (Z(i := (if dead s c then ?cur # zs else zs))) (- {i})"
    "queued_set Q2 = with_current s c (queued_set Q)" "set (addrs (Q2 i)) = with_current s c (set (addrs (Q i)))" "cpus s2 i = Some c2" "current_thread c2 = ?cur"
    "idle_thread c2 = idle_thread c" "\<forall>j. j \<noteq> i \<longrightarrow> cpus s2 j = cpus s1 j" "\<forall>a. t_state (threads s2 a) = t_state (threads s1 a)"
    "\<forall>a. a \<noteq> ?cur \<longrightarrow> zombie_next (threads s2 a) = zombie_next (threads s1 a)" "freed s2 = freed s1"
    using retire_spec [OF k(2) c1 room(1) lz] unfolding d1 k(7,8) fun_upd_same fun_upd_upd by blast
  let ?Z = "Z(i := (if dead s c then ?cur # zs else zs))"
  obtain n q Q3 where n: "Pick (rq_of i s2) = Some (n, q)" "placed (put_rq i q s2) Q3 ?Z (- {i})" "queued_set Q3 = queued_set Q2 - {n}" "cpus_rest s2 (put_rq i q s2)"
    "\<forall>a. same_id (threads s2 a) (threads (put_rq i q s2) a) \<and> t_state (threads (put_rq i q s2) a) = t_state (threads s2 a)"
    "if n = 0 then \<not> (\<exists>a\<in>set (addrs (Q2 i)). running (threads s2) a) else n \<in> set (addrs (Q2 i)) \<and> running (threads s2) n \<and> held i n (put_rq i q s2) Q3 ?Z"
    using pick_held [OF r(2,5)] by blast
  let ?s3 = "put_rq i q s2"
  have st: "t_state (threads s2 a) = t_state (threads s a)" "t_state (threads ?s3 a) = t_state (threads s a)" for a using k(9) r(9) n(5) by simp_all
  have curz: "?cur \<notin> zset Z" using placedD(6) [OF p UNIV_I c] by simp
  have fz: "set fs \<subseteq> set (Z i)" using k(5) by blast
  have zi: "set (Z j) \<subseteq> zset Z" for j by (auto simp: zset_def)
  have z: "zset ?Z = zset Z - set fs \<union> (if dead s c then {?cur} else {})"
  proof -
    have "zset (Z(i := zs)) = zset Z - set fs"
    proof -
      have "set zs = set (Z i) - set fs" using k(4,5) by auto
      moreover have "set fs \<inter> set (Z j) = {}" if "j \<noteq> i" for j using zombiesD(4) [OF placedD(2) [OF p] that] fz by blast
      moreover have "zset Z = zset (Z(i := Z i))" by simp
      ultimately show ?thesis unfolding zset_upd by blast
    qed
    then show ?thesis by (simp add: zset_upd)
  qed
  have zc: "zchain (threads ?s3) f fs"
  proof -
    have "zombie_next (threads ?s3 a) = zombie_next (threads s1 a)" if "a \<in> set fs" for a
      using n(5) r(10) that fz zi [of i] curz by (metis same_id_def subsetD)
    then show ?thesis using k(3) zchain_cong [of fs "threads ?s3" "threads s1"] by blast
  qed
  have rel: "rel_option (\<lambda>c c'. current_thread c' = current_thread c \<and> idle_thread c' = idle_thread c) (cpus s j) (cpus ?s3 j)" for j
  proof -
    have a: "rel_option cpu_rest (cpus s2 j) (cpus ?s3 j)" using n(4) by (simp add: cpus_rest_def)
    show ?thesis
    proof (cases "j = i")
      case True
      then show ?thesis using a c r(5-7) by (cases "cpus ?s3 j") (auto simp: cpu_rest_def)
    next
      case False
      then have "cpus s2 j = cpus s j" using r(8) k(6) by simp
      then show ?thesis using a by (cases "cpus s j"; cases "cpus ?s3 j") (auto simp: cpu_rest_def)
    qed
  qed
  have work: "if n = 0 then \<not> requeued s c \<and> \<not> (\<exists>a\<in>set (addrs (Q i)). running (threads s) a)
    else held i n ?s3 Q3 ?Z \<and> n \<in> with_current s c (set (addrs (Q i))) \<and> n \<noteq> idle_thread c \<and> running (threads s) n"
  proof (cases "n = 0")
    case True
    then have no: "\<not> running (threads s) a" if "a \<in> with_current s c (set (addrs (Q i)))" for a using n(6) that r(4) st by auto
    have "\<not> requeued s c"
    proof
      assume "requeued s c"
      then show False using no [of ?cur] by (simp add: with_current_def requeued_def)
    qed
    then show ?thesis using no True by (auto simp: with_current_def)
  next
    case False
    then have a: "n \<in> set (addrs (Q2 i))" "running (threads s) n" "held i n ?s3 Q3 ?Z" using n(6) st by auto
    have "n \<in> queued_set Q2" using a(1) by (auto simp: queued_set_def)
    then have "n \<noteq> idle_thread c" using placedD(5) [OF r(2,5)] r(7) by auto
    then show ?thesis using a False r(4) by simp
  qed
  have fr: "freed ?s3 = freed s" using r(11) k(10) by (cases q) (simp add: put_rq_def)
  have "chosen i n fs s Q Z ?s3 Q3 ?Z"
    unfolding chosen_def c option.sel using n(2,3) r(3) k(4) fz z rel st(2) fr work by (simp split: if_splits)
  moreover have "switch_locked i ?cur False s = Some (n, if dead s c then 0 else ?cur, f, ?s3)"
    using k(1) r(1) n(1) by (simp add: switch_locked_def)
  ultimately show ?thesis using zc by blast
qed

section \<open>After the choice\<close>

lemma reclaim_quiet:
  assumes ok: "smp_ok s Q" and ch: "zchain (threads s) f fs" and c: "cpus s i = Some c"
  shows "\<exists>s'. reclaim_zombie_list i f s = Some s' \<and> quiet s Q s' Q \<and> freed s' = freed s @ fs \<and> threads s' = threads s"
proof -
  obtain s' m where r: "reclaim_zombie_list i f s = Some s'" "threads s' = threads s" "nodes s' = nodes s" "last_cpu s' = last_cpu s" "freed s' = freed s @ fs"
    "cpus s' = (cpus s)(i \<mapsto> c\<lparr>zombie_reclaims := m\<rparr>)" using reclaim_spec [OF ch c] by blast
  have "quiet s Q s' Q" using smp_cpu_typed [OF ok c]
    by (intro quiet_set_cpu_other [OF ok c _ _ _ r(2,3,6,4)]) (auto simp: same_queue_def cpu_typed_def cpu_rest_def)
  then show ?thesis using r by blast
qed

text \<open>Making a thread the current one of the processor.\<close>

lemma placed_current:
  assumes p: "placed s Q Z (- {i})" and c: "cpus s i = Some c" and h: "held i n s Q Z" and f: "same_queue c c'" "cpu_typed c'" "cpu_rest (c\<lparr>current_thread := n\<rparr>) c'"
    and s': "threads s' = threads s" "nodes s' = nodes s" "cpus s' = (cpus s)(i \<mapsto> c')"
  shows "placed s' Q Z UNIV"
proof -
  have c': "current_thread c' = n" "idle_thread c' = idle_thread c" "zombie_list c' = zombie_list c" "zombie_count c' = zombie_count c" "c_id c' = c_id c"
    using f(3) by (simp_all add: cpu_rest_def)
  have "smp_ok (set_cpu i (\<lambda>_. c') s) Q" using f(1,2) c'(5) by (intro smp_ok_set_cpu [OF placedD(1) [OF p] c]) simp_all
  then have ok: "smp_ok s' Q" using s' by (elim smp_ok_other) (simp_all add: set_cpu_def)
  have z: "zombies_ok s' Z" unfolding zombies_ok_def
  proof (intro conjI allI impI)
    fix j d assume d: "cpus s' j = Some d"
    show "zchain (threads s') (zombie_list d) (Z j)" "zombie_count d = length (Z j)"
      using d s' c' zombiesD(1,2) [OF placedD(2) [OF p], of j] c by (cases "j = i"; simp)+
  qed (use zombiesD(3,4) [OF placedD(2) [OF p]] in blast)+
  have hn: "KERNEL_BASE \<le> n" "n \<notin> queued_set Q \<union> zset Z" "cpu_num (threads s n) = i" "\<And>j d. j \<noteq> i \<Longrightarrow> cpus s j = Some d \<Longrightarrow> current_thread d \<noteq> n \<and> idle_thread d \<noteq> n"
    using h by (auto simp: held_def)
  have bk: "\<exists>d. cpus s j = Some d \<and> idle_thread d' = idle_thread d \<and> current_thread d' = (if j = i then n else current_thread d)" if "cpus s' j = Some d'" for j d'
    using that s'(3) c c'(1,2) by (cases "j = i") auto
  show ?thesis unfolding placed_def
  proof (intro conjI allI impI)
    show "zset Z \<inter> queued_set Q = {}" "\<forall>a\<in>queued_set Q. KERNEL_BASE \<le> a" using placedD(3,4) [OF p] by blast+
  next
    fix j d' assume d': "cpus s' j = Some d'"
    then obtain d where d: "cpus s j = Some d" "idle_thread d' = idle_thread d" "current_thread d' = (if j = i then n else current_thread d)" using bk by blast
    show "KERNEL_BASE \<le> idle_thread d'" "KERNEL_BASE \<le> current_thread d'" "idle_thread d' \<notin> queued_set Q \<union> zset Z" "cpu_num (threads s' (idle_thread d')) = j"
      using placedD(5) [OF p d(1)] hn(1) d(2,3) s'(1) by simp_all
    show "current_thread d' \<notin> queued_set Q \<union> zset Z" "cpu_num (threads s' (current_thread d')) = j"
      using placedD(6) [OF p _ d(1)] hn(2,3) d(3) s'(1) by simp_all
  next
    fix j k cj' ck' assume jk: "j \<noteq> k" "cpus s' j = Some cj'" "cpus s' k = Some ck'"
    obtain cj where j: "cpus s j = Some cj" "idle_thread cj' = idle_thread cj" "current_thread cj' = (if j = i then n else current_thread cj)" using bk [OF jk(2)] by blast
    obtain ck where k: "cpus s k = Some ck" "idle_thread ck' = idle_thread ck" "current_thread ck' = (if k = i then n else current_thread ck)" using bk [OF jk(3)] by blast
    note o = placedD(7) [OF p jk(1) j(1) k(1)] hn(4) [OF _ j(1)] hn(4) [OF _ k(1)]
    show "idle_thread cj' \<noteq> idle_thread ck'" using o(1) j(2) k(2) by simp
    show "current_thread cj' \<noteq> idle_thread ck'" using o(1,3) j(3) k(2) jk(1) by (cases "j = i") auto
    show "current_thread cj' \<noteq> current_thread ck'" using o j(3) k(3) jk(1) by (cases "j = i"; cases "k = i") auto
  qed (rule ok z)+
qed

end
