(* ===== verification/Switch_Step.thy ===== *)
theory Switch_Step
  imports Switch_Safe
begin

text \<open>
  The rest of the scheduling interrupt: balancing, the change of the current thread, and the whole of
  \<open>Schedule::Switch\<close>.
\<close>

section \<open>Balancing\<close>

lemma push_placed:
  assumes p: "placed s Q Z P" and c: "cpus s i = Some c"
  shows "\<exists>s' Q'. TryPush l i s = Some s' \<and> placed s' Q' Z P \<and> cpus_rest s s' \<and> queued_set Q' = queued_set Q \<and> freed s' = freed s
    \<and> (\<forall>a. a \<notin> queued_set Q \<longrightarrow> t_state (threads s' a) = t_state (threads s a) \<and> cpu_num (threads s' a) = cpu_num (threads s a))"
proof -
  obtain k B s' Q' where r: "TryPush l i s = Some s'" "k \<noteq> i" "pushed i k B s Q s' Q'" using push_spec [OF placedD(1) [OF p] c, of l] unfolding push_result_def by blast
  have q: "B \<subseteq> set (addrs (Q i))" "set (addrs (Q' i)) = set (addrs (Q i)) - B" "set (addrs (Q' k)) = set (addrs (Q k)) \<union> B" "\<And>j. j \<noteq> i \<Longrightarrow> j \<noteq> k \<Longrightarrow> Q' j = Q j"
    "smp_ok s' Q'" "cpus_rest s s'" using r(3) unfolding pushed_def by blast+
  have f: "same_id (threads s a) (threads s' a)" "t_state (threads s' a) = (if a \<in> B then THREAD_RUNNING else t_state (threads s a))"
    "cpu_num (threads s' a) = (if a \<in> B then k else cpu_num (threads s a))" for a using r(3) unfolding pushed_def by blast+
  have "a \<in> set (addrs (Q' j)) \<Longrightarrow> a \<in> queued_set Q" for a j using q(1-3) q(4) [of j] by (cases "j = i"; cases "j = k") (auto simp: queued_set_def)
  moreover have "a \<in> set (addrs (Q j)) \<Longrightarrow> a \<in> queued_set Q'" for a j
  proof -
    assume a: "a \<in> set (addrs (Q j))"
    have "a \<in> set (addrs (Q' i)) \<or> a \<in> set (addrs (Q' k)) \<or> a \<in> set (addrs (Q' j))" using a q(2,3) q(4) [of j] by (cases "j = i"; cases "j = k") auto
    then show ?thesis unfolding queued_set_def by blast
  qed
  ultimately have qs: "queued_set Q' = queued_set Q" by (fastforce simp: queued_set_def [of Q'] queued_set_def [of Q])
  have B: "B \<subseteq> queued_set Q" using q(1) by (auto simp: queued_set_def)
  have "placed s' Q' Z P" using qs f(1,3) B by (intro placed_mono [OF p q(5,6)]) auto
  then show ?thesis using r(1) q(6) qs f(2,3) B TryPush_freed [OF r(1)] by auto
qed

lemma steal_placed:
  assumes p: "placed s Q Z (- {i})" and c: "cpus s i = Some c"
  shows "\<exists>r s' Q'. StealThread lock pid now i s = Some (r, s') \<and> placed s' Q' Z (- {i}) \<and> cpus_rest s s' \<and> queued_set Q' = queued_set Q - {r} \<and> freed s' = freed s
    \<and> (r \<noteq> 0 \<longrightarrow> r \<in> queued_set Q \<and> running (threads s') r \<and> held i r s' Q' Z) \<and> (\<forall>a. t_state (threads s' a) = t_state (threads s a))"
proof -
  note ok = placedD(1) [OF p]
  obtain r s' Q' where r: "StealThread lock pid now i s = Some (r, s')" "if r = 0 then quiet s Q s' Q' else pulled i r s Q s' Q'"
    using steal_spec [OF ok c, of lock pid now] unfolding steal_result_def by blast
  show ?thesis
  proof (cases "r = 0")
    case True
    then have q: "quiet s Q s' Q'" using r(2) by simp
    have "0 \<notin> queued_set Q" using placedD(4) [OF p, of 0] by auto
    then have "queued_set Q' = queued_set Q - {r}" using quiet_queued_set [OF q] True by simp
    then show ?thesis using r(1) placed_quiet [OF p q] q True StealThread_freed [OF r(1)]
      by (intro exI [of _ r] exI [of _ s'] exI [of _ Q']) (simp add: quiet_def same_threads_def)
  next
    case False
    then have u: "pulled i r s Q s' Q'" using r(2) by simp
    note qs = pulled_set [OF ok u]
    have f: "smp_ok s' Q'" "cpus_rest s s'" "same_threads s Q s'" "running (threads s') r" "cpu_num (threads s' r) = i" using u unfolding pulled_def by blast+
    have "placed s' Q' Z (- {i})" using qs f(3) by (intro placed_mono [OF p f(1,2)]) (auto simp: same_threads_def)
    moreover have "held i r s' Q' Z" using qs f(5) by (intro held_taken [OF p qs(1) _ f(2)]) auto
    ultimately show ?thesis using r(1) f(2-4) qs StealThread_freed [OF r(1)] by (auto simp: same_threads_def)
  qed
qed

lemma balance_spec:
  assumes p: "placed s Q Z (- {i})" and c: "cpus s i = Some c" and h: "n \<noteq> 0 \<Longrightarrow> held i n s Q Z" and z: "0 \<notin> queued_set Q"
  shows "\<exists>n' s' Q'. balance i inp n s = Some (n', s') \<and> placed s' Q' Z (- {i}) \<and> cpus_rest s s' \<and> held i n' s' Q' Z \<and> queued_set Q' = queued_set Q - {n'} \<and> freed s' = freed s
    \<and> (if n \<noteq> 0 then n' = n else n' = idle_thread c \<or> n' \<in> queued_set Q \<and> running (threads s') n')
    \<and> (\<forall>a. a \<notin> queued_set Q \<longrightarrow> t_state (threads s' a) = t_state (threads s a))"
proof -
  let ?P = "if tick_count c mod 256 = 0 \<and> thread_count c > 2 then TryPush (i_push_lock inp) i s else Some s"
  obtain s1 Q1 where b: "?P = Some s1" "placed s1 Q1 Z (- {i})" "cpus_rest s s1" "queued_set Q1 = queued_set Q" "freed s1 = freed s"
    "\<forall>a. a \<notin> queued_set Q \<longrightarrow> t_state (threads s1 a) = t_state (threads s a) \<and> cpu_num (threads s1 a) = cpu_num (threads s a)"
  proof (cases "tick_count c mod 256 = 0 \<and> thread_count c > 2")
    case True
    then show ?thesis using push_placed [OF p c, of "i_push_lock inp"] that by auto
  next
    case False
    have "cpus_rest s s" by (simp add: cpus_rest_def option.rel_refl)
    then show ?thesis using that [of s Q] False p by simp
  qed
  obtain c1 where c1: "cpus s1 i = Some c1" "cpu_rest c c1" using b(3) c unfolding cpus_rest_def by (metis option.rel_cases option.distinct(1) option.inject)
  show ?thesis
  proof (cases "n = 0")
    case False
    then have hn: "held i n s Q Z" using h by blast
    then have nq: "n \<notin> queued_set Q" by (simp add: held_def)
    have "held i n s1 Q1 Z" using b(4,6) nq by (intro held_keep [OF hn b(3)]) auto
    moreover have "balance i inp n s = Some (n, s1)" using False b(1) c by (simp add: balance_def Let_def)
    ultimately show ?thesis using False b nq by (intro exI [of _ n] exI [of _ s1] exI [of _ Q1]) auto
  next
    case True
    obtain r s2 Q2 where t: "StealThread (i_steal_lock inp) (i_pid inp) (i_now inp) i s1 = Some (r, s2)" "placed s2 Q2 Z (- {i})" "cpus_rest s1 s2" "queued_set Q2 = queued_set Q1 - {r}"
      "freed s2 = freed s1" "r \<noteq> 0 \<longrightarrow> r \<in> queued_set Q1 \<and> running (threads s2) r \<and> held i r s2 Q2 Z" "\<forall>a. t_state (threads s2 a) = t_state (threads s1 a)"
      using steal_placed [OF b(2) c1(1), of "i_steal_lock inp" "i_pid inp" "i_now inp"] by blast
    obtain c2 where c2: "cpus s2 i = Some c2" "cpu_rest c1 c2" using t(3) c1(1) unfolding cpus_rest_def by (metis option.rel_cases option.distinct(1) option.inject)
    have id: "idle_thread c2 = idle_thread c" using c1(2) c2(2) by (simp add: cpu_rest_def)
    let ?n = "if r = 0 then idle_thread c2 else r"
    have hr: "held i ?n s2 Q2 Z" using t(6) held_idle [OF t(2) c2(1)] by simp
    then have "?n \<notin> queued_set Q2" by (simp add: held_def)
    then have qs: "queued_set Q2 = queued_set Q - {?n}" using t(4) b(4) z by (cases "r = 0") auto
    have "balance i inp n s = Some (?n, s2)" using True b(1) t(1) c c2(1) by (simp add: balance_def Let_def)
    moreover have "cpus_rest s s2" using cpus_rest_trans [OF b(3) t(3)] .
    moreover have "?n = idle_thread c \<or> ?n \<in> queued_set Q \<and> running (threads s2) ?n" using t(6) b(4) id by simp
    ultimately show ?thesis using True hr t(2,5,7) b(5,6) qs by (intro exI [of _ ?n] exI [of _ s2] exI [of _ Q2]) simp
  qed
qed

section \<open>The new current thread\<close>

lemma quantum_of_fields: "\<exists>q st. quantum_of i n s = (q, s\<lparr>rip_stats := st\<rparr>)"
proof (cases "n = idle_thread (the (cpus s i))")
  case True
  then have "quantum_of i n s = (base_quantum (the (cpus s i)), s\<lparr>rip_stats := rip_stats s\<rparr>)" by (simp add: quantum_of_def Let_def)
  then show ?thesis by blast
next
  case False
  then show ?thesis by (auto simp: quantum_of_def Let_def split: prod.splits)
qed

lemma dispatch_placed:
  assumes p: "placed s Q Z (- {i})" and c: "cpus s i = Some c" and h: "held i n s Q Z"
  shows "\<exists>c'. placed (dispatch i inp n s) Q Z UNIV \<and> cpus (dispatch i inp n s) = (cpus s)(i \<mapsto> c') \<and> current_thread c' = n \<and> idle_thread c' = idle_thread c
    \<and> (\<forall>a. t_state (threads (dispatch i inp n s) a) = t_state (threads s a)) \<and> freed (dispatch i inp n s) = freed s"
proof -
  let ?c = "c\<lparr>current_thread := n, context_switches := add64 (context_switches c) 1\<rparr>"
  let ?s = "set_cpu i (\<lambda>c. c\<lparr>current_thread := n, context_switches := add64 (context_switches c) 1\<rparr>) s"
  have s: "threads ?s = threads s" "nodes ?s = nodes s" "cpus ?s = (cpus s)(i \<mapsto> ?c)" using c by (simp_all add: set_cpu_def)
  have p1: "placed ?s Q Z UNIV" using smp_cpu_typed [OF placedD(1) [OF p] c]
    by (intro placed_current [OF p c h _ _ _ s]) (auto simp: same_queue_def cpu_typed_def cpu_rest_def)
  have "quiet ?s Q (dispatch i inp n s) Q" unfolding dispatch_def using smp_okD(6) [OF placedD(1) [OF p1], of n]
    by (intro quiet_set_thread [OF placedD(1) [OF p1]]) (simp_all add: same_queued_def thread_typed_def same_id_def)
  then have "placed (dispatch i inp n s) Q Z UNIV" using placed_quiet [OF p1] by blast
  moreover have "cpus (dispatch i inp n s) = (cpus s)(i \<mapsto> ?c)" "\<forall>a. t_state (threads (dispatch i inp n s) a) = t_state (threads s a)"
    "freed (dispatch i inp n s) = freed s" using s by (simp_all add: dispatch_def)
  ultimately show ?thesis by (intro exI [of _ ?c]) simp
qed

lemma finish_spec:
  assumes p: "placed s Q Z (- {i})" and c: "cpus s i = Some c" and h: "held i n s Q Z" and cur: "n = cur \<Longrightarrow> current_thread c = n"
  shows "\<exists>q s' c'. finish_switch i inp cur n s = (q, s') \<and> placed s' Q Z UNIV \<and> cpus s' = (cpus s)(i \<mapsto> c') \<and> current_thread c' = n \<and> idle_thread c' = idle_thread c
    \<and> (\<forall>a. t_state (threads s' a) = t_state (threads s a)) \<and> freed s' = freed s"
proof -
  let ?s1 = "if n \<noteq> cur then dispatch i inp n s else s"
  obtain c' where d: "placed ?s1 Q Z UNIV" "cpus ?s1 = (cpus s)(i \<mapsto> c')" "current_thread c' = n" "idle_thread c' = idle_thread c"
    "\<forall>a. t_state (threads ?s1 a) = t_state (threads s a)" "freed ?s1 = freed s"
  proof (cases "n = cur")
    case True
    have "placed s Q Z UNIV" using smp_cpu_typed [OF placedD(1) [OF p] c] c cur [OF True]
      by (intro placed_current [OF p c h, of c]) (auto simp: same_queue_def cpu_rest_def)
    then show ?thesis using that [of c] True c cur [OF True] by (simp add: fun_upd_idem)
  next
    case False
    then show ?thesis using dispatch_placed [OF p c h, of inp] that by auto
  qed
  obtain q st where q: "quantum_of i n ?s1 = (q, ?s1\<lparr>rip_stats := st\<rparr>)" using quantum_of_fields by blast
  let ?s2 = "?s1\<lparr>rip_stats := st\<rparr>"
  have f: "threads ?s2 = threads ?s1" "nodes ?s2 = nodes ?s1" "cpus ?s2 = cpus ?s1" "last_cpu ?s2 = last_cpu ?s1" "freed ?s2 = freed ?s1" by simp_all
  have "placed ?s2 Q Z UNIV" using placed_quiet [OF d(1) quiet_other [OF placedD(1) [OF d(1)] f(1-4)]] .
  moreover have "finish_switch i inp cur n s = (armed i q ?s2, ?s2)" unfolding finish_switch_def Let_def q by simp
  ultimately show ?thesis using d(2-6) f by (intro exI [of _ "armed i q ?s2"] exI [of _ ?s2] exI [of _ c']) simp
qed

section \<open>The whole interrupt\<close>

lemma idle_or_alone:
  assumes p: "placed s Q Z UNIV" and c: "cpus s i = Some c" and n: "\<not> need_lock y c (current_thread c) (threads s (current_thread c))"
  shows "chosen i (current_thread c) [] s Q Z s Q Z"
proof -
  let ?cur = "current_thread c"
  have z: "thread_count c = 0" "?cur = idle_thread c \<or> requeued s c" using n by (auto simp: need_lock_def requeued_def split: if_splits)
  have e: "set (addrs (Q i)) = {}" using z(1) smp_okD(2) [OF placedD(1) [OF p] c] by (simp add: queued_counted counted_def)
  have cq: "?cur \<notin> queued_set Q" "?cur \<noteq> 0" using placedD(6) [OF p UNIV_I c] placedD(5) [OF p c] by auto
  have "\<not> dead s c" using z(2) by (auto simp: dead_def requeued_def)
  moreover have "?cur = idle_thread c \<Longrightarrow> \<not> requeued s c" by (simp add: requeued_def)
  moreover have "requeued s c \<Longrightarrow> running (threads s) ?cur" by (simp add: requeued_def)
  moreover have "rel_option (\<lambda>c c'. current_thread c' = current_thread c \<and> idle_thread c' = idle_thread c) (cpus s j) (cpus s j)" for j by (cases "cpus s j") auto
  ultimately show ?thesis unfolding chosen_def c option.sel
    using placed_weaken [OF p] held_current [OF p c] z(2) e cq by (auto simp: with_current_def)
qed

text \<open>What the interrupt of processor \<open>i\<close>, described by \<open>c\<close>, leaves behind when \<open>n\<close> is its new current thread.\<close>

definition switched :: "nat \<Rightarrow> cpu_t \<Rightarrow> nat \<Rightarrow> nat list \<Rightarrow> smp \<Rightarrow> (nat \<Rightarrow> rtree) \<Rightarrow> (nat \<Rightarrow> nat list) \<Rightarrow> smp \<Rightarrow> (nat \<Rightarrow> rtree) \<Rightarrow> (nat \<Rightarrow> nat list) \<Rightarrow> bool" where
  "switched i c n fs s Q Z s' Q' Z' \<longleftrightarrow> sched_ok s' Q' Z'
     \<and> (\<forall>j. rel_option (\<lambda>d d'. current_thread d' = (if j = i then n else current_thread d) \<and> idle_thread d' = idle_thread d) (cpus s j) (cpus s' j))
     \<and> queued_set Q' = with_current s c (queued_set Q) - {n}
     \<and> (n = idle_thread c \<or> n \<in> with_current s c (queued_set Q) \<and> running (threads s') n)
     \<and> (requeued s c \<or> (\<exists>a\<in>set (addrs (Q i)). running (threads s) a) \<longrightarrow> n \<noteq> idle_thread c)
     \<and> freed s' = freed s @ fs \<and> distinct fs \<and> set fs \<subseteq> set (Z i) \<and> zset Z' = zset Z - set fs \<union> (if dead s c then {current_thread c} else {})
     \<and> (\<forall>a. a \<notin> with_current s c (queued_set Q) \<longrightarrow> t_state (threads s' a) = t_state (threads s a))"

abbreviation same_run :: "nat \<Rightarrow> smp \<Rightarrow> smp \<Rightarrow> bool" where
  "same_run j s s' \<equiv> rel_option (\<lambda>c c'. current_thread c' = current_thread c \<and> idle_thread c' = idle_thread c) (cpus s j) (cpus s' j)"

lemma same_run_trans: "same_run j s s1 \<Longrightarrow> same_run j s1 s2 \<Longrightarrow> same_run j s s2"
  by (cases "cpus s j"; cases "cpus s1 j"; cases "cpus s2 j") auto

lemma same_run_rest: "cpus_rest s s' \<Longrightarrow> same_run j s s'"
proof -
  assume "cpus_rest s s'"
  then have "rel_option cpu_rest (cpus s j) (cpus s' j)" by (simp add: cpus_rest_def)
  then show ?thesis by (rule option.rel_mono_strong) (simp add: cpu_rest_def)
qed

text \<open>From the choice to the end of the interrupt.\<close>

lemma complete_switch:
  assumes c: "cpus s i = Some c" and p: "placed s Q Z UNIV" and ch: "chosen i n fs s Q Z s1 Q1 Z1" and f: "zchain (threads s1) f fs"
    and cur: "cur = 0 \<or> cur = current_thread c"
  shows "\<exists>s2 n' s3 q s' Q' Z'. reclaim_zombie_list i f s1 = Some s2 \<and> balance i inp n s2 = Some (n', s3) \<and> finish_switch i inp cur n' s3 = (q, s')
    \<and> switched i c n' fs s Q Z s' Q' Z'"
proof -
  have k: "placed s1 Q1 Z1 (- {i})" "queued_set Q1 = with_current s c (queued_set Q) - {n}" "n \<noteq> 0 \<Longrightarrow> held i n s1 Q1 Z1"
    "n = 0 \<or> n = idle_thread c \<Longrightarrow> \<not> requeued s c \<and> \<not> (\<exists>a\<in>set (addrs (Q i)). running (threads s) a)"
    "n \<noteq> 0 \<Longrightarrow> n = idle_thread c \<or> n \<in> with_current s c (set (addrs (Q i))) \<and> running (threads s) n"
    "distinct fs" "set fs \<subseteq> set (Z i)" "zset Z1 = zset Z - set fs \<union> (if dead s c then {current_thread c} else {})" "\<And>j. same_run j s s1"
    "\<And>a. t_state (threads s1 a) = t_state (threads s a)" "freed s1 = freed s"
    using ch unfolding chosen_def c option.sel by (auto split: if_splits)
  obtain c1 where c1: "cpus s1 i = Some c1" using k(9) [of i] c by (cases "cpus s1 i") auto
  obtain s2 where r: "reclaim_zombie_list i f s1 = Some s2" "quiet s1 Q1 s2 Q1" "freed s2 = freed s1 @ fs" "threads s2 = threads s1"
    using reclaim_quiet [OF placedD(1) [OF k(1)] f c1] by blast
  have cr2: "cpus_rest s1 s2" using r(2) by (simp add: quiet_def)
  have p2: "placed s2 Q1 Z1 (- {i})" using placed_quiet [OF k(1) r(2)] .
  obtain c2 where c2: "cpus s2 i = Some c2" "idle_thread c2 = idle_thread c" using same_run_trans [OF k(9) same_run_rest [OF cr2], of i] c by (cases "cpus s2 i") auto
  have h2: "n \<noteq> 0 \<Longrightarrow> held i n s2 Q1 Z1" using k(3) held_keep [OF _ cr2, of i n Q1 Z1 Q1] r(4) by simp
  have z0: "0 \<notin> queued_set Q1" using placedD(4) [OF p2, of 0] by auto
  obtain n' s3 Q3 where b: "balance i inp n s2 = Some (n', s3)" "placed s3 Q3 Z1 (- {i})" "cpus_rest s2 s3" "held i n' s3 Q3 Z1" "queued_set Q3 = queued_set Q1 - {n'}" "freed s3 = freed s2"
    "if n \<noteq> 0 then n' = n else n' = idle_thread c2 \<or> n' \<in> queued_set Q1 \<and> running (threads s3) n'" "\<forall>a. a \<notin> queued_set Q1 \<longrightarrow> t_state (threads s3 a) = t_state (threads s2 a)"
    using balance_spec [OF p2 c2(1) h2 z0, of inp] by blast
  have sr: "same_run j s s3" for j using same_run_trans [OF same_run_trans [OF k(9) same_run_rest [OF cr2]] same_run_rest [OF b(3)]] .
  obtain c3 where c3: "cpus s3 i = Some c3" "current_thread c3 = current_thread c" "idle_thread c3 = idle_thread c" using sr [of i] c by (cases "cpus s3 i") auto
  have n0: "n' \<noteq> 0" using b(4) by (auto simp: held_def)
  then have "n' = cur \<Longrightarrow> current_thread c3 = n'" using cur c3(2) by auto
  then obtain q s' c' where e: "finish_switch i inp cur n' s3 = (q, s')" "placed s' Q3 Z1 UNIV" "cpus s' = (cpus s3)(i \<mapsto> c')" "current_thread c' = n'" "idle_thread c' = idle_thread c3"
    "\<forall>a. t_state (threads s' a) = t_state (threads s3 a)" "freed s' = freed s3" using finish_spec [OF b(2) c3(1) b(4), of cur inp] by blast
  have cpus: "rel_option (\<lambda>d d'. current_thread d' = (if j = i then n' else current_thread d) \<and> idle_thread d' = idle_thread d) (cpus s j) (cpus s' j)" for j
    using sr [of j] e(3-5) c c3 by (cases "j = i") auto
  have w0: "0 \<notin> with_current s c (queued_set Q)" using placedD(4) [OF p, of 0] placedD(5) [OF p c] by (auto simp: with_current_def)
  have qs: "queued_set Q3 = with_current s c (queued_set Q) - {n'}" using b(5,7) k(2) w0 by (cases "n = 0") auto
  have run: "n' = idle_thread c \<or> n' \<in> with_current s c (queued_set Q) \<and> running (threads s') n'"
  proof (cases "n = 0")
    case True
    then show ?thesis using b(7) c2(2) k(2) e(6) by auto
  next
    case False
    have "n \<notin> queued_set Q1" using h2 [OF False] by (simp add: held_def)
    then have "t_state (threads s' n) = t_state (threads s n)" using e(6) b(8) r(4) k(10) by simp
    moreover have "with_current s c (set (addrs (Q i))) \<subseteq> with_current s c (queued_set Q)" unfolding with_current_def queued_set_def by auto
    ultimately show ?thesis using k(5) [OF False] b(7) False by auto
  qed
  have work: "requeued s c \<or> (\<exists>a\<in>set (addrs (Q i)). running (threads s) a) \<longrightarrow> n' \<noteq> idle_thread c"
    using k(4) b(7) by (cases "n = 0") auto
  have "t_state (threads s' a) = t_state (threads s a)" if "a \<notin> with_current s c (queued_set Q)" for a
    using that e(6) b(8) r(4) k(2,10) by simp
  then have "switched i c n' fs s Q Z s' Q3 Z1" unfolding switched_def sched_ok_def
    using e(2,7) cpus qs run work r(3) b(6) k(6-8,11) by simp
  then show ?thesis using r(1) b(1) e(1) by blast
qed

lemma settle_freed: "freed (settle i inp cur s) = freed s"
  by (simp add: settle_def save_context_def adjust_def account_def sample_def Let_def split: prod.splits)

lemma chosen_quiet:
  assumes c: "cpus s i = Some c" and q: "quiet s Q s1 Q" and fr: "freed s1 = freed s"
  shows "\<exists>c1. cpus s1 i = Some c1 \<and> current_thread c1 = current_thread c \<and> idle_thread c1 = idle_thread c
    \<and> dead s1 c1 = dead s c \<and> requeued s1 c1 = requeued s c
    \<and> (switched i c1 n fs s1 Q Z s' Q' Z' \<longrightarrow> switched i c n fs s Q Z s' Q' Z')"
proof -
  have cr: "cpus_rest s s1" and st: "\<And>a. t_state (threads s1 a) = t_state (threads s a)" using q by (auto simp: quiet_def same_threads_def)
  obtain c1 where c1: "cpus s1 i = Some c1" "current_thread c1 = current_thread c" "idle_thread c1 = idle_thread c"
    using same_run_rest [OF cr, of i] c by (cases "cpus s1 i") auto
  have w: "dead s1 c1 = dead s c" "requeued s1 c1 = requeued s c" "with_current s1 c1 A = with_current s c A" for A
    using c1(2,3) st by (auto simp: dead_def requeued_def with_current_def)
  have "rel_option (\<lambda>d d'. current_thread d' = (if j = i then n else current_thread d) \<and> idle_thread d' = idle_thread d) (cpus s j) (cpus s' j)"
    if "rel_option (\<lambda>d d'. current_thread d' = (if j = i then n else current_thread d) \<and> idle_thread d' = idle_thread d) (cpus s1 j) (cpus s' j)" for j
    using that same_run_rest [OF cr, of j] by (cases "cpus s j"; cases "cpus s1 j"; cases "cpus s' j") auto
  then have "switched i c1 n fs s1 Q Z s' Q' Z' \<longrightarrow> switched i c n fs s Q Z s' Q' Z'"
    unfolding switched_def w c1(2,3) fr st by blast
  then show ?thesis using c1 w(1,2) by blast
qed

lemma switch_spec:
  assumes ok: "sched_ok s Q Z" and c: "cpus s i = Some c" and pc: "preempt_count c \<le> 1" and room: "card (queued_set Q) + 1 < U64" "length (Z i) + 1 < U64"
  shows "\<exists>q n fs s' Q' Z'. Switch i inp s = Some (Some q, s') \<and> switched i c n fs s Q Z s' Q' Z'"
proof -
  let ?cur = "current_thread c"
  have p: "placed s Q Z UNIV" using ok by (simp add: sched_ok_def)
  let ?s0 = "s\<lparr>need_resched_flags := (need_resched_flags s)(i := False), yield_request_flags := (yield_request_flags s)(i := False)\<rparr>"
  let ?s1 = "set_cpu i (\<lambda>c. c\<lparr>tick_count := add64 (tick_count c) 1\<rparr>) ?s0"
  let ?s2 = "settle i inp ?cur ?s1"
  have q0: "quiet s Q ?s0 Q" by (intro quiet_other [OF placedD(1) [OF p]]) simp_all
  have c0: "cpus ?s0 i = Some c" using c by simp
  have q1: "quiet ?s0 Q ?s1 Q" using smp_cpu_typed [OF quiet_ok [OF q0] c0]
    by (intro set_cpu_quiet [OF quiet_ok [OF q0] c0]) (auto simp: same_queue_def cpu_typed_def cpu_rest_def)
  have c1: "cpus ?s1 i = Some (c\<lparr>tick_count := add64 (tick_count c) 1\<rparr>)" using c by (simp add: set_cpu_def)
  have q2: "quiet s Q ?s2 Q" using quiet_trans [OF quiet_trans [OF q0 q1] settle_quiet [OF quiet_ok [OF q1] c1]] .
  have fr: "freed ?s2 = freed s" by (simp add: settle_freed)
  have p2: "placed ?s2 Q Z UNIV" using placed_quiet [OF p q2] .
  obtain c2 where c2: "cpus ?s2 i = Some c2" "current_thread c2 = ?cur" using chosen_quiet [OF c q2 fr] by blast
  let ?L = "if need_lock (yield_request_flags s i) c2 ?cur (threads ?s2 ?cur) then switch_locked i ?cur False ?s2 else Some (?cur, ?cur, 0, ?s2)"
  obtain n cur f fs s3 Q3 Z3 where l: "?L = Some (n, cur, f, s3)" "cur = 0 \<or> cur = current_thread c2" "zchain (threads s3) f fs" "chosen i n fs ?s2 Q Z s3 Q3 Z3"
  proof (cases "need_lock (yield_request_flags s i) c2 ?cur (threads ?s2 ?cur)")
    case True
    obtain n f fs s3 Q3 Z3 where r: "switch_locked i ?cur False ?s2 = Some (n, if dead ?s2 c2 then 0 else ?cur, f, s3)" "zchain (threads s3) f fs" "chosen i n fs ?s2 Q Z s3 Q3 Z3"
      using switch_locked_spec [OF p2 c2(1) room] unfolding c2(2) by blast
    have "(if b then 0 else x) = 0 \<or> (if b then 0 else x) = x" for b and x :: nat by simp
    then show ?thesis using that [OF _ _ r(2,3)] True r(1) unfolding if_P [OF True] c2(2) by blast
  next
    case False
    then show ?thesis using idle_or_alone [OF p2 c2(1), of "yield_request_flags s i"] that [of ?cur ?cur 0 ?s2 "[]" Q Z] c2(2) by simp
  qed
  obtain s4 n' s5 q s' Q' Z' where e: "reclaim_zombie_list i f s3 = Some s4" "balance i inp n s4 = Some (n', s5)" "finish_switch i inp cur n' s5 = (q, s')"
    "switched i c2 n' fs ?s2 Q Z s' Q' Z'" using complete_switch [OF c2(1) p2 l(4,3,2), of inp] by blast
  have "switched i c n' fs s Q Z s' Q' Z'" using chosen_quiet [OF c q2 fr, of n' fs Z s' Q' Z'] c2(1) e(4) by auto
  moreover have "Switch i inp s = Some (Some q, s')"
  proof -
    have k: "KERNEL_BASE \<le> ?cur" "idle_thread c \<noteq> 0" using placedD(5) [OF p c] by auto
    then have g: "safe_get_current_thread c = (?cur, False)" "\<not> (idle_thread c = 0 \<or> ?cur = 0)" "\<not> preempt_count c > 1" using pc by (auto simp: safe_get_current_thread_def)
    show ?thesis unfolding Switch_def c option.case g(1) Let_def prod.case if_not_P [OF g(2)] if_not_P [OF g(3)] c2(1) option.sel l(1) e(1,2) option.map e(3) by simp
  qed
  ultimately show ?thesis by blast
qed

end
