(* ===== verification/Queue_Model.thy ===== *)
theory Queue_Model
  imports Prelude
begin

text \<open>
  The linked queue of \<open>klib/algorithm/queue.cpp\<close>: items in a store, a head and a tail pointer. The address that
  \<open>kmalloc\<close> returns is an argument; a null address is written through by the code, which is the result \<open>None\<close>.
  Freed items are returned.
\<close>

section \<open>The operations\<close>

record queue_item_t =
  q_data :: nat
  q_next :: nat

record queue_t =
  q_head :: nat
  q_tail :: nat

type_synonym items = "nat \<Rightarrow> queue_item_t"

definition queue_Create :: "nat \<Rightarrow> queue_t option" where
  "queue_Create queue = (if queue = 0 then None else Some \<lparr>q_head = 0, q_tail = 0\<rparr>)"

definition queue_Append :: "nat \<Rightarrow> nat \<Rightarrow> items \<times> queue_t \<Rightarrow> (items \<times> queue_t) option" where
  "queue_Append it dat hq =
     (case hq of (h, queue) \<Rightarrow>
      if it = 0 then None
      else let h1 = h(it := \<lparr>q_data = dat, q_next = 0\<rparr>) in
           if q_head queue = 0 then Some (h1, queue\<lparr>q_head := it, q_tail := it\<rparr>)
           else Some (h1(q_tail queue := (h1 (q_tail queue))\<lparr>q_next := it\<rparr>), queue\<lparr>q_tail := it\<rparr>))"

text \<open>The data, or null, and the item freed, or null.\<close>

definition queue_Dequeue :: "items \<times> queue_t \<Rightarrow> nat \<times> nat \<times> items \<times> queue_t" where
  "queue_Dequeue hq =
     (case hq of (h, queue) \<Rightarrow>
      let it = q_head queue in
      if it = 0 then (0, 0, h, queue)
      else (q_data (h it), it, h, queue\<lparr>q_head := q_next (h it), q_tail := (if q_tail queue = it then 0 else q_tail queue)\<rparr>))"

partial_function (option) queue_free_items :: "items \<Rightarrow> nat \<Rightarrow> nat list \<Rightarrow> nat list option" where
  "queue_free_items h cur freed_items =
     (if cur = 0 then Some freed_items else queue_free_items h (q_next (h cur)) (freed_items @ [cur]))"

definition queue_Destroy :: "items \<times> queue_t \<Rightarrow> nat list option" where
  "queue_Destroy hq = queue_free_items (fst hq) (q_head (snd hq)) []"

section \<open>The queue as a list\<close>

fun item_chain :: "items \<Rightarrow> nat \<Rightarrow> nat list \<Rightarrow> bool" where
  "item_chain h a [] \<longleftrightarrow> a = 0"
| "item_chain h a (x # xs) \<longleftrightarrow> a = x \<and> x \<noteq> 0 \<and> item_chain h (q_next (h x)) xs"

definition queue_items :: "items \<times> queue_t \<Rightarrow> nat list \<Rightarrow> bool" where
  "queue_items hq xs \<longleftrightarrow> item_chain (fst hq) (q_head (snd hq)) xs \<and> distinct xs \<and> q_tail (snd hq) = (if xs = [] then 0 else last xs)"

definition contents :: "items \<times> queue_t \<Rightarrow> nat list \<Rightarrow> nat list" where
  "contents hq xs = map (\<lambda>a. q_data (fst hq a)) xs"

lemma item_chain_cong: "(\<And>a. a \<in> set xs \<Longrightarrow> q_next (h' a) = q_next (h a)) \<Longrightarrow> item_chain h' a xs = item_chain h a xs"
  by (induction xs arbitrary: a) auto

lemma item_chain_snoc:
  "item_chain h a xs \<Longrightarrow> xs \<noteq> [] \<Longrightarrow> distinct xs \<Longrightarrow> it \<notin> set xs \<Longrightarrow> it \<noteq> 0 \<Longrightarrow> q_next (h it) = 0 \<Longrightarrow>
   item_chain (h(last xs := (h (last xs))\<lparr>q_next := it\<rparr>)) a (xs @ [it])"
proof (induction xs arbitrary: a)
  case (Cons x xs)
  show ?case
  proof (cases "xs = []")
    case True
    then show ?thesis using Cons.prems by auto
  next
    case False
    then have "last xs \<noteq> x" using Cons.prems(3) last_in_set by force
    then show ?thesis using Cons.IH [of "q_next (h x)"] Cons.prems False by simp
  qed
qed simp

lemma append_items:
  assumes q: "queue_items (h, queue) xs" and it: "it \<noteq> 0" "it \<notin> set xs"
  shows "\<exists>hq'. queue_Append it dat (h, queue) = Some hq' \<and> queue_items hq' (xs @ [it]) \<and> contents hq' (xs @ [it]) = contents (h, queue) xs @ [dat]"
proof (cases "xs = []")
  case True
  then show ?thesis using q it by (simp add: queue_items_def queue_Append_def contents_def)
next
  case False
  let ?h1 = "h(it := \<lparr>q_data = dat, q_next = 0\<rparr>)"
  have ch: "item_chain h (q_head queue) xs" "distinct xs" "q_tail queue = last xs" using q False by (auto simp: queue_items_def)
  have h0: "q_head queue \<noteq> 0" using ch(1) False by (cases xs) auto
  have "item_chain ?h1 (q_head queue) xs" using ch(1) it(2) by (subst item_chain_cong [of xs _ h]) auto
  then have ch': "item_chain (?h1(last xs := (?h1 (last xs))\<lparr>q_next := it\<rparr>)) (q_head queue) (xs @ [it])" using item_chain_snoc [of ?h1] False ch(2) it by simp
  have l: "last xs \<noteq> it" using it(2) False last_in_set by metis
  have "contents (?h1(last xs := (?h1 (last xs))\<lparr>q_next := it\<rparr>), queue\<lparr>q_tail := it\<rparr>) (xs @ [it]) = contents (h, queue) xs @ [dat]"
    using it(2) l by (auto simp: contents_def)
  then show ?thesis using ch' ch h0 it False by (simp add: queue_Append_def queue_items_def Let_def)
qed

lemma dequeue_items:
  assumes q: "queue_items (h, queue) xs"
  shows "case xs of [] \<Rightarrow> queue_Dequeue (h, queue) = (0, 0, h, queue)
    | x # xs' \<Rightarrow> \<exists>queue'. queue_Dequeue (h, queue) = (q_data (h x), x, h, queue') \<and> queue_items (h, queue') xs'"
proof (cases xs)
  case Nil
  then show ?thesis using q by (simp add: queue_Dequeue_def queue_items_def)
next
  case (Cons x xs')
  then have ch: "q_head queue = x" "x \<noteq> 0" "item_chain h (q_next (h x)) xs'" "x \<notin> set xs'" "distinct xs'" "q_tail queue = (if xs' = [] then x else last xs')"
    using q by (auto simp: queue_items_def)
  have "xs' \<noteq> [] \<Longrightarrow> last xs' \<noteq> x" using ch(4) last_in_set by metis
  then show ?thesis using ch Cons by (simp add: queue_Dequeue_def queue_items_def Let_def)
qed

lemma free_items_all: "item_chain h a xs \<Longrightarrow> queue_free_items h a fs = Some (fs @ xs)"
proof (induction xs arbitrary: a fs)
  case Nil
  then show ?case by (subst queue_free_items.simps) simp
next
  case (Cons x xs)
  then show ?case by (subst queue_free_items.simps) simp
qed

end
