(* ===== verification/Mutex_Model.thy ===== *)
theory Mutex_Model
  imports Queue_Model Switch_Model
begin

text \<open>
  The sleeping lock of \<open>klib/mutex/mutex.cpp\<close>: waking a thread on the machine of the scheduler, the operations of
  the lock on the linked queue, and the interleavings of the threads that use it, statement by statement.
\<close>

section \<open>Waking a thread\<close>

definition wake_thread :: "nat \<Rightarrow> nat \<Rightarrow> smp \<Rightarrow> smp option" where
  "wake_thread this t s =
     (if t = 0 \<or> cpu_num (threads s t) \<ge> 128 then Some s
      else let c = cpu_num (threads s t) in
           case cpus s c of
             None \<Rightarrow> Some s
           | Some _ \<Rightarrow>
               map_option (TriggerPreempt this t)
                 (if t_state (threads s t) = THREAD_BLOCKED
                  then let s1 = set_thread t (\<lambda>t. t\<lparr>t_state := THREAD_RUNNING\<rparr>) s
                       in map_option (\<lambda>r. put_rq c r s1) (InsertToQueue t (rq_of c s1))
                  else Some s))"

section \<open>The operations\<close>

record mutex_t =
  m_owner :: nat
  m_queue :: queue_t
  m_lock :: int

text \<open>\<open>kmalloc\<close> returned \<open>m\<close> for the lock and \<open>q\<close> for its queue.\<close>

definition MutexCreate :: "nat \<Rightarrow> nat \<Rightarrow> mutex_t option option" where
  "MutexCreate m q =
     (if m = 0 then Some None
      else map_option (\<lambda>qu. Some \<lparr>m_owner = 0, m_queue = qu, m_lock = 0\<rparr>) (queue_Create q))"

text \<open>One pass of the loop of \<open>MutexAcquire\<close> by thread \<open>cur\<close>: the lock is taken, or the thread is blocked,
  appended to the queue with the item at \<open>it\<close>, and gives up its processor \<open>this\<close>.\<close>

definition MutexAcquire_pass :: "nat \<Rightarrow> nat \<Rightarrow> nat \<Rightarrow> mutex_t \<times> items \<times> smp \<Rightarrow> (bool \<times> mutex_t \<times> items \<times> smp) option" where
  "MutexAcquire_pass this cur it x =
     (case x of (m, h, s) \<Rightarrow>
      let old = m_lock m; m1 = m\<lparr>m_lock := 1\<rparr> in
      if old = 0 then Some (True, m1\<lparr>m_owner := cur\<rparr>, h, s)
      else let s1 = set_thread cur (\<lambda>t. t\<lparr>t_state := THREAD_BLOCKED\<rparr>) s
           in map_option (\<lambda>(h', q). (False, m1\<lparr>m_queue := q\<rparr>, h', Yield this s1)) (queue_Append it cur (h, m_queue m1)))"

definition MutexRelease :: "nat \<Rightarrow> nat \<Rightarrow> mutex_t \<times> items \<times> smp \<Rightarrow> (mutex_t \<times> items \<times> smp) option" where
  "MutexRelease this cur x =
     (case x of (m, h, s) \<Rightarrow>
      if m_owner m \<noteq> cur then None
      else let m1 = m\<lparr>m_owner := 0, m_lock := 0\<rparr> in
           case queue_Dequeue (h, m_queue m1) of
             (wait_thread, it, h', q) \<Rightarrow> map_option (\<lambda>s'. (m1\<lparr>m_queue := q\<rparr>, h', s')) (wake_thread this wait_thread s))"

partial_function (option) wake_all :: "nat \<Rightarrow> items \<times> queue_t \<Rightarrow> smp \<Rightarrow> ((items \<times> queue_t) \<times> smp) option" where
  "wake_all this hq s =
     (case queue_Dequeue hq of
        (thread, it, hq') \<Rightarrow>
          if thread = 0 then Some (hq', s)
          else case wake_thread this thread s of
                 None \<Rightarrow> None
               | Some s' \<Rightarrow> wake_all this hq' s')"

definition MutexDestroy :: "nat \<Rightarrow> mutex_t \<times> items \<times> smp \<Rightarrow> (nat list \<times> smp) option" where
  "MutexDestroy this x =
     (case x of (m, h, s) \<Rightarrow>
      case wake_all this (h, m_queue m) s of
        None \<Rightarrow> None
      | Some (hq, s') \<Rightarrow> map_option (\<lambda>fs. (fs, s')) (queue_Destroy hq))"

section \<open>Interleavings\<close>

text \<open>
  The statements of \<open>MutexAcquire\<close> and \<open>MutexRelease\<close> a thread is at. The queue of the lock is the list it
  represents; a thread whose state is blocked is not put on a processor again until it is woken.
\<close>

datatype at = Outside | Try | Mark | Append | Sleep | Taken | Inside | Unowned | Unlocked | Wake nat

record world =
  w_owner :: nat
  w_lock :: bool
  w_queue :: "nat list"
  pc :: "nat \<Rightarrow> at"
  is_blocked :: "nat \<Rightarrow> bool"
  on_cpu :: "nat \<Rightarrow> bool"

inductive mutex_step :: "world \<Rightarrow> world \<Rightarrow> bool" where
  enter: "on_cpu w t \<Longrightarrow> t \<noteq> 0 \<Longrightarrow> pc w t = Outside \<Longrightarrow> mutex_step w (w\<lparr>pc := (pc w)(t := Try)\<rparr>)"
| take: "on_cpu w t \<Longrightarrow> pc w t = Try \<Longrightarrow> \<not> w_lock w \<Longrightarrow> mutex_step w (w\<lparr>w_lock := True, pc := (pc w)(t := Taken)\<rparr>)"
| fail: "on_cpu w t \<Longrightarrow> pc w t = Try \<Longrightarrow> w_lock w \<Longrightarrow> mutex_step w (w\<lparr>pc := (pc w)(t := Mark)\<rparr>)"
| mark: "on_cpu w t \<Longrightarrow> pc w t = Mark \<Longrightarrow> mutex_step w (w\<lparr>is_blocked := (is_blocked w)(t := True), pc := (pc w)(t := Append)\<rparr>)"
| append: "on_cpu w t \<Longrightarrow> pc w t = Append \<Longrightarrow> mutex_step w (w\<lparr>w_queue := w_queue w @ [t], pc := (pc w)(t := Sleep)\<rparr>)"
| yield: "on_cpu w t \<Longrightarrow> pc w t = Sleep \<Longrightarrow> mutex_step w (w\<lparr>on_cpu := (on_cpu w)(t := False), pc := (pc w)(t := Try)\<rparr>)"
| own: "on_cpu w t \<Longrightarrow> pc w t = Taken \<Longrightarrow> mutex_step w (w\<lparr>w_owner := t, pc := (pc w)(t := Inside)\<rparr>)"
| disown: "on_cpu w t \<Longrightarrow> pc w t = Inside \<Longrightarrow> w_owner w = t \<Longrightarrow> mutex_step w (w\<lparr>w_owner := 0, pc := (pc w)(t := Unowned)\<rparr>)"
| unlock: "on_cpu w t \<Longrightarrow> pc w t = Unowned \<Longrightarrow> mutex_step w (w\<lparr>w_lock := False, pc := (pc w)(t := Unlocked)\<rparr>)"
| alone: "on_cpu w t \<Longrightarrow> pc w t = Unlocked \<Longrightarrow> w_queue w = [] \<Longrightarrow> mutex_step w (w\<lparr>pc := (pc w)(t := Outside)\<rparr>)"
| dequeue: "on_cpu w t \<Longrightarrow> pc w t = Unlocked \<Longrightarrow> w_queue w = u # us \<Longrightarrow> mutex_step w (w\<lparr>w_queue := us, pc := (pc w)(t := Wake u)\<rparr>)"
| wake: "on_cpu w t \<Longrightarrow> pc w t = Wake u \<Longrightarrow> mutex_step w (w\<lparr>is_blocked := (is_blocked w)(u := False), pc := (pc w)(t := Outside)\<rparr>)"
| preempt: "on_cpu w t \<Longrightarrow> mutex_step w (w\<lparr>on_cpu := (on_cpu w)(t := False)\<rparr>)"
| run: "\<not> on_cpu w t \<Longrightarrow> \<not> is_blocked w t \<Longrightarrow> mutex_step w (w\<lparr>on_cpu := (on_cpu w)(t := True)\<rparr>)"

definition mutex_initial :: world where
  "mutex_initial = \<lparr>w_owner = 0, w_lock = False, w_queue = [], pc = (\<lambda>_. Outside), is_blocked = (\<lambda>_. False), on_cpu = (\<lambda>_. True)\<rparr>"

end
