(* ===== verification/Sched_Run.thy ===== *)
theory Sched_Run
  imports Switch_Step Mutex_Model
begin

text \<open>
  The running machine: scheduling interrupts on every processor, yields, preemption requests, the idle threads that
  free dead threads, threads that block or exit and threads that are woken, in any order.
\<close>

section \<open>The steps\<close>

definition detached :: "smp \<Rightarrow> nat \<Rightarrow> bool" where
  "detached s a \<longleftrightarrow> KERNEL_BASE \<le> a \<and> a < U64 \<and> (\<forall>j c. cpus s j = Some c \<longrightarrow> current_thread c \<noteq> a \<and> idle_thread c \<noteq> a)"

inductive sched_step :: "smp \<Rightarrow> smp \<Rightarrow> bool" where
  interrupt: "Switch i inp s = Some (q, s') \<Longrightarrow> sched_step s s'"
| request: "sched_step s (Yield i s)"
| trigger: "sched_step s (TriggerPreempt this a s)"
| leave: "cpus s i = Some c \<Longrightarrow> sched_step s (set_thread (current_thread c) (\<lambda>t. t\<lparr>t_state := st\<rparr>) s)"
| resume: "sched_step s (Resume i s)"
| idle: "cpus s i = Some c \<Longrightarrow> current_thread c = idle_thread c \<Longrightarrow> idle_reclaim i s = Some s' \<Longrightarrow> sched_step s s'"
| wake: "detached s a \<Longrightarrow> wake_thread this a s = Some s' \<Longrightarrow> sched_step s s'"

text \<open>Thread descriptors lie in the upper half of the address space, and the threads to free are dead.\<close>

definition live :: "smp \<Rightarrow> (nat \<Rightarrow> rtree) \<Rightarrow> (nat \<Rightarrow> nat list) \<Rightarrow> bool" where
  "live s Q Z \<longleftrightarrow> sched_ok s Q Z \<and> queued_set Q \<union> zset Z \<subseteq> {KERNEL_BASE..<U64} \<and> (\<forall>a\<in>zset Z. t_state (threads s a) = THREAD_ZOMBIE)
     \<and> (\<forall>j c. cpus s j = Some c \<longrightarrow> current_thread c < U64 \<and> idle_thread c < U64)"

lemma liveD:
  assumes "live s Q Z"
  shows "placed s Q Z UNIV" "queued_set Q \<union> zset Z \<subseteq> {KERNEL_BASE..<U64}" "a \<in> zset Z \<Longrightarrow> t_state (threads s a) = THREAD_ZOMBIE"
    "cpus s j = Some c \<Longrightarrow> current_thread c < U64 \<and> idle_thread c < U64"
  using assms unfolding live_def sched_ok_def by blast+

lemma live_rooms:
  assumes "live s Q Z"
  shows "card (queued_set Q) + 1 < U64" "length (Z i) + 1 < U64"
proof -
  have c: "card {KERNEL_BASE..<U64} + 1 < U64" by (simp add: U64_def)
  have "card (queued_set Q) \<le> card {KERNEL_BASE..<U64}" using liveD(2) [OF assms] by (intro card_mono) auto
  then show "card (queued_set Q) + 1 < U64" using c by simp
  have "set (Z i) \<subseteq> {KERNEL_BASE..<U64}" using liveD(2) [OF assms] by (auto simp: zset_def)
  then have "card (set (Z i)) \<le> card {KERNEL_BASE..<U64}" by (intro card_mono) auto
  moreover have "length (Z i) = card (set (Z i))" using zombiesD(3) [OF placedD(2) [OF liveD(1) [OF assms]], of i] by (simp add: distinct_card)
  ultimately show "length (Z i) + 1 < U64" using c by simp
qed

text \<open>Steps that change no queue, no list and no current thread.\<close>

lemma live_quiet:
  assumes l: "live s Q Z" and q: "quiet s Q s' Q"
  shows "live s' Q Z"
proof -
  have "current_thread c' < U64 \<and> idle_thread c' < U64" if "cpus s' j = Some c'" for j c'
    using cpus_rest_back [of s s' j c'] q that liveD(4) [OF l, of j] by (auto simp: quiet_def cpu_rest_def)
  then show ?thesis unfolding live_def sched_ok_def using placed_quiet [OF liveD(1) [OF l] q] liveD(2,3) [OF l] q by (simp add: quiet_def same_threads_def)
qed

lemma live_other: "live s Q Z \<Longrightarrow> threads s' = threads s \<Longrightarrow> nodes s' = nodes s \<Longrightarrow> cpus s' = cpus s \<Longrightarrow> last_cpu s' = last_cpu s \<Longrightarrow> live s' Q Z"
  using live_quiet [OF _ quiet_other] liveD(1) placedD(1) by blast

lemma TriggerPreempt_fields: "threads (TriggerPreempt this a s) = threads s" "nodes (TriggerPreempt this a s) = nodes s" "cpus (TriggerPreempt this a s) = cpus s"
  "last_cpu (TriggerPreempt this a s) = last_cpu s"
  by (simp_all add: TriggerPreempt_def Let_def split: option.splits)

lemma Resume_fields: "threads (Resume i s) = threads s" "nodes (Resume i s) = nodes s" "cpus (Resume i s) = cpus s" "last_cpu (Resume i s) = last_cpu s"
  by (simp_all add: Resume_def)

lemma Yield_fields: "threads (Yield i s) = threads s" "nodes (Yield i s) = nodes s" "cpus (Yield i s) = cpus s" "last_cpu (Yield i s) = last_cpu s"
  by (simp_all add: Yield_def)

section \<open>The interrupt\<close>

lemma switch_live:
  assumes l: "live s Q Z" and w: "switched i c n fs s Q Z s' Q' Z'" and c: "cpus s i = Some c"
  shows "live s' Q' Z'"
proof -
  note p = liveD(1) [OF l]
  have k: "sched_ok s' Q' Z'" "\<And>j. rel_option (\<lambda>d d'. current_thread d' = (if j = i then n else current_thread d) \<and> idle_thread d' = idle_thread d) (cpus s j) (cpus s' j)"
    "queued_set Q' = with_current s c (queued_set Q) - {n}" "n = idle_thread c \<or> n \<in> with_current s c (queued_set Q)"
    "zset Z' = zset Z - set fs \<union> (if dead s c then {current_thread c} else {})" "\<And>a. a \<notin> with_current s c (queued_set Q) \<Longrightarrow> t_state (threads s' a) = t_state (threads s a)"
    using w unfolding switched_def by blast+
  have cur: "KERNEL_BASE \<le> current_thread c" "current_thread c < U64" "idle_thread c < U64" "current_thread c \<notin> queued_set Q" "current_thread c \<notin> zset Z"
    using placedD(5) [OF p c] placedD(6) [OF p UNIV_I c] liveD(4) [OF l c] by auto
  have wc: "with_current s c (queued_set Q) \<subseteq> {KERNEL_BASE..<U64}" using liveD(2) [OF l] cur(1,2) by (auto simp: with_current_def)
  have zs: "zset Z' \<subseteq> {KERNEL_BASE..<U64}" using liveD(2) [OF l] cur(1,2) unfolding k(5) by auto
  have "t_state (threads s' a) = THREAD_ZOMBIE" if "a \<in> zset Z'" for a
  proof -
    have a: "a \<in> zset Z \<or> dead s c \<and> a = current_thread c" using that unfolding k(5) by (auto split: if_splits)
    then have "t_state (threads s a) = THREAD_ZOMBIE" using liveD(3) [OF l] by (auto simp: dead_def)
    moreover have "a \<notin> with_current s c (queued_set Q)" using a cur(4,5) placedD(3) [OF p] by (auto simp: with_current_def requeued_def dead_def)
    ultimately show ?thesis using k(6) by simp
  qed
  moreover have "n < U64" using k(4) wc cur(3) by auto
  then have "current_thread d' < U64 \<and> idle_thread d' < U64" if "cpus s' j = Some d'" for j d'
    using k(2) [of j] that liveD(4) [OF l, of j] by (cases "cpus s j") (auto split: if_splits)
  ultimately show ?thesis unfolding live_def using k(1) zs wc unfolding k(3) by blast
qed

lemma switch_masked:
  assumes c: "cpus s i = Some c" and pc: "preempt_count c > 1" and k: "idle_thread c \<noteq> 0" "current_thread c \<noteq> 0"
  shows "\<exists>q st. Switch i inp s = Some (Some q, s\<lparr>rip_stats := st\<rparr>)"
  using assms by (auto simp: Switch_def Let_def split: prod.splits)

lemma interrupt_live:
  assumes l: "live s Q Z" and sw: "Switch i inp s = Some (q, s')"
  shows "\<exists>Q' Z'. live s' Q' Z'"
proof (cases "cpus s i")
  case None
  then show ?thesis using l sw by (auto simp: Switch_def)
next
  case (Some c)
  show ?thesis
  proof (cases "preempt_count c > 1")
    case True
    have "idle_thread c \<noteq> 0" "current_thread c \<noteq> 0" using placedD(5) [OF liveD(1) [OF l] Some] by auto
    then obtain st where "s' = s\<lparr>rip_stats := st\<rparr>" using switch_masked [OF Some True, of inp] sw by auto
    then show ?thesis using live_other [OF l, of s'] by auto
  next
    case False
    then have pc: "preempt_count c \<le> 1" and ok: "sched_ok s Q Z" using l by (simp_all add: live_def)
    obtain n fs Q' Z' where "switched i c n fs s Q Z s' Q' Z'"
      using switch_spec [where inp = inp, OF ok Some pc live_rooms [OF l]] sw by auto
    then show ?thesis using switch_live [OF l _ Some] by blast
  qed
qed

section \<open>Waking and leaving\<close>

lemma state_placed:
  assumes p: "placed s Q Z P"
  shows "placed (set_thread a (\<lambda>t. t\<lparr>t_state := st\<rparr>) s) Q Z P"
proof -
  note ok = placedD(1) [OF p]
  have "smp_ok (set_thread a (\<lambda>t. t\<lparr>t_state := st\<rparr>) s) Q" using smp_okD(6) [OF ok, of a] by (intro smp_ok_set_thread [OF ok]) (simp_all add: same_queued_def thread_typed_def)
  then show ?thesis by (intro placed_mono [OF p]) (auto simp: same_id_def cpus_rest_def option.rel_refl set_thread_def)
qed

lemma state_live:
  assumes l: "live s Q Z" and a: "a \<notin> zset Z"
  shows "live (set_thread a (\<lambda>t. t\<lparr>t_state := st\<rparr>) s) Q Z"
proof -
  have "t_state (threads (set_thread a (\<lambda>t. t\<lparr>t_state := st\<rparr>) s) b) = THREAD_ZOMBIE" if "b \<in> zset Z" for b
    using that a liveD(3) [OF l that] by auto
  then show ?thesis unfolding live_def sched_ok_def using state_placed [OF liveD(1) [OF l]] liveD(2,4) [OF l] by simp
qed

text \<open>A thread that enters the queue of its processor.\<close>

lemma enter_live:
  assumes l: "live s Q Z" and d: "detached s a" and z: "a \<notin> zset Z" and c: "cpus s (cpu_num (threads s a)) = Some c"
  shows "\<exists>r Q'. InsertToQueue a (rq_of (cpu_num (threads s a)) s) = Some r \<and> live (put_rq (cpu_num (threads s a)) r s) Q' Z \<and> queued_set Q' = insert a (queued_set Q)
    \<and> a \<in> set (addrs (Q' (cpu_num (threads s a)))) \<and> (\<forall>b. t_state (threads (put_rq (cpu_num (threads s a)) r s) b) = t_state (threads s b))"
proof -
  let ?k = "cpu_num (threads s a)"
  note p = liveD(1) [OF l]
  note ok = placedD(1) [OF p]
  have a: "KERNEL_BASE \<le> a" "a < U64" "a \<noteq> 0" "\<And>j c. cpus s j = Some c \<Longrightarrow> idle_thread c \<noteq> a" "\<And>j c. cpus s j = Some c \<Longrightarrow> current_thread c \<noteq> a" using d by (auto simp: detached_def)
  show ?thesis
  proof (cases "a \<in> queued_set Q")
    case True
    then have "InsertToQueue a (rq_of ?k s) = Some (rq_of ?k s)" using smp_okD(4) [OF ok, of a] by (simp add: InsertToQueue_def rq_of_def)
    moreover have "put_rq ?k (rq_of ?k s) s = s" using put_rq_of [OF c] .
    moreover have "a \<in> set (addrs (Q ?k))"
    proof -
      obtain j where j: "a \<in> set (addrs (Q j))" using True by (auto simp: queued_set_def)
      then show ?thesis using smp_okD(5) [OF ok j] by simp
    qed
    ultimately show ?thesis using l True by (intro exI [of _ "rq_of ?k s"] exI [of _ Q]) (simp add: insert_absorb)
  next
    case False
    obtain T' h' c' t' where r: "InsertToQueue a (rq_of ?k s) = Some (T', h', c')" "smp_ok (put_rq ?k (T', h', c') s) (Q(?k := t'))"
      "addrs t' = at_key (thread_key T') a (addrs (Q ?k))" "only_min UNIV (entering c a (threads s)) T'" "cpu_rest c c'"
      using smp_insert [OF ok c a(3) False refl live_rooms(1) [OF l]] cpu_rest_enter by blast
    let ?s' = "put_rq ?k (T', h', c') s"
    note ef = entered_fields [OF r(4)]
    have qi: "set (addrs t') = insert a (set (addrs (Q ?k)))" using r(3) by simp
    have "queued_set Q = queued_set (Q(?k := Q ?k))" by simp
    then have qs: "queued_set (Q(?k := t')) = insert a (queued_set Q)" unfolding queued_set_upd qi by auto
    have cr: "cpus_rest s ?s'" using r(5) by (intro cpus_rest_upd [OF c, of _ c']) (simp_all add: put_rq_def)
    have th: "threads ?s' = T'" by (simp add: put_rq_def)
    have "placed ?s' (Q(?k := t')) Z UNIV" using ef th a z by (intro placed_grow [OF p r(2) cr _ _ qs]) auto
    moreover have "current_thread d < U64 \<and> idle_thread d < U64" if "cpus ?s' j = Some d" for j d
      using cpus_rest_back [OF cr that] liveD(4) [OF l, of j] by (auto simp: cpu_rest_def)
    ultimately have "live ?s' (Q(?k := t')) Z" unfolding live_def sched_ok_def qs using liveD(2,3) [OF l] a(1,2) ef(2) th by auto
    then show ?thesis using r(1) qs qi ef(2) th by (intro exI [of _ "(T', h', c')"] exI [of _ "Q(?k := t')"]) simp
  qed
qed

lemma wake_spec:
  assumes l: "live s Q Z" and d: "detached s a"
  shows "\<exists>s' Q'. wake_thread this a s = Some s' \<and> live s' Q' Z
    \<and> (if t_state (threads s a) = THREAD_BLOCKED \<and> cpu_num (threads s a) < 128 \<and> cpus s (cpu_num (threads s a)) \<noteq> None
       then queued_set Q' = insert a (queued_set Q) \<and> running (threads s') a \<and> a \<in> set (addrs (Q' (cpu_num (threads s a)))) else Q' = Q)"
proof -
  let ?k = "cpu_num (threads s a)"
  let ?s1 = "set_thread a (\<lambda>t. t\<lparr>t_state := THREAD_RUNNING\<rparr>) s"
  have a0: "a \<noteq> 0" using d by (auto simp: detached_def)
  show ?thesis
  proof (cases "t_state (threads s a) = THREAD_BLOCKED \<and> ?k < 128 \<and> cpus s ?k \<noteq> None")
    case False
    then have "\<exists>s'. wake_thread this a s = Some s' \<and> (s' = s \<or> s' = TriggerPreempt this a s)" by (auto simp: wake_thread_def Let_def split: option.splits)
    then obtain s' where s': "wake_thread this a s = Some s'" "s' = s \<or> s' = TriggerPreempt this a s" by blast
    then have "live s' Q Z" using l live_other [OF l, of s'] TriggerPreempt_fields [of this a s] by auto
    then show ?thesis using s'(1) False by auto
  next
    case True
    then obtain c where c: "cpus s ?k = Some c" by blast
    have z: "a \<notin> zset Z" using liveD(3) [OF l, of a] True by auto
    have k1: "cpu_num (threads ?s1 a) = ?k" "cpus ?s1 (cpu_num (threads ?s1 a)) = Some c" "detached ?s1 a" using c d by (simp_all add: detached_def)
    obtain r Q' where r: "InsertToQueue a (rq_of ?k ?s1) = Some r" "live (put_rq ?k r ?s1) Q' Z" "queued_set Q' = insert a (queued_set Q)" "a \<in> set (addrs (Q' ?k))"
      "\<forall>b. t_state (threads (put_rq ?k r ?s1) b) = t_state (threads ?s1 b)" using enter_live [OF state_live [OF l z] k1(3) z k1(2)] unfolding k1(1) by blast
    let ?s' = "TriggerPreempt this a (put_rq ?k r ?s1)"
    note tf = TriggerPreempt_fields [of this a "put_rq ?k r ?s1"]
    have "wake_thread this a s = Some ?s'" using True a0 c r(1) by (simp add: wake_thread_def Let_def)
    moreover have "live ?s' Q' Z" using live_other [OF r(2) tf] .
    moreover have "running (threads ?s') a" using r(5) tf(1) by simp
    ultimately show ?thesis using r(3,4) True by (intro exI [of _ ?s'] exI [of _ Q']) simp
  qed
qed

section \<open>The idle thread\<close>

lemma idle_spec:
  assumes l: "live s Q Z" and c: "cpus s i = Some c"
  shows "\<exists>s'. idle_reclaim i s = Some s' \<and> live s' Q (Z(i := [])) \<and> freed s' = freed s @ Z i"
proof -
  note p = liveD(1) [OF l]
  have ch: "zchain (threads s) (zombie_list c) (Z i)" "zombie_count c = length (Z i)" using zombiesD(1,2) [OF placedD(2) [OF p] c] .
  let ?s1 = "if zombie_list c \<noteq> 0 then set_cpu i (\<lambda>c. c\<lparr>zombie_list := 0, zombie_count := 0\<rparr>) s else s"
  let ?c1 = "c\<lparr>zombie_list := 0, zombie_count := length ([] :: nat list)\<rparr>"
  have "zombie_list c = 0 \<Longrightarrow> Z i = []" using ch(1) by (cases "Z i") auto
  then have s1: "threads ?s1 = threads s" "nodes ?s1 = nodes s" "cpus ?s1 = (cpus s)(i \<mapsto> ?c1)" "freed ?s1 = freed s"
    using c ch(2) by (auto simp: set_cpu_def fun_upd_idem)
  have p1: "placed ?s1 Q (Z(i := [])) UNIV" by (rule placed_zombie_upd [OF p c _ _ s1(1-3)]) simp_all
  have zc: "zchain (threads ?s1) (zombie_list c) (Z i)" using ch(1) s1(1) by simp
  have c1: "cpus ?s1 i = Some ?c1" using s1(3) by simp
  obtain s' where r: "reclaim_zombie_list i (zombie_list c) ?s1 = Some s'" "quiet ?s1 Q s' Q" "freed s' = freed ?s1 @ Z i" "threads s' = threads ?s1"
    using reclaim_quiet [OF placedD(1) [OF p1] zc c1] by blast
  have "zset (Z(i := [])) \<subseteq> zset Z" by (auto simp: zset_def split: if_splits)
  moreover have "current_thread d < U64 \<and> idle_thread d < U64" if "cpus ?s1 j = Some d" for j d
    using that s1(3) c liveD(4) [OF l, of j] by (cases "j = i") auto
  ultimately have "live ?s1 Q (Z(i := []))" unfolding live_def sched_ok_def using p1 liveD(2,3) [OF l] s1(1) by auto
  then have "live s' Q (Z(i := []))" using live_quiet r(2) by blast
  moreover have "idle_reclaim i s = Some s'" using r(1) c by (simp add: idle_reclaim_def Let_def)
  ultimately show ?thesis using r(3) s1(4) by auto
qed

section \<open>Every reachable state\<close>

lemma step_live: "sched_step s s' \<Longrightarrow> live s Q Z \<Longrightarrow> \<exists>Q' Z'. live s' Q' Z'"
proof (induction arbitrary: Q Z rule: sched_step.induct)
  case (interrupt i inp s q s')
  then show ?case using interrupt_live by blast
next
  case (request s i)
  then show ?case using live_other [OF _ Yield_fields] by blast
next
  case (trigger s this a)
  then show ?case using live_other [OF _ TriggerPreempt_fields] by blast
next
  case (leave s i c st)
  have "current_thread c \<notin> zset Z" using placedD(6) [OF liveD(1) [OF leave(2)] UNIV_I leave(1)] by blast
  then show ?case using state_live [OF leave(2)] by blast
next
  case (resume s i)
  then show ?case using live_other [OF _ Resume_fields] by blast
next
  case (idle s i c s')
  then show ?case using idle_spec [OF idle(4,1)] by auto
next
  case (wake s a this s')
  then show ?case using wake_spec [OF wake(3,1), of this] by auto
qed

interpretation sched_runs: step_invariant sched_step "\<lambda>s. \<exists>Q Z. live s Q Z"
  by unfold_locales (use step_live in blast)

end
