(* ===== verification/RB_Correct.thy ===== *)
theory RB_Correct
  imports RB_Clients
begin

text \<open>
  The properties of the red-black tree, stated over the trees the kernel keeps: the run
  queue of a processor, ordered by deadline and thread id, and the trees of the USB stack.
  \<open>keyed\<close> says that the pointers represent a red-black tree in key order, that the node count,
  the temperature counters and the search hint are those of its nodes.
\<close>

section \<open>Concrete trees\<close>

lemma keyed_init: "keyed key (h, rb_root_init) Lf"
  by (simp add: keyed_def rb_wf_init)

definition blank_node :: rb_node where
  "blank_node = \<lparr>n_parent = 0, n_left = 0, n_right = 0, n_color = RB_RED, n_flags = RB_FLAG_COLD, access_time = 0, access_count = 0\<rparr>"

definition blank_heap :: rb_heap where
  "blank_heap = (\<lambda>_. blank_node)"

definition two_threads :: "nat \<Rightarrow> thread_t" where
  "two_threads a = (new_thread 1024)\<lparr>t_id := a, deadline := 100 - a\<rparr>"

text \<open>A tree of two nodes, the second the red right child of the first.\<close>

definition pair_tree :: rtree where
  "pair_tree = Nd Lf RB_BLACK 3 (Nd Lf RB_RED 7 Lf)"

definition pair_rb :: rb where
  "pair_rb = (blank_heap(3 := blank_node\<lparr>n_color := RB_BLACK, n_right := 7\<rparr>, 7 := blank_node\<lparr>n_parent := 3\<rparr>),
              rb_root_init\<lparr>r_node := 3, r_cnt := 2, stat_cold := 2\<rparr>)"

lemma pair_keyed:
  assumes "key 3 \<le> key 7"
  shows "keyed key pair_rb pair_tree"
  using assms by (simp add: keyed_def rb_wf_def repr_def focus_def rb_inv_def stats_of_def pair_rb_def pair_tree_def
      blank_heap_def blank_node_def rb_root_init_def U64_def)

text \<open>A tree without left children has at most two nodes.\<close>

lemma no_left: "bounded (\<lambda>_ _. 0) lo hi t \<Longrightarrow> hi \<noteq> 0 \<Longrightarrow> t = Lf"
  by (cases t) auto

lemma spine_red: "bheight t = Some 0 \<Longrightarrow> \<not> red_root t \<Longrightarrow> t = Lf"
  by (cases t) (auto split: option.splits if_splits, metis rb_color.exhaust red_root.simps(2))

lemma right_spine_short:
  assumes "bounded (\<lambda>_ _. 0) lo 0 t" "0 \<notin> set (addrs t)" "rb_inv t"
  shows "length (addrs t) \<le> 2"
proof (cases t)
  case (Nd l c a r)
  have l: "l = Lf" using no_left [of lo a l] assms Nd by auto
  then have r: "bheight r = Some 0" "no_red_red r" using assms(3) Nd by (auto simp: rb_inv_def split: option.splits if_splits)
  show ?thesis
  proof (cases r)
    case (Nd l2 c2 a2 r2)
    then have "l2 = Lf" using no_left [of a a2 l2] assms \<open>t = Nd l c a r\<close> by auto
    moreover have "r2 = Lf" using r Nd by (intro spine_red) (auto split: option.splits if_splits, metis (full_types) rb_color.exhaust)
    ultimately show ?thesis using Nd l \<open>t = Nd l c a r\<close> by simp
  qed (simp add: l Nd)
qed simp

section \<open>Properties\<close>

text \<open>
  C12. Sessions: every sequence of insertions, removals, searches, pins, clock ticks and range
  removals on an empty run queue runs to completion when the callers keep their part
  (insert what is outside, erase and pin what is inside), leaves a red-black tree in order
  of deadline and id with exact counters, and its nodes are those of the same
  sequence on a sorted list.
\<close>

theorem run_queue_refines:
  assumes "rb_ops_pre (thread_key T) ops []"
  shows "\<exists>s t. rb_session (thread_rb_cmp T) ops (h, rb_root_init) = Some s \<and> keyed (thread_key T) s t
    \<and> addrs t = rb_ops_spec (thread_key T) ops []"
  using thread_order.rb_session_refines [OF keyed_init, of T ops h] assms by simp

theorem run_queue_refines_witness:
  "\<exists>s t. rb_session (thread_rb_cmp two_threads) [Insert 3, Insert 7, Search 3, Insert 5, Pin 7, Erase 7, Tick] (blank_heap, rb_root_init) = Some s
    \<and> keyed (thread_key two_threads) s t \<and> addrs t = [5, 3]"
  using run_queue_refines [of two_threads "[Insert 3, Insert 7, Search 3, Insert 5, Pin 7, Erase 7, Tick]" blank_heap]
  by (simp add: thread_key_def two_threads_def U64_def)

text \<open>
  C13. Insertion: a thread that is not queued enters the run queue behind every thread with
  an earlier or equal deadline and id and before all others; the red-black shape, the
  order and the counters are kept, the new node is cold and stamped with the tree clock,
  and no memory outside the queue and the new node changes.
\<close>

theorem rb_insert_run_queue:
  assumes "keyed (thread_key T) s t" and "node \<noteq> 0" and "node \<notin> set (addrs t)" and "length (addrs t) + 1 < U64"
  shows "\<exists>s' t'. rb_insert (thread_rb_cmp T) node s = Some s' \<and> keyed (thread_key T) s' t'
    \<and> addrs t' = takeWhile (\<lambda>a. thread_key T a \<le> thread_key T node) (addrs t) @ node # dropWhile (\<lambda>a. thread_key T a \<le> thread_key T node) (addrs t)
    \<and> (\<forall>a. a \<noteq> node \<longrightarrow> a \<notin> set (addrs t) \<longrightarrow> fst s' a = fst s a)
    \<and> fresh_data node (r_clock (snd s)) (fst s) (fst s')"
  using thread_order.rb_insert_keyed [OF assms] by blast

theorem rb_insert_run_queue_witness:
  "\<exists>s' t'. rb_insert (thread_rb_cmp (\<lambda>a. (new_thread 1024)\<lparr>deadline := a\<rparr>)) 5 pair_rb = Some s' \<and> addrs t' = [3, 5, 7]
    \<and> keyed (thread_key (\<lambda>a. (new_thread 1024)\<lparr>deadline := a\<rparr>)) s' t'"
proof -
  let ?T = "\<lambda>a. (new_thread 1024)\<lparr>deadline := a\<rparr>"
  have "keyed (thread_key ?T) pair_rb pair_tree" by (rule pair_keyed) (simp add: thread_key_def)
  from rb_insert_run_queue [OF this, of 5] show ?thesis by (auto simp: pair_tree_def thread_key_def U64_def)
qed

text \<open>
  C14. Removal: taking a queued thread out leaves exactly the others in their order, keeps the
  red-black shape and the counters, forgets a search hint that named it, resets its access
  data, and changes no memory outside the queue.
\<close>

theorem rb_erase_run_queue:
  assumes "keyed (thread_key T) s t" and "addrs t = xs @ node # ys"
  shows "\<exists>s' t'. rb_erase node s = Some s' \<and> keyed (thread_key T) s' t' \<and> addrs t' = xs @ ys \<and> r_hint (snd s') \<noteq> node
    \<and> (\<forall>a. a \<notin> set (addrs t) \<longrightarrow> fst s' a = fst s a) \<and> reset_data node (fst s) (fst s')"
proof -
  obtain s' t' where r: "rb_erase node s = Some s'" "keyed (thread_key T) s' t'" "addrs t' = xs @ ys"
    "\<forall>a. a \<notin> set (addrs t) \<longrightarrow> fst s' a = fst s a" "reset_data node (fst s) (fst s')"
    using thread_order.rb_erase_keyed [OF assms] by blast
  have "distinct (addrs t)" "0 \<notin> set (addrs t)" using assms(1) tree_at_nonzero by (auto simp: keyed_def rb_wf_def repr_def focus_def)
  then have "r_hint (snd s') \<noteq> node" using r(2,3) assms(2) by (auto simp: keyed_def rb_wf_def)
  then show ?thesis using r by blast
qed

theorem rb_erase_run_queue_witness:
  "\<exists>s' t'. rb_erase 3 pair_rb = Some s' \<and> keyed (thread_key (\<lambda>a. (new_thread 1024)\<lparr>deadline := a\<rparr>)) s' t' \<and> addrs t' = [7]"
proof -
  let ?T = "\<lambda>a. (new_thread 1024)\<lparr>deadline := a\<rparr>"
  have "keyed (thread_key ?T) pair_rb pair_tree" by (rule pair_keyed) (simp add: thread_key_def)
  from rb_erase_run_queue [OF this, of "[]" 3 "[7]"] show ?thesis by (auto simp: pair_tree_def)
qed

text \<open>
  Search: a lookup in the table of USB devices returns a device with the wanted key
  when there is one, with or without the hint, and null with an unchanged state when there
  is none; it keeps the tree and its counters either way.
\<close>

theorem rb_search_usb:
  assumes "keyed dkey s t" and "a \<noteq> 0"
  shows "\<exists>r s'. rb_search (usb_dev_cmp dkey) a s = Some (r, s') \<and> keyed dkey s' t
    \<and> (r \<in> set (addrs t) \<and> dkey r = dkey a \<or> r = 0 \<and> s' = s \<and> (\<forall>b\<in>set (addrs t). dkey b \<noteq> dkey a))"
  using usb_order.rb_search_keyed [OF assms] .

theorem rb_search_usb_witness:
  "\<exists>s'. rb_search (usb_dev_cmp (\<lambda>a. a mod 10)) 13 pair_rb = Some (3, s')"
  using rb_search_usb [OF pair_keyed [of "\<lambda>a. a mod 10"], of 13] by (auto simp: pair_tree_def)

text \<open>
  Iteration: first and last are the ends of the node list, or null on an empty tree, and
  the successor and the predecessor of a node are its neighbours in it, null at the ends; so
  the loops of the kernel that start at the first node and follow the successor see
  every node once, in order.
\<close>

theorem rb_walk:
  assumes "keyed key s t" and "addrs t = xs @ a # ys"
  shows "rb_first (fst s) (r_node (snd s)) = Some (head0 (addrs t)) \<and> rb_last (fst s) (r_node (snd s)) = Some (head0 (rev (addrs t)))
    \<and> rb_next (fst s) a = Some (head0 ys) \<and> rb_prev (fst s) a = Some (head0 (rev xs))"
proof -
  have f: "focus (fst s, r_node (snd s)) [] t" using assms(1) by (simp add: keyed_def rb_wf_focus)
  then have "tree_at (fst s) 0 t" "r_node (snd s) = rroot t" by (simp_all add: focus_def)
  then show ?thesis using rb_first_spec rb_last_spec rb_next_spec [OF f assms(2)] rb_prev_spec [OF f assms(2)] by metis
qed

theorem rb_walk_witness:
  "rb_first (fst pair_rb) 3 = Some 3 \<and> rb_next (fst pair_rb) 3 = Some 7 \<and> rb_prev (fst pair_rb) 3 = Some 0 \<and> rb_last (fst pair_rb) 3 = Some 7"
  using rb_walk [OF pair_keyed [of "\<lambda>a. a"], of "[]" 3 "[7]"] by (simp add: pair_tree_def pair_rb_def)

text \<open>
  Ranges: a snapshot of a half-open range of keys is its first \<open>m\<close> nodes in order, a null
  bound is no bound, and the removal of a range erases exactly its nodes, in order, and
  keeps the others.
\<close>

theorem rb_ranges:
  assumes "keyed trb s t"
  shows "rb_snapshot_range (pending_xfer_cmp trb) lo hi m s = Some (take m (filter (in_range trb lo hi) (addrs t)))
    \<and> (\<exists>s' t'. rb_erase_range (pending_xfer_cmp trb) lo hi s = Some (filter (in_range trb lo hi) (addrs t), s')
         \<and> keyed trb s' t' \<and> addrs t' = filter (\<lambda>a. \<not> in_range trb lo hi a) (addrs t))"
  using xfer_order.rb_snapshot_range_keyed [OF assms] xfer_order.rb_erase_range_keyed [OF assms] by blast

theorem rb_ranges_witness:
  "rb_snapshot_range (pending_xfer_cmp (\<lambda>a. a)) 4 0 10 pair_rb = Some [7]
    \<and> (\<exists>s'. rb_erase_range (pending_xfer_cmp (\<lambda>a. a)) 0 7 pair_rb = Some ([3], s'))"
  using rb_ranges [OF pair_keyed [of "\<lambda>a. a"], of 4 0 10] rb_ranges [OF pair_keyed [of "\<lambda>a. a"], of 0 7 10]
  by (auto simp: pair_tree_def in_range_def)

text \<open>
  Depth: with fewer than \<open>2 ^ k - 1\<close> nodes no path is longer than \<open>2 k - 1\<close> links, and
  the descent of a search, which follows one link per comparison, is bounded by it; so
  the depth limit of the validator, 4096, is out of reach for any tree that fits in a
  64-bit count.
\<close>

theorem rb_depth:
  assumes "keyed key s t" and "length (addrs t) + 1 < 2 ^ k"
  shows "height t < 2 * k \<and> height t < 130"
proof -
  have w: "rb_inv t" "length (addrs t) < U64" using assms(1) by (auto simp: keyed_def rb_wf_def)
  then show ?thesis using height_bound [OF w(1) assms(2)] height_bound [OF w(1), of 65] by (simp add: U64_def)
qed

theorem rb_depth_witness: "height pair_tree < 4"
  using rb_depth [OF pair_keyed [of "\<lambda>a. a"], of 2] by (simp add: pair_tree_def)

text \<open>
  C39. Validation: on a tree of distinct keys the validator answers yes; and whenever it
  answers yes on a represented tree of no more than 4096 levels, the tree is a red-black
  tree in key order.
\<close>

theorem rb_validate_correct:
  assumes "repr s t" and "height t \<le> 4096"
  shows "(keyed (thread_key T) s t \<and> distinct (map (thread_key T) (addrs t)) \<longrightarrow> rb_validate s (thread_rb_cmp T))
    \<and> (rb_validate s (thread_rb_cmp T) \<longrightarrow> rb_inv t \<and> sorted (map (thread_key T) (addrs t)))"
proof -
  have "0 \<notin> set (addrs t)" using assms(1) tree_at_nonzero by (auto simp: repr_def focus_def)
  then show ?thesis
    using thread_order.rb_validate_keyed(2) [of T s t] rb_validate_iff [OF assms, of "thread_rb_cmp T"]
      thread_order.bounded_sorted [of T 0 0 t] by blast
qed

theorem rb_validate_correct_witness:
  "rb_validate pair_rb (thread_rb_cmp (\<lambda>a. (new_thread 1024)\<lparr>t_id := a\<rparr>))"
proof -
  let ?T = "\<lambda>a. (new_thread 1024)\<lparr>t_id := a\<rparr>"
  have k: "keyed (thread_key ?T) pair_rb pair_tree" by (rule pair_keyed) (simp add: thread_key_def new_thread_def)
  then have "repr pair_rb pair_tree" by (simp add: keyed_def rb_wf_def)
  from rb_validate_correct [OF this, of ?T] k show ?thesis by (simp add: pair_tree_def thread_key_def)
qed

text \<open>
  C40. Equal keys: insertion accepts a node whose key is present and puts it behind the
  others, but after three equal keys a rotation has put one of them into the left subtree of
  another, and the validator, which wants left keys strictly below, rejects this valid tree.
\<close>

theorem rb_validate_rejects_equal_keys:
  "\<exists>s t. rb_session (usb_dev_cmp (\<lambda>_. 5)) [Insert 1, Insert 2, Insert 3] (blank_heap, rb_root_init) = Some s
    \<and> keyed (\<lambda>_. 5 :: nat) s t \<and> addrs t = [1, 2, 3] \<and> \<not> rb_validate s (usb_dev_cmp (\<lambda>_. 5))"
proof -
  obtain s t where s: "rb_session (usb_dev_cmp (\<lambda>_. 5)) [Insert 1, Insert 2, Insert 3] (blank_heap, rb_root_init) = Some s"
    "keyed (\<lambda>_. 5 :: nat) s t" "addrs t = [1, 2, 3]"
    using usb_order.rb_session_refines [OF keyed_init, of "\<lambda>_. 5" "[Insert 1, Insert 2, Insert 3]" blank_heap] by (auto simp: U64_def)
  have "rb_inv t" "0 \<notin> set (addrs t)" using s(2,3) by (simp_all add: keyed_def rb_wf_def)
  then have "\<not> bounded (usb_dev_cmp (\<lambda>_. 5)) 0 0 t" using right_spine_short [of 0 t] s(3) by (auto simp: usb_dev_cmp_def [abs_def])
  then show ?thesis using s usb_order.rb_validate_keyed(1) [OF s(2)] by blast
qed

end
