(* ===== verification/SQ_Correct.thy ===== *)
theory SQ_Correct
  imports SQ_Pick RB_Correct
begin

text \<open>
  The properties of the run queue, with the concrete queues their witnesses are evaluated on.
\<close>

section \<open>Concrete queues\<close>

text \<open>The queue of the tree \<open>pair_rb\<close>: thread 3 has the earlier deadline, thread 7 the smaller
  virtual time.\<close>

definition pair_threads :: "nat \<Rightarrow> thread_t" where
  "pair_threads a =
     (if a = 3 then (new_thread 1024)\<lparr>t_id := 3, deadline := 73, vruntime := 60, min_vruntime_subtree := 40, on_rq := True\<rparr>
      else if a = 7 then (new_thread 1024)\<lparr>t_id := 7, deadline := 77, vruntime := 40, min_vruntime_subtree := 40, on_rq := True\<rparr>
      else (new_thread 512)\<lparr>t_id := 5, deadline := 75, vruntime := 45\<rparr>)"

definition pair_cpu :: cpu_t where
  "pair_cpu = new_cpu\<lparr>avg_vruntime := 50, thread_count := 2, total_weight := 2048, has_surplus := True, has_runnable_thread := True,
     runqueue_root := snd pair_rb\<rparr>"

lemma pair_fields [simp]: "thread_typed (pair_threads a)" "cpu_typed pair_cpu" "on_rq (pair_threads a) \<longleftrightarrow> a = 3 \<or> a = 7"
  "t_state (pair_threads a) = THREAD_RUNNING" "avg_vruntime pair_cpu = 50" "runqueue_root pair_cpu = snd pair_rb"
  by (auto simp: pair_threads_def pair_cpu_def new_thread_def new_cpu_def thread_typed_def cpu_typed_def U64_def U32_def)

lemma pair_queued: "queued (pair_threads, fst pair_rb, pair_cpu) pair_tree"
proof -
  have "keyed (thread_key pair_threads) pair_rb pair_tree" by (rule pair_keyed) (simp add: thread_key_def pair_threads_def)
  then show ?thesis
    by (simp add: queued_counted) (simp add: counted_def pair_tree_def pair_threads_def pair_cpu_def new_thread_def U64_def)
qed

lemma pair_min_ok: "min_ok pair_threads pair_tree"
  by (simp add: pair_tree_def pair_threads_def)

text \<open>Thread 8 has the earlier deadline and is ahead of the clock, thread 16 is eligible.\<close>

definition late_early :: "nat \<Rightarrow> thread_t" where
  "late_early a = (if a = 8 then (new_thread 1024)\<lparr>t_id := 1, vruntime := 70, deadline := 75\<rparr>
                   else (new_thread 1024)\<lparr>t_id := 2, vruntime := 40, deadline := 80\<rparr>)"

definition clock_50 :: cpu_t where
  "clock_50 = new_cpu\<lparr>avg_vruntime := 50, base_quantum := 15\<rparr>"

definition late_first :: rq where
  "late_first = (late_early(8 := (late_early 8)\<lparr>min_vruntime_subtree := 70, on_rq := True\<rparr>),
     blank_heap(8 := blank_node\<lparr>n_color := RB_BLACK\<rparr>), enter_rq (rb_root_init\<lparr>r_node := 8, r_cnt := Suc 0, stat_cold := Suc 0\<rparr>) 1024 clock_50)"

lemma late_early_fields [simp]: "vruntime (late_early 8) = 70" "vruntime (late_early 16) = 40" "deadline (late_early 8) = 75" "deadline (late_early 16) = 80"
  "on_rq (late_early a) = False" "t_weight (late_early a) = 1024" "t_state (late_early a) = THREAD_RUNNING"
  "thread_typed (late_early a)"
  by (simp_all add: late_early_def new_thread_def thread_typed_def U64_def U32_def)

lemma clock_50_fields [simp]: "runqueue_root clock_50 = rb_root_init" "avg_vruntime clock_50 = 50" "base_quantum clock_50 = 15"
  "thread_count clock_50 = 0" "total_weight clock_50 = 0" "has_surplus clock_50 = False" "has_runnable_thread clock_50 = False"
  by (simp_all add: clock_50_def new_cpu_def)

lemma late_early_vlag [simp]: "vlag (late_early a) = 0" by (simp add: late_early_def new_thread_def)

lemma late_early_two: "late_early a = late_early 8 \<or> late_early a = late_early 16" by (simp add: late_early_def)

lemma late_early_placed: "avg_vruntime c = 50 \<Longrightarrow> base_quantum c = 15 \<Longrightarrow>
  calibrate_and_set_deadline c (late_early a) = (late_early a)\<lparr>min_vruntime_subtree := vruntime (late_early a)\<rparr>"
  using late_early_two [of a] by (elim disjE) (simp_all add: calibrate_and_set_deadline_def place_vruntime_def Let_def add64_def mul64_def sub64_def U64_def s64_def)

lemma blank_fields [simp]: "n_left blank_node = 0" "n_right blank_node = 0" "n_parent blank_node = 0"
  by (simp_all add: blank_node_def)

lemmas insert_eval = rb_insert_def rb_insert_raw_def rb_init_node_def set_parent_def set_right_def set_color_def Let_def rb_stat_inc_def add64_def U64_def
  blank_heap_def blank_node_def rb_root_init_def
  ins_loop.simps [of 8] ins_loop.simps [of 16]

lemma insert_late_first: "InsertToQueue 8 (late_early, blank_heap, clock_50) = Some late_first"
  by (simp add: InsertToQueue_def late_early_placed late_first_def ins_descend.simps [of _ _ _ _ _ 0] insert_eval update_min_vruntime_upward.simps [of _ 8] subtree_min_def)

lemma second_insert: "thread_rb_cmp T 16 8 > 0 \<Longrightarrow> rb_insert (thread_rb_cmp T) 16 (blank_heap(8 := blank_node\<lparr>n_color := RB_BLACK\<rparr>), rb_root_init\<lparr>r_node := 8, r_cnt := Suc 0, stat_cold := Suc 0\<rparr>) =
   Some (blank_heap(16 := blank_node\<lparr>n_parent := 8\<rparr>, 8 := blank_node\<lparr>n_color := RB_BLACK, n_right := 16\<rparr>), rb_root_init\<lparr>r_node := 8, r_cnt := 2, stat_cold := 2\<rparr>)"
  by (simp add: ins_descend.simps [of _ _ _ _ _ 8] ins_descend.simps [of _ _ _ _ _ 0] insert_eval)

lemma insert_early_second: "InsertToQueue 16 late_first = Some ((fst late_first)(16 := (late_early 16)\<lparr>min_vruntime_subtree := 40, on_rq := True\<rparr>),
     blank_heap(16 := blank_node\<lparr>n_parent := 8\<rparr>, 8 := blank_node\<lparr>n_color := RB_BLACK, n_right := 16\<rparr>),
     enter_rq (rb_root_init\<lparr>r_node := 8, r_cnt := 2, stat_cold := 2\<rparr>) 1024 (snd (snd late_first)))"
  by (simp add: InsertToQueue_def late_first_def late_early_placed second_insert thread_rb_cmp_def Let_def update_min_vruntime_upward.simps [of _ 16] subtree_min_def)

section \<open>Properties\<close>



text \<open>
  C21. Insertion and removal: a thread that is not queued enters behind every thread with an earlier or
  equal deadline and id, the invariant is kept, and removing it again leaves the queue in
  its former order with its former count, weight and flags, whatever the placement did to the
  thread's virtual time and however the tree was rebalanced.
\<close>

theorem queue_roundtrip:
  assumes "queued (T, h, c) t" and "a \<noteq> 0" and "\<not> on_rq (T a)" and "length (addrs t) + 1 < U64"
  shows "\<exists>s' t'. InsertToQueue a (T, h, c) = Some s' \<and> queued s' t' \<and> addrs t' = at_key (thread_key (fst s')) a (addrs t)
    \<and> (\<exists>T'' h'' c'' t''. RemoveFromQueue a s' = Some (T'', h'', c'') \<and> queued (T'', h'', c'') t'' \<and> addrs t'' = addrs t \<and> \<not> on_rq (T'' a)
         \<and> thread_count c'' = thread_count c \<and> total_weight c'' = total_weight c \<and> has_runnable_thread c'' = has_runnable_thread c \<and> has_surplus c'' = has_surplus c)"
proof -
  have n: "a \<notin> set (addrs t)" using assms(1,3) by (auto simp: queued_counted)
  obtain T' h' c' t' where i: "InsertToQueue a (T, h, c) = Some (T', h', c')" "queued (T', h', c') t'" "addrs t' = at_key (thread_key T') a (addrs t)"
    "only_min (set (addrs t')) (entering c a T) T'"
    using insert_spec [OF assms(1,2) n assms(3,4)] by blast
  obtain T'' h'' c'' t'' where r: "RemoveFromQueue a (T', h', c') = Some (T'', h'', c'')" "queued (T'', h'', c'') t''" "addrs t'' = addrs t"
    "only_min (set (addrs t)) (T'(a := (T' a)\<lparr>on_rq := False\<rparr>)) T''"
    using remove_spec [OF i(2) i(3) [unfolded at_key_def]] by (auto simp del: set_append)
  have w: "t_weight (T'' b) = t_weight (T b)" for b using only_min_fields(6) [OF i(4)] only_min_fields(6) [OF r(4)] by (simp add: entering_def)
  have "counted T (addrs t) c''" using r(2,3) weight_sum_cong [of "addrs t" T'' T, OF w] by (simp add: queued_counted counted_def)
  moreover have "\<not> on_rq (T'' a)" using only_min_fields(5) [OF r(4), of a] by simp
  moreover have "counted T (addrs t) c" using assms(1) by (simp add: queued_counted)
  ultimately show ?thesis using i(1-3) r(1-3)
    by (intro exI [of _ "(T', h', c')"] exI [of _ t'] conjI exI [of _ T''] exI [of _ h''] exI [of _ c''] exI [of _ t'']) (simp_all add: counted_def)
qed

theorem queue_roundtrip_witness:
  "\<exists>s' t'. InsertToQueue 5 (pair_threads, fst pair_rb, pair_cpu) = Some s' \<and> queued s' t' \<and> set (addrs t') = {3, 5, 7}
     \<and> (\<exists>T'' h'' c''. RemoveFromQueue 5 s' = Some (T'', h'', c'') \<and> thread_count c'' = 2 \<and> total_weight c'' = 2048)"
  using queue_roundtrip [OF pair_queued, of 5] by (fastforce simp: pair_tree_def U64_def pair_cpu_def)

text \<open>
  C22. Liveness of the choice: whatever the stored subtree minima are, the choice returns, it returns a
  queued thread in the running state whenever the queue holds one, takes exactly that thread out
  and keeps the invariant; it returns null, and changes nothing, only when no queued
  thread is running.
\<close>

theorem pick_live:
  assumes "queued (T, h, c) t"
  shows "if \<exists>a\<in>set (addrs t). running T a
    then \<exists>r xs ys s' t'. Pick (T, h, c) = Some (r, s') \<and> addrs t = xs @ r # ys \<and> running T r \<and> queued s' t' \<and> addrs t' = xs @ ys \<and> \<not> on_rq (fst s' r)
    else Pick (T, h, c) = Some (0, T, h, c)"
proof (cases "\<exists>a\<in>set (addrs t). running T a")
  case True
  then obtain r xs ys T' h' c' t' where p: "Pick (T, h, c) = Some (r, T', h', c')" "addrs t = xs @ r # ys" "running T r" "queued (T', h', c') t'" "addrs t' = xs @ ys"
    "only_min (set (xs @ ys)) (T(r := (T r)\<lparr>on_rq := False\<rparr>)) T'" using pick_spec [OF assms] by auto
  have "\<not> on_rq (T' r)" using only_min_fields(5) [OF p(6), of r] by simp
  then show ?thesis unfolding if_P [OF True] using p(1-5) by force
next
  case False
  then show ?thesis using pick_spec [OF assms] by simp
qed

theorem pick_live_witness: "\<exists>r s'. Pick (pair_threads, fst pair_rb, pair_cpu) = Some (r, s') \<and> r \<in> {3, 7} \<and> \<not> on_rq (fst s' r)"
proof -
  have "\<exists>a\<in>set (addrs pair_tree). running pair_threads a" by (auto simp: pair_tree_def)
  with pick_live [OF pair_queued] obtain r xs ys s' where p: "Pick (pair_threads, fst pair_rb, pair_cpu) = Some (r, s')"
    "addrs pair_tree = xs @ r # ys" "\<not> on_rq (fst s' r)" by auto
  have "r \<in> set (addrs pair_tree)" using p(2) by simp
  then show ?thesis using p by (auto simp: pair_tree_def)
qed

text \<open>
  C23. The choice of the algorithm: when every queued thread is running and the stored minima are those of the
  subtrees, the choice is the thread with the earliest deadline among those whose virtual time does
  not exceed the clock of the processor, and the thread with the earliest deadline of all when there is
  none.
\<close>

theorem pick_earliest_eligible:
  assumes "queued (T, h, c) t" and "addrs t \<noteq> []" and "min_ok T t" and "\<forall>a\<in>set (addrs t). running T a"
  shows "\<exists>s'. Pick (T, h, c) = Some (let e = filter (\<lambda>a. vruntime (T a) \<le> avg_vruntime c) (addrs t) in if e = [] then hd (addrs t) else hd e, s')"
proof -
  have ne: "t \<noteq> Lf" using assms(2) by auto
  have "\<exists>a\<in>set (addrs t). running T a" using assms(2,4) by (cases "addrs t") auto
  then obtain r s' where p: "Pick (T, h, c) = Some (r, s')" "r \<in> set (addrs t)" using pick_spec [OF assms(1)] by auto
  have "0 \<notin> set (addrs t)" using assms(1) keyed_facts(3) by (auto simp: queued_counted)
  then have "r \<noteq> 0" using p(2) by (cases "r = 0") auto
  then have "pick_best (T, h, c) = Some r" using p(1) by (auto simp: Pick_def split: if_splits option.splits)
  then have "r = (let e = filter (\<lambda>a. vruntime (T a) \<le> avg_vruntime c) (addrs t) in if e = [] then hd (addrs t) else hd e)"
    using pick_best_exact [OF assms(1) ne assms(3,4)] by simp
  then show ?thesis using p(1) by blast
qed

theorem pick_earliest_eligible_witness: "\<exists>s'. Pick (pair_threads, fst pair_rb, pair_cpu) = Some (7, s')"
  using pick_earliest_eligible [OF pair_queued _ pair_min_ok] by (simp add: pair_tree_def Let_def) (simp add: pair_threads_def)

text \<open>
  C25. The minima are not kept: a thread with an earlier virtual time that is inserted below another one does not
  lower the minimum stored there, because the walk that repairs the minima starts at the new
  leaf, whose own minimum is already right, and stops at once. Two insertions into an empty
  queue are enough: the next choice takes the thread that is ahead of the clock and passes over
  the eligible one.
\<close>

theorem pick_misses_eligible:
  "\<exists>s1 s2 s3. InsertToQueue 8 (late_early, blank_heap, clock_50) = Some s1 \<and> InsertToQueue 16 s1 = Some s2 \<and> Pick s2 = Some (8, s3)
     \<and> vruntime (fst s2 8) > avg_vruntime (snd (snd s2)) \<and> vruntime (fst s2 16) \<le> avg_vruntime (snd (snd s2))
     \<and> on_rq (fst s2 16) \<and> running (fst s2) 16"
proof -
  have q: "queued (late_early, blank_heap, clock_50) Lf"
    by (simp add: queued_counted counted_def cpu_typed_def clock_50_def new_cpu_def U64_def keyed_def rb_wf_init)
  obtain t1 where q1: "queued late_first t1" "addrs t1 = [8]"
    using insert_spec [OF q, of 8] insert_late_first by (auto simp: at_key_def U64_def)
  obtain T2 h2 c2 where s2: "InsertToQueue 16 late_first = Some (T2, h2, c2)"
    "T2 = (fst late_first)(16 := (late_early 16)\<lparr>min_vruntime_subtree := 40, on_rq := True\<rparr>)"
    "h2 = blank_heap(16 := blank_node\<lparr>n_parent := 8\<rparr>, 8 := blank_node\<lparr>n_color := RB_BLACK, n_right := 16\<rparr>)"
    "c2 = enter_rq (rb_root_init\<lparr>r_node := 8, r_cnt := 2, stat_cold := 2\<rparr>) 1024 (snd (snd late_first))"
    using insert_early_second by blast
  have f2: "vruntime (T2 8) = 70" "vruntime (T2 16) = 40" "min_vruntime_subtree (T2 8) = 70" "on_rq (T2 8)" "on_rq (T2 16)" "running T2 8" "running T2 16"
    "avg_vruntime c2 = 50" "r_node (runqueue_root c2) = 8" "n_left (h2 8) = 0" "n_right (h2 8) = 16"
    using s2(2-4) by (simp_all add: late_first_def)
  obtain t2 where q2: "queued (T2, h2, c2) t2" "addrs t2 = at_key (thread_key T2) 16 (addrs t1)"
    using insert_spec [of "fst late_first" "fst (snd late_first)" "snd (snd late_first)" t1 16] q1 s2(1) by (auto simp: late_first_def U64_def)
  have in2: "8 \<in> set (addrs t2)" using q2(2) q1(2) by simp
  have k2: "keyed (thread_key T2) (h2, runqueue_root c2) t2" using q2(1) by (simp add: queued_counted)
  have "pick_best (T2, h2, c2) = first_runnable T2 h2 8" using f2 by (simp add: pick_best_def Let_def)
  moreover have "rb_first h2 8 = Some 8" using f2 by (simp add: rb_first_def leftmost.simps [of h2 8])
  moreover have "runnable_from T2 h2 8 = Some 8"
  proof -
    have "\<exists>nx. rb_next h2 8 = Some nx" using rb_next_spec [OF keyed_facts(1) [OF k2]] in2 by (metis split_list)
    then show ?thesis using f2 by (subst runnable_from.simps) auto
  qed
  ultimately have "pick_best (T2, h2, c2) = Some 8" by (simp add: first_runnable_def)
  moreover have "\<exists>s. RemoveFromQueue 8 (T2, h2, c2) = Some s" using remove_spec [OF q2(1)] in2 by (metis split_list)
  ultimately have "\<exists>s3. Pick (T2, h2, c2) = Some (8, s3)" using f2 by (auto simp: Pick_def)
  then show ?thesis using insert_late_first s2(1) f2 by auto
qed

end
