(* ===== verification/SMP_Correct.thy ===== *)
theory SMP_Correct
  imports SMP_Push SQ_Correct
begin

text \<open>
  The properties of load balancing: pulling, pushing and the choice of the least loaded processor.
\<close>

section \<open>Finding work\<close>

text \<open>Processor \<open>v\<close> has two threads to give or more, and none of them is bound to it.\<close>

definition stealable :: "smp \<Rightarrow> (nat \<Rightarrow> rtree) \<Rightarrow> nat \<Rightarrow> bool" where
  "stealable s Q v \<longleftrightarrow> cpus s v \<noteq> None \<and> 2 \<le> card (set (addrs (Q v))) \<and> (\<forall>a\<in>set (addrs (Q v)). may_move s v a)"

lemma stealable_counted:
  assumes ok: "smp_ok s Q" and w: "stealable s Q v" and c: "cpus s v = Some c"
  shows "thread_count c > 1" "has_surplus c"
proof -
  have "counted (threads s) (addrs (Q v)) c" using smp_okD(2) [OF ok c] by (simp add: queued_counted)
  moreover have "2 \<le> length (addrs (Q v))" using w queued_length(3) [OF ok, of v] by (simp add: stealable_def)
  ultimately show "thread_count c > 1" "has_surplus c" by (simp_all add: counted_def)
qed

lemma stealable_quiet:
  assumes q: "quiet s Q s' Q'" and w: "stealable s Q v"
  shows "stealable s' Q' v"
proof -
  obtain c where c: "cpus s v = Some c" using w by (auto simp: stealable_def)
  have r: "rel_option cpu_rest (cpus s v) (cpus s' v)" using q by (simp add: quiet_def cpus_rest_def)
  then obtain c' where c': "cpus s' v = Some c'" "cpu_rest c c'" using c by (cases "cpus s' v") auto
  have "may_move s' v a = may_move s v a" for a using q c c' by (simp add: quiet_def same_threads_def may_move_def movable_def same_id_def cpu_rest_def)
  then show ?thesis using w q c' by (simp add: stealable_def quiet_def)
qed

lemma steal_batch_nonempty:
  assumes ok: "smp_ok s Q" and w: "stealable s Q v"
  shows "\<exists>batch s'. steal_batch v s = Some (batch, s') \<and> batch \<noteq> []"
proof -
  obtain c where c: "cpus s v = Some c" using w by (auto simp: stealable_def)
  note n = stealable_counted [OF ok w c]
  have "addrs (Q v) \<noteq> []" using w by (auto simp: stealable_def)
  then obtain xs x where a: "addrs (Q v) = xs @ [x]" by (meson rev_exhaust)
  have mv: "movable (current_thread c) (idle_thread c) (threads s x) x" using w a c by (simp add: stealable_def may_move_def)
  have x0: "x \<noteq> 0" using queued_length(2) [OF ok, of v] a by (cases "x = 0") auto
  have a': "addrs (Q v) = xs @ x # []" using a by simp
  have pr: "rb_prev (nodes s) x = Some (head0 (rev xs))" using rb_prev_spec [OF smp_focus(1) [OF ok c] a'] .
  obtain T1 h1 c1 t1 where r: "RemoveFromQueue x (rq_of v s) = Some (T1, h1, c1)" "smp_ok (put_rq v (T1, h1, c1) s) (Q(v := t1))" "addrs t1 = xs @ []"
    using smp_remove [OF ok c a'] by blast
  let ?s1 = "put_rq v (T1, h1, c1) s"
  have p: "cpus ?s1 v = Some c1" "addrs ((Q(v := t1)) v) = xs @ []" "length [x] \<le> SCHED_STEAL_BATCH" using r(3) by simp_all
  have "steal_loop (current_thread c) (idle_thread c) x [] (rq_of v s) = steal_loop (current_thread c) (idle_thread c) (head0 (rev xs)) [x] (rq_of v ?s1)"
    using n mv c x0 pr r(1) by (subst steal_loop.simps) (auto simp: movable_def rq_of_def)
  then obtain out r' where st: "steal_loop (current_thread c) (idle_thread c) x [] (rq_of v s) = Some ([x] @ out, r')"
    using steal_loop_spec [OF r(2) p, of "current_thread c" "idle_thread c"] by auto
  have "rb_last (nodes s) (r_node (runqueue_root c)) = Some (head0 (rev (addrs (Q v))))"
    using rb_last_spec [OF smp_focus(2) [OF ok c]] smp_focus(3) [OF ok c] by simp
  then show ?thesis using st a c by (simp add: steal_batch_def)
qed

lemma steal_scan_finds:
  "smp_ok s Q \<Longrightarrow> cpus s i = Some c \<Longrightarrow> stealable s Q v \<Longrightarrow> v \<noteq> i \<Longrightarrow> lock 1 v \<Longrightarrow> (1, v) \<in> set vs \<Longrightarrow> steal_scan lock i vs s = Some (r, s') \<Longrightarrow> r \<noteq> 0"
proof (induction vs arbitrary: s Q c)
  case (Cons pv vs)
  obtain pass u where pv: "pv = (pass, u)" by (cases pv)
  let ?f = "\<lambda>c. c\<lparr>steal_attempts := add64 (steal_attempts c) 1\<rparr>"
  let ?s1 = "set_cpu i ?f s"
  have q1: "quiet s Q ?s1 Q" using smp_cpu_typed [OF Cons.prems(1,2)]
    by (intro set_cpu_quiet [OF Cons.prems(1,2)]) (auto simp: same_queue_def cpu_typed_def cpu_rest_def)
  have c1: "cpus ?s1 i = Some (?f c)" using Cons.prems(2) by (simp add: set_cpu_def)
  have ok1: "smp_ok ?s1 Q" using q1 by (simp add: quiet_def)
  obtain cv where cv: "cpus s v = Some cv" using Cons.prems(3) by (auto simp: stealable_def)
  show ?case
  proof (cases "pv = (1, v)")
    case True
    note n = stealable_counted [OF Cons.prems(1,3) cv]
    have w1: "stealable ?s1 Q v" using stealable_quiet [OF q1 Cons.prems(3)] .
    obtain batch s2 where b: "steal_batch v ?s1 = Some (batch, s2)" "batch \<noteq> []" using steal_batch_nonempty [OF ok1 w1] by blast
    have "cpus ?s1 v = Some cv" using cv Cons.prems(4) by (simp add: set_cpu_def split: option.splits)
    then obtain r' s3 Q' where p: "receive_batch i batch s2 = Some (r', s3)" "pulled i r' ?s1 Q s3 Q'" using pull_spec [OF ok1 c1 _ Cons.prems(4) b(1)] b(2) by auto
    have "steal_scan lock i (pv # vs) s = receive_batch i batch s2" using True cv n b Cons.prems(4,5) by (auto simp: Let_def)
    then show ?thesis using p(1) Cons.prems(7) pulled_nonzero [OF ok1 p(2)] by auto
  next
    case False
    then have m: "(1, v) \<in> set vs" using Cons.prems(6) by auto
    note go = Cons.IH [OF Cons.prems(1-5) m] and go1 = Cons.IH [OF ok1 c1 stealable_quiet [OF q1 Cons.prems(3)] Cons.prems(4,5) m]
    show ?thesis
    proof (cases "cpus s u")
      case None
      then show ?thesis using go Cons.prems(7) pv by simp
    next
      case (Some cu)
      show ?thesis
      proof (cases "u = i \<or> (pass = 0 \<and> simd_mask cu \<noteq> simd_mask (the (cpus s i))) \<or> \<not> has_surplus cu")
        case True
        then show ?thesis using go Cons.prems(7) pv Some by simp
      next
        case out: False
        show ?thesis
        proof (cases "\<not> lock pass u \<or> thread_count cu \<le> 1")
          case True
          then show ?thesis using go1 Cons.prems(7) pv Some out by (auto simp: Let_def)
        next
          case False
          have cu: "cpus ?s1 u = Some cu" "u \<noteq> i" using Some out by (simp_all add: set_cpu_def split: option.splits)
          obtain batch s2 where b: "steal_batch u ?s1 = Some (batch, s2)" using steal_batch_spec [OF ok1 cu(1)] by blast
          have step: "steal_scan lock i (pv # vs) s = (if batch = [] then steal_scan lock i vs s2 else receive_batch i batch s2)"
            using False b pv Some out by (auto simp: Let_def)
          note ps = pull_spec [OF ok1 c1 cu(1,2) b]
          show ?thesis
          proof (cases "batch = []")
            case True
            then obtain Q2 where q2: "quiet ?s1 Q s2 Q2" using ps by auto
            obtain c2 where c2: "cpus s2 i = Some c2" using quiet_cpu [OF q2 c1] by blast
            have "smp_ok s2 Q2" using q2 by (simp add: quiet_def)
            then show ?thesis using Cons.IH [OF _ c2 stealable_quiet [OF q2 stealable_quiet [OF q1 Cons.prems(3)]] Cons.prems(4,5) m] Cons.prems(7) step True by simp
          next
            case False
            then obtain r' s3 Q' where p: "receive_batch i batch s2 = Some (r', s3)" "pulled i r' ?s1 Q s3 Q'" using ps by auto
            then show ?thesis using pulled_nonzero [OF ok1 p(2)] Cons.prems(7) step False by auto
          qed
        qed
      qed
    qed
  qed
qed simp

lemma steal_nonzero:
  assumes ok: "smp_ok s Q" "cpus s i = Some c" and throttle: "steal_skip s i = 7"
    and v: "v \<le> last_cpu s" "v \<noteq> i" "lock 1 v" "stealable s Q v"
  shows "\<exists>r s' Q'. StealThread lock pid now i s = Some (r, s') \<and> pulled i r s Q s' Q' \<and> r \<noteq> 0"
proof -
  obtain r s' Q' where r: "StealThread lock pid now i s = Some (r, s')" "if r = 0 then quiet s Q s' Q' else pulled i r s Q s' Q'"
    using steal_spec [OF ok, of lock pid now] unfolding steal_result_def by blast
  let ?s1 = "s\<lparr>steal_skip := (steal_skip s)(i := 0), steal_cursor := (steal_cursor s)(i := add32 (steal_cursor s i) 1)\<rparr>"
  let ?n = "last_cpu s + 1"
  define b where "b = add64 (add64 pid now) (steal_cursor s i) mod ?n"
  let ?l = "[(pass, (b + k) mod ?n). pass \<leftarrow> [0, 1], k \<leftarrow> [0..<?n]]"
  have ok1: "smp_ok ?s1 Q" "cpus ?s1 i = Some c" using ok smp_ok_other [OF ok(1), of ?s1] by simp_all
  have w: "stealable ?s1 Q v" using v(4) by (simp add: stealable_def may_move_def)
  have "\<exists>k<?n. (b + k) mod ?n = v"
  proof -
    have "b < ?n" by (simp add: b_def)
    then have "(b + (v + ?n - b) mod ?n) mod ?n = (b + (v + ?n - b)) mod ?n" by (simp add: mod_add_right_eq)
    also have "\<dots> = (v + ?n) mod ?n" using \<open>b < ?n\<close> by simp
    also have "\<dots> = v" using v(1) by (simp only: mod_add_self2) simp
    finally show ?thesis by (intro exI [of _ "(v + ?n - b) mod ?n"]) simp
  qed
  then obtain k where "k < ?n" "(b + k) mod ?n = v" by blast
  then have m: "(1, v) \<in> set ?l" by (auto simp: image_iff simp del: upt_Suc intro!: bexI [of _ k])
  have "StealThread lock pid now i s = steal_scan lock i ?l ?s1"
    using throttle unfolding StealThread_def b_def by (simp add: Let_def add32_def U32_def del: upt_Suc)
  then have "r \<noteq> 0" using steal_scan_finds [where vs = ?l and lock = lock, OF ok1 w v(2,3) m] r(1) by metis
  then show ?thesis using r by auto
qed

section \<open>A machine of two processors\<close>

text \<open>Processor 0 runs thread 20 and has threads 3 and 7 queued, bound to it when \<open>b\<close> holds; processor 1 is idle.\<close>

definition new_dyn :: dyn_adjust_ctx where
  "new_dyn = \<lparr>last_tsc = 0, last_ctx_sw = 0, idle_tsc = 0, total_tsc = 0, last_adjust_ms = 0\<rparr>"

definition duo :: "bool \<Rightarrow> smp" where
  "duo b = \<lparr>threads = (\<lambda>a. (pair_threads a)\<lparr>pinned := b\<rparr>), nodes = fst pair_rb,
     cpus = [0 \<mapsto> pair_cpu\<lparr>current_thread := 20, idle_thread := 10\<rparr>, 1 \<mapsto> new_cpu\<lparr>c_id := 1, current_thread := 11, idle_thread := 11\<rparr>],
     last_cpu = 1, steal_skip = (\<lambda>_. 7), steal_cursor = (\<lambda>_. 0), need_resched_flags = (\<lambda>_. False), yield_request_flags = (\<lambda>_. False),
     dyn_ctx = (\<lambda>_. new_dyn), rip_stats = (\<lambda>_. new_stats), rip_fast_weight = (\<lambda>_. 0), tsc_per_ms = 0, ipis = [], freed = []\<rparr>"

definition duo_queues :: "nat \<Rightarrow> rtree" where
  "duo_queues = (\<lambda>_. Lf)(0 := pair_tree)"

lemma duo_queued_set [simp]: "queued_set duo_queues = {3, 7}"
  by (auto simp: queued_set_def duo_queues_def pair_tree_def split: if_splits)

lemma duo_fields [simp]: "threads (duo b) a = (pair_threads a)\<lparr>pinned := b\<rparr>" "last_cpu (duo b) = 1" "steal_skip (duo b) i = 7"
  "cpus (duo b) 0 = Some (pair_cpu\<lparr>current_thread := 20, idle_thread := 10\<rparr>)" "cpus (duo b) (Suc 0) = Some (new_cpu\<lparr>c_id := 1, current_thread := 11, idle_thread := 11\<rparr>)"
  "cpus (duo b) i = None \<longleftrightarrow> 1 < i" "addrs (duo_queues 0) = [3, 7]" "0 < i \<Longrightarrow> duo_queues i = Lf" "cpu_num (pair_threads a) = 0" "timer_bucket (pair_threads a) = None"
  by (auto simp: duo_def duo_queues_def pair_tree_def pair_threads_def new_thread_def)

lemma empty_queued: "(\<forall>a. thread_typed (T a)) \<Longrightarrow> cpu_typed c \<Longrightarrow> runqueue_root c = rb_root_init \<Longrightarrow> thread_count c = 0 \<Longrightarrow> total_weight c = 0 \<Longrightarrow>
  \<not> has_runnable_thread c \<Longrightarrow> \<not> has_surplus c \<Longrightarrow> queued (T, h, c) Lf"
  by (simp add: queued_counted counted_def keyed_def rb_wf_def repr_def focus_def rb_inv_def stats_of_def rb_root_init_def U64_def)

lemma duo_ok: "smp_ok (duo b) duo_queues"
proof -
  have k: "keyed (thread_key (\<lambda>a. (pair_threads a)\<lparr>pinned := b\<rparr>)) pair_rb pair_tree" by (rule pair_keyed) (simp add: thread_key_def pair_threads_def)
  have t: "thread_typed ((pair_threads a)\<lparr>pinned := b\<rparr>)" for a using pair_fields(1) [of a] by (simp add: thread_typed_def)
  have q0: "queued (threads (duo b), nodes (duo b), pair_cpu\<lparr>current_thread := 20, idle_thread := 10\<rparr>) pair_tree"
    using k t pair_queued by (simp add: queued_counted duo_def cpu_typed_def counted_def pair_tree_def pair_threads_def)
  have q1: "queued (threads (duo b), nodes (duo b), new_cpu\<lparr>c_id := 1, current_thread := 11, idle_thread := 11\<rparr>) Lf"
    using t by (intro empty_queued) (simp_all add: new_cpu_def cpu_typed_def U64_def)
  have "c_id c = i \<and> queued (threads (duo b), nodes (duo b), c) (duo_queues i)" if "cpus (duo b) i = Some c" for i c
  proof -
    consider "i = 0" | "i = 1" | "1 < i" by linarith
    then show ?thesis
    proof cases
      case 1
      then show ?thesis using that q0 by (auto simp: duo_queues_def pair_cpu_def new_cpu_def)
    next
      case 2
      then show ?thesis using that q1 by (auto simp: new_cpu_def)
    next
      case 3
      then show ?thesis using that duo_fields(6) [of b i] by simp
    qed
  qed
  moreover have "set (addrs (duo_queues i)) \<inter> set (addrs (duo_queues j)) = {}" if "i \<noteq> j" for i j using that by (cases "i = 0"; cases "j = 0") simp_all
  moreover have "cpu_num (threads (duo b) a) = i" if "a \<in> set (addrs (duo_queues i))" for a i using that by (cases "i = 0") simp_all
  ultimately show ?thesis unfolding smp_ok_def using t by (simp add: U64_def)
qed

section \<open>Properties\<close>

text \<open>
  C15. Pulling threads to a processor always returns. Either it returns null and every queue holds the threads it
  held, or it takes up to eight threads from one other queue, returns one runnable thread that is then in no
  queue and belongs to the pulling processor, and leaves every other thread in exactly one queue; the threads
  taken were running, were not the current or idle thread of their processor and had no timer pending.
\<close>
theorem steal_conserves:
  assumes "smp_ok s Q" "cpus s i = Some c"
  shows "\<exists>r s' Q'. StealThread lock pid now i s = Some (r, s') \<and> smp_ok s' Q'
    \<and> (if r = 0 then \<forall>j. set (addrs (Q' j)) = set (addrs (Q j))
       else running (threads s') r \<and> cpu_num (threads s' r) = i \<and> r \<notin> queued_set Q' \<and> insert r (queued_set Q') = queued_set Q
         \<and> (\<exists>v B. v \<noteq> i \<and> B \<subseteq> set (addrs (Q v)) \<and> B \<noteq> {} \<and> card B \<le> 8 \<and> r \<in> set (addrs (Q i)) \<union> B
              \<and> set (addrs (Q' v)) = set (addrs (Q v)) - B \<and> set (addrs (Q' i)) = set (addrs (Q i)) \<union> B - {r}
              \<and> (\<forall>a\<in>B. movable (current_thread (the (cpus s v))) (idle_thread (the (cpus s v))) (threads s a) a)))"
proof -
  obtain r s' Q' where r: "StealThread lock pid now i s = Some (r, s')" "if r = 0 then quiet s Q s' Q' else pulled i r s Q s' Q'"
    using steal_spec [OF assms, of lock pid now] unfolding steal_result_def by blast
  show ?thesis
  proof (cases "r = 0")
    case True
    then show ?thesis using r by (auto simp: quiet_def)
  next
    case False
    then have p: "pulled i r s Q s' Q'" using r(2) by simp
    then obtain v B where m: "moved i r v B Q Q'" "\<forall>a\<in>B. may_move s v a" unfolding pulled_def by blast
    have "smp_ok s' Q'" "running (threads s') r" "cpu_num (threads s' r) = i" using p unfolding pulled_def by blast+
    moreover note pulled_set [OF assms(1) p]
    ultimately show ?thesis using r(1) m False unfolding moved_def may_move_def
      by (intro exI [of _ r] exI [of _ s'] exI [of _ Q']) (simp add: insert_absorb, blast)
  qed
qed

theorem steal_conserves_witness:
  "\<exists>r s' Q'. StealThread (\<lambda>_ _. True) 0 0 1 (duo False) = Some (r, s') \<and> smp_ok s' Q' \<and> (r = 0 \<or> r \<in> {3, 7} \<and> insert r (queued_set Q') = {3, 7})"
proof -
  obtain r s' Q' where r: "StealThread (\<lambda>_ _. True) 0 0 1 (duo False) = Some (r, s')" "smp_ok s' Q'" "r \<noteq> 0 \<Longrightarrow> insert r (queued_set Q') = queued_set duo_queues"
    using steal_conserves [OF duo_ok, of False 1 _ "\<lambda>_ _. True" 0 0] by (auto split: if_splits)
  have "r = 0 \<or> r \<in> {3, 7} \<and> insert r (queued_set Q') = {3, 7}" using r(3) by auto
  then show ?thesis using r(1,2) by blast
qed



text \<open>
  C37. A thread marked as bound to its processor is pulled to another one all the same: with two bound threads
  queued on processor 0, an idle processor 1 takes one of them and owns it afterwards.
\<close>
theorem steal_migrates_pinned:
  "\<exists>r s'. StealThread (\<lambda>_ _. True) 0 0 1 (duo True) = Some (r, s') \<and> pinned (threads (duo True) r) \<and> cpu_num (threads (duo True) r) = 0
    \<and> r \<in> {3, 7} \<and> pinned (threads s' r) \<and> cpu_num (threads s' r) = 1"
proof -
  have w: "stealable (duo True) duo_queues 0" by (simp add: stealable_def may_move_def movable_def)
  obtain r s' Q' where r: "StealThread (\<lambda>_ _. True) 0 0 1 (duo True) = Some (r, s')" and p: "pulled 1 r (duo True) duo_queues s' Q'"
    using steal_nonzero [where lock = "\<lambda>_ _. True" and v = 0 and i = 1 and pid = 0 and now = 0, OF duo_ok [of True]] w by auto
  have "r \<in> {3, 7}" "cpu_num (threads s' r) = 1" "same_id (threads (duo True) r) (threads s' r)"
    using pulled_set(1) [OF duo_ok p] p by (auto simp: pulled_def same_threads_def)
  then show ?thesis using r by (auto simp: same_id_def)
qed

text \<open>
  C16. Pushing always returns and loses no thread: up to eight threads leave the queue of the processor for the
  queue of one other processor, all other queues are unchanged, and the threads moved were not bound, had no timer
  pending and were neither the current nor the idle thread.
\<close>
theorem try_push_conserves:
  assumes "smp_ok s Q" "cpus s i = Some c"
  shows "\<exists>k B s' Q'. TryPush second_lock i s = Some s' \<and> smp_ok s' Q' \<and> k \<noteq> i \<and> B \<subseteq> set (addrs (Q i)) \<and> card B \<le> 8
    \<and> set (addrs (Q' i)) = set (addrs (Q i)) - B \<and> set (addrs (Q' k)) = set (addrs (Q k)) \<union> B \<and> (\<forall>j. j \<noteq> i \<longrightarrow> j \<noteq> k \<longrightarrow> Q' j = Q j)
    \<and> (\<forall>a\<in>B. cpu_num (threads s' a) = k \<and> \<not> pinned (threads s a) \<and> timer_bucket (threads s a) = None \<and> a \<noteq> current_thread c \<and> a \<noteq> idle_thread c)"
proof -
  obtain k B s' Q' where r: "TryPush second_lock i s = Some s'" "k \<noteq> i" "pushed i k B s Q s' Q'" "card B \<le> SCHED_STEAL_BATCH"
    "\<forall>a\<in>B. pushable (current_thread c) (idle_thread c) (threads s a) a"
    using push_spec [OF assms, of second_lock] unfolding push_result_def assms(2) option.sel by blast
  have "\<forall>a\<in>B. cpu_num (threads s' a) = k \<and> \<not> pinned (threads s a) \<and> timer_bucket (threads s a) = None \<and> a \<noteq> current_thread c \<and> a \<noteq> idle_thread c"
    using r(3,5) by (simp add: pushed_def pushable_def)
  moreover have "smp_ok s' Q'" "B \<subseteq> set (addrs (Q i))" "set (addrs (Q' i)) = set (addrs (Q i)) - B" "set (addrs (Q' k)) = set (addrs (Q k)) \<union> B"
    "\<forall>j. j \<noteq> i \<longrightarrow> j \<noteq> k \<longrightarrow> Q' j = Q j" using r(3) unfolding pushed_def by blast+
  ultimately show ?thesis using r(1,2,4) by blast
qed

theorem try_push_conserves_witness:
  "\<exists>B s' Q'. TryPush True 0 (duo False) = Some s' \<and> smp_ok s' Q' \<and> B \<subseteq> {3, 7} \<and> set (addrs (Q' 0)) = {3, 7} - B"
  using try_push_conserves [OF duo_ok, of False 0 _ True] by auto

text \<open>
  The processor chosen for a new thread exists, has the instruction set asked for, and no processor of that
  instruction set carries less weight, its current thread included.
\<close>
theorem get_lw_cpu_least:
  assumes "i \<le> last_cpu s" "admissible ref s i"
  shows "admissible ref s (get_lw_cpu this ref s) \<and> get_lw_cpu this ref s \<le> last_cpu s
    \<and> load s (the (cpus s (get_lw_cpu this ref s))) \<le> load s (the (cpus s i))"
  using assms by (rule get_lw_cpu_spec)

theorem get_lw_cpu_least_witness: "get_lw_cpu 0 None (duo False) = 1"
proof -
  let ?k = "get_lw_cpu 0 None (duo False)"
  have l: "load (duo False) (the (cpus (duo False) 0)) = 2560" "load (duo False) (the (cpus (duo False) 1)) = 512"
    by (simp_all add: load_def pair_cpu_def pair_threads_def new_cpu_def new_thread_def add64_def U64_def)
  have "?k \<le> 1 \<and> load (duo False) (the (cpus (duo False) ?k)) \<le> 512" using get_lw_cpu_least [of 1 "duo False" None 0] l(2) by (simp add: admissible_def)
  then show ?thesis using l(1) by (cases "?k = 0") auto
qed

end
