(* ===== verification/Switch_Correct.thy ===== *)
theory Switch_Correct
  imports Sched_Run SMP_Correct
begin

text \<open>
  The properties of the scheduling interrupt and of the running machine.
\<close>

section \<open>A machine of one processor\<close>

text \<open>Processor 0 runs thread \<open>0xffff800000000040\<close> of weight 512, thread \<open>0xffff800000000080\<close> is queued.\<close>

abbreviation (input) solo_idle :: nat where "solo_idle \<equiv> 18446603336221196288"
abbreviation (input) solo_cur :: nat where "solo_cur \<equiv> 18446603336221196352"
abbreviation (input) solo_next :: nat where "solo_next \<equiv> 18446603336221196416"

definition solo_cpu :: cpu_t where
  "solo_cpu = new_cpu\<lparr>current_thread := solo_cur, idle_thread := solo_idle, thread_count := 1, total_weight := 1024, has_runnable_thread := True,
     runqueue_root := rb_root_init\<lparr>r_node := solo_next, r_cnt := 1, stat_cold := 1\<rparr>\<rparr>"

definition solo_threads :: "nat \<Rightarrow> thread_t" where
  "solo_threads a = (if a = solo_next then (new_thread 1024)\<lparr>on_rq := True\<rparr> else if a = solo_cur then (new_thread 512)\<lparr>last_run_time := 10, vruntime := 7, vruntime_rem := 3\<rparr>
     else (new_thread 1024)\<lparr>t_state := THREAD_BLOCKED\<rparr>)"

definition solo :: smp where
  "solo = (duo False)\<lparr>threads := solo_threads, nodes := blank_heap(solo_next := blank_node\<lparr>n_color := RB_BLACK\<rparr>), cpus := [0 \<mapsto> solo_cpu], last_cpu := 0\<rparr>"

definition solo_queues :: "nat \<Rightarrow> rtree" where
  "solo_queues = (\<lambda>_. Lf)(0 := Nd Lf RB_BLACK solo_next Lf)"

definition inp0 :: switch_in where
  "inp0 = \<lparr>i_now = 20, i_tsc = 1000, i_rip = 4096, i_cs = 8, i_hook = 0, i_pid = 1, i_steal_lock = (\<lambda>_ _. True), i_push_lock = True\<rparr>"

lemma solo_queued_set [simp]: "queued_set solo_queues = {solo_next}"
  by (auto simp: queued_set_def solo_queues_def split: if_splits)

lemma solo_fields [simp]: "cpus solo 0 = Some solo_cpu" "cpus solo i = Some c \<longleftrightarrow> i = 0 \<and> c = solo_cpu" "threads solo = solo_threads" "freed solo = []"
  "current_thread solo_cpu = solo_cur" "idle_thread solo_cpu = solo_idle" "preempt_count solo_cpu = 0" "zombie_list solo_cpu = 0" "zombie_count solo_cpu = 0"
  by (auto simp: solo_def solo_cpu_def duo_def new_cpu_def)

lemma solo_thread [simp]: "thread_typed (solo_threads a)" "on_rq (solo_threads a) \<longleftrightarrow> a = solo_next" "cpu_num (solo_threads a) = 0"
  "t_state (solo_threads solo_cur) = THREAD_RUNNING" "t_state (solo_threads solo_next) = THREAD_RUNNING"
  by (simp_all add: solo_threads_def new_thread_def thread_typed_def U64_def U32_def)

lemma solo_queued: "queued (threads solo, nodes solo, solo_cpu) (Nd Lf RB_BLACK solo_next Lf)"
proof -
  have "keyed key (nodes solo, runqueue_root solo_cpu) (Nd Lf RB_BLACK solo_next Lf)" for key :: "nat \<Rightarrow> nat \<times> nat"
    by (simp add: keyed_def rb_wf_def repr_def focus_def rb_inv_def stats_of_def solo_def solo_cpu_def rb_root_init_def U64_def blank_node_def)
  then show ?thesis by (simp add: queued_counted) (simp add: counted_def cpu_typed_def solo_cpu_def new_cpu_def solo_threads_def new_thread_def U64_def)
qed

lemma solo_live: "live solo solo_queues (\<lambda>_. [])"
proof -
  have q: "solo_queues 0 = Nd Lf RB_BLACK solo_next Lf" "i \<noteq> 0 \<Longrightarrow> solo_queues i = Lf" for i by (simp_all add: solo_queues_def)
  have "c_id solo_cpu = 0" by (simp add: solo_cpu_def new_cpu_def)
  moreover have "solo_queues i = Lf" if "cpus solo i = None" for i using that q(2) by (cases "i = 0") simp_all
  moreover have "set (addrs (solo_queues i)) \<inter> set (addrs (solo_queues j)) = {}" if "i \<noteq> j" for i j using that q by (cases "i = 0"; cases "j = 0") simp_all
  moreover have "cpu_num (threads solo a) = i" if "a \<in> set (addrs (solo_queues i))" for a i using that q(2) [of i] by (cases "i = 0") simp_all
  ultimately have "smp_ok solo solo_queues" unfolding smp_ok_def using solo_queued q(1) by (simp add: U64_def)
  then have "placed solo solo_queues (\<lambda>_. []) UNIV" unfolding placed_def zombies_ok_def by (auto simp: zset_def)
  then show ?thesis by (auto simp: live_def sched_ok_def zset_def U64_def)
qed

section \<open>Properties\<close>

text \<open>
  C2. A scheduling interrupt that is not masked always completes and keeps every thread in exactly one place: the
  queued threads afterwards are those queued before and the current thread if it can still run, less the thread
  chosen; the chosen thread is the idle thread or one of these and can run; the current threads of the other
  processors do not change.
\<close>
theorem switch_safe:
  assumes l: "live s Q Z" and c: "cpus s i = Some c" "preempt_count c \<le> 1"
  shows "\<exists>q n s' Q' Z'. Switch i inp s = Some (Some q, s') \<and> live s' Q' Z' \<and> map_option current_thread (cpus s' i) = Some n
    \<and> (\<forall>j. j \<noteq> i \<longrightarrow> map_option current_thread (cpus s' j) = map_option current_thread (cpus s j))
    \<and> queued_set Q' = with_current s c (queued_set Q) - {n}
    \<and> (n = idle_thread c \<or> n \<in> with_current s c (queued_set Q) \<and> running (threads s') n)"
proof -
  have ok: "sched_ok s Q Z" using l by (simp add: live_def)
  obtain q n fs s' Q' Z' where r: "Switch i inp s = Some (Some q, s')" "switched i c n fs s Q Z s' Q' Z'" using switch_spec [OF ok c live_rooms [OF l], of inp] by blast
  have k: "\<And>j. rel_option (\<lambda>d d'. current_thread d' = (if j = i then n else current_thread d) \<and> idle_thread d' = idle_thread d) (cpus s j) (cpus s' j)"
    "queued_set Q' = with_current s c (queued_set Q) - {n}" "n = idle_thread c \<or> n \<in> with_current s c (queued_set Q) \<and> running (threads s') n"
    using r(2) unfolding switched_def by blast+
  have "map_option current_thread (cpus s' i) = Some n" using k(1) [of i] c(1) by (cases "cpus s' i") auto
  moreover have "map_option current_thread (cpus s' j) = map_option current_thread (cpus s j)" if "j \<noteq> i" for j
    using k(1) [of j] that by (cases "cpus s j"; cases "cpus s' j") auto
  ultimately show ?thesis using r(1) k(2,3) switch_live [OF l r(2) c(1)] by blast
qed

theorem switch_safe_witness:
  "\<exists>q n s' Q' Z'. Switch 0 inp0 solo = Some (Some q, s') \<and> live s' Q' Z' \<and> n \<in> {solo_idle, solo_cur, solo_next} \<and> queued_set Q' = {solo_cur, solo_next} - {n}"
proof -
  have w: "with_current solo solo_cpu {solo_next} = {solo_cur, solo_next}" by (auto simp: with_current_def requeued_def)
  have c: "cpus solo 0 = Some solo_cpu" "preempt_count solo_cpu \<le> 1" by simp_all
  obtain q n s' Q' Z' where r: "Switch 0 inp0 solo = Some (Some q, s')" "live s' Q' Z'" "queued_set Q' = {solo_cur, solo_next} - {n}"
    "n = idle_thread solo_cpu \<or> n \<in> {solo_cur, solo_next} \<and> running (threads s') n"
    using switch_safe [OF solo_live c, of inp0] unfolding solo_queued_set w by (elim exE conjE) (rule that; assumption)
  from r(4) have "n \<in> {solo_idle, solo_cur, solo_next}" by auto
  with r(1-3) show ?thesis by (intro exI conjI)
qed

text \<open>
  C4. The processor does not idle while it has work: when the interrupted thread can still run, or a thread that can
  run is queued on the processor, the thread dispatched is not the idle thread and can run.
\<close>
theorem switch_work_conserving:
  assumes l: "live s Q Z" and c: "cpus s i = Some c" "preempt_count c \<le> 1"
    and work: "running (threads s) (current_thread c) \<and> current_thread c \<noteq> idle_thread c \<or> (\<exists>a\<in>set (addrs (Q i)). running (threads s) a)"
  shows "\<exists>q s' c'. Switch i inp s = Some (Some q, s') \<and> cpus s' i = Some c' \<and> current_thread c' \<noteq> idle_thread c' \<and> running (threads s') (current_thread c')"
proof -
  have ok: "sched_ok s Q Z" using l by (simp add: live_def)
  obtain q n fs s' Q' Z' where r: "Switch i inp s = Some (Some q, s')" "switched i c n fs s Q Z s' Q' Z'" using switch_spec [OF ok c live_rooms [OF l], of inp] by blast
  have k: "rel_option (\<lambda>d d'. current_thread d' = (if i = i then n else current_thread d) \<and> idle_thread d' = idle_thread d) (cpus s i) (cpus s' i)"
    "n = idle_thread c \<or> n \<in> with_current s c (queued_set Q) \<and> running (threads s') n" "requeued s c \<or> (\<exists>a\<in>set (addrs (Q i)). running (threads s) a) \<longrightarrow> n \<noteq> idle_thread c"
    using r(2) unfolding switched_def by blast+
  obtain c' where "cpus s' i = Some c'" "current_thread c' = n" "idle_thread c' = idle_thread c" using k(1) c(1) by (cases "cpus s' i") auto
  moreover have "n \<noteq> idle_thread c" using k(3) work by (auto simp: requeued_def)
  ultimately show ?thesis using r(1) k(2) by auto
qed

theorem switch_work_conserving_witness: "\<exists>q s' c'. Switch 0 inp0 solo = Some (Some q, s') \<and> cpus s' 0 = Some c' \<and> current_thread c' \<noteq> idle_thread c'"
proof -
  have c: "cpus solo 0 = Some solo_cpu" "preempt_count solo_cpu \<le> 1" by simp_all
  have "running (threads solo) (current_thread solo_cpu) \<and> current_thread solo_cpu \<noteq> idle_thread solo_cpu \<or> (\<exists>a\<in>set (addrs (solo_queues 0)). running (threads solo) a)" by simp
  then show ?thesis using switch_work_conserving [OF solo_live c, of inp0] by blast
qed

text \<open>
  C9. Only dead threads are freed: the threads an interrupt frees were dead, are freed once, and are afterwards in no
  queue, in no list and on no processor; a current thread that died is kept for a later interrupt.
\<close>
theorem switch_frees_dead:
  assumes l: "live s Q Z" and c: "cpus s i = Some c" "preempt_count c \<le> 1"
  shows "\<exists>q fs s' Q' Z'. Switch i inp s = Some (Some q, s') \<and> live s' Q' Z' \<and> freed s' = freed s @ fs \<and> distinct fs
    \<and> (\<forall>a\<in>set fs. a \<in> set (Z i) \<and> t_state (threads s a) = THREAD_ZOMBIE \<and> a \<notin> queued_set Q' \<union> zset Z' \<and> (\<forall>j d. cpus s' j = Some d \<longrightarrow> current_thread d \<noteq> a))
    \<and> (t_state (threads s (current_thread c)) = THREAD_ZOMBIE \<and> current_thread c \<noteq> idle_thread c \<longrightarrow> current_thread c \<in> zset Z')"
proof -
  have ok: "sched_ok s Q Z" using l by (simp add: live_def)
  note p = liveD(1) [OF l]
  obtain q n fs s' Q' Z' where r: "Switch i inp s = Some (Some q, s')" "switched i c n fs s Q Z s' Q' Z'" using switch_spec [OF ok c live_rooms [OF l], of inp] by blast
  have k: "\<And>j. rel_option (\<lambda>d d'. current_thread d' = (if j = i then n else current_thread d) \<and> idle_thread d' = idle_thread d) (cpus s j) (cpus s' j)"
    "queued_set Q' = with_current s c (queued_set Q) - {n}" "n = idle_thread c \<or> n \<in> with_current s c (queued_set Q)" "freed s' = freed s @ fs" "distinct fs" "set fs \<subseteq> set (Z i)"
    "zset Z' = zset Z - set fs \<union> (if dead s c then {current_thread c} else {})"
    using r(2) unfolding switched_def by blast+
  have cz: "current_thread d \<notin> zset Z" "idle_thread d \<notin> zset Z" if "cpus s j = Some d" for j d using placedD(5) [OF p that] placedD(6) [OF p UNIV_I that] by blast+
  have wz: "with_current s c (queued_set Q) \<inter> zset Z = {}" using placedD(3) [OF p] cz(1) [OF c(1)] by (auto simp: with_current_def)
  have f: "a \<in> set (Z i) \<and> t_state (threads s a) = THREAD_ZOMBIE \<and> a \<notin> queued_set Q' \<union> zset Z' \<and> (\<forall>j d. cpus s' j = Some d \<longrightarrow> current_thread d \<noteq> a)" if a: "a \<in> set fs" for a
  proof (intro conjI allI impI)
    show ai: "a \<in> set (Z i)" using k(6) a by blast
    then have az: "a \<in> zset Z" by (auto simp: zset_def)
    show "t_state (threads s a) = THREAD_ZOMBIE" using liveD(3) [OF l az] .
    have "a \<noteq> current_thread c" using az cz(1) [OF c(1)] by blast
    then show "a \<notin> queued_set Q' \<union> zset Z'" using wz az a unfolding k(2,7) by auto
    fix j d' assume d': "cpus s' j = Some d'"
    then obtain d where d: "cpus s j = Some d" "current_thread d' = (if j = i then n else current_thread d)" using k(1) [of j] by (cases "cpus s j") auto
    have "n \<notin> zset Z" using k(3) wz cz(2) [OF c(1)] by blast
    then show "current_thread d' \<noteq> a" using d cz(1) [OF d(1)] az by (auto split: if_splits)
  qed
  have "t_state (threads s (current_thread c)) = THREAD_ZOMBIE \<and> current_thread c \<noteq> idle_thread c \<longrightarrow> current_thread c \<in> zset Z'" unfolding k(7) by (simp add: dead_def)
  then show ?thesis using r(1) switch_live [OF l r(2) c(1)] k(4,5) f by blast
qed

theorem switch_frees_dead_witness: "\<exists>q s' Q' Z'. Switch 0 inp0 solo = Some (Some q, s') \<and> live s' Q' Z' \<and> freed s' = []"
proof -
  have c: "cpus solo 0 = Some solo_cpu" "preempt_count solo_cpu \<le> 1" by simp_all
  obtain q fs s' Q' Z' where r: "Switch 0 inp0 solo = Some (Some q, s')" "live s' Q' Z'" "freed s' = freed solo @ fs" "set fs \<subseteq> {}"
  proof (rule exE [OF switch_frees_dead [OF solo_live c, of inp0]], elim exE conjE, goal_cases)
    case (1 q fs s' Q' Z')
    have "set fs \<subseteq> {}" using 1(6) by auto
    then show ?case using 1(1) [OF 1(2-4)] by blast
  qed
  from r(3,4) have "freed s' = []" by simp
  then show ?thesis using r(1,2) by blast
qed

text \<open>
  C10. Time is charged exactly: the slice that ended, at least one millisecond, is added to the virtual time of the
  thread scaled by its weight and to the clock of the processor scaled by the whole weight, and the remainders
  carry what the divisions leave, so nothing is lost to rounding.
\<close>
theorem slice_accounting:
  assumes c: "cpus s i = Some c" and cur: "cur \<noteq> 0" "cur \<noteq> idle_thread c" and t: "t = threads s cur" "d = slice_ms now t" "w = (if t_weight t \<noteq> 0 then t_weight t else 1024)"
    and wrap: "d * 1024 + vruntime_rem t < U64" "vruntime t + (d * 1024 + vruntime_rem t) div w < U64" "total_weight c + w < U64"
      "d * 1024 + avg_vruntime_rem c < U64" "avg_vruntime c + (d * 1024 + avg_vruntime_rem c) div (total_weight c + w) < U64"
  shows "\<exists>s' t' c'. account i now cur s = (d, s') \<and> t' = threads s' cur \<and> cpus s' i = Some c' \<and> d > 0 \<and> last_run_time t' = now
    \<and> vruntime t' * w + vruntime_rem t' = vruntime t * w + vruntime_rem t + d * 1024 \<and> vruntime_rem t' < w
    \<and> avg_vruntime c' * (total_weight c + w) + avg_vruntime_rem c' = avg_vruntime c * (total_weight c + w) + avg_vruntime_rem c + d * 1024
    \<and> avg_vruntime_rem c' < total_weight c + w"
proof -
  have w0: "0 < w" using t(3) by simp
  let ?s' = "set_cpu i (advance_clock d (add64 (total_weight c) w)) (set_thread cur (charge_thread now) s)"
  let ?vt = "d * 1024 + vruntime_rem t" and ?at = "d * 1024 + avg_vruntime_rem c" and ?W = "total_weight c + w"
  have m: "mul64 d 1024 = d * 1024" using wrap(1) by (simp add: mul64_id)
  have "charge_thread now t = t\<lparr>last_run_time := now, vruntime_rem := ?vt mod w, vruntime := vruntime t + ?vt div w\<rparr>"
    unfolding charge_thread_def Let_def t(2,3) [symmetric] m add64_id [OF wrap(1)] add64_id [OF wrap(2)] ..
  then have t': "threads ?s' cur = t\<lparr>last_run_time := now, vruntime_rem := ?vt mod w, vruntime := vruntime t + ?vt div w\<rparr>"
    using c t(1) by (simp add: set_cpu_def)
  have c': "cpus ?s' i = Some (c\<lparr>avg_vruntime_rem := ?at mod ?W, avg_vruntime := avg_vruntime c + ?at div ?W\<rparr>)"
    using c wrap(3-5) m by (simp add: advance_clock_def Let_def add64_id set_cpu_def)
  have "account i now cur s = (d, ?s')" unfolding account_def Let_def t(1) [symmetric] t(2,3) [symmetric] using c cur by simp
  moreover have "d > 0" using t(2) by (simp add: slice_ms_def Let_def)
  moreover have "(vruntime t + ?vt div w) * w + ?vt mod w = vruntime t * w + vruntime_rem t + d * 1024" using div_mult_mod_eq [of ?vt w] by (simp add: algebra_simps)
  moreover have "(avg_vruntime c + ?at div ?W) * ?W + ?at mod ?W = avg_vruntime c * ?W + avg_vruntime_rem c + d * 1024"
    using div_mult_mod_eq [of ?at ?W] by (simp only: distrib_right)
  ultimately show ?thesis using t' c' w0 by (intro exI [of _ ?s'] exI [of _ "threads ?s' cur"]) simp
qed

theorem slice_accounting_witness: "\<exists>s' t'. account 0 20 solo_cur solo = (10, s') \<and> t' = threads s' solo_cur \<and> vruntime t' * 512 + vruntime_rem t' = 7 * 512 + 3 + 10 * 1024"
proof -
  let ?t = "(new_thread 512)\<lparr>last_run_time := 10, vruntime := 7, vruntime_rem := 3\<rparr>"
  have t: "?t = threads solo solo_cur" by (simp add: solo_threads_def)
  have d: "10 = slice_ms 20 ?t" by (simp add: slice_ms_def sub64_def U64_def)
  have f: "512 = (if t_weight ?t \<noteq> 0 then t_weight ?t else 1024)" "vruntime ?t = 7" "vruntime_rem ?t = 3" "total_weight solo_cpu = 1024" "avg_vruntime solo_cpu = 0" "avg_vruntime_rem solo_cpu = 0"
    by (simp_all add: new_thread_def solo_cpu_def new_cpu_def)
  have "cpus solo 0 = Some solo_cpu" "solo_cur \<noteq> 0" "solo_cur \<noteq> idle_thread solo_cpu" by simp_all
  from slice_accounting [OF this t d f(1)] show ?thesis unfolding f(2-6) by (auto simp: U64_def)
qed

text \<open>
  C11. Waking a blocked thread that no processor runs completes, makes it runnable and puts it in the queue of its own
  processor, with every other queued thread kept; waking a thread in another state changes no queue.
\<close>
theorem wake_thread_queues:
  assumes "live s Q Z" "detached s a"
  shows "\<exists>s' Q'. wake_thread this a s = Some s' \<and> live s' Q' Z
    \<and> (if t_state (threads s a) = THREAD_BLOCKED \<and> cpu_num (threads s a) < 128 \<and> cpus s (cpu_num (threads s a)) \<noteq> None
       then queued_set Q' = insert a (queued_set Q) \<and> running (threads s') a \<and> a \<in> set (addrs (Q' (cpu_num (threads s a)))) else Q' = Q)"
  using assms by (rule wake_spec)

theorem wake_thread_queues_witness: "\<exists>s' Q'. wake_thread 0 18446603336221196480 solo = Some s' \<and> live s' Q' (\<lambda>_. []) \<and> queued_set Q' = {18446603336221196480, solo_next}"
proof -
  have d: "detached solo 18446603336221196480" by (simp add: detached_def U64_def)
  have "t_state (threads solo 18446603336221196480) = THREAD_BLOCKED" by (simp add: solo_threads_def)
  then show ?thesis using wake_thread_queues [OF solo_live d, of 0] by auto
qed



end
