(* ===== verification/Mutex_Correct.thy ===== *)
theory Mutex_Correct
  imports Mutex_Model
begin

text \<open>
  The properties of the linked queue and of the sleeping lock.
\<close>

section \<open>Mutual exclusion\<close>

definition holds_lock :: "at \<Rightarrow> bool" where
  "holds_lock p \<longleftrightarrow> p = Taken \<or> p = Inside \<or> p = Unowned"

definition holders :: "(nat \<Rightarrow> at) \<Rightarrow> nat set" where
  "holders p = {t. holds_lock (p t)}"

definition mutex_inv :: "world \<Rightarrow> bool" where
  "mutex_inv w \<longleftrightarrow> (if w_lock w then \<exists>t. holders (pc w) = {t} else holders (pc w) = {}) \<and> (\<forall>t. pc w t = Inside \<longrightarrow> w_owner w = t)"

lemma holders_upd: "holders (p(t := q)) = (if holds_lock q then insert t (holders p) else holders p - {t})"
  by (auto simp: holders_def)

lemma holders_locked: "mutex_inv w \<Longrightarrow> holds_lock (pc w t) \<Longrightarrow> w_lock w \<and> holders (pc w) = {t}"
proof -
  assume i: "mutex_inv w" and "holds_lock (pc w t)"
  then have "t \<in> holders (pc w)" by (simp add: holders_def)
  then show ?thesis using i by (auto simp: mutex_inv_def split: if_splits)
qed

lemma inside_holds: "pc w t = Inside \<Longrightarrow> t \<in> holders (pc w)"
  by (simp add: holders_def holds_lock_def)

lemma mutex_inv_initial: "mutex_inv mutex_initial"
  by (simp add: mutex_inv_def mutex_initial_def holders_def holds_lock_def)

text \<open>A thread without the lock moves to a statement where it does not have it either.\<close>

lemma mutex_inv_move:
  assumes "mutex_inv w" "\<not> holds_lock (pc w t)" "\<not> holds_lock q" "w_lock w' = w_lock w" "w_owner w' = w_owner w" "pc w' = (pc w)(t := q)"
  shows "mutex_inv w'"
proof -
  have "t \<notin> holders (pc w)" using assms(2) by (simp add: holders_def)
  then have "holders (pc w') = holders (pc w)" using assms(3,6) by (simp add: holders_upd)
  then show ?thesis using assms by (auto simp: mutex_inv_def holds_lock_def)
qed

lemma mutex_inv_step: "mutex_step w w' \<Longrightarrow> mutex_inv w \<Longrightarrow> mutex_inv w'"
proof (induction rule: mutex_step.induct)
  case (take w t)
  then have "holders (pc w) = {}" by (simp add: mutex_inv_def)
  then have "\<And>u. pc w u \<noteq> Inside" using inside_holds [of w] by auto
  then show ?case using \<open>holders (pc w) = {}\<close> by (simp add: mutex_inv_def holders_upd holds_lock_def)
next
  case (own w t)
  then have h: "w_lock w" "holders (pc w) = {t}" using holders_locked [of w t] by (simp_all add: holds_lock_def)
  then have "\<And>u. pc w u = Inside \<Longrightarrow> u = t" using inside_holds [of w] by auto
  then show ?case using h by (auto simp: mutex_inv_def holders_upd holds_lock_def)
next
  case (disown w t)
  then have h: "w_lock w" "holders (pc w) = {t}" using holders_locked [of w t] by (simp_all add: holds_lock_def)
  then have "\<And>u. pc w u = Inside \<Longrightarrow> u = t" using inside_holds [of w] by auto
  then show ?case using h by (auto simp: mutex_inv_def holders_upd holds_lock_def)
next
  case (unlock w t)
  then have h: "w_lock w" "holders (pc w) = {t}" using holders_locked [of w t] by (simp_all add: holds_lock_def)
  then have "\<And>u. pc w u = Inside \<Longrightarrow> u = t" using inside_holds [of w] by auto
  then show ?case using h unlock by (auto simp: mutex_inv_def holders_upd holds_lock_def)
next
  case (preempt w t)
  then show ?case by (simp add: mutex_inv_def)
next
  case (run w t)
  then show ?case by (simp add: mutex_inv_def)
qed (rule mutex_inv_move; simp add: holds_lock_def)+

interpretation mutex_runs: step_invariant mutex_step mutex_inv
  by unfold_locales (rule mutex_inv_step)

lemmas mutex_inv_reachable = mutex_runs.inv_run [OF _ mutex_inv_initial]

section \<open>A waiter that is lost\<close>

text \<open>Thread \<open>t\<close> is blocked, off its processor, and no thread knows of it.\<close>

definition lost :: "nat \<Rightarrow> world \<Rightarrow> bool" where
  "lost t w \<longleftrightarrow> is_blocked w t \<and> \<not> on_cpu w t \<and> t \<notin> set (w_queue w) \<and> (\<forall>u. pc w u \<noteq> Wake t)"

lemma lost_step: "mutex_step w w' \<Longrightarrow> lost t w \<Longrightarrow> lost t w'"
  by (induction rule: mutex_step.induct) (auto simp: lost_def)

interpretation lost_runs: step_invariant mutex_step "lost t" for t
  by unfold_locales (rule lost_step)

text \<open>Reaching a state with a property, one step at a time.\<close>

lemma reach_step: "mutex_step w w' \<Longrightarrow> \<exists>v. mutex_step\<^sup>*\<^sup>* w' v \<and> P v \<Longrightarrow> \<exists>v. mutex_step\<^sup>*\<^sup>* w v \<and> P v"
  by (meson converse_rtranclp_into_rtranclp)

lemma reach_here: "P w \<Longrightarrow> \<exists>v. mutex_step\<^sup>*\<^sup>* w v \<and> P v"
  by blast

section \<open>Properties\<close>

text \<open>
  C26. Mutual exclusion: in every state the threads can reach, whatever the order of their statements and of the
  scheduling interrupts, at most one thread is inside, the lock word is set while it is, and the lock is recorded
  as its own, so the assertion of \<open>MutexRelease\<close> holds.
\<close>
theorem mutex_exclusion:
  assumes "mutex_step\<^sup>*\<^sup>* mutex_initial w" "pc w t = Inside"
  shows "w_lock w \<and> w_owner w = t \<and> {u. pc w u = Inside} = {t}"
proof -
  have i: "mutex_inv w" using mutex_inv_reachable [OF assms(1)] .
  have h: "w_lock w" "holders (pc w) = {t}" using holders_locked [OF i, of t] assms(2) by (simp_all add: holds_lock_def)
  have "u = t" if "pc w u = Inside" for u using inside_holds [OF that] h(2) by simp
  moreover have "w_owner w = t" using i assms(2) by (simp add: mutex_inv_def)
  ultimately show ?thesis using h(1) assms(2) by blast
qed

theorem mutex_exclusion_witness: "\<exists>w. mutex_step\<^sup>*\<^sup>* mutex_initial w \<and> {u. pc w u = Inside} = {1}"
proof -
  have "\<exists>w. mutex_step\<^sup>*\<^sup>* mutex_initial w \<and> pc w 1 = Inside"
    by (rule reach_step [OF mutex_step.enter [of _ 1]], simp_all add: mutex_initial_def, rule reach_step [OF mutex_step.take [of _ 1]], simp_all,
        rule reach_step [OF mutex_step.own [of _ 1]], simp_all, rule reach_here, simp)
  then show ?thesis using mutex_exclusion by blast
qed

text \<open>
  C38. A wake-up is lost: the owner releases between the failed attempt of a waiter and its entry in the queue, finds
  the queue empty and leaves; the lock is then free, the waiter is blocked in the queue and no thread is left to
  wake it. An interrupt between the two statements that block the waiter and queue it loses it for good: it is in no
  queue, and in every state that follows, whatever the threads do, it is blocked and off its processor.
\<close>
theorem mutex_loses_wakeup:
  "(\<exists>w. mutex_step\<^sup>*\<^sup>* mutex_initial w \<and> \<not> w_lock w \<and> w_queue w = [2] \<and> is_blocked w 2 \<and> \<not> on_cpu w 2 \<and> pc w = (\<lambda>_. Outside)(2 := Try))
   \<and> (\<exists>w. mutex_step\<^sup>*\<^sup>* mutex_initial w \<and> \<not> w_lock w \<and> pc w = (\<lambda>_. Outside)(2 := Append)
          \<and> {v. mutex_step\<^sup>*\<^sup>* w v} \<subseteq> {v. is_blocked v 2 \<and> \<not> on_cpu v 2})"
proof
  show "\<exists>w. mutex_step\<^sup>*\<^sup>* mutex_initial w \<and> \<not> w_lock w \<and> w_queue w = [2] \<and> is_blocked w 2 \<and> \<not> on_cpu w 2 \<and> pc w = (\<lambda>_. Outside)(2 := Try)"
    by (rule reach_step [OF mutex_step.enter [of _ 1]], simp_all add: mutex_initial_def, rule reach_step [OF mutex_step.take [of _ 1]], simp_all,
        rule reach_step [OF mutex_step.own [of _ 1]], simp_all, rule reach_step [OF mutex_step.enter [of _ 2]], simp_all,
        rule reach_step [OF mutex_step.fail [of _ 2]], simp_all, rule reach_step [OF mutex_step.disown [of _ 1]], simp_all,
        rule reach_step [OF mutex_step.unlock [of _ 1]], simp_all, rule reach_step [OF mutex_step.alone [of _ 1]], simp_all,
        rule reach_step [OF mutex_step.mark [of _ 2]], simp_all, rule reach_step [OF mutex_step.append [of _ 2]], simp_all,
        rule reach_step [OF mutex_step.yield [of _ 2]], simp_all, rule reach_here, auto)
  have "\<exists>w. mutex_step\<^sup>*\<^sup>* mutex_initial w \<and> \<not> w_lock w \<and> w_queue w = [] \<and> is_blocked w 2 \<and> \<not> on_cpu w 2 \<and> pc w = (\<lambda>_. Outside)(2 := Append)"
    by (rule reach_step [OF mutex_step.enter [of _ 1]], simp_all add: mutex_initial_def, rule reach_step [OF mutex_step.take [of _ 1]], simp_all,
        rule reach_step [OF mutex_step.own [of _ 1]], simp_all, rule reach_step [OF mutex_step.enter [of _ 2]], simp_all,
        rule reach_step [OF mutex_step.fail [of _ 2]], simp_all, rule reach_step [OF mutex_step.mark [of _ 2]], simp_all,
        rule reach_step [OF mutex_step.preempt [of _ 2]], simp_all, rule reach_step [OF mutex_step.disown [of _ 1]], simp_all,
        rule reach_step [OF mutex_step.unlock [of _ 1]], simp_all, rule reach_step [OF mutex_step.alone [of _ 1]], simp_all, rule reach_here, auto)
  then obtain w where w: "mutex_step\<^sup>*\<^sup>* mutex_initial w" "\<not> w_lock w" "pc w = (\<lambda>_. Outside)(2 := Append)" and l: "lost 2 w" by (auto simp: lost_def)
  have "{v. mutex_step\<^sup>*\<^sup>* w v} \<subseteq> {v. is_blocked v 2 \<and> \<not> on_cpu v 2}" using lost_runs.inv_reachable [OF l] by (auto simp: lost_def)
  then show "\<exists>w. mutex_step\<^sup>*\<^sup>* mutex_initial w \<and> \<not> w_lock w \<and> pc w = (\<lambda>_. Outside)(2 := Append)
      \<and> {v. mutex_step\<^sup>*\<^sup>* w v} \<subseteq> {v. is_blocked v 2 \<and> \<not> on_cpu v 2}" using w by blast
qed

text \<open>
  C27. The linked queue is a first-in first-out queue: appending with a fresh item adds the data at the end,
  dequeueing returns the first data and frees its item, and destroying frees every item exactly once.
\<close>
theorem queue_fifo:
  assumes "queue_items (h, q) xs" "it \<noteq> 0" "it \<notin> set xs"
  shows "(\<exists>hq'. queue_Append it dat (h, q) = Some hq' \<and> queue_items hq' (xs @ [it]) \<and> contents hq' (xs @ [it]) = contents (h, q) xs @ [dat])
    \<and> (case xs of [] \<Rightarrow> queue_Dequeue (h, q) = (0, 0, h, q)
       | x # xs' \<Rightarrow> \<exists>q'. queue_Dequeue (h, q) = (hd (contents (h, q) xs), x, h, q') \<and> queue_items (h, q') xs' \<and> contents (h, q') xs' = tl (contents (h, q) xs))
    \<and> queue_Destroy (h, q) = Some xs \<and> distinct xs"
proof -
  have "case xs of [] \<Rightarrow> queue_Dequeue (h, q) = (0, 0, h, q)
    | x # xs' \<Rightarrow> \<exists>q'. queue_Dequeue (h, q) = (hd (contents (h, q) xs), x, h, q') \<and> queue_items (h, q') xs' \<and> contents (h, q') xs' = tl (contents (h, q) xs)"
    using dequeue_items [OF assms(1)] by (auto simp: contents_def split: list.splits)
  moreover have "queue_Destroy (h, q) = Some xs" using assms(1) free_items_all [of h "q_head q" xs "[]"] by (simp add: queue_Destroy_def queue_items_def)
  ultimately show ?thesis using append_items [OF assms] assms(1) by (simp add: queue_items_def)
qed

theorem queue_fifo_witness:
  "\<exists>hq. queue_Append 8 42 (\<lambda>_. \<lparr>q_data = 0, q_next = 0\<rparr>, \<lparr>q_head = 0, q_tail = 0\<rparr>) = Some hq \<and> queue_items hq [8] \<and> contents hq [8] = [42]"
  using queue_fifo [of "\<lambda>_. \<lparr>q_data = 0, q_next = 0\<rparr>" "\<lparr>q_head = 0, q_tail = 0\<rparr>" "[]" 8 42] by (simp add: queue_items_def contents_def)

end
