(* ===== verification/Spec2Isabelle.thy ===== *)
theory Spec2Isabelle
  imports PMM_Correct RIP_Correct CRT_Correct Switch_Correct Mutex_Correct
begin

text \<open>
  Verification of the core of the SkylineSystem kernel: the physical memory manager, the integer runtime the
  compiler calls, and the multiprocessor scheduler with its red-black trees, rate feedback and sleeping lock.

  \<^bold>\<open>The program.\<close> \<open>kernel/src/mem/pmm.cpp\<close> hands out physical pages to everything else. The
  scheduler, \<open>kernel/src/arch/x86_64/schedule/sched.cpp\<close>, keeps one run queue per processor, ordered by deadline in an
  intrusive red-black tree (\<open>kernel/include/klib/algorithm/rbtree.h\<close>); the interrupt handler \<open>Switch\<close> charges
  the interrupted thread, asks the rate feedback of \<open>sched_rip.cpp\<close> for a quantum, picks the next thread, and
  balances the queues. The sleeping lock \<open>klib/mutex/mutex.cpp\<close> blocks threads in a linked queue
  (\<open>klib/algorithm/queue.cpp\<close>) and wakes them into the run queues. \<open>kernel/cc-runtime\<close> is linked into all of it.

  \<^bold>\<open>Conventions.\<close> \<open>Prelude\<close> holds the wrap-around arithmetic, the generic lemmas and the locale
  \<open>step_invariant\<close> for runs of a step relation. Counters and addresses are naturals with \<open>add64\<close>, \<open>sub64\<close>,
  \<open>mul64\<close> and \<open>add32\<close> where the source can wrap; the compiler runtime is on words. Address 0 is the null
  pointer, memory is a map from addresses to records. A loop that follows pointers is partial and \<open>None\<close> means that it
  does not return; every property that such an operation returns is proved as \<open>Some\<close>. No fuel is used. A
  function is one critical section of the source and runs as one step; interleavings are explicit step relations.

  \<^bold>\<open>Physical memory\<close> (\<open>Bitmap\<close>, \<open>PMM_*\<close>, \<open>Page_Source\<close>). \<open>PMM_Model\<close> has the three bitmaps, the
  shards, the caches of the processors, \<open>Request\<close> and \<open>Free\<close>, the 2 MiB and 2 GiB variants and \<open>Init\<close>.
  \<open>PMM_Maps\<close> and \<open>PMM_Inv\<close> state that the levels agree with each other and with the counters, \<open>PMM_Scan\<close>
  is the scanner, \<open>PMM_Ops\<close>, \<open>PMM_Large\<close> and \<open>PMM_Cache\<close> the operations, \<open>PMM_Init\<close> the start.
  \<open>page_source\<close> is the contract of an allocator; it is interpreted for the three sizes in \<open>PMM_Run\<close>. Shown: blocks
  in use never overlap after any sequence of operations, requests return free pages and fail only in the stated
  cases, frees return exactly what was taken, the scanner finds the lowest run.

  \<^bold>\<open>Compiler runtime\<close> (\<open>CRT_*\<close>). Every integer routine of \<open>cc-runtime.c\<close>, shown equal to the
  arithmetic it stands for, division loops included, with the trapping cases.

  \<^bold>\<open>Red-black tree\<close> (\<open>RB_*\<close>). \<open>RB_Model\<close> is the tree pointer by pointer; \<open>RB_Tree\<close> relates
  a store to a tree, \<open>RB_Insert\<close>, \<open>RB_Unlink\<close> and \<open>RB_Erase\<close> follow the repair loops, \<open>RB_Seek\<close>,
  \<open>RB_Order\<close>, \<open>RB_Ops\<close> and \<open>RB_Check\<close> the searches, walks, ranges and the validator. The locale
  \<open>rb_order\<close> is the contract of a comparator, interpreted in \<open>RB_Clients\<close> for the five comparators of the kernel.
  Shown: every sequence of operations returns and refines operations on a list sorted by key.

  \<^bold>\<open>Rate feedback and quanta\<close> (\<open>Sched_Types\<close>, \<open>RIP_*\<close>). The records of threads and processors, and
  \<open>sched_rip.cpp\<close>: ranges of multipliers and quanta for all inputs, convergence in steady state.

  \<^bold>\<open>Run queue\<close> (\<open>SQ_*\<close>). \<open>SQ_Model\<close> has placement, \<open>InsertToQueue\<close>, \<open>RemoveFromQueue\<close>,
  \<open>Pick\<close> and the repair of subtree minima; the invariant \<open>queued\<close> ties tree, marks and counters together. Shown: a
  queue gains and loses exactly the thread asked for, \<open>Pick\<close> finds a runnable thread whenever there is one, and the
  earliest eligible one when the minima are exact; that insertion leaves the minima of ancestors stale is shown by example.

  \<^bold>\<open>Processors together\<close> (\<open>SMP_*\<close>). \<open>SMP_Model\<close> has the state of all processors,
  \<open>get_lw_cpu\<close>, \<open>StealThread\<close> and \<open>TryPush\<close>. \<open>smp_ok\<close> says that no thread is in two queues. Shown:
  both directions of balancing return and lose no thread, an idle processor finds work when there is some, and pulling
  ignores that a thread is bound to its processor.

  \<^bold>\<open>The interrupt\<close> (\<open>Switch_*\<close>, \<open>Sched_Run\<close>). \<open>Switch_Model\<close> follows \<open>Switch\<close> from its
  early exits to the armed timer. \<open>Switch_Inv\<close> covers what happens outside the lock, \<open>Switch_Zombie\<close> and
  \<open>Switch_Safe\<close> dead threads, the current thread and the choice, \<open>Switch_Freed\<close> and \<open>Switch_Step\<close> balancing,
  dispatch and the whole handler. The invariant \<open>placed\<close> puts every thread in one queue, on one list of dead threads or
  on one processor. \<open>Sched_Run\<close> lets interrupts, yields, requests, idle passes, threads that block or exit and
  wake-ups follow each other in any order. Shown: the handler completes, keeps every thread in one place, does
  not idle while there is work, frees only dead threads, and charges time without loss. Thread descriptors are taken to
  lie in the upper half of the address space, which also bounds how many there are, so no counter wraps.

  \<^bold>\<open>Sleeping lock\<close> (\<open>Queue_Model\<close>, \<open>Mutex_*\<close>). The linked queue refines a list. The operations of
  the lock are functions; their statements, interleaved with interrupts, are the relation \<open>mutex_step\<close>. Shown: mutual
  exclusion in every reachable state, and two orders in which a waiter is lost.

  \<^bold>\<open>Not modelled.\<close> Concurrency inside a critical section, and the window of \<open>StealThread\<close> between the locks of the two
  processors. A thread that is at once current and queued, as the boot thread is until its first interrupt and a
  thread woken before it has left its processor, is outside \<open>placed\<close>. Register and vector state, page tables and
  device registers have no counterpart, since they are written for the hardware. In the tree, the post-order walk,
  \<open>rb_clear\<close> and the sharded front end; in the scheduler, \<open>Init\<close>, \<open>Install\<close> and the export of counters. Creation
  and exit of threads (\<open>task.cpp\<close>) depend on address spaces and the heap; of them only the effect on the scheduler is a
  step. The timer wheel has no caller. Allocators above pages, virtual memory, descriptors, file systems,
  drivers and the console are input and output or work on memory through the direct map; lwIP, lwext4, FatFs and
  flanterm are third-party code; the programs under \<open>programs\<close> are not part of the kernel.
\<close>

end
